(* ===== verification/Net_Prelude.thy ===== *)
theory Net_Prelude
  imports Main "HOL-Library.Word" "HOL-Library.Sublist"
begin

text \<open>
  Shared vocabulary of the development: the machine types of the C++ code as words, the named
  collections the component proofs feed to the simplifier, and the generic facts on lists and
  words that several components use.

  \<^item> \<open>byte\<close>, \<open>u16\<close>, \<open>u32\<close> and \<open>u64\<close> are \<open>uint8_t\<close>, \<open>uint16_t\<close>, \<open>uint32_t\<close> and
    \<open>uint64_t\<close>; arithmetic on them wraps as it does in the code. \<open>size_t\<close> values, which count
    bytes of a buffer that is in memory, are natural numbers.
  \<^item> \<open>bytes\<close> is a sequence of octets: a \<open>std::string\<close>, a \<open>base::StringPiece\<close> or a character
    array. Text literals of the code are given by \<open>ascii\<close>.
\<close>

unbundle bit_operations_syntax

type_synonym byte = "8 word"
type_synonym u16 = "16 word"
type_synonym u32 = "32 word"
type_synonym u64 = "64 word"
type_synonym bytes = "byte list"

named_theorems rest_simps \<open>what the operations of a decode buffer do to the unread bytes\<close>
named_theorems run_simps \<open>equations of a decoder on an explicit list of unread bytes\<close>

section \<open>Text\<close>

definition ascii :: "string \<Rightarrow> bytes" where
  "ascii s = map (\<lambda>c. of_nat (of_char c)) s"

lemma ascii_Nil [simp]: "ascii [] = []"
  by (simp add: ascii_def)

lemma length_ascii [simp]: "length (ascii s) = length s"
  by (simp add: ascii_def)

section \<open>Lists\<close>

lemma hd_drop_nth [simp]: "drop n xs \<noteq> [] \<Longrightarrow> hd (drop n xs) = xs ! n"
  by (simp add: hd_drop_conv_nth)

lemma drop_eq_Cons_nth: "drop n xs = y # ys \<Longrightarrow> xs ! n = y \<and> drop (Suc n) xs = ys \<and> n < length xs"
  by (metis drop_Suc drop_eq_Nil hd_drop_conv_nth linorder_not_le list.discI list.sel(1,3) tl_drop)

lemma take_append_min: "take (min n (length xs)) (xs @ ys) = take n xs"
  by (simp add: min_def)

lemma append_eq_take_drop:
  "length xs = n \<Longrightarrow> take n (xs @ ys) = xs \<and> drop n (xs @ ys) = ys"
  by simp

lemma foldl_append_concat: "foldl (@) a xss = a @ concat xss"
  by (induction xss arbitrary: a) auto

section \<open>Widening\<close>

lemma unat_ucast_byte_u32 [simp]: "unat (ucast (c :: byte) :: u32) = unat c"
  using unsigned_less[of c, where 'a = nat]
  by (simp add: unsigned_ucast_eq take_bit_nat_eq_self)

lemma unat_ucast_byte_u64 [simp]: "unat (ucast (c :: byte) :: u64) = unat c"
  using unsigned_less[of c, where 'a = nat]
  by (simp add: unsigned_ucast_eq take_bit_nat_eq_self)

section \<open>Bits of words, most significant first\<close>

text \<open>
  \<open>bits_of n k\<close> is the \<open>k\<close>-bit binary numeral of \<open>n\<close>, the leading bit first; \<open>val_of\<close> reads such
  a numeral back.
\<close>

definition bits_of :: "nat \<Rightarrow> nat \<Rightarrow> bool list" where
  "bits_of n k = map (\<lambda>i. bit n (k - 1 - i)) [0..<k]"

fun val_of :: "bool list \<Rightarrow> nat" where
  "val_of [] = 0"
| "val_of (b # bs) = of_bool b * 2 ^ length bs + val_of bs"

definition byte_bits :: "byte \<Rightarrow> bool list" where
  "byte_bits b = bits_of (unat b) 8"

abbreviation bytes_bits :: "bytes \<Rightarrow> bool list" where
  "bytes_bits xs \<equiv> concat (map byte_bits xs)"

lemma length_bits_of [simp]: "length (bits_of n k) = k"
  by (simp add: bits_of_def)

lemma length_byte_bits [simp]: "length (byte_bits b) = 8"
  by (simp add: byte_bits_def)

lemma length_bytes_bits [simp]: "length (bytes_bits xs) = 8 * length xs"
  by (induction xs) auto

lemma nth_bits_of [simp]: "i < k \<Longrightarrow> bits_of n k ! i = bit n (k - 1 - i)"
  by (simp add: bits_of_def)

lemma val_of_append: "val_of (xs @ ys) = val_of xs * 2 ^ length ys + val_of ys"
  by (induction xs) (auto simp: algebra_simps power_add)

lemma val_of_less: "val_of bs < 2 ^ length bs"
  by (induction bs) auto

lemma bits_of_0 [simp]: "bits_of n 0 = []"
  by (simp add: bits_of_def)

lemma bits_of_Suc: "bits_of n (Suc k) = bits_of (n div 2) k @ [odd n]"
  by (rule nth_equalityI) (auto simp: nth_append bit_Suc[symmetric] Suc_diff_Suc less_Suc_eq bit_0)

lemma val_of_bits_of: "val_of (bits_of n k) = n mod 2 ^ k"
proof (induction k arbitrary: n)
  case (Suc k)
  have "val_of (bits_of n (Suc k)) = 2 * (n div 2 mod 2 ^ k) + n mod 2"
    by (simp add: bits_of_Suc val_of_append Suc.IH mod_2_eq_odd)
  also have "\<dots> = n mod 2 ^ Suc k"
    by (simp add: mod_mult2_eq)
  finally show ?case .
qed simp

lemma bits_of_val_of: "length bs = k \<Longrightarrow> bits_of (val_of bs) k = bs"
proof (induction k arbitrary: bs)
  case (Suc k)
  then obtain cs b where bs: "bs = cs @ [b]" and len: "length cs = k"
    by (cases bs rule: rev_cases) auto
  have "val_of bs = 2 * val_of cs + of_bool b"
    by (simp add: bs val_of_append)
  then show ?case
    using Suc.IH[OF len] by (simp add: bits_of_Suc bs)
qed simp

lemma bits_of_inj: "m < 2 ^ k \<Longrightarrow> n < 2 ^ k \<Longrightarrow> bits_of m k = bits_of n k \<Longrightarrow> m = n"
  by (metis mod_less val_of_bits_of)

lemma val_of_take_div:
  "k \<le> length bs \<Longrightarrow> val_of (take k bs) = val_of bs div 2 ^ (length bs - k)"
proof -
  assume k: "k \<le> length bs"
  have "val_of bs = val_of (take k bs) * 2 ^ (length bs - k) + val_of (drop k bs)"
    using val_of_append[of "take k bs" "drop k bs"] by simp
  moreover have "val_of (drop k bs) < 2 ^ (length bs - k)"
    using val_of_less[of "drop k bs"] by simp
  ultimately show ?thesis by simp
qed

end
