(* ===== verification/Decode_Buffer.thy ===== *)
theory Decode_Buffer
  imports Net_Prelude
begin

text \<open>
  \<^verbatim>\<open>http2/decoder/decode_status.h\<close> and \<^verbatim>\<open>http2/decoder/decode_buffer.h\<close>: the status every
  decoder returns, and \<open>DecodeBuffer\<close>, the cursor over one transport buffer from which the
  decoders read. The three pointers \<open>buffer_\<close>, \<open>cursor_\<close> and \<open>beyond_\<close> are the byte sequence
  and an index into it. The \<open>Decode*\<close> methods read past the end in C++ when too little input
  remains; their callers guard them, and so does every use in this development.

  All later proofs look at a buffer through \<open>rest\<close>, the bytes not yet read; the collection
  \<open>rest_simps\<close> says what each operation does to them.
\<close>

datatype DecodeStatus = kDecodeDone | kDecodeInProgress | kDecodeError

record DecodeBuffer =
  db_buffer :: bytes
  db_cursor :: nat

definition mkDecodeBuffer :: "bytes \<Rightarrow> DecodeBuffer" where
  "mkDecodeBuffer s = \<lparr>db_buffer = s, db_cursor = 0\<rparr>"

definition Empty :: "DecodeBuffer \<Rightarrow> bool" where
  "Empty db \<longleftrightarrow> length (db_buffer db) \<le> db_cursor db"

definition HasData :: "DecodeBuffer \<Rightarrow> bool" where
  "HasData db \<longleftrightarrow> db_cursor db < length (db_buffer db)"

definition Remaining :: "DecodeBuffer \<Rightarrow> nat" where
  "Remaining db = length (db_buffer db) - db_cursor db"

definition Offset :: "DecodeBuffer \<Rightarrow> nat" where
  "Offset db = db_cursor db"

definition FullSize :: "DecodeBuffer \<Rightarrow> nat" where
  "FullSize db = length (db_buffer db)"

definition MinLengthRemaining :: "DecodeBuffer \<Rightarrow> nat \<Rightarrow> nat" where
  "MinLengthRemaining db len = min len (Remaining db)"

text \<open>\<open>cursor_bytes db n\<close> is the range of \<open>n\<close> bytes that starts at \<open>db->cursor()\<close>.\<close>

definition cursor_bytes :: "DecodeBuffer \<Rightarrow> nat \<Rightarrow> bytes" where
  "cursor_bytes db n = take n (drop (db_cursor db) (db_buffer db))"

definition AdvanceCursor :: "DecodeBuffer \<Rightarrow> nat \<Rightarrow> DecodeBuffer" where
  "AdvanceCursor db amount = db\<lparr>db_cursor := db_cursor db + amount\<rparr>"

definition DecodeUInt8 :: "DecodeBuffer \<Rightarrow> byte \<times> DecodeBuffer" where
  "DecodeUInt8 db = (db_buffer db ! db_cursor db, db\<lparr>db_cursor := db_cursor db + 1\<rparr>)"

definition DecodeUInt16 :: "DecodeBuffer \<Rightarrow> u16 \<times> DecodeBuffer" where
  "DecodeUInt16 db =
     (let (b1, db) = DecodeUInt8 db; (b2, db) = DecodeUInt8 db
      in (push_bit 8 (ucast b1) OR ucast b2, db))"

definition DecodeUInt24 :: "DecodeBuffer \<Rightarrow> u32 \<times> DecodeBuffer" where
  "DecodeUInt24 db =
     (let (b1, db) = DecodeUInt8 db; (b2, db) = DecodeUInt8 db; (b3, db) = DecodeUInt8 db
      in (push_bit 16 (ucast b1) OR push_bit 8 (ucast b2) OR ucast b3, db))"

definition DecodeUInt31 :: "DecodeBuffer \<Rightarrow> u32 \<times> DecodeBuffer" where
  "DecodeUInt31 db =
     (let (b1, db) = DecodeUInt8 db; b1 = b1 AND 0x7f; (b2, db) = DecodeUInt8 db;
          (b3, db) = DecodeUInt8 db; (b4, db) = DecodeUInt8 db
      in (push_bit 24 (ucast b1) OR push_bit 16 (ucast b2) OR push_bit 8 (ucast b3) OR ucast b4, db))"

definition DecodeUInt32 :: "DecodeBuffer \<Rightarrow> u32 \<times> DecodeBuffer" where
  "DecodeUInt32 db =
     (let (b1, db) = DecodeUInt8 db; (b2, db) = DecodeUInt8 db;
          (b3, db) = DecodeUInt8 db; (b4, db) = DecodeUInt8 db
      in (push_bit 24 (ucast b1) OR push_bit 16 (ucast b2) OR push_bit 8 (ucast b3) OR ucast b4, db))"

text \<open>
  \<open>DecodeBufferSubset\<close> opens a window of at most \<open>subset_len\<close> bytes on the unread part of
  \<open>base\<close>; its destructor advances \<open>base\<close> by what was read through the window.
\<close>

definition DecodeBufferSubset :: "DecodeBuffer \<Rightarrow> nat \<Rightarrow> DecodeBuffer" where
  "DecodeBufferSubset base subset_len =
     mkDecodeBuffer (cursor_bytes base (MinLengthRemaining base subset_len))"

definition end_DecodeBufferSubset :: "DecodeBuffer \<Rightarrow> DecodeBuffer \<Rightarrow> DecodeBuffer" where
  "end_DecodeBufferSubset base sub = AdvanceCursor base (Offset sub)"

section \<open>The unread bytes\<close>

definition rest :: "DecodeBuffer \<Rightarrow> bytes" where
  "rest db = drop (db_cursor db) (db_buffer db)"

lemma rest_mk [rest_simps, simp]: "rest (mkDecodeBuffer s) = s"
  by (simp add: rest_def mkDecodeBuffer_def)

lemma Empty_rest [rest_simps]: "Empty db \<longleftrightarrow> rest db = []"
  by (simp add: Empty_def rest_def)

lemma HasData_rest [rest_simps]: "HasData db \<longleftrightarrow> rest db \<noteq> []"
  by (auto simp: HasData_def rest_def)

lemma Remaining_rest [rest_simps]: "Remaining db = length (rest db)"
  by (simp add: Remaining_def rest_def)

lemma MinLengthRemaining_rest [rest_simps]: "MinLengthRemaining db n = min n (length (rest db))"
  by (simp add: MinLengthRemaining_def Remaining_rest)

lemma cursor_bytes_rest [rest_simps]: "cursor_bytes db n = take n (rest db)"
  by (simp add: cursor_bytes_def rest_def)

lemma rest_AdvanceCursor [rest_simps]: "rest (AdvanceCursor db n) = drop n (rest db)"
  by (simp add: rest_def AdvanceCursor_def add.commute)

lemma DecodeUInt8_rest [rest_simps]: "rest db = b # bs \<Longrightarrow> DecodeUInt8 db = (b, AdvanceCursor db 1)"
  by (auto simp: rest_def DecodeUInt8_def AdvanceCursor_def dest!: drop_eq_Cons_nth)

lemma AdvanceCursor_add [rest_simps]: "AdvanceCursor (AdvanceCursor db m) n = AdvanceCursor db (m + n)"
  by (simp add: AdvanceCursor_def)

lemma AdvanceCursor_0 [rest_simps]: "AdvanceCursor db 0 = db"
  by (simp add: AdvanceCursor_def)

lemma Offset_AdvanceCursor [simp]: "Offset (AdvanceCursor db n) = Offset db + n"
  by (simp add: AdvanceCursor_def Offset_def)

lemma Offset_mk [simp]: "Offset (mkDecodeBuffer s) = 0"
  by (simp add: mkDecodeBuffer_def Offset_def)

lemma rest_Subset [rest_simps]: "rest (DecodeBufferSubset db n) = take n (rest db)"
  by (simp add: DecodeBufferSubset_def rest_simps take_append_min min_def)

lemma DecodeUInt8_bytes: "rest db = b # r \<Longrightarrow> DecodeUInt8 db = (b, AdvanceCursor db (Suc 0))"
  by (simp add: DecodeUInt8_rest)

lemma DecodeUInt16_rest:
  "rest db = a # b # r \<Longrightarrow>
   DecodeUInt16 db = (push_bit 8 (ucast a) OR ucast b, AdvanceCursor db 2)"
  by (simp add: DecodeUInt16_def rest_simps numeral_2_eq_2)

lemma DecodeUInt24_rest:
  "rest db = a # b # c # r \<Longrightarrow>
   DecodeUInt24 db = (push_bit 16 (ucast a) OR push_bit 8 (ucast b) OR ucast c, AdvanceCursor db 3)"
  by (simp add: DecodeUInt24_def rest_simps numeral_3_eq_3)

lemma DecodeUInt31_rest:
  "rest db = a # b # c # d # r \<Longrightarrow>
   DecodeUInt31 db =
     (push_bit 24 (ucast (a AND 0x7f)) OR push_bit 16 (ucast b) OR push_bit 8 (ucast c) OR ucast d,
      AdvanceCursor db 4)"
  by (simp add: DecodeUInt31_def rest_simps eval_nat_numeral)

lemma DecodeUInt32_rest:
  "rest db = a # b # c # d # r \<Longrightarrow>
   DecodeUInt32 db =
     (push_bit 24 (ucast a) OR push_bit 16 (ucast b) OR push_bit 8 (ucast c) OR ucast d,
      AdvanceCursor db 4)"
  by (simp add: DecodeUInt32_def rest_simps eval_nat_numeral)

lemmas DecodeUInt_rest =
  DecodeUInt8_bytes DecodeUInt16_rest DecodeUInt24_rest DecodeUInt31_rest DecodeUInt32_rest

text \<open>
  Reading through a window and closing it leaves the base buffer advanced by exactly the bytes
  read; a window never lets its reader see more than \<open>subset_len\<close> bytes.
\<close>

lemma end_Subset_rest [rest_simps]:
  "rest (end_DecodeBufferSubset db (AdvanceCursor (DecodeBufferSubset db n) k)) = drop k (rest db)"
  by (simp add: end_DecodeBufferSubset_def DecodeBufferSubset_def rest_simps)

text \<open>\<open>advances db db'\<close>: the cursor was moved forward on the same buffer.\<close>

definition advances :: "DecodeBuffer \<Rightarrow> DecodeBuffer \<Rightarrow> bool" where
  "advances db db' \<longleftrightarrow> (\<exists>n. db' = AdvanceCursor db n)"

lemma advances_refl [simp, intro]: "advances db db"
  unfolding advances_def by (rule exI[of _ 0]) (simp add: AdvanceCursor_0)

lemma advances_trans [trans]: "advances a b \<Longrightarrow> advances b c \<Longrightarrow> advances a c"
  by (auto simp: advances_def AdvanceCursor_add)

lemma advances_AdvanceCursor [simp, intro]: "advances db (AdvanceCursor db n)"
  by (auto simp: advances_def)

lemma DecodeUInt8_advance: "DecodeUInt8 db = (b, db') \<Longrightarrow> db' = AdvanceCursor db 1"
  by (auto simp: DecodeUInt8_def AdvanceCursor_def)

lemma Remaining_advance1:
  "HasData db \<Longrightarrow> advances (AdvanceCursor db 1) db' \<Longrightarrow> Remaining db' < Remaining db"
  by (auto simp: advances_def HasData_def Remaining_def AdvanceCursor_def)

end
