(* ===== verification/Resumable.thy ===== *)
theory Resumable
  imports Decode_Buffer
begin

text \<open>
  The interface every resumable decoder of \<^verbatim>\<open>http2/\<close> has: it is handed the bytes of one
  transport buffer, and returns a status, its new state and the bytes it did not read. The
  transport may cut a message at any byte. The locale \<open>resumable\<close> states what makes a decoder
  insensitive to where it is cut (its laws are about one cut); the lemma \<open>feed_concat\<close>, proved
  once here, gives the statement about any sequence of buffers.
\<close>

text \<open>
  A decoder reads through a buffer's cursor, so what it does is settled by the unread bytes: it
  returns a result and moves the cursor by some number of bytes. \<open>read_at db (st, s, n)\<close> is the
  outcome with the cursor of \<open>db\<close> moved by \<open>n\<close>; \<open>unread (st, s, db)\<close> forgets the buffer and
  keeps the bytes it has not read.
\<close>

fun read_at :: "DecodeBuffer \<Rightarrow> 'r \<times> 's \<times> nat \<Rightarrow> 'r \<times> 's \<times> DecodeBuffer" where
  "read_at db (st, s, n) = (st, s, AdvanceCursor db n)"

fun unread :: "'r \<times> 's \<times> DecodeBuffer \<Rightarrow> 'r \<times> 's \<times> bytes" where
  "unread (st, s, db) = (st, s, rest db)"

lemma unread_read_at: "unread (read_at (mkDecodeBuffer xs) (st, s, n)) = (st, s, drop n xs)"
  by (simp add: rest_simps)

lemma read_at_split: "read_at db p = (fst p, fst (snd p), AdvanceCursor db (snd (snd p)))"
  by (cases p) auto

text \<open>
  \<open>feed run s css\<close> passes the buffers \<open>css\<close> to the decoder one after the other, as long as it
  asks for more; the unread bytes of the run are what is left of the last buffer used and all
  later ones.
\<close>

fun feed :: "('s \<Rightarrow> bytes \<Rightarrow> DecodeStatus \<times> 's \<times> bytes) \<Rightarrow> 's \<Rightarrow> bytes list \<Rightarrow>
    DecodeStatus \<times> 's \<times> bytes" where
  "feed run s [] = (kDecodeInProgress, s, [])"
| "feed run s (c # cs) =
     (case run s c of
        (kDecodeInProgress, s', r) \<Rightarrow> feed run s' cs
      | (st, s', r) \<Rightarrow> (st, s', r @ concat cs))"

text \<open>
  A decoder keeps stale data in its members, and its listener may store the same text in different
  ways; \<open>vw\<close> maps a state to what matters of it, and \<open>abs_res\<close> an outcome.
\<close>

fun abs_res :: "('s \<Rightarrow> 'a) \<Rightarrow> 'r \<times> 's \<times> 'b \<Rightarrow> 'r \<times> 'a \<times> 'b" where
  "abs_res vw (st, s, r) = (st, vw s, r)"

lemma abs_res_eqD: "abs_res vw p = (st, a, r) \<Longrightarrow> \<exists>s. p = (st, s, r) \<and> vw s = a"
  by (cases p) auto

locale resumable_abs =
  fixes run :: "'s \<Rightarrow> bytes \<Rightarrow> DecodeStatus \<times> 's \<times> bytes"
    and inv :: "'s \<Rightarrow> bool"
    and vw :: "'s \<Rightarrow> 'a"
  assumes run_pause: "inv s \<Longrightarrow> run s xs = (kDecodeInProgress, s', r) \<Longrightarrow> r = []"
    and run_inv: "inv s \<Longrightarrow> run s xs = (kDecodeInProgress, s', r) \<Longrightarrow> inv s'"
    and run_resume: "inv s \<Longrightarrow> run s xs = (kDecodeInProgress, s', r) \<Longrightarrow>
      abs_res vw (run s (xs @ ys)) = abs_res vw (run s' ys)"
    and run_stop: "inv s \<Longrightarrow> run s xs = (st, s', r) \<Longrightarrow> st \<noteq> kDecodeInProgress \<Longrightarrow>
      abs_res vw (run s (xs @ ys)) = (st, vw s', r @ ys)"
    and run_cong: "inv s \<Longrightarrow> inv t \<Longrightarrow> vw s = vw t \<Longrightarrow> abs_res vw (run s xs) = abs_res vw (run t xs)"
begin

lemma feed_cong: "inv s \<Longrightarrow> inv t \<Longrightarrow> vw s = vw t \<Longrightarrow> abs_res vw (feed run s css) = abs_res vw (feed run t css)"
proof (induction css arbitrary: s t)
  case (Cons c cs)
  obtain st s' r where s: "run s c = (st, s', r)" by (cases "run s c") auto
  with run_cong[OF Cons.prems, of c] obtain t' where t: "run t c = (st, t', r)" "vw t' = vw s'"
    by (cases "run t c") auto
  show ?case
    using s t Cons.IH[of s' t'] run_inv[OF Cons.prems(1), of c s' r] run_inv[OF Cons.prems(2), of c t' r]
    by (cases st) auto
qed simp

lemma feed_step:
  assumes "inv s"
  shows "abs_res vw (feed run s (c # d # ds)) = abs_res vw (feed run s ((c @ d) # ds))"
proof -
  obtain st s' r where r: "run s c = (st, s', r)" by (cases "run s c") auto
  show ?thesis
  proof (cases "st = kDecodeInProgress")
    case True
    note inv' = run_inv[OF assms r[unfolded True]]
    obtain st2 t u where t: "run s' d = (st2, t, u)" by (cases "run s' d") auto
    with run_resume[OF assms r[unfolded True], of d]
    obtain t' where t': "run s (c @ d) = (st2, t', u)" "vw t' = vw t"
      by (cases "run s (c @ d)") auto
    show ?thesis
      using r True t t' feed_cong[of t t' ds] run_inv[OF inv', of d t u] run_inv[OF assms, of "c @ d" t' u]
      by (cases st2) auto
  next
    case False
    from run_stop[OF assms r False, of d] obtain t where "run s (c @ d) = (st, t, r @ d)" "vw t = vw s'"
      by (cases "run s (c @ d)") auto
    then show ?thesis using r False by (cases st) auto
  qed
qed

lemma feed_concat: "inv s \<Longrightarrow> css \<noteq> [] \<Longrightarrow> abs_res vw (feed run s css) = abs_res vw (run s (concat css))"
proof (induction "length css" arbitrary: css)
  case (Suc n)
  obtain c cs where css: "css = c # cs" using Suc.prems(2) by (cases css) auto
  show ?case
  proof (cases cs)
    case Nil
    obtain st s' r where r: "run s c = (st, s', r)" by (cases "run s c") auto
    then show ?thesis using run_pause[OF Suc.prems(1), of c s' r]
      by (cases st) (auto simp: css Nil)
  next
    case (Cons d ds)
    have "abs_res vw (feed run s css) = abs_res vw (feed run s ((c @ d) # ds))"
      using feed_step[OF Suc.prems(1)] by (simp add: css Cons)
    also have "\<dots> = abs_res vw (run s (concat ((c @ d) # ds)))"
      using Suc.hyps css Cons Suc.prems(1) by (intro Suc.hyps(1)) auto
    finally show ?thesis by (simp add: css Cons)
  qed
qed simp

end

text \<open>A decoder without stale data or a listener is insensitive to cuts on the nose.\<close>

locale resumable =
  fixes run :: "'s \<Rightarrow> bytes \<Rightarrow> DecodeStatus \<times> 's \<times> bytes"
    and inv :: "'s \<Rightarrow> bool"
  assumes pause: "inv s \<Longrightarrow> run s xs = (kDecodeInProgress, s', r) \<Longrightarrow> r = []"
    and keeps_inv: "inv s \<Longrightarrow> run s xs = (kDecodeInProgress, s', r) \<Longrightarrow> inv s'"
    and resume: "inv s \<Longrightarrow> run s xs = (kDecodeInProgress, s', r) \<Longrightarrow> run s (xs @ ys) = run s' ys"
    and stop: "inv s \<Longrightarrow> run s xs = (st, s', r) \<Longrightarrow> st \<noteq> kDecodeInProgress \<Longrightarrow>
      run s (xs @ ys) = (st, s', r @ ys)"

sublocale resumable \<subseteq> view: resumable_abs run inv "\<lambda>s. s"
  by unfold_locales (use pause keeps_inv resume stop in \<open>auto\<close>)

context resumable
begin

lemma feed_whole: "inv s \<Longrightarrow> css \<noteq> [] \<Longrightarrow> feed run s css = run s (concat css)"
  using view.feed_concat[of s css] by (cases "feed run s css"; cases "run s (concat css)") auto

end

end
