(* ===== verification/Http2_Structures.thy ===== *)
theory Http2_Structures
  imports Resumable
begin

text \<open>
  \<^verbatim>\<open>http2/http2_constants.h\<close>, \<^verbatim>\<open>http2/http2_structures.h\<close> and
  \<^verbatim>\<open>http2/decoder/decode_http2_structures.cc\<close>: the fixed size structures of HTTP/2 frames and
  their decoders \<open>DoDecode\<close>; and from \<^verbatim>\<open>http2/tools/http2_frame_builder.cc\<close> the \<open>Append\<close>
  methods that write them. An enumeration with a fixed underlying type may hold any value of
  that type, so the fields are words and the enumerators named constants.
\<close>

section \<open>Constants\<close>

definition UInt31Mask :: u32 where "UInt31Mask = 0x7fffffff"
definition StreamIdMask :: u32 where "StreamIdMask = UInt31Mask"

type_synonym Http2FrameType = byte

definition FRAME_DATA :: Http2FrameType where "FRAME_DATA = 0"
definition FRAME_HEADERS :: Http2FrameType where "FRAME_HEADERS = 1"
definition FRAME_PRIORITY :: Http2FrameType where "FRAME_PRIORITY = 2"
definition FRAME_RST_STREAM :: Http2FrameType where "FRAME_RST_STREAM = 3"
definition FRAME_SETTINGS :: Http2FrameType where "FRAME_SETTINGS = 4"
definition FRAME_PUSH_PROMISE :: Http2FrameType where "FRAME_PUSH_PROMISE = 5"
definition FRAME_PING :: Http2FrameType where "FRAME_PING = 6"
definition FRAME_GOAWAY :: Http2FrameType where "FRAME_GOAWAY = 7"
definition FRAME_WINDOW_UPDATE :: Http2FrameType where "FRAME_WINDOW_UPDATE = 8"
definition FRAME_CONTINUATION :: Http2FrameType where "FRAME_CONTINUATION = 9"
definition FRAME_ALTSVC :: Http2FrameType where "FRAME_ALTSVC = 10"

lemmas frame_type_defs =
  FRAME_DATA_def FRAME_HEADERS_def FRAME_PRIORITY_def FRAME_RST_STREAM_def FRAME_SETTINGS_def
  FRAME_PUSH_PROMISE_def FRAME_PING_def FRAME_GOAWAY_def FRAME_WINDOW_UPDATE_def
  FRAME_CONTINUATION_def FRAME_ALTSVC_def

definition IsSupportedHttp2FrameType :: "u32 \<Rightarrow> bool" where
  "IsSupportedHttp2FrameType v \<longleftrightarrow> v \<le> ucast FRAME_ALTSVC"

type_synonym Http2FrameFlag = byte

definition FLAG_END_STREAM :: Http2FrameFlag where "FLAG_END_STREAM = 0x01"
definition FLAG_ACK :: Http2FrameFlag where "FLAG_ACK = 0x01"
definition FLAG_END_HEADERS :: Http2FrameFlag where "FLAG_END_HEADERS = 0x04"
definition FLAG_PADDED :: Http2FrameFlag where "FLAG_PADDED = 0x08"
definition FLAG_PRIORITY :: Http2FrameFlag where "FLAG_PRIORITY = 0x20"

definition IsSupportedHttp2ErrorCode :: "u32 \<Rightarrow> bool" where
  "IsSupportedHttp2ErrorCode v \<longleftrightarrow> v \<le> 0xd"

definition IsSupportedHttp2SettingsParameter :: "u32 \<Rightarrow> bool" where
  "IsSupportedHttp2SettingsParameter v \<longleftrightarrow> 0 < v \<and> v \<le> 0x6"

definition DefaultHeaderTableSize :: u32 where "DefaultHeaderTableSize = 4096"

section \<open>Structures\<close>

record Http2FrameHeader =
  fh_payload_length :: u32
  fh_stream_id :: u32
  fh_type :: Http2FrameType
  fh_flags :: Http2FrameFlag

definition RetainFlags :: "byte \<Rightarrow> Http2FrameHeader \<Rightarrow> Http2FrameHeader" where
  "RetainFlags valid_flags h = h\<lparr>fh_flags := fh_flags h AND valid_flags\<rparr>"

definition HasAnyFlags :: "Http2FrameHeader \<Rightarrow> byte \<Rightarrow> bool" where
  "HasAnyFlags h flag_mask \<longleftrightarrow> 0 \<noteq> fh_flags h AND flag_mask"

definition IsEndStream :: "Http2FrameHeader \<Rightarrow> bool" where
  "IsEndStream h \<longleftrightarrow> fh_flags h AND FLAG_END_STREAM \<noteq> 0"

definition IsAck :: "Http2FrameHeader \<Rightarrow> bool" where
  "IsAck h \<longleftrightarrow> fh_flags h AND FLAG_ACK \<noteq> 0"

definition IsEndHeaders :: "Http2FrameHeader \<Rightarrow> bool" where
  "IsEndHeaders h \<longleftrightarrow> fh_flags h AND FLAG_END_HEADERS \<noteq> 0"

definition IsPadded :: "Http2FrameHeader \<Rightarrow> bool" where
  "IsPadded h \<longleftrightarrow> fh_flags h AND FLAG_PADDED \<noteq> 0"

definition HasPriority :: "Http2FrameHeader \<Rightarrow> bool" where
  "HasPriority h \<longleftrightarrow> fh_flags h AND FLAG_PRIORITY \<noteq> 0"

definition IsProbableHttpResponse :: "Http2FrameHeader \<Rightarrow> bool" where
  "IsProbableHttpResponse h \<longleftrightarrow>
     fh_payload_length h = 0x485454 \<and> fh_type h = 0x50 \<and> fh_flags h = 0x2f"

record Http2PriorityFields =
  pf_stream_dependency :: u32
  pf_weight :: u32
  pf_is_exclusive :: bool

text \<open>\<open>operator==\<close> of \<open>Http2PriorityFields\<close>.\<close>

definition Http2PriorityFields_eq :: "Http2PriorityFields \<Rightarrow> Http2PriorityFields \<Rightarrow> bool" where
  "Http2PriorityFields_eq a b \<longleftrightarrow>
     pf_stream_dependency a = pf_stream_dependency b \<and> pf_weight a = pf_weight b"

record Http2RstStreamFields =
  rf_error_code :: u32

record Http2SettingFields =
  sf_parameter :: u16
  sf_value :: u32

record Http2PushPromiseFields =
  ppf_promised_stream_id :: u32

record Http2PingFields =
  pgf_opaque_data :: bytes

record Http2GoAwayFields =
  gf_last_stream_id :: u32
  gf_error_code :: u32

record Http2WindowUpdateFields =
  wf_window_size_increment :: u32

record Http2AltSvcFields =
  af_origin_length :: u16

section \<open>Decoding\<close>

definition DoDecode_FrameHeader :: "DecodeBuffer \<Rightarrow> Http2FrameHeader \<times> DecodeBuffer" where
  "DoDecode_FrameHeader b =
     (let (payload_length, b) = DecodeUInt24 b; (type, b) = DecodeUInt8 b;
          (flags, b) = DecodeUInt8 b; (stream_id, b) = DecodeUInt31 b
      in (\<lparr>fh_payload_length = payload_length, fh_stream_id = stream_id, fh_type = type,
           fh_flags = flags\<rparr>, b))"

definition DoDecode_Priority :: "DecodeBuffer \<Rightarrow> Http2PriorityFields \<times> DecodeBuffer" where
  "DoDecode_Priority b =
     (let (stream_id_and_flag, b) = DecodeUInt32 b;
          stream_dependency = stream_id_and_flag AND StreamIdMask;
          is_exclusive = (if stream_dependency = stream_id_and_flag then False else True);
          (weight, b) = DecodeUInt8 b
      in (\<lparr>pf_stream_dependency = stream_dependency, pf_weight = ucast weight + 1,
           pf_is_exclusive = is_exclusive\<rparr>, b))"

definition DoDecode_RstStream :: "DecodeBuffer \<Rightarrow> Http2RstStreamFields \<times> DecodeBuffer" where
  "DoDecode_RstStream b = (let (code, b) = DecodeUInt32 b in (\<lparr>rf_error_code = code\<rparr>, b))"

definition DoDecode_Setting :: "DecodeBuffer \<Rightarrow> Http2SettingFields \<times> DecodeBuffer" where
  "DoDecode_Setting b =
     (let (parameter, b) = DecodeUInt16 b; (v, b) = DecodeUInt32 b
      in (\<lparr>sf_parameter = parameter, sf_value = v\<rparr>, b))"

definition DoDecode_PushPromise :: "DecodeBuffer \<Rightarrow> Http2PushPromiseFields \<times> DecodeBuffer" where
  "DoDecode_PushPromise b =
     (let (stream_id, b) = DecodeUInt31 b in (\<lparr>ppf_promised_stream_id = stream_id\<rparr>, b))"

definition DoDecode_Ping :: "DecodeBuffer \<Rightarrow> Http2PingFields \<times> DecodeBuffer" where
  "DoDecode_Ping b = (\<lparr>pgf_opaque_data = cursor_bytes b 8\<rparr>, AdvanceCursor b 8)"

definition DoDecode_GoAway :: "DecodeBuffer \<Rightarrow> Http2GoAwayFields \<times> DecodeBuffer" where
  "DoDecode_GoAway b =
     (let (last_stream_id, b) = DecodeUInt31 b; (code, b) = DecodeUInt32 b
      in (\<lparr>gf_last_stream_id = last_stream_id, gf_error_code = code\<rparr>, b))"

definition DoDecode_WindowUpdate :: "DecodeBuffer \<Rightarrow> Http2WindowUpdateFields \<times> DecodeBuffer" where
  "DoDecode_WindowUpdate b =
     (let (increment, b) = DecodeUInt31 b in (\<lparr>wf_window_size_increment = increment\<rparr>, b))"

definition DoDecode_AltSvc :: "DecodeBuffer \<Rightarrow> Http2AltSvcFields \<times> DecodeBuffer" where
  "DoDecode_AltSvc b =
     (let (origin_length, b) = DecodeUInt16 b in (\<lparr>af_origin_length = origin_length\<rparr>, b))"

section \<open>Encoding\<close>

text \<open>The builder's buffer is the byte sequence; \<open>htons\<close> and \<open>htonl\<close> give network byte order.\<close>

definition fb_AppendUInt8 :: "byte \<Rightarrow> bytes \<Rightarrow> bytes" where
  "fb_AppendUInt8 v buf = buf @ [v]"

definition fb_AppendUInt16 :: "u16 \<Rightarrow> bytes \<Rightarrow> bytes" where
  "fb_AppendUInt16 v buf = buf @ [ucast (drop_bit 8 v), ucast v]"

definition fb_AppendUInt24 :: "u32 \<Rightarrow> bytes \<Rightarrow> bytes" where
  "fb_AppendUInt24 v buf = buf @ [ucast (drop_bit 16 v), ucast (drop_bit 8 v), ucast v]"

definition fb_AppendUInt32 :: "u32 \<Rightarrow> bytes \<Rightarrow> bytes" where
  "fb_AppendUInt32 v buf =
     buf @ [ucast (drop_bit 24 v), ucast (drop_bit 16 v), ucast (drop_bit 8 v), ucast v]"

definition fb_AppendUInt31 :: "u32 \<Rightarrow> bytes \<Rightarrow> bytes" where
  "fb_AppendUInt31 v buf = fb_AppendUInt32 (v AND StreamIdMask) buf"

definition fb_Append_FrameHeader :: "Http2FrameHeader \<Rightarrow> bytes \<Rightarrow> bytes" where
  "fb_Append_FrameHeader v buf =
     fb_AppendUInt31 (fh_stream_id v) (fb_AppendUInt8 (fh_flags v) (fb_AppendUInt8 (fh_type v)
       (fb_AppendUInt24 (fh_payload_length v) buf)))"

definition fb_Append_Priority :: "Http2PriorityFields \<Rightarrow> bytes \<Rightarrow> bytes" where
  "fb_Append_Priority v buf =
     (let tmp = pf_stream_dependency v AND StreamIdMask;
          tmp = (if pf_is_exclusive v then tmp OR 0x80000000 else tmp)
      in fb_AppendUInt8 (ucast (pf_weight v - 1)) (fb_AppendUInt32 tmp buf))"

definition fb_Append_RstStream :: "Http2RstStreamFields \<Rightarrow> bytes \<Rightarrow> bytes" where
  "fb_Append_RstStream v buf = fb_AppendUInt32 (rf_error_code v) buf"

definition fb_Append_Setting :: "Http2SettingFields \<Rightarrow> bytes \<Rightarrow> bytes" where
  "fb_Append_Setting v buf = fb_AppendUInt32 (sf_value v) (fb_AppendUInt16 (sf_parameter v) buf)"

definition fb_Append_PushPromise :: "Http2PushPromiseFields \<Rightarrow> bytes \<Rightarrow> bytes" where
  "fb_Append_PushPromise v buf = fb_AppendUInt31 (ppf_promised_stream_id v) buf"

definition fb_Append_Ping :: "Http2PingFields \<Rightarrow> bytes \<Rightarrow> bytes" where
  "fb_Append_Ping v buf = buf @ pgf_opaque_data v"

definition fb_Append_GoAway :: "Http2GoAwayFields \<Rightarrow> bytes \<Rightarrow> bytes" where
  "fb_Append_GoAway v buf = fb_AppendUInt32 (gf_error_code v) (fb_AppendUInt31 (gf_last_stream_id v) buf)"

definition fb_Append_WindowUpdate :: "Http2WindowUpdateFields \<Rightarrow> bytes \<Rightarrow> bytes" where
  "fb_Append_WindowUpdate v buf = fb_AppendUInt31 (wf_window_size_increment v) buf"

definition fb_Append_AltSvc :: "Http2AltSvcFields \<Rightarrow> bytes \<Rightarrow> bytes" where
  "fb_Append_AltSvc v buf = fb_AppendUInt16 (af_origin_length v) buf"

lemmas fb_defs =
  fb_AppendUInt8_def fb_AppendUInt16_def fb_AppendUInt24_def fb_AppendUInt32_def fb_AppendUInt31_def

section \<open>What is written is read back\<close>

lemma join_u16: "push_bit 8 (ucast (ucast (drop_bit 8 (v :: u16)) :: byte)) OR ucast (ucast v :: byte) = v"
  by (rule bit_word_eqI) (auto simp: bit_simps)

lemma octet_cases:
  assumes "n < (32 :: nat)"
  obtains "n < 8" | "8 \<le> n" "n < 16" | "16 \<le> n" "n < 24" | "24 \<le> n" "n < 32"
  using assms by linarith

lemma join_u24:
  "push_bit 16 (ucast (ucast (drop_bit 16 (v :: u32)) :: byte)) OR
   push_bit 8 (ucast (ucast (drop_bit 8 v) :: byte)) OR ucast (ucast v :: byte) = take_bit 24 v"
  (is "?l = ?r")
proof (rule bit_word_eqI)
  fix n assume "n < LENGTH(32)"
  then have "n < 32" by simp
  then show "bit ?l n = bit ?r n"
    by (cases rule: octet_cases) (auto simp: bit_simps)
qed

lemma join_u32:
  "push_bit 24 (ucast (ucast (drop_bit 24 (v :: u32)) :: byte)) OR
   push_bit 16 (ucast (ucast (drop_bit 16 v) :: byte)) OR
   push_bit 8 (ucast (ucast (drop_bit 8 v) :: byte)) OR ucast (ucast v :: byte) = v"
  (is "?l = _")
proof (rule bit_word_eqI)
  fix n assume "n < LENGTH(32)"
  then have "n < 32" by simp
  then show "bit ?l n = bit v n"
    by (cases rule: octet_cases) (auto simp: bit_simps)
qed

lemma StreamIdMask_take: "v AND StreamIdMask = take_bit 31 v"
  by (simp add: StreamIdMask_def UInt31Mask_def take_bit_eq_mask mask_eq_exp_minus_1)

lemma top_byte_mask: "ucast (drop_bit 24 (take_bit 31 (v :: u32))) AND (0x7f :: byte) = ucast (drop_bit 24 (take_bit 31 v))"
proof -
  have "(0x7f :: byte) = mask 7" by (simp add: mask_eq_exp_minus_1)
  moreover have "ucast (drop_bit 24 (take_bit 31 v)) AND (mask 7 :: byte) = ucast (drop_bit 24 (take_bit 31 v))"
    by (rule bit_word_eqI) (auto simp: bit_simps)
  ultimately show ?thesis by metis
qed

lemma DecodeUInt16_Append:
  "rest b = fb_AppendUInt16 v [] @ r \<Longrightarrow> DecodeUInt16 b = (v, AdvanceCursor b 2)"
  by (simp add: DecodeUInt16_rest fb_defs join_u16)

lemma DecodeUInt24_Append:
  "rest b = fb_AppendUInt24 v [] @ r \<Longrightarrow> DecodeUInt24 b = (take_bit 24 v, AdvanceCursor b 3)"
  by (simp add: DecodeUInt24_rest fb_defs join_u24)

lemma DecodeUInt32_Append:
  "rest b = fb_AppendUInt32 v [] @ r \<Longrightarrow> DecodeUInt32 b = (v, AdvanceCursor b 4)"
  by (simp add: DecodeUInt32_rest fb_defs join_u32)

lemma DecodeUInt31_Append:
  "rest b = fb_AppendUInt31 v [] @ r \<Longrightarrow> DecodeUInt31 b = (take_bit 31 v, AdvanceCursor b 4)"
  by (simp add: DecodeUInt31_rest fb_defs StreamIdMask_take top_byte_mask join_u32)

text \<open>
  The contract of a fixed size structure: its decoder reads exactly \<open>EncodedSize()\<close> bytes and looks
  at nothing else; and it reads back what the builder's \<open>Append\<close> wrote, for the values that fit
  the wire format.
\<close>

locale wire_struct =
  fixes size :: nat
    and dec :: "DecodeBuffer \<Rightarrow> 'a \<times> DecodeBuffer"
    and enc :: "'a \<Rightarrow> bytes \<Rightarrow> bytes"
    and fits :: "'a \<Rightarrow> bool"
  assumes dec_local: "size \<le> length (rest b) \<Longrightarrow>
      dec b = (fst (dec (mkDecodeBuffer (take size (rest b)))), AdvanceCursor b size)"
    and enc_append: "enc v buf = buf @ enc v []"
    and length_enc: "fits v \<Longrightarrow> length (enc v []) = size"
    and dec_enc: "fits v \<Longrightarrow> fst (dec (mkDecodeBuffer (enc v []))) = v"
begin

lemma dec_enc_rest: "fits v \<Longrightarrow> rest b = enc v [] @ r \<Longrightarrow> dec b = (v, AdvanceCursor b size)"
  by (subst dec_local) (simp_all add: length_enc dec_enc)

end

lemma read4: "4 \<le> length (rest b) \<Longrightarrow> \<exists>x0 x1 x2 x3 r. rest b = x0 # x1 # x2 # x3 # r"
  by (auto simp: numeral_eq_Suc Suc_le_length_iff)

definition fits_FrameHeader :: "Http2FrameHeader \<Rightarrow> bool" where
  "fits_FrameHeader v \<longleftrightarrow> unat (fh_payload_length v) < 2 ^ 24 \<and> unat (fh_stream_id v) < 2 ^ 31"

definition fits_Priority :: "Http2PriorityFields \<Rightarrow> bool" where
  "fits_Priority v \<longleftrightarrow> unat (pf_stream_dependency v) < 2 ^ 31 \<and> 1 \<le> pf_weight v \<and> pf_weight v \<le> 256"

definition fits_31 :: "u32 \<Rightarrow> bool" where
  "fits_31 v \<longleftrightarrow> unat v < 2 ^ 31"

lemma take_bit_fits: "unat (v :: u32) < 2 ^ k \<Longrightarrow> take_bit k v = v"
  by (metis take_bit_nat_eq_self unsigned_take_bit_eq word_unat_eq_iff)

lemma top_byte_fits:
  "unat (v :: u32) < 2 ^ 31 \<Longrightarrow> ucast (drop_bit 24 v) AND (0x7f :: byte) = ucast (drop_bit 24 v)"
  using top_byte_mask[of v] take_bit_fits[of v 31] by simp

lemma join_u8_24: "push_bit 24 (ucast (ucast (drop_bit 24 (v :: u32)) :: byte)) OR take_bit 24 v = v"
  using join_u32[of v] by (simp only: join_u24)

lemma ucast_byte_u32: "ucast (ucast (x :: u32) :: byte) = take_bit 8 x"
  by (rule bit_word_eqI) (auto simp: bit_simps)

interpretation rst: wire_struct 4 DoDecode_RstStream fb_Append_RstStream "\<lambda>_. True"
proof
  show "DoDecode_RstStream b = (fst (DoDecode_RstStream (mkDecodeBuffer (take 4 (rest b)))), AdvanceCursor b 4)"
    if "4 \<le> length (rest b)" for b
    using read4[OF that] by (auto simp: DoDecode_RstStream_def DecodeUInt_rest)
qed (auto simp: DoDecode_RstStream_def fb_Append_RstStream_def fb_AppendUInt32_def
      DecodeUInt32_rest join_u32)

interpretation push_promise: wire_struct 4 DoDecode_PushPromise fb_Append_PushPromise
  "\<lambda>v. fits_31 (ppf_promised_stream_id v)"
proof
  show "DoDecode_PushPromise b = (fst (DoDecode_PushPromise (mkDecodeBuffer (take 4 (rest b)))), AdvanceCursor b 4)"
    if "4 \<le> length (rest b)" for b
    using read4[OF that] by (auto simp: DoDecode_PushPromise_def DecodeUInt_rest)
qed (auto simp: DoDecode_PushPromise_def fb_Append_PushPromise_def DecodeUInt31_Append[where r = "[]"] fits_31_def
      take_bit_fits fb_AppendUInt31_def fb_AppendUInt32_def)

interpretation window_update: wire_struct 4 DoDecode_WindowUpdate fb_Append_WindowUpdate
  "\<lambda>v. fits_31 (wf_window_size_increment v)"
proof
  show "DoDecode_WindowUpdate b = (fst (DoDecode_WindowUpdate (mkDecodeBuffer (take 4 (rest b)))), AdvanceCursor b 4)"
    if "4 \<le> length (rest b)" for b
    using read4[OF that] by (auto simp: DoDecode_WindowUpdate_def DecodeUInt_rest)
qed (auto simp: DoDecode_WindowUpdate_def fb_Append_WindowUpdate_def DecodeUInt31_Append[where r = "[]"] fits_31_def
      take_bit_fits fb_AppendUInt31_def fb_AppendUInt32_def)

interpretation altsvc: wire_struct 2 DoDecode_AltSvc fb_Append_AltSvc "\<lambda>_. True"
proof
  show "DoDecode_AltSvc b = (fst (DoDecode_AltSvc (mkDecodeBuffer (take 2 (rest b)))), AdvanceCursor b 2)"
    if len: "2 \<le> length (rest b)" for b
  proof -
    obtain x0 x1 r where "rest b = x0 # x1 # r"
      using len by (auto simp: numeral_eq_Suc Suc_le_length_iff)
    then show ?thesis by (auto simp: DoDecode_AltSvc_def DecodeUInt_rest)
  qed
qed (auto simp: DoDecode_AltSvc_def fb_Append_AltSvc_def fb_AppendUInt16_def DecodeUInt16_rest join_u16)

interpretation ping: wire_struct 8 DoDecode_Ping fb_Append_Ping "\<lambda>v. length (pgf_opaque_data v) = 8"
  by unfold_locales (auto simp: DoDecode_Ping_def fb_Append_Ping_def cursor_bytes_rest)

interpretation goaway: wire_struct 8 DoDecode_GoAway fb_Append_GoAway "\<lambda>v. fits_31 (gf_last_stream_id v)"
proof
  show "DoDecode_GoAway b = (fst (DoDecode_GoAway (mkDecodeBuffer (take 8 (rest b)))), AdvanceCursor b 8)"
    if len: "8 \<le> length (rest b)" for b
  proof -
    obtain x0 x1 x2 x3 x4 x5 x6 x7 r where "rest b = x0 # x1 # x2 # x3 # x4 # x5 # x6 # x7 # r"
      using len by (auto simp: numeral_eq_Suc Suc_le_length_iff)
    then show ?thesis
      by (auto simp: DoDecode_GoAway_def DecodeUInt_rest rest_AdvanceCursor AdvanceCursor_add)
  qed
  show "fst (DoDecode_GoAway (mkDecodeBuffer (fb_Append_GoAway v []))) = v"
    if "fits_31 (gf_last_stream_id v)" for v
    using that by (simp add: DoDecode_GoAway_def fb_Append_GoAway_def fb_defs DecodeUInt_rest rest_AdvanceCursor
        AdvanceCursor_add StreamIdMask_take top_byte_fits join_u32 fits_31_def take_bit_fits)
qed (auto simp: fb_Append_GoAway_def fb_defs)

interpretation setting: wire_struct 6 DoDecode_Setting fb_Append_Setting "\<lambda>_. True"
proof
  show "DoDecode_Setting b = (fst (DoDecode_Setting (mkDecodeBuffer (take 6 (rest b)))), AdvanceCursor b 6)"
    if len: "6 \<le> length (rest b)" for b
  proof -
    obtain x0 x1 x2 x3 x4 x5 r where "rest b = x0 # x1 # x2 # x3 # x4 # x5 # r"
      using len by (auto simp: numeral_eq_Suc Suc_le_length_iff)
    then show ?thesis
      by (auto simp: DoDecode_Setting_def DecodeUInt_rest rest_AdvanceCursor AdvanceCursor_add)
  qed
  show "fst (DoDecode_Setting (mkDecodeBuffer (fb_Append_Setting v []))) = v" for v
    by (simp add: DoDecode_Setting_def fb_Append_Setting_def fb_defs DecodeUInt_rest rest_AdvanceCursor
        AdvanceCursor_add join_u32 join_u16)
qed (auto simp: fb_Append_Setting_def fb_defs)

lemma exclusive_bit:
  assumes "unat (d :: u32) < 2 ^ 31"
  shows "(d OR 0x80000000) AND StreamIdMask = d" "(d OR 0x80000000) \<noteq> d"
proof -
  have h: "(0x80000000 :: u32) = push_bit 31 1" by simp
  have d: "\<not> bit d 31" using take_bit_fits[OF assms] by (metis bit_take_bit_iff less_irrefl)
  then have "\<And>n. bit d n \<Longrightarrow> n < 31"
    using take_bit_fits[OF assms] by (metis bit_take_bit_iff)
  then show "(d OR 0x80000000) AND StreamIdMask = d"
    unfolding StreamIdMask_take h by (intro bit_word_eqI) (auto simp only: bit_simps)
  have "bit (d OR push_bit 31 1) 31" by (simp only: bit_simps) simp
  then show "(d OR 0x80000000) \<noteq> d" using d h by metis
qed

interpretation priority: wire_struct 5 DoDecode_Priority fb_Append_Priority fits_Priority
proof
  show "DoDecode_Priority b = (fst (DoDecode_Priority (mkDecodeBuffer (take 5 (rest b)))), AdvanceCursor b 5)"
    if len: "5 \<le> length (rest b)" for b
  proof -
    obtain x0 x1 x2 x3 x4 r where "rest b = x0 # x1 # x2 # x3 # x4 # r"
      using len by (auto simp: numeral_eq_Suc Suc_le_length_iff)
    then show ?thesis
      by (auto simp: DoDecode_Priority_def Let_def DecodeUInt_rest rest_AdvanceCursor AdvanceCursor_add)
  qed
  show "fst (DoDecode_Priority (mkDecodeBuffer (fb_Append_Priority v []))) = v" if fit: "fits_Priority v" for v
  proof -
    have "unat (pf_weight v - 1) < 256"
      using fit by (auto simp: fits_Priority_def unat_sub word_le_nat_alt)
    then have "ucast (ucast (pf_weight v - 1) :: byte) = pf_weight v - 1"
      using take_bit_fits[of "pf_weight v - 1" 8] by (simp only: ucast_byte_u32) simp
    then show ?thesis
      using fit exclusive_bit[of "pf_stream_dependency v"] take_bit_fits[of "pf_stream_dependency v" 31]
      by (simp add: DoDecode_Priority_def fb_Append_Priority_def fb_defs DecodeUInt_rest rest_AdvanceCursor
        AdvanceCursor_add join_u32 fits_Priority_def Let_def StreamIdMask_take)
  qed
qed (auto simp: fb_Append_Priority_def Let_def fb_defs)

interpretation frame_header: wire_struct 9 DoDecode_FrameHeader fb_Append_FrameHeader fits_FrameHeader
proof
  show "DoDecode_FrameHeader b = (fst (DoDecode_FrameHeader (mkDecodeBuffer (take 9 (rest b)))), AdvanceCursor b 9)"
    if len: "9 \<le> length (rest b)" for b
  proof -
    obtain x0 x1 x2 x3 x4 x5 x6 x7 x8 r where "rest b = x0 # x1 # x2 # x3 # x4 # x5 # x6 # x7 # x8 # r"
      using len by (auto simp: numeral_eq_Suc Suc_le_length_iff)
    then show ?thesis
      by (auto simp: DoDecode_FrameHeader_def DecodeUInt_rest rest_AdvanceCursor AdvanceCursor_add)
  qed
  show "fst (DoDecode_FrameHeader (mkDecodeBuffer (fb_Append_FrameHeader v []))) = v"
    if "fits_FrameHeader v" for v
    using that take_bit_fits[of "fh_payload_length v" 24] take_bit_fits[of "fh_stream_id v" 31]
    by (simp add: DoDecode_FrameHeader_def fb_Append_FrameHeader_def fb_defs DecodeUInt_rest rest_AdvanceCursor
        AdvanceCursor_add join_u8_24 join_u24 StreamIdMask_take top_byte_fits fits_FrameHeader_def)
qed (auto simp: fb_Append_FrameHeader_def fb_defs)

text \<open>
  C15: For each of the nine fixed size structures, decoding what the frame builder appended yields
  the structure again and leaves the cursor right behind it, whatever bytes follow; for the
  structures with 24- or 31-bit fields this is for the values that fit them.
\<close>

theorem structures_roundtrip:
  assumes "fits_FrameHeader h" "fits_Priority p" "fits_31 (ppf_promised_stream_id pp)"
    "fits_31 (gf_last_stream_id g)" "fits_31 (wf_window_size_increment w)" "length (pgf_opaque_data pg) = 8"
  shows "(rest b = fb_Append_FrameHeader h [] @ r \<longrightarrow> DoDecode_FrameHeader b = (h, AdvanceCursor b 9)) \<and>
    (rest b = fb_Append_Priority p [] @ r \<longrightarrow> DoDecode_Priority b = (p, AdvanceCursor b 5)) \<and>
    (rest b = fb_Append_RstStream rs [] @ r \<longrightarrow> DoDecode_RstStream b = (rs, AdvanceCursor b 4)) \<and>
    (rest b = fb_Append_Setting s [] @ r \<longrightarrow> DoDecode_Setting b = (s, AdvanceCursor b 6)) \<and>
    (rest b = fb_Append_PushPromise pp [] @ r \<longrightarrow> DoDecode_PushPromise b = (pp, AdvanceCursor b 4)) \<and>
    (rest b = fb_Append_Ping pg [] @ r \<longrightarrow> DoDecode_Ping b = (pg, AdvanceCursor b 8)) \<and>
    (rest b = fb_Append_GoAway g [] @ r \<longrightarrow> DoDecode_GoAway b = (g, AdvanceCursor b 8)) \<and>
    (rest b = fb_Append_WindowUpdate w [] @ r \<longrightarrow> DoDecode_WindowUpdate b = (w, AdvanceCursor b 4)) \<and>
    (rest b = fb_Append_AltSvc a [] @ r \<longrightarrow> DoDecode_AltSvc b = (a, AdvanceCursor b 2))"
  using assms by (simp add: frame_header.dec_enc_rest priority.dec_enc_rest rst.dec_enc_rest
      setting.dec_enc_rest push_promise.dec_enc_rest ping.dec_enc_rest goaway.dec_enc_rest
      window_update.dec_enc_rest altsvc.dec_enc_rest)

theorem structures_roundtrip_witness:
  "DoDecode_FrameHeader (mkDecodeBuffer [0, 0, 5, 1, 4, 0, 0, 0, 3, 7]) =
    (\<lparr>fh_payload_length = 5, fh_stream_id = 3, fh_type = 1, fh_flags = 4\<rparr>,
     AdvanceCursor (mkDecodeBuffer [0, 0, 5, 1, 4, 0, 0, 0, 3, 7]) 9)"
  using structures_roundtrip[of "\<lparr>fh_payload_length = 5, fh_stream_id = 3, fh_type = 1, fh_flags = 4\<rparr>"
      "\<lparr>pf_stream_dependency = 1, pf_weight = 256, pf_is_exclusive = True\<rparr>" "\<lparr>ppf_promised_stream_id = 2\<rparr>"
      "\<lparr>gf_last_stream_id = 1, gf_error_code = 0\<rparr>" "\<lparr>wf_window_size_increment = 1\<rparr>"
      "\<lparr>pgf_opaque_data = [1, 2, 3, 4, 5, 6, 7, 8]\<rparr>" "mkDecodeBuffer [0, 0, 5, 1, 4, 0, 0, 0, 3, 7]" "[7]"]
  by (simp add: fits_FrameHeader_def fits_Priority_def fits_31_def fb_Append_FrameHeader_def fb_defs
      StreamIdMask_def UInt31Mask_def)

text \<open>
  C18: \<open>operator==\<close> of the priority fields does not look at the exclusive flag: two values that
  differ only in the flag compare equal although their encodings differ.
\<close>

theorem priority_eq_ignores_exclusive:
  "Http2PriorityFields_eq (v\<lparr>pf_is_exclusive := True\<rparr>) (v\<lparr>pf_is_exclusive := False\<rparr>) \<and>
   fb_Append_Priority (v\<lparr>pf_is_exclusive := True\<rparr>) buf \<noteq> fb_Append_Priority (v\<lparr>pf_is_exclusive := False\<rparr>) buf"
proof -
  let ?d = "pf_stream_dependency v AND StreamIdMask"
  have "unat ?d < 2 ^ 31"
    unfolding StreamIdMask_take unsigned_take_bit_eq by (rule take_bit_nat_less_exp)
  then have "?d OR 0x80000000 \<noteq> ?d" by (rule exclusive_bit)
  moreover have "x = y" if "fb_AppendUInt32 x buf = fb_AppendUInt32 y buf" for x y
    using that unfolding fb_AppendUInt32_def same_append_eq list.inject by (metis join_u32)
  ultimately show ?thesis
    by (auto simp: Http2PriorityFields_eq_def fb_Append_Priority_def fb_AppendUInt8_def)
qed

end
