(* ===== verification/Structure_Decoder.thy ===== *)
theory Structure_Decoder
  imports Http2_Structures
begin

text \<open>
  \<^verbatim>\<open>http2/decoder/http2_structure_decoder.h\<close> and \<^verbatim>\<open>.cc\<close>: the decoder that collects a fixed size
  structure that may be spread over several buffers. The template parameter \<open>S\<close> is given by
  \<open>S::EncodedSize()\<close> and \<open>DoDecode\<close>; the output parameter is threaded through. A pair of \<open>Start\<close>
  and \<open>Resume\<close> for structures inside a payload also tracks \<open>remaining_payload\<close>.
\<close>

record Http2StructureDecoder =
  sd_offset :: nat
  sd_buffer :: bytes

definition sizeof_buffer :: nat where
  "sizeof_buffer = 9"

definition memcpy_at :: "bytes \<Rightarrow> nat \<Rightarrow> bytes \<Rightarrow> bytes" where
  "memcpy_at dest i src = take i dest @ src @ drop (i + length src) dest"

definition IncompleteStart ::
  "Http2StructureDecoder \<Rightarrow> DecodeBuffer \<Rightarrow> nat \<Rightarrow> nat \<times> Http2StructureDecoder \<times> DecodeBuffer" where
  "IncompleteStart sd db target_len =
     (if target_len > sizeof_buffer then (0, sd, db)
      else
        let num_to_copy = MinLengthRemaining db target_len
        in (num_to_copy,
            sd\<lparr>sd_buffer := memcpy_at (sd_buffer sd) 0 (cursor_bytes db num_to_copy), sd_offset := num_to_copy\<rparr>,
            AdvanceCursor db num_to_copy))"

definition IncompleteStart_payload ::
  "Http2StructureDecoder \<Rightarrow> DecodeBuffer \<Rightarrow> nat \<Rightarrow> nat \<Rightarrow>
   DecodeStatus \<times> Http2StructureDecoder \<times> DecodeBuffer \<times> nat" where
  "IncompleteStart_payload sd db remaining_payload target_len =
     (let (n, sd, db) = IncompleteStart sd db (min target_len remaining_payload);
          remaining_payload = remaining_payload - n
      in if remaining_payload > 0 \<and> Empty db then (kDecodeInProgress, sd, db, remaining_payload)
         else (kDecodeError, sd, db, remaining_payload))"

definition ResumeFillingBuffer ::
  "Http2StructureDecoder \<Rightarrow> DecodeBuffer \<Rightarrow> nat \<Rightarrow> bool \<times> Http2StructureDecoder \<times> DecodeBuffer" where
  "ResumeFillingBuffer sd db target_len =
     (if target_len < sd_offset sd then (False, sd, db)
      else
        let needed = target_len - sd_offset sd;
            num_to_copy = MinLengthRemaining db needed
        in (needed = num_to_copy,
            sd\<lparr>sd_buffer := memcpy_at (sd_buffer sd) (sd_offset sd) (cursor_bytes db num_to_copy),
               sd_offset := sd_offset sd + num_to_copy\<rparr>,
            AdvanceCursor db num_to_copy))"

definition ResumeFillingBuffer_payload ::
  "Http2StructureDecoder \<Rightarrow> DecodeBuffer \<Rightarrow> nat \<Rightarrow> nat \<Rightarrow>
   bool \<times> Http2StructureDecoder \<times> DecodeBuffer \<times> nat" where
  "ResumeFillingBuffer_payload sd db remaining_payload target_len =
     (if target_len < sd_offset sd then (False, sd, db, remaining_payload)
      else
        let needed = target_len - sd_offset sd;
            num_to_copy = MinLengthRemaining db (min needed remaining_payload)
        in (needed = num_to_copy,
            sd\<lparr>sd_buffer := memcpy_at (sd_buffer sd) (sd_offset sd) (cursor_bytes db num_to_copy),
               sd_offset := sd_offset sd + num_to_copy\<rparr>,
            AdvanceCursor db num_to_copy, remaining_payload - num_to_copy))"

definition SD_Start ::
  "nat \<Rightarrow> (DecodeBuffer \<Rightarrow> 'a \<times> DecodeBuffer) \<Rightarrow> 'a \<Rightarrow> Http2StructureDecoder \<Rightarrow> DecodeBuffer \<Rightarrow>
   bool \<times> 'a \<times> Http2StructureDecoder \<times> DecodeBuffer" where
  "SD_Start EncodedSize DoDecode out sd db =
     (if Remaining db \<ge> EncodedSize then
        let (out, db) = DoDecode db in (True, out, sd, db)
      else
        let (_, sd, db) = IncompleteStart sd db EncodedSize in (False, out, sd, db))"

definition SD_Resume ::
  "nat \<Rightarrow> (DecodeBuffer \<Rightarrow> 'a \<times> DecodeBuffer) \<Rightarrow> 'a \<Rightarrow> Http2StructureDecoder \<Rightarrow> DecodeBuffer \<Rightarrow>
   bool \<times> 'a \<times> Http2StructureDecoder \<times> DecodeBuffer" where
  "SD_Resume EncodedSize DoDecode out sd db =
     (case ResumeFillingBuffer sd db EncodedSize of
        (True, sd, db) \<Rightarrow>
          let (out, _) = DoDecode (mkDecodeBuffer (take EncodedSize (sd_buffer sd))) in (True, out, sd, db)
      | (False, sd, db) \<Rightarrow> (False, out, sd, db))"

definition SD_Start_payload ::
  "nat \<Rightarrow> (DecodeBuffer \<Rightarrow> 'a \<times> DecodeBuffer) \<Rightarrow> 'a \<Rightarrow> Http2StructureDecoder \<Rightarrow> DecodeBuffer \<Rightarrow> nat \<Rightarrow>
   DecodeStatus \<times> 'a \<times> Http2StructureDecoder \<times> DecodeBuffer \<times> nat" where
  "SD_Start_payload EncodedSize DoDecode out sd db remaining_payload =
     (if MinLengthRemaining db remaining_payload \<ge> EncodedSize then
        let (out, db) = DoDecode db in (kDecodeDone, out, sd, db, remaining_payload - EncodedSize)
      else
        let (st, sd, db, remaining_payload) = IncompleteStart_payload sd db remaining_payload EncodedSize
        in (st, out, sd, db, remaining_payload))"

definition SD_Resume_payload ::
  "nat \<Rightarrow> (DecodeBuffer \<Rightarrow> 'a \<times> DecodeBuffer) \<Rightarrow> 'a \<Rightarrow> Http2StructureDecoder \<Rightarrow> DecodeBuffer \<Rightarrow> nat \<Rightarrow>
   bool \<times> 'a \<times> Http2StructureDecoder \<times> DecodeBuffer \<times> nat" where
  "SD_Resume_payload EncodedSize DoDecode out sd db remaining_payload =
     (case ResumeFillingBuffer_payload sd db remaining_payload EncodedSize of
        (True, sd, db, remaining_payload) \<Rightarrow>
          let (out, _) = DoDecode (mkDecodeBuffer (take EncodedSize (sd_buffer sd)))
          in (True, out, sd, db, remaining_payload)
      | (False, sd, db, remaining_payload) \<Rightarrow> (False, out, sd, db, remaining_payload))"

text \<open>A caller of the first pair: \<open>Start\<close> on the first buffer, \<open>Resume\<close> on each further one until done.\<close>

fun SD_feed_resume ::
  "nat \<Rightarrow> (DecodeBuffer \<Rightarrow> 'a \<times> DecodeBuffer) \<Rightarrow> 'a \<Rightarrow> Http2StructureDecoder \<Rightarrow> bytes list \<Rightarrow> bool \<times> 'a \<times> bytes" where
  "SD_feed_resume n dec out sd [] = (False, out, [])"
| "SD_feed_resume n dec out sd (c # cs) =
     (case SD_Resume n dec out sd (mkDecodeBuffer c) of
        (True, out, sd, db) \<Rightarrow> (True, out, rest db @ concat cs)
      | (False, out, sd, db) \<Rightarrow> SD_feed_resume n dec out sd cs)"

fun SD_feed ::
  "nat \<Rightarrow> (DecodeBuffer \<Rightarrow> 'a \<times> DecodeBuffer) \<Rightarrow> 'a \<Rightarrow> Http2StructureDecoder \<Rightarrow> bytes list \<Rightarrow> bool \<times> 'a \<times> bytes" where
  "SD_feed n dec out sd [] = (False, out, [])"
| "SD_feed n dec out sd (c # cs) =
     (case SD_Start n dec out sd (mkDecodeBuffer c) of
        (True, out, sd, db) \<Rightarrow> (True, out, rest db @ concat cs)
      | (False, out, sd, db) \<Rightarrow> SD_feed_resume n dec out sd cs)"

section \<open>What has been collected\<close>

definition sd_ok :: "Http2StructureDecoder \<Rightarrow> bool" where
  "sd_ok sd \<longleftrightarrow> length (sd_buffer sd) = 9 \<and> sd_offset sd \<le> 9"

definition filled :: "Http2StructureDecoder \<Rightarrow> bytes" where
  "filled sd = take (sd_offset sd) (sd_buffer sd)"

lemma length_filled: "sd_ok sd \<Longrightarrow> length (filled sd) = sd_offset sd"
  by (simp add: sd_ok_def filled_def)

lemma filled_put:
  assumes "sd_ok sd" "sd_offset sd + length xs \<le> 9"
  shows "sd_ok (sd\<lparr>sd_buffer := memcpy_at (sd_buffer sd) (sd_offset sd) xs, sd_offset := sd_offset sd + length xs\<rparr>)"
    "filled (sd\<lparr>sd_buffer := memcpy_at (sd_buffer sd) (sd_offset sd) xs, sd_offset := sd_offset sd + length xs\<rparr>)
      = filled sd @ xs"
  using assms by (auto simp: sd_ok_def filled_def memcpy_at_def)

lemma filled_start:
  assumes "length (sd_buffer sd) = 9" "length xs \<le> 9"
  shows "sd_ok (sd\<lparr>sd_buffer := memcpy_at (sd_buffer sd) 0 xs, sd_offset := length xs\<rparr>)"
    "filled (sd\<lparr>sd_buffer := memcpy_at (sd_buffer sd) 0 xs, sd_offset := length xs\<rparr>) = xs"
  using assms by (auto simp: sd_ok_def filled_def memcpy_at_def)

locale collected_struct = wire_struct size dec enc fits
  for size and dec :: "DecodeBuffer \<Rightarrow> 'a \<times> DecodeBuffer" and enc and fits +
  assumes size_le: "size \<le> sizeof_buffer"
begin

lemma SD_Start_whole:
  "size \<le> length (rest db) \<Longrightarrow>
   SD_Start size dec out sd db = (True, fst (dec (mkDecodeBuffer (take size (rest db)))), sd, AdvanceCursor db size)"
  by (subst SD_Start_def, subst dec_local) (simp_all add: rest_simps)

lemma SD_Start_part:
  assumes "length (rest db) < size" "length (sd_buffer sd) = 9"
  shows "\<exists>sd'. SD_Start size dec out sd db = (False, out, sd', AdvanceCursor db (length (rest db))) \<and>
    sd_ok sd' \<and> filled sd' = rest db"
proof -
  have "length (rest db) \<le> 9" using assms(1) size_le by (simp add: sizeof_buffer_def)
  from filled_start[OF assms(2) this] assms(1) size_le show ?thesis
    by (simp add: SD_Start_def IncompleteStart_def Let_def rest_simps min_def)
qed

lemma SD_Resume_whole:
  assumes "sd_ok sd" "sd_offset sd \<le> size" "size \<le> sd_offset sd + length (rest db)"
  shows "\<exists>sd'. SD_Resume size dec out sd db =
      (True, fst (dec (mkDecodeBuffer (filled sd @ take (size - sd_offset sd) (rest db)))), sd',
       AdvanceCursor db (size - sd_offset sd)) \<and> sd_ok sd'"
proof -
  let ?xs = "take (size - sd_offset sd) (rest db)"
  let ?sd = "sd\<lparr>sd_buffer := memcpy_at (sd_buffer sd) (sd_offset sd) ?xs, sd_offset := sd_offset sd + length ?xs\<rparr>"
  have len: "length ?xs = size - sd_offset sd" using assms by simp
  then have "sd_offset sd + length ?xs \<le> 9" using assms(2) size_le by (simp add: sizeof_buffer_def)
  note f = filled_put[OF assms(1) this]
  have "ResumeFillingBuffer sd db size = (True, ?sd, AdvanceCursor db (size - sd_offset sd))"
    using assms len by (simp add: ResumeFillingBuffer_def Let_def rest_simps min_def)
  moreover have "take size (sd_buffer ?sd) = filled ?sd" using assms(2) len by (simp add: filled_def)
  ultimately show ?thesis using f by (simp add: SD_Resume_def split: prod.split)
qed

lemma SD_Resume_part:
  assumes "sd_ok sd" "sd_offset sd + length (rest db) < size"
  shows "\<exists>sd'. SD_Resume size dec out sd db = (False, out, sd', AdvanceCursor db (length (rest db))) \<and>
    sd_ok sd' \<and> filled sd' = filled sd @ rest db"
proof -
  let ?sd = "sd\<lparr>sd_buffer := memcpy_at (sd_buffer sd) (sd_offset sd) (rest db), sd_offset := sd_offset sd + length (rest db)\<rparr>"
  have "sd_offset sd + length (rest db) \<le> 9" using assms(2) size_le by (simp add: sizeof_buffer_def)
  note f = filled_put[OF assms(1) this]
  have "ResumeFillingBuffer sd db size = (False, ?sd, AdvanceCursor db (length (rest db)))"
    using assms by (simp add: ResumeFillingBuffer_def Let_def rest_simps min_def)
  then show ?thesis using f by (simp add: SD_Resume_def)
qed

lemma SD_feed_resume_whole:
  "sd_ok sd \<Longrightarrow> sd_offset sd < size \<Longrightarrow> size \<le> sd_offset sd + length (concat cs) \<Longrightarrow>
   SD_feed_resume size dec out sd cs =
     (True, fst (dec (mkDecodeBuffer (take size (filled sd @ concat cs)))), drop (size - sd_offset sd) (concat cs))"
proof (induction cs arbitrary: sd)
  case (Cons c cs)
  show ?case
  proof (cases "size \<le> sd_offset sd + length c")
    case True
    with SD_Resume_whole[of sd "mkDecodeBuffer c" out] Cons.prems show ?thesis
      by (auto simp: rest_simps length_filled)
  next
    case False
    with SD_Resume_part[of sd "mkDecodeBuffer c" out] Cons.prems(1)
    obtain sd' where sd': "SD_Resume size dec out sd (mkDecodeBuffer c) =
        (False, out, sd', AdvanceCursor (mkDecodeBuffer c) (length c))"
      "sd_ok sd'" "filled sd' = filled sd @ c" by auto
    then have "sd_offset sd' = sd_offset sd + length c"
      using length_filled[of sd'] length_filled[OF Cons.prems(1)] by simp
    then show ?thesis using sd' Cons.IH[of sd'] Cons.prems False by simp
  qed
qed simp

lemma SD_feed_whole:
  assumes "length (sd_buffer sd) = 9" "css \<noteq> []" "size \<le> length (concat css)"
  shows "SD_feed size dec out sd css =
    (True, fst (dec (mkDecodeBuffer (take size (concat css)))), drop size (concat css))"
proof -
  obtain c cs where css: "css = c # cs" using assms(2) by (cases css) auto
  show ?thesis
  proof (cases "size \<le> length c")
    case True
    then show ?thesis using SD_Start_whole[of "mkDecodeBuffer c"] by (simp add: css rest_simps)
  next
    case False
    with SD_Start_part[of "mkDecodeBuffer c" sd out] assms(1)
    obtain sd' where sd': "SD_Start size dec out sd (mkDecodeBuffer c) =
        (False, out, sd', AdvanceCursor (mkDecodeBuffer c) (length c))" "sd_ok sd'" "filled sd' = c"
      by auto
    moreover have "sd_offset sd' = length c" using length_filled[of sd'] sd' by simp
    ultimately show ?thesis
      using SD_feed_resume_whole[of sd' cs out] False assms(3) by (simp add: css)
  qed
qed

text \<open>
  With a payload limit: a structure that does not fit the remaining payload is an error, found as
  soon as the end of the payload has been seen; otherwise the outcome is as without a limit.
\<close>

lemma SD_Start_payload_whole:
  "size \<le> length (rest db) \<Longrightarrow> size \<le> rp \<Longrightarrow>
   SD_Start_payload size dec out sd db rp =
     (kDecodeDone, fst (dec (mkDecodeBuffer (take size (rest db)))), sd, AdvanceCursor db size, rp - size)"
  by (subst SD_Start_payload_def, subst dec_local) (simp_all add: rest_simps)

lemma SD_Start_payload_part:
  assumes "length (rest db) < size" "length (rest db) < rp" "length (sd_buffer sd) = 9"
  shows "\<exists>sd'. SD_Start_payload size dec out sd db rp =
      (kDecodeInProgress, out, sd', AdvanceCursor db (length (rest db)), rp - length (rest db)) \<and>
    sd_ok sd' \<and> filled sd' = rest db"
proof -
  have "length (rest db) \<le> 9" using assms(1) size_le by (simp add: sizeof_buffer_def)
  from filled_start[OF assms(3) this] assms(1,2) size_le show ?thesis
    by (simp add: SD_Start_payload_def IncompleteStart_payload_def IncompleteStart_def Let_def rest_simps min_def)
qed

lemma SD_Start_payload_short:
  assumes "rp < size" "rp \<le> length (rest db)"
  shows "\<exists>sd'. SD_Start_payload size dec out sd db rp = (kDecodeError, out, sd', AdvanceCursor db rp, 0) \<and>
    (length (sd_buffer sd) = 9 \<longrightarrow> sd_ok sd')"
proof -
  have "rp \<le> 9" using assms(1) size_le by (simp add: sizeof_buffer_def)
  then have "length (sd_buffer sd) = 9 \<Longrightarrow>
      sd_ok (sd\<lparr>sd_buffer := memcpy_at (sd_buffer sd) 0 (take rp (rest db)), sd_offset := rp\<rparr>)"
    using filled_start(1)[of sd "take rp (rest db)"] assms(2) by (simp add: min_absorb2)
  then show ?thesis using assms size_le
    by (simp add: SD_Start_payload_def IncompleteStart_payload_def IncompleteStart_def Let_def rest_simps min_def
        split: if_splits)
qed

lemma SD_Resume_payload_whole:
  assumes "sd_ok sd" "sd_offset sd \<le> size" "size \<le> sd_offset sd + length (rest db)" "size - sd_offset sd \<le> rp"
  shows "\<exists>sd'. SD_Resume_payload size dec out sd db rp =
      (True, fst (dec (mkDecodeBuffer (filled sd @ take (size - sd_offset sd) (rest db)))), sd',
       AdvanceCursor db (size - sd_offset sd), rp - (size - sd_offset sd)) \<and> sd_ok sd'"
proof -
  let ?xs = "take (size - sd_offset sd) (rest db)"
  let ?sd = "sd\<lparr>sd_buffer := memcpy_at (sd_buffer sd) (sd_offset sd) ?xs, sd_offset := sd_offset sd + length ?xs\<rparr>"
  have len: "length ?xs = size - sd_offset sd" using assms by simp
  then have "sd_offset sd + length ?xs \<le> 9" using assms(2) size_le by (simp add: sizeof_buffer_def)
  note f = filled_put[OF assms(1) this]
  have "ResumeFillingBuffer_payload sd db rp size =
      (True, ?sd, AdvanceCursor db (size - sd_offset sd), rp - (size - sd_offset sd))"
    using assms len by (simp add: ResumeFillingBuffer_payload_def Let_def rest_simps min_def)
  moreover have "take size (sd_buffer ?sd) = filled ?sd" using assms(2) len by (simp add: filled_def)
  ultimately show ?thesis using f by (simp add: SD_Resume_payload_def split: prod.split)
qed

lemma SD_Resume_payload_part:
  assumes "sd_ok sd" "n = min (length (rest db)) rp" "sd_offset sd + n < size"
  shows "\<exists>sd'. SD_Resume_payload size dec out sd db rp = (False, out, sd', AdvanceCursor db n, rp - n) \<and>
    sd_ok sd' \<and> filled sd' = filled sd @ take n (rest db)"
proof -
  let ?xs = "take n (rest db)"
  let ?sd = "sd\<lparr>sd_buffer := memcpy_at (sd_buffer sd) (sd_offset sd) ?xs, sd_offset := sd_offset sd + length ?xs\<rparr>"
  have len: "length ?xs = n" using assms(2) by simp
  then have "sd_offset sd + length ?xs \<le> 9" using assms(3) size_le by (simp add: sizeof_buffer_def)
  note f = filled_put[OF assms(1) this]
  have "min (min (size - sd_offset sd) rp) (length (rest db)) = n" using assms(2,3) by linarith
  then have "ResumeFillingBuffer_payload sd db rp size = (False, ?sd, AdvanceCursor db n, rp - n)"
    using assms(3) len by (simp add: ResumeFillingBuffer_payload_def Let_def rest_simps)
  then show ?thesis using f by (simp add: SD_Resume_payload_def)
qed

end

text \<open>All nine structures fit the nine-byte buffer.\<close>

interpretation c_header: collected_struct 9 DoDecode_FrameHeader fb_Append_FrameHeader fits_FrameHeader
  by unfold_locales (simp add: sizeof_buffer_def)

interpretation c_priority: collected_struct 5 DoDecode_Priority fb_Append_Priority fits_Priority
  by unfold_locales (simp add: sizeof_buffer_def)

interpretation c_rst: collected_struct 4 DoDecode_RstStream fb_Append_RstStream "\<lambda>_. True"
  by unfold_locales (simp add: sizeof_buffer_def)

interpretation c_setting: collected_struct 6 DoDecode_Setting fb_Append_Setting "\<lambda>_. True"
  by unfold_locales (simp add: sizeof_buffer_def)

interpretation c_push_promise: collected_struct 4 DoDecode_PushPromise fb_Append_PushPromise
  "\<lambda>v. fits_31 (ppf_promised_stream_id v)"
  by unfold_locales (simp add: sizeof_buffer_def)

interpretation c_ping: collected_struct 8 DoDecode_Ping fb_Append_Ping "\<lambda>v. length (pgf_opaque_data v) = 8"
  by unfold_locales (simp add: sizeof_buffer_def)

interpretation c_goaway: collected_struct 8 DoDecode_GoAway fb_Append_GoAway "\<lambda>v. fits_31 (gf_last_stream_id v)"
  by unfold_locales (simp add: sizeof_buffer_def)

interpretation c_window_update: collected_struct 4 DoDecode_WindowUpdate fb_Append_WindowUpdate
  "\<lambda>v. fits_31 (wf_window_size_increment v)"
  by unfold_locales (simp add: sizeof_buffer_def)

interpretation c_altsvc: collected_struct 2 DoDecode_AltSvc fb_Append_AltSvc "\<lambda>_. True"
  by unfold_locales (simp add: sizeof_buffer_def)

text \<open>
  C16: The structure decoder reassembles a frame header however the transport cuts it: the header
  the builder wrote comes out, and the bytes after it are left unread.
\<close>

theorem frame_header_fragments:
  assumes "fits_FrameHeader h" "concat css = fb_Append_FrameHeader h [] @ r" "css \<noteq> []"
    "length (sd_buffer sd) = 9"
  shows "SD_feed 9 DoDecode_FrameHeader out sd css = (True, h, r)"
  using c_header.SD_feed_whole[OF assms(4,3), of out] frame_header.length_enc[OF assms(1)]
    frame_header.dec_enc[OF assms(1)] by (simp add: assms(2))

theorem frame_header_fragments_witness:
  "SD_feed 9 DoDecode_FrameHeader \<lparr>fh_payload_length = 0, fh_stream_id = 0, fh_type = 0, fh_flags = 0\<rparr>
     \<lparr>sd_offset = 0, sd_buffer = replicate 9 0\<rparr>
     [[0, 0], [5, 1, 4, 0, 0], [0, 3, 7]] =
   (True, \<lparr>fh_payload_length = 5, fh_stream_id = 3, fh_type = 1, fh_flags = 4\<rparr>, [7])"
  using frame_header_fragments[of "\<lparr>fh_payload_length = 5, fh_stream_id = 3, fh_type = 1, fh_flags = 4\<rparr>"
      "[[0, 0], [5, 1, 4, 0, 0], [0, 3, 7]]" "[7]" "\<lparr>sd_offset = 0, sd_buffer = replicate 9 0\<rparr>"
      "\<lparr>fh_payload_length = 0, fh_stream_id = 0, fh_type = 0, fh_flags = 0\<rparr>"]
  by (simp add: fits_FrameHeader_def fb_Append_FrameHeader_def fb_defs StreamIdMask_def UInt31Mask_def
      del: SD_feed.simps)

end
