(* ===== verification/Frame_Decoder_State.thy ===== *)
theory Frame_Decoder_State
  imports Structure_Decoder
begin

text \<open>
  \<^verbatim>\<open>http2/decoder/frame_decoder_state.h\<close> and \<^verbatim>\<open>.cc\<close>: the state that the frame decoder shares
  with the payload decoders, and the calls of \<^verbatim>\<open>http2/decoder/http2_frame_decoder_listener.h\<close>.
  The listener is the sequence of the calls it has received. \<open>remaining_payload_\<close> and
  \<open>remaining_padding_\<close> are 32-bit counters; the operations that could wrap are written modulo
  \<open>2 ^ 32\<close>.

  The second half is the contract of a payload decoder. A reference grammar says, for a frame
  header and any prefix of the frame's payload, which status the decoder has reached and which
  calls it has made by then; calls that hand over a run of bytes are compared byte by byte, so
  that it does not matter how the run was cut. A decoder meets the contract when \<open>Start\<close> and
  \<open>Resume\<close> follow the grammar from prefix to prefix.
\<close>

section \<open>The listener\<close>

datatype frame_event =
    OnFrameHeader Http2FrameHeader
  | OnDataStart Http2FrameHeader
  | OnDataPayload bytes
  | OnDataEnd
  | OnHeadersStart Http2FrameHeader
  | OnHeadersPriority Http2PriorityFields
  | OnHpackFragment bytes
  | OnHeadersEnd
  | OnPriorityFrame Http2FrameHeader Http2PriorityFields
  | OnContinuationStart Http2FrameHeader
  | OnContinuationEnd
  | OnPadLength nat
  | OnPadding bytes
  | OnRstStream Http2FrameHeader u32
  | OnSettingsStart Http2FrameHeader
  | OnSetting Http2SettingFields
  | OnSettingsEnd
  | OnSettingsAck Http2FrameHeader
  | OnPushPromiseStart Http2FrameHeader Http2PushPromiseFields nat
  | OnPushPromiseEnd
  | OnPing Http2FrameHeader Http2PingFields
  | OnPingAck Http2FrameHeader Http2PingFields
  | OnGoAwayStart Http2FrameHeader Http2GoAwayFields
  | OnGoAwayOpaqueData bytes
  | OnGoAwayEnd
  | OnWindowUpdate Http2FrameHeader u32
  | OnAltSvcStart Http2FrameHeader nat nat
  | OnAltSvcOriginData bytes
  | OnAltSvcValueData bytes
  | OnAltSvcEnd
  | OnUnknownStart Http2FrameHeader
  | OnUnknownPayload bytes
  | OnUnknownEnd
  | OnPaddingTooLong Http2FrameHeader nat
  | OnFrameSizeError Http2FrameHeader

section \<open>The state\<close>

record FrameDecoderState =
  fds_listener :: "frame_event list"
  fds_frame_header :: Http2FrameHeader
  fds_remaining_payload :: nat
  fds_remaining_padding :: nat
  fds_structure_decoder :: Http2StructureDecoder

definition notify :: "frame_event \<Rightarrow> FrameDecoderState \<Rightarrow> FrameDecoderState" where
  "notify e st = st\<lparr>fds_listener := fds_listener st @ [e]\<rparr>"

definition payload_length :: "Http2FrameHeader \<Rightarrow> nat" where
  "payload_length h = unat (fh_payload_length h)"

definition InitializeRemainders :: "FrameDecoderState \<Rightarrow> FrameDecoderState" where
  "InitializeRemainders st =
     st\<lparr>fds_remaining_payload := payload_length (fds_frame_header st), fds_remaining_padding := 0\<rparr>"

definition remaining_total_payload :: "FrameDecoderState \<Rightarrow> nat" where
  "remaining_total_payload st = (fds_remaining_payload st + fds_remaining_padding st) mod 2 ^ 32"

definition AvailablePayload :: "FrameDecoderState \<Rightarrow> DecodeBuffer \<Rightarrow> nat" where
  "AvailablePayload st db = MinLengthRemaining db (fds_remaining_payload st)"

definition AvailablePadding :: "FrameDecoderState \<Rightarrow> DecodeBuffer \<Rightarrow> nat" where
  "AvailablePadding st db = MinLengthRemaining db (fds_remaining_padding st)"

definition ConsumePayload :: "nat \<Rightarrow> FrameDecoderState \<Rightarrow> FrameDecoderState" where
  "ConsumePayload amount st =
     st\<lparr>fds_remaining_payload := nat ((int (fds_remaining_payload st) - int amount) mod 2 ^ 32)\<rparr>"

definition ReportFrameSizeError :: "FrameDecoderState \<Rightarrow> DecodeStatus \<times> FrameDecoderState" where
  "ReportFrameSizeError st = (kDecodeError, notify (OnFrameSizeError (fds_frame_header st)) st)"

definition StartDecodingStructureInPayload ::
  "nat \<Rightarrow> (DecodeBuffer \<Rightarrow> 'a \<times> DecodeBuffer) \<Rightarrow> 'a \<Rightarrow> FrameDecoderState \<Rightarrow> DecodeBuffer \<Rightarrow>
   DecodeStatus \<times> 'a \<times> FrameDecoderState \<times> DecodeBuffer" where
  "StartDecodingStructureInPayload EncodedSize DoDecode out st db =
     (let (status, out, sd, db, remaining) =
            SD_Start_payload EncodedSize DoDecode out (fds_structure_decoder st) db (fds_remaining_payload st);
          st = st\<lparr>fds_structure_decoder := sd, fds_remaining_payload := remaining\<rparr>
      in if status \<noteq> kDecodeError then (status, out, st, db)
         else let (status, st) = ReportFrameSizeError st in (status, out, st, db))"

definition ResumeDecodingStructureInPayload ::
  "nat \<Rightarrow> (DecodeBuffer \<Rightarrow> 'a \<times> DecodeBuffer) \<Rightarrow> 'a \<Rightarrow> FrameDecoderState \<Rightarrow> DecodeBuffer \<Rightarrow>
   DecodeStatus \<times> 'a \<times> FrameDecoderState \<times> DecodeBuffer" where
  "ResumeDecodingStructureInPayload EncodedSize DoDecode out st db =
     (let (finished, out, sd, db, remaining) =
            SD_Resume_payload EncodedSize DoDecode out (fds_structure_decoder st) db (fds_remaining_payload st);
          st = st\<lparr>fds_structure_decoder := sd, fds_remaining_payload := remaining\<rparr>
      in if finished then (kDecodeDone, out, st, db)
         else if fds_remaining_payload st > 0 then (kDecodeInProgress, out, st, db)
         else let (status, st) = ReportFrameSizeError st in (status, out, st, db))"

definition ReadPadLength ::
  "FrameDecoderState \<Rightarrow> DecodeBuffer \<Rightarrow> bool \<Rightarrow> DecodeStatus \<times> FrameDecoderState \<times> DecodeBuffer" where
  "ReadPadLength st db report_pad_length =
     (let total_payload = payload_length (fds_frame_header st)
      in if HasData db then
           let (b, db) = DecodeUInt8 db;
               pad_length = unat b;
               total_padding = pad_length + 1
           in if total_padding \<le> total_payload then
                let st = st\<lparr>fds_remaining_padding := pad_length,
                            fds_remaining_payload := total_payload - total_padding\<rparr>;
                    st = (if report_pad_length then notify (OnPadLength pad_length) st else st)
                in (kDecodeDone, st, db)
              else
                let missing_length = total_padding - total_payload;
                    st = st\<lparr>fds_remaining_payload := nat ((int total_payload - 1) mod 2 ^ 32),
                            fds_remaining_padding := 0\<rparr>
                in (kDecodeError, notify (OnPaddingTooLong (fds_frame_header st) missing_length) st, db)
         else if total_payload = 0 then
           let st = st\<lparr>fds_remaining_payload := 0, fds_remaining_padding := 0\<rparr>
           in (kDecodeError, notify (OnPaddingTooLong (fds_frame_header st) 1) st, db)
         else (kDecodeInProgress, st, db))"

definition SkipPadding ::
  "FrameDecoderState \<Rightarrow> DecodeBuffer \<Rightarrow> bool \<times> FrameDecoderState \<times> DecodeBuffer" where
  "SkipPadding st db =
     (let avail = AvailablePadding st db;
          (st, db) =
            (if avail > 0 then
               let st = notify (OnPadding (cursor_bytes db avail)) st
               in (st\<lparr>fds_remaining_padding := fds_remaining_padding st - avail\<rparr>, AdvanceCursor db avail)
             else (st, db))
      in (fds_remaining_padding st = 0, st, db))"

definition StartDecodingFrameHeader ::
  "FrameDecoderState \<Rightarrow> DecodeBuffer \<Rightarrow> bool \<times> FrameDecoderState \<times> DecodeBuffer" where
  "StartDecodingFrameHeader st db =
     (let (finished, h, sd, db) = SD_Start 9 DoDecode_FrameHeader (fds_frame_header st) (fds_structure_decoder st) db
      in (finished, st\<lparr>fds_frame_header := h, fds_structure_decoder := sd\<rparr>, db))"

definition ResumeDecodingFrameHeader ::
  "FrameDecoderState \<Rightarrow> DecodeBuffer \<Rightarrow> bool \<times> FrameDecoderState \<times> DecodeBuffer" where
  "ResumeDecodingFrameHeader st db =
     (let (finished, h, sd, db) = SD_Resume 9 DoDecode_FrameHeader (fds_frame_header st) (fds_structure_decoder st) db
      in (finished, st\<lparr>fds_frame_header := h, fds_structure_decoder := sd\<rparr>, db))"

definition fds_RetainFlags :: "byte \<Rightarrow> FrameDecoderState \<Rightarrow> FrameDecoderState" where
  "fds_RetainFlags valid_flags st = st\<lparr>fds_frame_header := RetainFlags valid_flags (fds_frame_header st)\<rparr>"

definition fds_ClearFlags :: "FrameDecoderState \<Rightarrow> FrameDecoderState" where
  "fds_ClearFlags st = st\<lparr>fds_frame_header := (fds_frame_header st)\<lparr>fh_flags := 0\<rparr>\<rparr>"

text \<open>
  The three statements with which the payload decoders hand a run of payload bytes over:
  \<open>listener()->On...(db->cursor(), avail); db->AdvanceCursor(avail); ConsumePayload(avail)\<close>.
\<close>

definition report_payload ::
  "(bytes \<Rightarrow> frame_event) \<Rightarrow> nat \<Rightarrow> FrameDecoderState \<Rightarrow> DecodeBuffer \<Rightarrow> FrameDecoderState \<times> DecodeBuffer" where
  "report_payload event avail st db =
     (ConsumePayload avail (notify (event (cursor_bytes db avail)) st), AdvanceCursor db avail)"

text \<open>The same when something is available.\<close>

definition report_available ::
  "(bytes \<Rightarrow> frame_event) \<Rightarrow> nat \<Rightarrow> FrameDecoderState \<Rightarrow> DecodeBuffer \<Rightarrow> FrameDecoderState \<times> DecodeBuffer" where
  "report_available event avail st db =
     (if avail > 0 then report_payload event avail st db else (st, db))"

end
