(* ===== verification/Payload_Contract.thy ===== *)
theory Payload_Contract
  imports Frame_Decoder_State
begin

text \<open>
  The contract between the frame decoder and its payload decoders, and what the operations of
  \<open>FrameDecoderState\<close> do to the unread bytes and to the calls received.
\<close>

section \<open>Calls up to the cutting of byte runs\<close>

fun expand1 :: "frame_event \<Rightarrow> frame_event list" where
  "expand1 (OnDataPayload d) = map (\<lambda>b. OnDataPayload [b]) d"
| "expand1 (OnHpackFragment d) = map (\<lambda>b. OnHpackFragment [b]) d"
| "expand1 (OnPadding d) = map (\<lambda>b. OnPadding [b]) d"
| "expand1 (OnGoAwayOpaqueData d) = map (\<lambda>b. OnGoAwayOpaqueData [b]) d"
| "expand1 (OnAltSvcOriginData d) = map (\<lambda>b. OnAltSvcOriginData [b]) d"
| "expand1 (OnAltSvcValueData d) = map (\<lambda>b. OnAltSvcValueData [b]) d"
| "expand1 (OnUnknownPayload d) = map (\<lambda>b. OnUnknownPayload [b]) d"
| "expand1 e = [e]"

definition expand :: "frame_event list \<Rightarrow> frame_event list" where
  "expand es = concat (map expand1 es)"

lemma expand_simps [simp]:
  "expand [] = []" "expand (e # es) = expand1 e @ expand es" "expand (es @ fs) = expand es @ expand fs"
  by (simp_all add: expand_def)

text \<open>A run of bytes: what it expands to does not depend on where it is cut.\<close>

definition byte_run :: "(bytes \<Rightarrow> frame_event) \<Rightarrow> bool" where
  "byte_run event \<longleftrightarrow> (\<forall>d. expand1 (event d) = map (\<lambda>b. event [b]) d)"

lemma byte_runs [simp]:
  "byte_run OnDataPayload" "byte_run OnHpackFragment" "byte_run OnPadding" "byte_run OnGoAwayOpaqueData"
  "byte_run OnAltSvcOriginData" "byte_run OnAltSvcValueData" "byte_run OnUnknownPayload"
  by (simp_all add: byte_run_def)

lemma byte_run_append: "byte_run ev \<Longrightarrow> expand1 (ev (xs @ ys)) = expand1 (ev xs) @ expand1 (ev ys)"
  by (simp add: byte_run_def)

lemma byte_run_Nil: "byte_run ev \<Longrightarrow> expand1 (ev []) = []"
  by (simp add: byte_run_def)

section \<open>Reading within a buffer\<close>

text \<open>\<open>reads db db'\<close>: some of the unread bytes were read, and nothing beyond them.\<close>

definition reads :: "DecodeBuffer \<Rightarrow> DecodeBuffer \<Rightarrow> bool" where
  "reads db db' \<longleftrightarrow> (\<exists>k \<le> length (rest db). db' = AdvanceCursor db k)"

lemma reads_AdvanceCursor [simp]: "reads db (AdvanceCursor db k) \<longleftrightarrow> k \<le> length (rest db)"
proof -
  have "k = k'" if "AdvanceCursor db k = AdvanceCursor db k'" for k'
    using that Offset_AdvanceCursor[of db k] Offset_AdvanceCursor[of db k'] by (metis add_left_cancel)
  then show ?thesis unfolding reads_def by metis
qed

lemma reads_refl [simp]: "reads db db"
  using reads_AdvanceCursor[of db 0] by (simp only: AdvanceCursor_0)

lemma reads_trans: "reads a b \<Longrightarrow> reads b c \<Longrightarrow> reads a c"
proof -
  assume "reads a b" "reads b c"
  then obtain k l where "k \<le> length (rest a)" "b = AdvanceCursor a k" "l \<le> length (rest b)" "c = AdvanceCursor b l"
    by (auto simp: reads_def)
  then show ?thesis by (simp add: AdvanceCursor_add rest_AdvanceCursor)
qed

section \<open>The operations of the shared state\<close>

lemma notify_simps [simp]:
  "fds_listener (notify e st) = fds_listener st @ [e]"
  "fds_frame_header (notify e st) = fds_frame_header st"
  "fds_remaining_payload (notify e st) = fds_remaining_payload st"
  "fds_remaining_padding (notify e st) = fds_remaining_padding st"
  "fds_structure_decoder (notify e st) = fds_structure_decoder st"
  by (simp_all add: notify_def)

lemma InitializeRemainders_simps [simp]:
  "fds_listener (InitializeRemainders st) = fds_listener st"
  "fds_frame_header (InitializeRemainders st) = fds_frame_header st"
  "fds_remaining_payload (InitializeRemainders st) = payload_length (fds_frame_header st)"
  "fds_remaining_padding (InitializeRemainders st) = 0"
  "fds_structure_decoder (InitializeRemainders st) = fds_structure_decoder st"
  by (simp_all add: InitializeRemainders_def)

lemma payload_length_bound: "payload_length h < 2 ^ 32"
  using unsigned_less[of "fh_payload_length h", where 'a = nat] by (simp add: payload_length_def)

lemma nat_wrap:
  assumes "k \<le> n" "n < 2 ^ w"
  shows "nat ((int n - int k) mod 2 ^ w) = n - k"
proof -
  obtain m where m: "n = m + k" using assms(1) by (metis le_add_diff_inverse2)
  then have "(int n - int k) mod 2 ^ w = int (m mod 2 ^ w)" by (simp add: zmod_int)
  with m assms(2) show ?thesis by simp
qed

lemma ConsumePayload_sub:
  assumes "n \<le> fds_remaining_payload st" "fds_remaining_payload st < 2 ^ 32"
  shows "ConsumePayload n st = st\<lparr>fds_remaining_payload := fds_remaining_payload st - n\<rparr>"
  unfolding ConsumePayload_def nat_wrap[OF assms] ..

lemma report_payload_sub:
  assumes "n \<le> fds_remaining_payload st" "fds_remaining_payload st < 2 ^ 32"
  shows "report_payload ev n st db =
    ((notify (ev (take n (rest db))) st)\<lparr>fds_remaining_payload := fds_remaining_payload st - n\<rparr>, AdvanceCursor db n)"
  using assms by (simp add: report_payload_def ConsumePayload_sub rest_simps)

lemma report_payload_events:
  assumes "n \<le> fds_remaining_payload st" "fds_remaining_payload st < 2 ^ 32" "byte_run ev"
  shows "\<exists>es. report_payload ev n st db =
      (st\<lparr>fds_listener := fds_listener st @ es, fds_remaining_payload := fds_remaining_payload st - n\<rparr>, AdvanceCursor db n) \<and>
    expand es = expand1 (ev (take n (rest db)))"
  using assms by (auto simp: report_payload_sub notify_def)

lemma report_available_events:
  assumes "n \<le> fds_remaining_payload st" "fds_remaining_payload st < 2 ^ 32" "byte_run ev"
  shows "\<exists>es. report_available ev n st db =
      (st\<lparr>fds_listener := fds_listener st @ es, fds_remaining_payload := fds_remaining_payload st - n\<rparr>, AdvanceCursor db n) \<and>
    expand es = expand1 (ev (take n (rest db)))"
proof (cases "n = 0")
  case True
  then show ?thesis
    using assms(3) by (intro exI[of _ "[]"]) (simp add: report_available_def AdvanceCursor_0 byte_run_Nil)
qed (use report_payload_events[OF assms] in \<open>auto simp: report_available_def\<close>)

text \<open>\<open>state_ok\<close>: what holds of the shared state in every call of a payload decoder for a header.\<close>

definition state_ok :: "Http2FrameHeader \<Rightarrow> FrameDecoderState \<Rightarrow> bool" where
  "state_ok h st \<longleftrightarrow> fds_frame_header st = h \<and> length (sd_buffer (fds_structure_decoder st)) = 9"

lemma state_ok_simps [simp]:
  "state_ok h (notify e st) = state_ok h st"
  "state_ok h (InitializeRemainders st) = state_ok h st"
  "state_ok h (st\<lparr>fds_remaining_payload := n\<rparr>) = state_ok h st"
  "state_ok h (st\<lparr>fds_listener := es\<rparr>) = state_ok h st"
  "state_ok h (st\<lparr>fds_remaining_padding := n\<rparr>) = state_ok h st"
  by (simp_all add: state_ok_def)

lemma state_ok_header: "state_ok h st \<Longrightarrow> fds_frame_header st = h"
  by (simp add: state_ok_def)

text \<open>
  Reading the bytes that remain of a fixed size structure. \<open>got\<close> are the bytes collected before,
  \<open>n\<close> is the payload that remains.
\<close>

definition collecting :: "bytes \<Rightarrow> FrameDecoderState \<Rightarrow> bool" where
  "collecting got st \<longleftrightarrow> sd_ok (fds_structure_decoder st) \<and> filled (fds_structure_decoder st) = got"

lemma collecting_ok: "collecting got st \<Longrightarrow> length (sd_buffer (fds_structure_decoder st)) = 9"
  by (simp add: collecting_def sd_ok_def)

text \<open>The three outcomes of reading a structure, from the bytes \<open>got\<close> collected before this buffer.\<close>

definition struct_outcome ::
  "nat \<Rightarrow> (DecodeBuffer \<Rightarrow> 'a \<times> DecodeBuffer) \<Rightarrow> 'a \<Rightarrow> bytes \<Rightarrow> FrameDecoderState \<Rightarrow> DecodeBuffer \<Rightarrow>
   DecodeStatus \<times> 'a \<times> FrameDecoderState \<times> DecodeBuffer \<Rightarrow> bool" where
  "struct_outcome sz dec out got st db result \<longleftrightarrow>
     (let n = fds_remaining_payload st; r = rest db; need = sz - length got in
      if need \<le> length r \<and> need \<le> n then
        \<exists>sd. result = (kDecodeDone, fst (dec (mkDecodeBuffer (got @ take need r))),
                       st\<lparr>fds_structure_decoder := sd, fds_remaining_payload := n - need\<rparr>, AdvanceCursor db need) \<and>
             length (sd_buffer sd) = 9
      else if length r < n then
        \<exists>sd. result = (kDecodeInProgress, out,
                       st\<lparr>fds_structure_decoder := sd, fds_remaining_payload := n - length r\<rparr>,
                       AdvanceCursor db (length r)) \<and> sd_ok sd \<and> filled sd = got @ r
      else
        \<exists>sd. result = (kDecodeError, out,
                       notify (OnFrameSizeError (fds_frame_header st))
                         (st\<lparr>fds_structure_decoder := sd, fds_remaining_payload := 0\<rparr>),
                       AdvanceCursor db n) \<and> length (sd_buffer sd) = 9)"

context collected_struct
begin

lemma Start_structure:
  assumes "length (sd_buffer (fds_structure_decoder st)) = 9"
  shows "struct_outcome size dec out [] st db (StartDecodingStructureInPayload size dec out st db)"
proof -
  let ?n = "fds_remaining_payload st" and ?sd = "fds_structure_decoder st"
  consider (whole) "size \<le> length (rest db)" "size \<le> ?n"
    | (part) "length (rest db) < size" "length (rest db) < ?n"
    | (short) "?n < size" "?n \<le> length (rest db)" by linarith
  then show ?thesis
  proof cases
    case whole
    with SD_Start_payload_whole[OF whole, of out ?sd] assms show ?thesis
      by (auto simp: StartDecodingStructureInPayload_def struct_outcome_def Let_def intro!: exI[of _ ?sd])
  next
    case part
    with SD_Start_payload_part[OF part assms, of out] show ?thesis
      by (auto simp: StartDecodingStructureInPayload_def struct_outcome_def Let_def)
  next
    case short
    with SD_Start_payload_short[OF short, of out ?sd] assms show ?thesis
      by (auto simp: StartDecodingStructureInPayload_def struct_outcome_def Let_def ReportFrameSizeError_def sd_ok_def)
  qed
qed

lemma Resume_structure:
  assumes "collecting got st" "length got < size"
  shows "struct_outcome size dec out got st db (ResumeDecodingStructureInPayload size dec out st db)"
proof -
  let ?n = "fds_remaining_payload st" and ?sd = "fds_structure_decoder st"
  have ok: "sd_ok ?sd" and got: "filled ?sd = got" using assms(1) by (auto simp: collecting_def)
  have off: "sd_offset ?sd = length got" using length_filled[OF ok] got by simp
  show ?thesis
  proof (cases "size - length got \<le> length (rest db) \<and> size - length got \<le> ?n")
    case True
    let ?k = "size - length got"
    have pre: "sd_offset ?sd \<le> size" "size \<le> sd_offset ?sd + length (rest db)" "size - sd_offset ?sd \<le> ?n"
      using True off assms(2) by auto
    obtain sd' where "SD_Resume_payload size dec out ?sd db ?n =
        (True, fst (dec (mkDecodeBuffer (got @ take ?k (rest db)))), sd', AdvanceCursor db ?k, ?n - ?k)" "sd_ok sd'"
      using SD_Resume_payload_whole[OF ok pre, of out] unfolding off got by blast
    with True show ?thesis
      by (auto simp: ResumeDecodingStructureInPayload_def struct_outcome_def Let_def sd_ok_def)
  next
    case False
    define m where "m = min (length (rest db)) ?n"
    have lt: "sd_offset ?sd + m < size" using False off assms(2) by (auto simp: m_def)
    from SD_Resume_payload_part[OF ok m_def lt, of out] got obtain sd' where sd':
      "SD_Resume_payload size dec out ?sd db ?n = (False, out, sd', AdvanceCursor db m, ?n - m)"
      "sd_ok sd'" "filled sd' = got @ take m (rest db)" by blast
    show ?thesis
    proof (cases "length (rest db) < ?n")
      case True
      then have "m = length (rest db)" by (simp add: m_def)
      with True sd' False show ?thesis
        by (auto simp: ResumeDecodingStructureInPayload_def struct_outcome_def Let_def)
    next
      case le: False
      then have "m = ?n" by (simp add: m_def)
      with le sd' False show ?thesis
        by (auto simp: ResumeDecodingStructureInPayload_def struct_outcome_def Let_def ReportFrameSizeError_def sd_ok_def)
    qed
  qed
qed

end

lemma SkipPadding_result:
  "SkipPadding st db =
     (let k = min (fds_remaining_padding st) (length (rest db)) in
      (k = fds_remaining_padding st,
       (if k = 0 then st else (notify (OnPadding (take k (rest db))) st)\<lparr>fds_remaining_padding := fds_remaining_padding st - k\<rparr>),
       AdvanceCursor db k))"
  by (auto simp: SkipPadding_def AvailablePadding_def rest_simps Let_def min_def)

section \<open>The contract\<close>

text \<open>
  The building block of the grammars: a structure of \<open>sz\<close> bytes at the start of \<open>r\<close>, of which \<open>n\<close>
  bytes are payload; \<open>k\<close> goes on with what follows.
\<close>

definition read_struct ::
  "nat \<Rightarrow> (DecodeBuffer \<Rightarrow> 'a \<times> DecodeBuffer) \<Rightarrow> nat \<Rightarrow> Http2FrameHeader \<Rightarrow> bytes \<Rightarrow>
   ('a \<Rightarrow> bytes \<Rightarrow> DecodeStatus \<times> frame_event list) \<Rightarrow> DecodeStatus \<times> frame_event list" where
  "read_struct sz dec n h r k =
     (if sz \<le> length r \<and> sz \<le> n then k (fst (dec (mkDecodeBuffer (take sz r)))) (drop sz r)
      else if length r < n then (kDecodeInProgress, [])
      else (kDecodeError, [OnFrameSizeError h]))"

definition after :: "frame_event list \<Rightarrow> DecodeStatus \<times> frame_event list \<Rightarrow> DecodeStatus \<times> frame_event list" where
  "after es result = (fst result, es @ snd result)"

lemma after_simps [simp]: "fst (after es r) = fst r" "snd (after es r) = es @ snd r"
  by (simp_all add: after_def)

text \<open>A run of bytes to the end of the payload, of which \<open>n\<close> bytes remain.\<close>

definition read_run :: "(bytes \<Rightarrow> frame_event) \<Rightarrow> frame_event \<Rightarrow> nat \<Rightarrow> bytes \<Rightarrow> DecodeStatus \<times> frame_event list" where
  "read_run run fin n r =
     (if length r = n then (kDecodeDone, [run r, fin]) else (kDecodeInProgress, [run r]))"

type_synonym 'd payload_op =
  "'d \<Rightarrow> FrameDecoderState \<Rightarrow> DecodeBuffer \<Rightarrow> DecodeStatus \<times> 'd \<times> FrameDecoderState \<times> DecodeBuffer"
type_synonym payload_grammar = "Http2FrameHeader \<Rightarrow> bytes \<Rightarrow> DecodeStatus \<times> frame_event list"

text \<open>
  \<open>payload_outcome g Inv h L q db result\<close>: the call on the unread part of \<open>db\<close> has taken the decoder
  to the prefix \<open>q\<close> of the payload, at which the grammar gives \<open>g\<close>. Its status and its calls, after
  the calls \<open>L\<close> made before the payload, are those of the grammar. When the frame goes on,
  everything was read and the remainders count what is missing; when it is finished, the payload
  was read to its end; and after an error the remainders count all that is left of the payload,
  read into the buffer or not.
\<close>

definition payload_outcome ::
  "DecodeStatus \<times> frame_event list \<Rightarrow> (Http2FrameHeader \<Rightarrow> bytes \<Rightarrow> 'd \<Rightarrow> FrameDecoderState \<Rightarrow> bool) \<Rightarrow>
   Http2FrameHeader \<Rightarrow> frame_event list \<Rightarrow> bytes \<Rightarrow> DecodeBuffer \<Rightarrow>
   DecodeStatus \<times> 'd \<times> FrameDecoderState \<times> DecodeBuffer \<Rightarrow> bool" where
  "payload_outcome g Inv h L q db result \<longleftrightarrow>
     (case result of (s, d, st, db') \<Rightarrow>
        state_ok h st \<and> reads db db' \<and> s = fst g \<and> expand (fds_listener st) = L @ expand (snd g) \<and>
        (case s of
           kDecodeDone \<Rightarrow> rest db' = [] \<and> length q = payload_length h
         | kDecodeInProgress \<Rightarrow>
             rest db' = [] \<and> Inv h q d st \<and>
             fds_remaining_payload st + fds_remaining_padding st + length q = payload_length h \<and>
             length q < payload_length h
         | kDecodeError \<Rightarrow>
             fds_remaining_payload st + fds_remaining_padding st + length q =
               payload_length h + length (rest db')))"

locale payload_decoder =
  fixes start resume :: "'d payload_op"
    and G :: payload_grammar
    and Inv :: "Http2FrameHeader \<Rightarrow> bytes \<Rightarrow> 'd \<Rightarrow> FrameDecoderState \<Rightarrow> bool"
  assumes start_outcome: "state_ok h st \<Longrightarrow> length (rest db) \<le> payload_length h \<Longrightarrow>
      payload_outcome (G h (rest db)) Inv h (expand (fds_listener st)) (rest db) db (start d st db)"
    and resume_outcome: "state_ok h st \<Longrightarrow> Inv h p d st \<Longrightarrow> fst (G h p) = kDecodeInProgress \<Longrightarrow>
      fds_remaining_payload st + fds_remaining_padding st + length p = payload_length h \<Longrightarrow>
      length (p @ rest db) \<le> payload_length h \<Longrightarrow>
      expand (fds_listener st) = L @ expand (snd (G h p)) \<Longrightarrow>
      payload_outcome (G h (p @ rest db)) Inv h L (p @ rest db) db (resume d st db)"
    and error_final: "fst (G h p) = kDecodeError \<Longrightarrow> length (p @ x) \<le> payload_length h \<Longrightarrow> G h (p @ x) = G h p"

text \<open>The outcome looks at the grammar only up to the cutting of runs.\<close>

lemma payload_outcome_cong:
  "fst g = fst g' \<Longrightarrow> expand (snd g) = expand (snd g') \<Longrightarrow>
   payload_outcome g Inv h L q db result = payload_outcome g' Inv h L q db result"
  by (simp add: payload_outcome_def)

lemma payload_outcome_advance:
  "payload_outcome g Inv h L q db' result \<Longrightarrow> reads db db' \<Longrightarrow> payload_outcome g Inv h L q db result"
  by (auto simp: payload_outcome_def intro: reads_trans)

lemma read_run_append:
  assumes "byte_run ev"
  shows "fst (read_run ev fin (length r + n) (r @ x)) = fst (read_run ev fin n x)"
    "expand (snd (read_run ev fin (length r + n) (r @ x))) = expand1 (ev r) @ expand (snd (read_run ev fin n x))"
  using assms by (simp_all add: read_run_def byte_run_append)

text \<open>A run that goes to the end of the payload.\<close>

lemma run_outcome:
  assumes "state_ok h st" "byte_run ev" "fds_remaining_padding st = 0" "expand (fds_listener st) = L @ expand es"
    "fds_remaining_payload st + length q = payload_length h + length (rest db)"
    "length (rest db) \<le> fds_remaining_payload st" "fds_remaining_payload st < 2 ^ 32"
    "\<And>es n. 0 < n \<Longrightarrow> Inv h q d (st\<lparr>fds_listener := es, fds_remaining_payload := n\<rparr>)"
  shows "payload_outcome (after es (read_run ev fin (fds_remaining_payload st) (rest db))) Inv h L q db
    (case report_available ev (Remaining db) st db of (st, db) \<Rightarrow>
       if fds_remaining_payload st = 0 then (kDecodeDone, d', notify fin st, db) else (kDecodeInProgress, d, st, db))"
proof -
  obtain fs where r: "report_available ev (Remaining db) st db =
      (st\<lparr>fds_listener := fds_listener st @ fs, fds_remaining_payload := fds_remaining_payload st - length (rest db)\<rparr>,
       AdvanceCursor db (length (rest db)))" and fs: "expand fs = expand1 (ev (rest db))"
    using report_available_events[of "length (rest db)" st ev db] assms by (auto simp: rest_simps)
  show ?thesis
    unfolding r payload_outcome_def read_run_def
    using assms fs by (cases "length (rest db) = fds_remaining_payload st") (auto simp: rest_simps)
qed

text \<open>
  Reading a structure is the phase \<open>read_struct\<close> of a grammar. \<open>n\<close> is the payload there is from
  the start of the structure on.
\<close>

lemma struct_phase:
  assumes out: "struct_outcome sz dec out got st db (status, v, st', db')" and ok: "state_ok h st"
    and n: "n = fds_remaining_payload st + length got" and got: "length got < sz"
  obtains
    (whole) "status = kDecodeDone" "state_ok h st'" "fds_remaining_payload st' = n - sz" "sz \<le> n"
      "fds_remaining_padding st' = fds_remaining_padding st" "fds_listener st' = fds_listener st"
      "reads db db'" "rest db' = drop sz (got @ rest db)" "sz \<le> length (got @ rest db)"
      "\<And>k. read_struct sz dec n h (got @ rest db) k = k v (rest db')"
      "v = fst (dec (mkDecodeBuffer (take sz (got @ rest db))))"
  | (part) "status = kDecodeInProgress" "state_ok h st'" "fds_remaining_payload st' = n - length (got @ rest db)"
      "fds_remaining_padding st' = fds_remaining_padding st" "fds_listener st' = fds_listener st"
      "reads db db'" "rest db' = []" "length (got @ rest db) < n" "length (got @ rest db) < sz"
      "collecting (got @ rest db) st'" "v = out"
      "\<And>k. read_struct sz dec n h (got @ rest db) k = (kDecodeInProgress, [])"
  | (short) "status = kDecodeError" "state_ok h st'" "fds_remaining_payload st' = 0"
      "fds_remaining_padding st' = fds_remaining_padding st"
      "fds_listener st' = fds_listener st @ [OnFrameSizeError h]"
      "reads db db'" "length (rest db') = length (got @ rest db) - n" "n \<le> length (got @ rest db)"
      "\<And>k. read_struct sz dec n h (got @ rest db) k = (kDecodeError, [OnFrameSizeError h])"
proof -
  let ?n = "fds_remaining_payload st" and ?r = "rest db" and ?k = "sz - length got"
  have h: "fds_frame_header st = h" using ok by (rule state_ok_header)
  consider (w) "?k \<le> length ?r" "?k \<le> ?n" | (p) "\<not> (?k \<le> length ?r \<and> ?k \<le> ?n)" "length ?r < ?n"
    | (s) "\<not> (?k \<le> length ?r \<and> ?k \<le> ?n)" "\<not> length ?r < ?n" by blast
  then show ?thesis
  proof cases
    case w
    have t: "take sz (got @ ?r) = got @ take ?k ?r" using got by simp
    show ?thesis
      by (rule whole) (use w out ok n got t in \<open>auto simp: struct_outcome_def Let_def state_ok_def rest_simps read_struct_def\<close>)
  next
    case p
    show ?thesis
      by (rule part) (use p out ok n got in \<open>auto simp: struct_outcome_def Let_def state_ok_def rest_simps
          read_struct_def collecting_def sd_ok_def\<close>)
  next
    case s
    show ?thesis
      by (rule short) (use s out ok n got h in \<open>auto simp: struct_outcome_def Let_def state_ok_def rest_simps read_struct_def\<close>)
  qed
qed

end
