(* ===== verification/Payload_Single_Struct.thy ===== *)
theory Payload_Single_Struct
  imports Payload_Contract
begin

text \<open>
  The decoders of the payloads that are one fixed size structure:
  \<^verbatim>\<open>priority_payload_decoder.cc\<close>, \<^verbatim>\<open>rst_stream_payload_decoder.cc\<close>,
  \<^verbatim>\<open>window_update_payload_decoder.cc\<close> and \<^verbatim>\<open>ping_payload_decoder.cc\<close> of
  \<^verbatim>\<open>http2/decoder/payload_decoders\<close>. All four meet the contract with the grammar
  \<open>single_grammar\<close>: the structure, and an error when the payload has any other size.
\<close>

section \<open>PRIORITY\<close>

record PriorityPayloadDecoder =
  prd_priority_fields :: Http2PriorityFields

definition Priority_HandleStatus ::
  "PriorityPayloadDecoder \<Rightarrow> FrameDecoderState \<Rightarrow> DecodeStatus \<Rightarrow> DecodeStatus \<times> FrameDecoderState" where
  "Priority_HandleStatus d st status =
     (if status = kDecodeDone then
        if fds_remaining_payload st = 0 then
          (kDecodeDone, notify (OnPriorityFrame (fds_frame_header st) (prd_priority_fields d)) st)
        else ReportFrameSizeError st
      else (status, st))"

definition Priority_StartDecodingPayload :: "PriorityPayloadDecoder payload_op" where
  "Priority_StartDecodingPayload d st db =
     (let st = InitializeRemainders st;
          (status, out, st, db) =
            StartDecodingStructureInPayload 5 DoDecode_Priority (prd_priority_fields d) st db;
          d = d\<lparr>prd_priority_fields := out\<rparr>;
          (status, st) = Priority_HandleStatus d st status
      in (status, d, st, db))"

definition Priority_ResumeDecodingPayload :: "PriorityPayloadDecoder payload_op" where
  "Priority_ResumeDecodingPayload d st db =
     (let (status, out, st, db) =
            ResumeDecodingStructureInPayload 5 DoDecode_Priority (prd_priority_fields d) st db;
          d = d\<lparr>prd_priority_fields := out\<rparr>;
          (status, st) = Priority_HandleStatus d st status
      in (status, d, st, db))"

section \<open>RST\_STREAM\<close>

record RstStreamPayloadDecoder =
  rsd_rst_stream_fields :: Http2RstStreamFields

definition RstStream_HandleStatus ::
  "RstStreamPayloadDecoder \<Rightarrow> FrameDecoderState \<Rightarrow> DecodeStatus \<Rightarrow> DecodeStatus \<times> FrameDecoderState" where
  "RstStream_HandleStatus d st status =
     (if status = kDecodeDone then
        if fds_remaining_payload st = 0 then
          (kDecodeDone, notify (OnRstStream (fds_frame_header st) (rf_error_code (rsd_rst_stream_fields d))) st)
        else ReportFrameSizeError st
      else (status, st))"

definition RstStream_StartDecodingPayload :: "RstStreamPayloadDecoder payload_op" where
  "RstStream_StartDecodingPayload d st db =
     (let st = InitializeRemainders st;
          (status, out, st, db) =
            StartDecodingStructureInPayload 4 DoDecode_RstStream (rsd_rst_stream_fields d) st db;
          d = d\<lparr>rsd_rst_stream_fields := out\<rparr>;
          (status, st) = RstStream_HandleStatus d st status
      in (status, d, st, db))"

definition RstStream_ResumeDecodingPayload :: "RstStreamPayloadDecoder payload_op" where
  "RstStream_ResumeDecodingPayload d st db =
     (let (status, out, st, db) =
            ResumeDecodingStructureInPayload 4 DoDecode_RstStream (rsd_rst_stream_fields d) st db;
          d = d\<lparr>rsd_rst_stream_fields := out\<rparr>;
          (status, st) = RstStream_HandleStatus d st status
      in (status, d, st, db))"

section \<open>WINDOW\_UPDATE\<close>

record WindowUpdatePayloadDecoder =
  wud_window_update_fields :: Http2WindowUpdateFields

definition WindowUpdate_HandleStatus ::
  "WindowUpdatePayloadDecoder \<Rightarrow> FrameDecoderState \<Rightarrow> DecodeStatus \<Rightarrow> DecodeStatus \<times> FrameDecoderState" where
  "WindowUpdate_HandleStatus d st status =
     (if status = kDecodeDone then
        if fds_remaining_payload st = 0 then
          (kDecodeDone,
           notify (OnWindowUpdate (fds_frame_header st)
             (wf_window_size_increment (wud_window_update_fields d))) st)
        else ReportFrameSizeError st
      else (status, st))"

definition WindowUpdate_StartDecodingPayload :: "WindowUpdatePayloadDecoder payload_op" where
  "WindowUpdate_StartDecodingPayload d st db =
     (let frame_header = fds_frame_header st; total_length = payload_length frame_header
      in if Remaining db = 4 \<and> total_length = 4 then
           let (out, db) = DoDecode_WindowUpdate db;
               d = d\<lparr>wud_window_update_fields := out\<rparr>
           in (kDecodeDone, d, notify (OnWindowUpdate frame_header (wf_window_size_increment out)) st, db)
         else
           let st = InitializeRemainders st;
               (status, out, st, db) =
                 StartDecodingStructureInPayload 4 DoDecode_WindowUpdate (wud_window_update_fields d) st db;
               d = d\<lparr>wud_window_update_fields := out\<rparr>;
               (status, st) = WindowUpdate_HandleStatus d st status
           in (status, d, st, db))"

definition WindowUpdate_ResumeDecodingPayload :: "WindowUpdatePayloadDecoder payload_op" where
  "WindowUpdate_ResumeDecodingPayload d st db =
     (let (status, out, st, db) =
            ResumeDecodingStructureInPayload 4 DoDecode_WindowUpdate (wud_window_update_fields d) st db;
          d = d\<lparr>wud_window_update_fields := out\<rparr>;
          (status, st) = WindowUpdate_HandleStatus d st status
      in (status, d, st, db))"

section \<open>PING\<close>

record PingPayloadDecoder =
  pid_ping_fields :: Http2PingFields

definition Ping_HandleStatus ::
  "PingPayloadDecoder \<Rightarrow> FrameDecoderState \<Rightarrow> DecodeStatus \<Rightarrow> DecodeStatus \<times> FrameDecoderState" where
  "Ping_HandleStatus d st status =
     (if status = kDecodeDone then
        if fds_remaining_payload st = 0 then
          let frame_header = fds_frame_header st
          in (kDecodeDone,
              if IsAck frame_header then notify (OnPingAck frame_header (pid_ping_fields d)) st
              else notify (OnPing frame_header (pid_ping_fields d)) st)
        else ReportFrameSizeError st
      else (status, st))"

definition Ping_StartDecodingPayload :: "PingPayloadDecoder payload_op" where
  "Ping_StartDecodingPayload d st db =
     (let frame_header = fds_frame_header st; total_length = payload_length frame_header
      in if Remaining db = 8 \<and> total_length = 8 then
           let ping = \<lparr>pgf_opaque_data = cursor_bytes db 8\<rparr>;
               st = (if IsAck frame_header then notify (OnPingAck frame_header ping) st
                     else notify (OnPing frame_header ping) st)
           in (kDecodeDone, d, st, AdvanceCursor db 8)
         else
           let st = InitializeRemainders st;
               (status, out, st, db) =
                 StartDecodingStructureInPayload 8 DoDecode_Ping (pid_ping_fields d) st db;
               d = d\<lparr>pid_ping_fields := out\<rparr>;
               (status, st) = Ping_HandleStatus d st status
           in (status, d, st, db))"

definition Ping_ResumeDecodingPayload :: "PingPayloadDecoder payload_op" where
  "Ping_ResumeDecodingPayload d st db =
     (let (status, out, st, db) =
            ResumeDecodingStructureInPayload 8 DoDecode_Ping (pid_ping_fields d) st db;
          d = d\<lparr>pid_ping_fields := out\<rparr>;
          (status, st) = Ping_HandleStatus d st status
      in (status, d, st, db))"

section \<open>The contract\<close>

definition single_grammar ::
  "nat \<Rightarrow> (DecodeBuffer \<Rightarrow> 'a \<times> DecodeBuffer) \<Rightarrow> (Http2FrameHeader \<Rightarrow> 'a \<Rightarrow> frame_event) \<Rightarrow> payload_grammar" where
  "single_grammar sz dec ev h q =
     read_struct sz dec (payload_length h) h q
       (\<lambda>v r. if payload_length h = sz then (kDecodeDone, [ev h v]) else (kDecodeError, [OnFrameSizeError h]))"

definition single_Inv :: "nat \<Rightarrow> Http2FrameHeader \<Rightarrow> bytes \<Rightarrow> 'd \<Rightarrow> FrameDecoderState \<Rightarrow> bool" where
  "single_Inv sz h q d st \<longleftrightarrow> collecting q st \<and> length q < sz \<and> fds_remaining_padding st = 0"

definition single_HandleStatus ::
  "(Http2FrameHeader \<Rightarrow> 'a \<Rightarrow> frame_event) \<Rightarrow> 'a \<Rightarrow> FrameDecoderState \<Rightarrow> DecodeStatus \<Rightarrow> DecodeStatus \<times> FrameDecoderState" where
  "single_HandleStatus ev out st status =
     (if status = kDecodeDone then
        if fds_remaining_payload st = 0 then (kDecodeDone, notify (ev (fds_frame_header st) out) st)
        else ReportFrameSizeError st
      else (status, st))"

text \<open>
  Both ways into the structure end in the same place; \<open>got\<close> is empty for \<open>Start\<close>.
\<close>

lemma single_outcome:
  assumes out: "struct_outcome sz dec out got st db (status, out', st', db')"
    and ok: "state_ok h st" and n: "fds_remaining_payload st + length got = payload_length h"
    and pad: "fds_remaining_padding st = 0" and got: "length got < sz"
    and len: "length (got @ rest db) \<le> payload_length h"
    and L: "expand (fds_listener st) = L"
    and hs: "single_HandleStatus ev out' st' status = (status', st'')"
  shows "payload_outcome (single_grammar sz dec ev h (got @ rest db)) (single_Inv sz) h L (got @ rest db) db (status', d, st'', db')"
proof -
  let ?n = "fds_remaining_payload st" and ?r = "rest db" and ?k = "sz - length got"
  have h: "fds_frame_header st = h" using ok by (simp add: state_ok_def)
  consider (whole) "?k \<le> length ?r" "?k \<le> ?n" | (part) "\<not> (?k \<le> length ?r \<and> ?k \<le> ?n)" "length ?r < ?n"
    | (short) "\<not> (?k \<le> length ?r \<and> ?k \<le> ?n)" "\<not> length ?r < ?n" by blast
  then show ?thesis
  proof cases
    case whole
    then have "sz \<le> length (got @ ?r)" "sz \<le> payload_length h" "take sz (got @ ?r) = got @ take ?k ?r"
      "?n - ?k = payload_length h - sz"
      using got n by auto
    with whole out ok L hs h pad len n got show ?thesis
      by (auto simp: payload_outcome_def single_grammar_def read_struct_def struct_outcome_def Let_def
          single_HandleStatus_def ReportFrameSizeError_def state_ok_def rest_simps split: if_splits)
  next
    case part
    with out ok L hs h pad len n got show ?thesis
      by (auto simp: payload_outcome_def single_grammar_def read_struct_def struct_outcome_def Let_def
          single_HandleStatus_def single_Inv_def collecting_def sd_ok_def state_ok_def rest_simps split: if_splits)
  next
    case short
    with out ok L hs h pad len n got show ?thesis
      by (auto simp: payload_outcome_def single_grammar_def read_struct_def struct_outcome_def Let_def
          single_HandleStatus_def state_ok_def rest_simps split: if_splits)
  qed
qed

lemma single_error_final:
  "fst (single_grammar sz dec ev h p) = kDecodeError \<Longrightarrow> single_grammar sz dec ev h (p @ x) = single_grammar sz dec ev h p"
  by (auto simp: single_grammar_def read_struct_def split: if_splits)

context collected_struct
begin

lemma single_start:
  assumes "state_ok h st" "length (rest db) \<le> payload_length h" "0 < size"
  shows "payload_outcome (single_grammar size dec ev h (rest db)) (single_Inv size) h (expand (fds_listener st)) (rest db) db
    (let (status, v, st, db) = StartDecodingStructureInPayload size dec out (InitializeRemainders st) db;
         (status, st) = single_HandleStatus ev v st status
     in (status, D v, st, db))"
proof -
  let ?st = "InitializeRemainders st"
  obtain s v st' db' where r: "StartDecodingStructureInPayload size dec out ?st db = (s, v, st', db')"
    by (metis prod_cases4)
  obtain s' st'' where hs: "single_HandleStatus ev v st' s = (s', st'')" by fastforce
  have "struct_outcome size dec out [] ?st db (s, v, st', db')"
    unfolding r[symmetric] using assms(1) by (intro Start_structure) (simp add: state_ok_def)
  from single_outcome[OF this _ _ _ _ _ refl hs, of h] assms show ?thesis
    by (simp add: r hs state_ok_header)
qed

text \<open>The special case for a payload that is whole and of the right size.\<close>

lemma single_fast:
  assumes "state_ok h st" "length (rest db) = size" "payload_length h = size"
  shows "payload_outcome (single_grammar size dec ev h (rest db)) (single_Inv size) h (expand (fds_listener st)) (rest db) db
    (kDecodeDone, d, notify (ev h (fst (dec db))) st, AdvanceCursor db size)"
proof -
  have "fst (dec db) = fst (dec (mkDecodeBuffer (rest db)))" using dec_local[of db] assms(2) by simp
  then show ?thesis using assms
    by (auto simp: payload_outcome_def single_grammar_def read_struct_def rest_simps)
qed

lemma single_resume:
  assumes "state_ok h st" "single_Inv size h p d st" "fst (single_grammar size dec ev h p) = kDecodeInProgress"
    "fds_remaining_payload st + fds_remaining_padding st + length p = payload_length h"
    "length (p @ rest db) \<le> payload_length h" "expand (fds_listener st) = L @ expand (snd (single_grammar size dec ev h p))"
  shows "payload_outcome (single_grammar size dec ev h (p @ rest db)) (single_Inv size) h L (p @ rest db) db
    (let (status, v, st, db) = ResumeDecodingStructureInPayload size dec out st db;
         (status, st) = single_HandleStatus ev v st status
     in (status, D v, st, db))"
proof -
  obtain s v st' db' where r: "ResumeDecodingStructureInPayload size dec out st db = (s, v, st', db')"
    by (metis prod_cases4)
  obtain s' st'' where hs: "single_HandleStatus ev v st' s = (s', st'')" by fastforce
  have p: "collecting p st" "length p < size" "fds_remaining_padding st = 0"
    using assms(2) by (auto simp: single_Inv_def)
  have "struct_outcome size dec out p st db (s, v, st', db')"
    unfolding r[symmetric] using p by (intro Resume_structure)
  moreover have "snd (single_grammar size dec ev h p) = []"
    using assms(3) by (auto simp: single_grammar_def read_struct_def split: if_splits)
  ultimately show ?thesis
    using single_outcome[OF _ assms(1) _ p(3,2) assms(5) refl hs] assms p by (auto simp: r hs)
qed

end

lemmas single_ops = Let_def case_prod_beta

definition rst_event :: "Http2FrameHeader \<Rightarrow> Http2RstStreamFields \<Rightarrow> frame_event" where
  "rst_event h f = OnRstStream h (rf_error_code f)"

definition window_update_event :: "Http2FrameHeader \<Rightarrow> Http2WindowUpdateFields \<Rightarrow> frame_event" where
  "window_update_event h f = OnWindowUpdate h (wf_window_size_increment f)"

definition ping_event :: "Http2FrameHeader \<Rightarrow> Http2PingFields \<Rightarrow> frame_event" where
  "ping_event h f = (if IsAck h then OnPingAck h f else OnPing h f)"

interpretation p_priority: payload_decoder Priority_StartDecodingPayload Priority_ResumeDecodingPayload
  "single_grammar 5 DoDecode_Priority OnPriorityFrame" "single_Inv 5"
proof
  have hs: "Priority_HandleStatus d = single_HandleStatus OnPriorityFrame (prd_priority_fields d)" for d
    by (intro ext) (simp add: Priority_HandleStatus_def single_HandleStatus_def)
  show "payload_outcome (single_grammar 5 DoDecode_Priority OnPriorityFrame h (rest db)) (single_Inv 5) h
      (expand (fds_listener st)) (rest db) db (Priority_StartDecodingPayload d st db)"
    if "state_ok h st" "length (rest db) \<le> payload_length h" for h st db d
    using c_priority.single_start[OF that, of OnPriorityFrame "prd_priority_fields d" "\<lambda>v. d\<lparr>prd_priority_fields := v\<rparr>"]
    by (simp add: Priority_StartDecodingPayload_def hs single_ops)
  show "payload_outcome (single_grammar 5 DoDecode_Priority OnPriorityFrame h (p @ rest db)) (single_Inv 5) h L (p @ rest db) db
      (Priority_ResumeDecodingPayload d st db)"
    if "state_ok h st" "single_Inv 5 h p d st"
      "fst (single_grammar 5 DoDecode_Priority OnPriorityFrame h p) = kDecodeInProgress"
      "fds_remaining_payload st + fds_remaining_padding st + length p = payload_length h"
      "length (p @ rest db) \<le> payload_length h"
      "expand (fds_listener st) = L @ expand (snd (single_grammar 5 DoDecode_Priority OnPriorityFrame h p))"
    for h st p d db L
    using c_priority.single_resume[OF that, of "prd_priority_fields d" "\<lambda>v. d\<lparr>prd_priority_fields := v\<rparr>"]
    by (simp add: Priority_ResumeDecodingPayload_def hs single_ops)
qed (rule single_error_final)

interpretation p_rst: payload_decoder RstStream_StartDecodingPayload RstStream_ResumeDecodingPayload
  "single_grammar 4 DoDecode_RstStream rst_event" "single_Inv 4"
proof
  have hs: "RstStream_HandleStatus d = single_HandleStatus rst_event (rsd_rst_stream_fields d)" for d
    by (intro ext) (simp add: RstStream_HandleStatus_def single_HandleStatus_def rst_event_def Let_def)
  show "payload_outcome (single_grammar 4 DoDecode_RstStream rst_event h (rest db)) (single_Inv 4) h
      (expand (fds_listener st)) (rest db) db (RstStream_StartDecodingPayload d st db)"
    if "state_ok h st" "length (rest db) \<le> payload_length h" for h st db d
    using c_rst.single_start[OF that, of rst_event "rsd_rst_stream_fields d" "\<lambda>v. d\<lparr>rsd_rst_stream_fields := v\<rparr>"]
    by (simp add: RstStream_StartDecodingPayload_def hs single_ops)
  show "payload_outcome (single_grammar 4 DoDecode_RstStream rst_event h (p @ rest db)) (single_Inv 4) h L (p @ rest db) db
      (RstStream_ResumeDecodingPayload d st db)"
    if "state_ok h st" "single_Inv 4 h p d st"
      "fst (single_grammar 4 DoDecode_RstStream rst_event h p) = kDecodeInProgress"
      "fds_remaining_payload st + fds_remaining_padding st + length p = payload_length h"
      "length (p @ rest db) \<le> payload_length h"
      "expand (fds_listener st) = L @ expand (snd (single_grammar 4 DoDecode_RstStream rst_event h p))"
    for h st p d db L
    using c_rst.single_resume[OF that, of "rsd_rst_stream_fields d" "\<lambda>v. d\<lparr>rsd_rst_stream_fields := v\<rparr>"]
    by (simp add: RstStream_ResumeDecodingPayload_def hs single_ops)
qed (rule single_error_final)

lemma window_update_whole:
  "length (rest db) = 4 \<Longrightarrow> snd (DoDecode_WindowUpdate db) = AdvanceCursor db 4"
  using window_update.dec_local[of db] by (metis order_refl snd_conv)

interpretation p_window_update: payload_decoder WindowUpdate_StartDecodingPayload WindowUpdate_ResumeDecodingPayload
  "single_grammar 4 DoDecode_WindowUpdate window_update_event" "single_Inv 4"
proof
  have hs: "WindowUpdate_HandleStatus d = single_HandleStatus window_update_event (wud_window_update_fields d)" for d
    by (intro ext) (simp add: WindowUpdate_HandleStatus_def single_HandleStatus_def window_update_event_def Let_def)
  show "payload_outcome (single_grammar 4 DoDecode_WindowUpdate window_update_event h (rest db)) (single_Inv 4) h
      (expand (fds_listener st)) (rest db) db (WindowUpdate_StartDecodingPayload d st db)"
    if "state_ok h st" "length (rest db) \<le> payload_length h" for h st db d
    using c_window_update.single_start[OF that, of window_update_event "wud_window_update_fields d" "\<lambda>v. d\<lparr>wud_window_update_fields := v\<rparr>"]
      c_window_update.single_fast[OF that(1), of db window_update_event]
    by (auto simp: WindowUpdate_StartDecodingPayload_def hs single_ops rest_simps window_update_event_def window_update_whole if_distrib[of notify] state_ok_header[OF that(1)])
  show "payload_outcome (single_grammar 4 DoDecode_WindowUpdate window_update_event h (p @ rest db)) (single_Inv 4) h L (p @ rest db) db
      (WindowUpdate_ResumeDecodingPayload d st db)"
    if "state_ok h st" "single_Inv 4 h p d st"
      "fst (single_grammar 4 DoDecode_WindowUpdate window_update_event h p) = kDecodeInProgress"
      "fds_remaining_payload st + fds_remaining_padding st + length p = payload_length h"
      "length (p @ rest db) \<le> payload_length h"
      "expand (fds_listener st) = L @ expand (snd (single_grammar 4 DoDecode_WindowUpdate window_update_event h p))"
    for h st p d db L
    using c_window_update.single_resume[OF that, of "wud_window_update_fields d" "\<lambda>v. d\<lparr>wud_window_update_fields := v\<rparr>"]
    by (simp add: WindowUpdate_ResumeDecodingPayload_def hs single_ops)
qed (rule single_error_final)

interpretation p_ping: payload_decoder Ping_StartDecodingPayload Ping_ResumeDecodingPayload
  "single_grammar 8 DoDecode_Ping ping_event" "single_Inv 8"
proof
  have hs: "Ping_HandleStatus d = single_HandleStatus ping_event (pid_ping_fields d)" for d
    by (intro ext) (simp add: Ping_HandleStatus_def single_HandleStatus_def ping_event_def Let_def)
  show "payload_outcome (single_grammar 8 DoDecode_Ping ping_event h (rest db)) (single_Inv 8) h
      (expand (fds_listener st)) (rest db) db (Ping_StartDecodingPayload d st db)"
    if "state_ok h st" "length (rest db) \<le> payload_length h" for h st db d
    using c_ping.single_start[OF that, of ping_event "pid_ping_fields d" "\<lambda>v. d\<lparr>pid_ping_fields := v\<rparr>"]
      c_ping.single_fast[OF that(1), of db ping_event]
    by (auto simp: Ping_StartDecodingPayload_def hs single_ops rest_simps snd_conv fst_conv DoDecode_Ping_def ping_event_def if_distrib[of notify] state_ok_header[OF that(1)])
  show "payload_outcome (single_grammar 8 DoDecode_Ping ping_event h (p @ rest db)) (single_Inv 8) h L (p @ rest db) db
      (Ping_ResumeDecodingPayload d st db)"
    if "state_ok h st" "single_Inv 8 h p d st"
      "fst (single_grammar 8 DoDecode_Ping ping_event h p) = kDecodeInProgress"
      "fds_remaining_payload st + fds_remaining_padding st + length p = payload_length h"
      "length (p @ rest db) \<le> payload_length h"
      "expand (fds_listener st) = L @ expand (snd (single_grammar 8 DoDecode_Ping ping_event h p))"
    for h st p d db L
    using c_ping.single_resume[OF that, of "pid_ping_fields d" "\<lambda>v. d\<lparr>pid_ping_fields := v\<rparr>"]
    by (simp add: Ping_ResumeDecodingPayload_def hs single_ops)
qed (rule single_error_final)

end
