(* ===== verification/Payload_Unpadded.thy ===== *)
theory Payload_Unpadded
  imports Payload_Contract
begin

text \<open>
  The decoders of payloads that end in runs of bytes, without padding: \<^verbatim>\<open>continuation_payload_decoder.cc\<close>,
  \<^verbatim>\<open>unknown_payload_decoder.cc\<close>, \<^verbatim>\<open>goaway_payload_decoder.cc\<close> and
  \<^verbatim>\<open>altsvc_payload_decoder.cc\<close> of \<^verbatim>\<open>http2/decoder/payload_decoders\<close>. A decoder without
  members has the state type \<open>unit\<close>. A label of a \<open>switch\<close> that other labels fall into is a
  definition of its own.
\<close>

section \<open>CONTINUATION\<close>

definition Continuation_ResumeDecodingPayload :: "unit payload_op" where
  "Continuation_ResumeDecodingPayload d st db =
     (let avail = Remaining db;
          (st, db) = report_available OnHpackFragment avail st db
      in if fds_remaining_payload st = 0 then (kDecodeDone, d, notify OnContinuationEnd st, db)
         else (kDecodeInProgress, d, st, db))"

definition Continuation_StartDecodingPayload :: "unit payload_op" where
  "Continuation_StartDecodingPayload d st db =
     (let frame_header = fds_frame_header st;
          st = InitializeRemainders st;
          st = notify (OnContinuationStart frame_header) st
      in Continuation_ResumeDecodingPayload d st db)"

section \<open>Unknown frame types\<close>

definition Unknown_ResumeDecodingPayload :: "unit payload_op" where
  "Unknown_ResumeDecodingPayload d st db =
     (let avail = Remaining db;
          (st, db) = report_available OnUnknownPayload avail st db
      in if fds_remaining_payload st = 0 then (kDecodeDone, d, notify OnUnknownEnd st, db)
         else (kDecodeInProgress, d, st, db))"

definition Unknown_StartDecodingPayload :: "unit payload_op" where
  "Unknown_StartDecodingPayload d st db =
     (let frame_header = fds_frame_header st;
          st = InitializeRemainders st;
          st = notify (OnUnknownStart frame_header) st
      in Unknown_ResumeDecodingPayload d st db)"

section \<open>GOAWAY\<close>

datatype GoAwayPayloadState =
    GoAway_kStartDecodingFixedFields
  | GoAway_kHandleFixedFieldsStatus
  | GoAway_kReadOpaqueData
  | GoAway_kResumeDecodingFixedFields

record GoAwayPayloadDecoder =
  gad_payload_state :: GoAwayPayloadState
  gad_goaway_fields :: Http2GoAwayFields

definition GoAway_ReadOpaqueData :: "GoAwayPayloadDecoder payload_op" where
  "GoAway_ReadOpaqueData d st db =
     (let avail = Remaining db;
          (st, db) = report_available OnGoAwayOpaqueData avail st db
      in if fds_remaining_payload st > 0 then
           (kDecodeInProgress, d\<lparr>gad_payload_state := GoAway_kReadOpaqueData\<rparr>, st, db)
         else (kDecodeDone, d, notify OnGoAwayEnd st, db))"

definition GoAway_HandleFixedFieldsStatus :: "DecodeStatus \<Rightarrow> GoAwayPayloadDecoder payload_op" where
  "GoAway_HandleFixedFieldsStatus status d st db =
     (if status = kDecodeDone then
        GoAway_ReadOpaqueData d (notify (OnGoAwayStart (fds_frame_header st) (gad_goaway_fields d)) st) db
      else (status, d\<lparr>gad_payload_state := GoAway_kResumeDecodingFixedFields\<rparr>, st, db))"

definition GoAway_ResumeDecodingPayload :: "GoAwayPayloadDecoder payload_op" where
  "GoAway_ResumeDecodingPayload d st db =
     (case gad_payload_state d of
        GoAway_kStartDecodingFixedFields \<Rightarrow>
          let (status, out, st, db) = StartDecodingStructureInPayload 8 DoDecode_GoAway (gad_goaway_fields d) st db
          in GoAway_HandleFixedFieldsStatus status (d\<lparr>gad_goaway_fields := out\<rparr>) st db
      | GoAway_kHandleFixedFieldsStatus \<Rightarrow> GoAway_HandleFixedFieldsStatus kDecodeError d st db
      | GoAway_kReadOpaqueData \<Rightarrow> GoAway_ReadOpaqueData d st db
      | GoAway_kResumeDecodingFixedFields \<Rightarrow>
          let (status, out, st, db) = ResumeDecodingStructureInPayload 8 DoDecode_GoAway (gad_goaway_fields d) st db
          in GoAway_HandleFixedFieldsStatus status
               (d\<lparr>gad_goaway_fields := out, gad_payload_state := GoAway_kHandleFixedFieldsStatus\<rparr>) st db)"

definition GoAway_StartDecodingPayload :: "GoAwayPayloadDecoder payload_op" where
  "GoAway_StartDecodingPayload d st db =
     (let st = InitializeRemainders st;
          d = d\<lparr>gad_payload_state := GoAway_kStartDecodingFixedFields\<rparr>
      in GoAway_ResumeDecodingPayload d st db)"

section \<open>ALTSVC\<close>

datatype AltSvcPayloadState =
    AltSvc_kStartDecodingStruct
  | AltSvc_kMaybeDecodedStruct
  | AltSvc_kDecodingStrings
  | AltSvc_kResumeDecodingStruct

record AltSvcPayloadDecoder =
  asd_altsvc_fields :: Http2AltSvcFields
  asd_payload_state :: AltSvcPayloadState

text \<open>The part of \<open>DecodeStrings\<close> from "All that is left is the value string" on.\<close>

definition AltSvc_DecodeValue :: "AltSvcPayloadDecoder payload_op" where
  "AltSvc_DecodeValue d st db =
     (let (st, db) =
            (if HasData db then report_payload OnAltSvcValueData (Remaining db) st db else (st, db))
      in if fds_remaining_payload st = 0 then (kDecodeDone, d, notify OnAltSvcEnd st, db)
         else (kDecodeInProgress, d\<lparr>asd_payload_state := AltSvc_kDecodingStrings\<rparr>, st, db))"

definition AltSvc_DecodeStrings :: "AltSvcPayloadDecoder payload_op" where
  "AltSvc_DecodeStrings d st db =
     (let origin_length = unat (af_origin_length (asd_altsvc_fields d));
          value_length =
            nat ((int (payload_length (fds_frame_header st)) - int origin_length - 2) mod 2 ^ 64)
      in if fds_remaining_payload st > value_length then
           let remaining_origin_length = fds_remaining_payload st - value_length;
               avail = MinLengthRemaining db remaining_origin_length;
               (st, db) = report_payload OnAltSvcOriginData avail st db
           in if remaining_origin_length > avail then
                (kDecodeInProgress, d\<lparr>asd_payload_state := AltSvc_kDecodingStrings\<rparr>, st, db)
              else AltSvc_DecodeValue d st db
         else AltSvc_DecodeValue d st db)"

definition AltSvc_MaybeDecodedStruct :: "DecodeStatus \<Rightarrow> AltSvcPayloadDecoder payload_op" where
  "AltSvc_MaybeDecodedStruct status d st db =
     (let origin_length = unat (af_origin_length (asd_altsvc_fields d))
      in if status = kDecodeDone \<and> origin_length \<le> fds_remaining_payload st then
           let value_length = fds_remaining_payload st - origin_length;
               st = notify (OnAltSvcStart (fds_frame_header st) origin_length value_length) st
           in AltSvc_DecodeStrings d st db
         else if status \<noteq> kDecodeDone then
           (status, d\<lparr>asd_payload_state := AltSvc_kResumeDecodingStruct\<rparr>, st, db)
         else
           let (status, st) = ReportFrameSizeError st in (status, d, st, db))"

definition AltSvc_ResumeDecodingPayload :: "AltSvcPayloadDecoder payload_op" where
  "AltSvc_ResumeDecodingPayload d st db =
     (case asd_payload_state d of
        AltSvc_kStartDecodingStruct \<Rightarrow>
          let (status, out, st, db) = StartDecodingStructureInPayload 2 DoDecode_AltSvc (asd_altsvc_fields d) st db
          in AltSvc_MaybeDecodedStruct status (d\<lparr>asd_altsvc_fields := out\<rparr>) st db
      | AltSvc_kMaybeDecodedStruct \<Rightarrow> AltSvc_MaybeDecodedStruct kDecodeError d st db
      | AltSvc_kDecodingStrings \<Rightarrow> AltSvc_DecodeStrings d st db
      | AltSvc_kResumeDecodingStruct \<Rightarrow>
          let (status, out, st, db) = ResumeDecodingStructureInPayload 2 DoDecode_AltSvc (asd_altsvc_fields d) st db
          in AltSvc_MaybeDecodedStruct status
               (d\<lparr>asd_altsvc_fields := out, asd_payload_state := AltSvc_kMaybeDecodedStruct\<rparr>) st db)"

definition AltSvc_StartDecodingPayload :: "AltSvcPayloadDecoder payload_op" where
  "AltSvc_StartDecodingPayload d st db =
     (let st = InitializeRemainders st;
          d = d\<lparr>asd_payload_state := AltSvc_kStartDecodingStruct\<rparr>
      in AltSvc_ResumeDecodingPayload d st db)"

section \<open>Grammars\<close>

definition continuation_grammar :: payload_grammar where
  "continuation_grammar h q =
     after [OnContinuationStart h] (read_run OnHpackFragment OnContinuationEnd (payload_length h) q)"

definition unknown_grammar :: payload_grammar where
  "unknown_grammar h q =
     after [OnUnknownStart h] (read_run OnUnknownPayload OnUnknownEnd (payload_length h) q)"

definition goaway_grammar :: payload_grammar where
  "goaway_grammar h q =
     read_struct 8 DoDecode_GoAway (payload_length h) h q
       (\<lambda>v r. after [OnGoAwayStart h v] (read_run OnGoAwayOpaqueData OnGoAwayEnd (payload_length h - 8) r))"

text \<open>The origin and the value of an ALTSVC frame: \<open>o\<close> bytes, and the rest of the payload.\<close>

definition altsvc_strings :: "nat \<Rightarrow> nat \<Rightarrow> bytes \<Rightarrow> DecodeStatus \<times> frame_event list" where
  "altsvc_strings k n r =
     (if length r = n then (kDecodeDone, [OnAltSvcOriginData (take k r), OnAltSvcValueData (drop k r), OnAltSvcEnd])
      else (kDecodeInProgress, [OnAltSvcOriginData (take k r), OnAltSvcValueData (drop k r)]))"

definition altsvc_grammar :: payload_grammar where
  "altsvc_grammar h q =
     read_struct 2 DoDecode_AltSvc (payload_length h) h q
       (\<lambda>v r. let k = unat (af_origin_length v); n = payload_length h - 2 in
          if k \<le> n then after [OnAltSvcStart h k (n - k)] (altsvc_strings k n r)
          else (kDecodeError, [OnFrameSizeError h]))"

section \<open>CONTINUATION and unknown frames meet the contract\<close>

definition run_Inv :: "Http2FrameHeader \<Rightarrow> bytes \<Rightarrow> 'd \<Rightarrow> FrameDecoderState \<Rightarrow> bool" where
  "run_Inv h q d st \<longleftrightarrow> fds_remaining_padding st = 0"

lemma plain_run_start:
  assumes "state_ok h st" "length (rest db) \<le> payload_length h" "byte_run ev"
  shows "payload_outcome (after [s] (read_run ev fin (payload_length h) (rest db))) run_Inv h (expand (fds_listener st))
    (rest db) db
    (case report_available ev (Remaining db) (notify s (InitializeRemainders st)) db of (st, db) \<Rightarrow>
       if fds_remaining_payload st = 0 then (kDecodeDone, d, notify fin st, db) else (kDecodeInProgress, d, st, db))"
  using run_outcome[of h "notify s (InitializeRemainders st)" ev "expand (fds_listener st)" "[s]" "rest db" db run_Inv d fin d]
    assms payload_length_bound[of h] by (simp add: state_ok_header run_Inv_def)

lemma plain_run_resume:
  assumes "state_ok h st" "run_Inv h p d st"
    "fds_remaining_payload st + fds_remaining_padding st + length p = payload_length h"
    "length (p @ rest db) \<le> payload_length h" "byte_run ev" "fst (read_run ev fin (payload_length h) p) = kDecodeInProgress"
    "expand (fds_listener st) = L @ expand (snd (after [s] (read_run ev fin (payload_length h) p)))"
  shows "payload_outcome (after [s] (read_run ev fin (payload_length h) (p @ rest db))) run_Inv h L (p @ rest db) db
    (case report_available ev (Remaining db) st db of (st, db) \<Rightarrow>
       if fds_remaining_payload st = 0 then (kDecodeDone, d, notify fin st, db) else (kDecodeInProgress, d, st, db))"
proof -
  have n: "payload_length h = length p + fds_remaining_payload st" and pad: "fds_remaining_padding st = 0"
    using assms(2,3) by (auto simp: run_Inv_def)
  have "expand (fds_listener st) = L @ expand [s, ev p]"
    using assms(6,7) by (auto simp: read_run_def split: if_splits)
  from run_outcome[OF assms(1,5) pad this, of "p @ rest db" db run_Inv d fin d] show ?thesis
    using assms n payload_length_bound[of h]
    by (subst payload_outcome_cong[of _ "after [s, ev p] (read_run ev fin (fds_remaining_payload st) (rest db))"])
      (simp_all add: read_run_append run_Inv_def pad)
qed

lemma read_run_no_error: "fst (read_run ev fin n r) \<noteq> kDecodeError"
  by (simp add: read_run_def)

interpretation p_continuation: payload_decoder Continuation_StartDecodingPayload Continuation_ResumeDecodingPayload
  continuation_grammar run_Inv
  by unfold_locales
    (auto simp: Continuation_StartDecodingPayload_def Continuation_ResumeDecodingPayload_def continuation_grammar_def
      state_ok_header read_run_no_error intro!: plain_run_start plain_run_resume)

interpretation p_unknown: payload_decoder Unknown_StartDecodingPayload Unknown_ResumeDecodingPayload
  unknown_grammar run_Inv
  by unfold_locales
    (auto simp: Unknown_StartDecodingPayload_def Unknown_ResumeDecodingPayload_def unknown_grammar_def
      state_ok_header read_run_no_error intro!: plain_run_start plain_run_resume)

section \<open>GOAWAY meets the contract\<close>

definition goaway_Inv :: "Http2FrameHeader \<Rightarrow> bytes \<Rightarrow> GoAwayPayloadDecoder \<Rightarrow> FrameDecoderState \<Rightarrow> bool" where
  "goaway_Inv h q d st \<longleftrightarrow>
     fds_remaining_padding st = 0 \<and>
     (if length q < 8 then gad_payload_state d = GoAway_kResumeDecodingFixedFields \<and> collecting q st
      else gad_payload_state d = GoAway_kReadOpaqueData)"

lemma goaway_data:
  assumes "state_ok h st" "fds_remaining_padding st = 0" "expand (fds_listener st) = L @ expand es"
    "fds_remaining_payload st + length q = payload_length h + length (rest db)"
    "length (rest db) \<le> fds_remaining_payload st" "fds_remaining_payload st < 2 ^ 32" "8 \<le> length q"
  shows "payload_outcome (after es (read_run OnGoAwayOpaqueData OnGoAwayEnd (fds_remaining_payload st) (rest db)))
    goaway_Inv h L q db (GoAway_ReadOpaqueData d st db)"
proof -
  have *: "GoAway_ReadOpaqueData d st db =
    (case report_available OnGoAwayOpaqueData (Remaining db) st db of (st, db) \<Rightarrow>
       if fds_remaining_payload st = 0 then (kDecodeDone, d, notify OnGoAwayEnd st, db)
       else (kDecodeInProgress, d\<lparr>gad_payload_state := GoAway_kReadOpaqueData\<rparr>, st, db))"
    by (simp add: GoAway_ReadOpaqueData_def split: prod.split)
  show ?thesis unfolding *
    by (rule run_outcome) (use assms in \<open>auto simp: goaway_Inv_def\<close>)
qed

lemma goaway_fields:
  assumes "struct_outcome 8 DoDecode_GoAway out got st db (status, v, st', db')" "state_ok h st"
    "fds_remaining_payload st + length got = payload_length h" "fds_remaining_padding st = 0" "length got < 8"
    "length (got @ rest db) \<le> payload_length h" "expand (fds_listener st) = L" "gad_goaway_fields d = v"
  shows "payload_outcome (goaway_grammar h (got @ rest db)) goaway_Inv h L (got @ rest db) db
    (GoAway_HandleFixedFieldsStatus status d st' db')"
  using assms(1,2) assms(3)[symmetric] assms(5)
proof (cases rule: struct_phase)
  case whole
  have "payload_outcome (after [OnGoAwayStart h v]
      (read_run OnGoAwayOpaqueData OnGoAwayEnd (fds_remaining_payload (notify (OnGoAwayStart h v) st')) (rest db')))
      goaway_Inv h L (got @ rest db) db'
      (GoAway_ReadOpaqueData d (notify (OnGoAwayStart h v) st') db')"
    by (rule goaway_data) (use whole assms payload_length_bound[of h] in auto)
  then show ?thesis
    using payload_outcome_advance[OF _ whole(7)] whole assms(8)
    by (simp add: goaway_grammar_def GoAway_HandleFixedFieldsStatus_def state_ok_header)
next
  case part
  then show ?thesis using assms
    by (simp add: goaway_grammar_def GoAway_HandleFixedFieldsStatus_def payload_outcome_def goaway_Inv_def)
next
  case short
  then show ?thesis using assms
    by (simp add: goaway_grammar_def GoAway_HandleFixedFieldsStatus_def payload_outcome_def)
qed

interpretation p_goaway: payload_decoder GoAway_StartDecodingPayload GoAway_ResumeDecodingPayload
  goaway_grammar goaway_Inv
proof
  fix h :: Http2FrameHeader and st db and d :: GoAwayPayloadDecoder
  assume a: "state_ok h st" "length (rest db) \<le> payload_length h"
  let ?st = "InitializeRemainders st"
  obtain s v st' db' where r: "StartDecodingStructureInPayload 8 DoDecode_GoAway (gad_goaway_fields d) ?st db = (s, v, st', db')"
    by (metis prod_cases4)
  have "struct_outcome 8 DoDecode_GoAway (gad_goaway_fields d) [] ?st db (s, v, st', db')"
    unfolding r[symmetric] using a(1) by (intro c_goaway.Start_structure) (simp add: state_ok_def)
  from goaway_fields[OF this] a
  show "payload_outcome (goaway_grammar h (rest db)) goaway_Inv h (expand (fds_listener st)) (rest db) db
      (GoAway_StartDecodingPayload d st db)"
    by (simp add: GoAway_StartDecodingPayload_def GoAway_ResumeDecodingPayload_def r state_ok_header)
next
  fix h :: Http2FrameHeader and st p db L and d :: GoAwayPayloadDecoder
  assume a: "state_ok h st" "goaway_Inv h p d st" "fst (goaway_grammar h p) = kDecodeInProgress"
    "fds_remaining_payload st + fds_remaining_padding st + length p = payload_length h"
    "length (p @ rest db) \<le> payload_length h" "expand (fds_listener st) = L @ expand (snd (goaway_grammar h p))"
  then have n: "fds_remaining_payload st + length p = payload_length h" "fds_remaining_padding st = 0"
    by (simp_all add: goaway_Inv_def)
  show "payload_outcome (goaway_grammar h (p @ rest db)) goaway_Inv h L (p @ rest db) db
      (GoAway_ResumeDecodingPayload d st db)"
  proof (cases "length p < 8")
    case True
    obtain s v st' db' where r: "ResumeDecodingStructureInPayload 8 DoDecode_GoAway (gad_goaway_fields d) st db = (s, v, st', db')"
      by (metis prod_cases4)
    have p: "gad_payload_state d = GoAway_kResumeDecodingFixedFields" "collecting p st"
      using a(2) True by (auto simp: goaway_Inv_def)
    have "struct_outcome 8 DoDecode_GoAway (gad_goaway_fields d) p st db (s, v, st', db')"
      unfolding r[symmetric] using p(2) True by (intro c_goaway.Resume_structure)
    moreover have "snd (goaway_grammar h p) = []"
      using a(3) True by (auto simp: goaway_grammar_def read_struct_def split: if_splits)
    ultimately show ?thesis
      using goaway_fields[of "gad_goaway_fields d" p st db s v st' db' h] a n True
      by (simp add: GoAway_ResumeDecodingPayload_def p r)
  next
    case False
    let ?v = "fst (DoDecode_GoAway (mkDecodeBuffer (take 8 p)))" and ?run = "read_run OnGoAwayOpaqueData OnGoAwayEnd"
    have len: "8 \<le> length p" "8 \<le> payload_length h" using False a(5) by auto
    have g: "goaway_grammar h (p @ x) = after [OnGoAwayStart h ?v] (?run (payload_length h - 8) (drop 8 p @ x))" for x
      using len by (simp add: goaway_grammar_def read_struct_def)
    have ev: "expand (fds_listener st) = L @ expand [OnGoAwayStart h ?v, OnGoAwayOpaqueData (drop 8 p)]"
      using a(3,6) g[of "[]"] by (auto simp: read_run_def split: if_splits)
    have m: "payload_length h - 8 = length (drop 8 p) + fds_remaining_payload st" using n len by simp
    have st: "gad_payload_state d = GoAway_kReadOpaqueData" using a(2) False by (simp add: goaway_Inv_def)
    show ?thesis
      using goaway_data[OF a(1) n(2) ev, of "p @ rest db" db d] n a(5) len payload_length_bound[of h]
      by (subst payload_outcome_cong[of _ "after [OnGoAwayStart h ?v, OnGoAwayOpaqueData (drop 8 p)]
            (?run (fds_remaining_payload st) (rest db))"])
        (simp_all add: g m read_run_append GoAway_ResumeDecodingPayload_def st del: length_drop)
  qed
next
  show "goaway_grammar h (p @ x) = goaway_grammar h p"
    if "fst (goaway_grammar h p) = kDecodeError" for h p x
    using that by (auto simp: goaway_grammar_def read_struct_def read_run_no_error split: if_splits)
qed

section \<open>ALTSVC meets the contract\<close>

definition altsvc_Inv :: "Http2FrameHeader \<Rightarrow> bytes \<Rightarrow> AltSvcPayloadDecoder \<Rightarrow> FrameDecoderState \<Rightarrow> bool" where
  "altsvc_Inv h q d st \<longleftrightarrow>
     fds_remaining_padding st = 0 \<and>
     (if length q < 2 then asd_payload_state d = AltSvc_kResumeDecodingStruct \<and> collecting q st
      else asd_payload_state d = AltSvc_kDecodingStrings \<and>
           asd_altsvc_fields d = fst (DoDecode_AltSvc (mkDecodeBuffer (take 2 q))))"

lemma altsvc_value:
  assumes "state_ok h st" "fds_remaining_padding st = 0" "expand (fds_listener st) = L @ expand es"
    "fds_remaining_payload st + length q = payload_length h + length (rest db)"
    "length (rest db) \<le> fds_remaining_payload st" "fds_remaining_payload st < 2 ^ 32" "2 \<le> length q"
    "asd_altsvc_fields d = fst (DoDecode_AltSvc (mkDecodeBuffer (take 2 q)))"
  shows "payload_outcome (after es (read_run OnAltSvcValueData OnAltSvcEnd (fds_remaining_payload st) (rest db)))
    altsvc_Inv h L q db (AltSvc_DecodeValue d st db)"
proof -
  have "(if HasData db then report_payload OnAltSvcValueData (Remaining db) st db else (st, db)) =
      report_available OnAltSvcValueData (Remaining db) st db"
    by (simp add: report_available_def rest_simps)
  then show ?thesis unfolding AltSvc_DecodeValue_def Let_def
    by (simp only:) (rule run_outcome; use assms in \<open>simp add: altsvc_Inv_def\<close>)
qed

text \<open>\<open>r\<close> has been read before, and \<open>m\<close> bytes of \<open>x\<close> belong to the origin.\<close>

lemma altsvc_strings_split:
  assumes "length x \<le> n" "m = k - length r" "m \<le> length x"
  shows "fst (altsvc_strings k (length r + n) (r @ x)) = fst (read_run OnAltSvcValueData OnAltSvcEnd (n - m) (drop m x))"
    "expand (snd (altsvc_strings k (length r + n) (r @ x))) =
     expand [OnAltSvcOriginData (take k r), OnAltSvcValueData (drop k r), OnAltSvcOriginData (take m x)] @
     expand (snd (read_run OnAltSvcValueData OnAltSvcEnd (n - m) (drop m x)))"
  using assms by (cases "length r < k"; auto simp: altsvc_strings_def read_run_def)+

lemma altsvc_strings_outcome:
  assumes ok: "state_ok h st" and pad: "fds_remaining_padding st = 0" and q: "2 \<le> length q"
    and d: "asd_altsvc_fields d = fst (DoDecode_AltSvc (mkDecodeBuffer (take 2 q)))"
    and k: "k = unat (af_origin_length (asd_altsvc_fields d))" "k \<le> payload_length h - 2" "2 \<le> payload_length h"
    and n: "fds_remaining_payload st + length r = payload_length h - 2" "length (rest db) \<le> fds_remaining_payload st"
      "length q = 2 + length r + length (rest db)"
    and L: "expand (fds_listener st) = L @ expand (es @ [OnAltSvcOriginData (take k r), OnAltSvcValueData (drop k r)])"
  shows "payload_outcome (after es (altsvc_strings k (payload_length h - 2) (r @ rest db))) altsvc_Inv h L q db
    (AltSvc_DecodeStrings d st db)"
proof -
  let ?n = "fds_remaining_payload st" and ?x = "rest db" and ?m = "k - length r"
  let ?es = "es @ [OnAltSvcOriginData (take k r), OnAltSvcValueData (drop k r), OnAltSvcOriginData (take ?m ?x)]"
  have bound: "?n < 2 ^ 32" using n(1) payload_length_bound[of h] by linarith
  have v: "nat ((int (payload_length h) - int k - 2) mod 2 ^ 64) = payload_length h - 2 - k"
  proof -
    have "int (payload_length h) - int k - 2 = int (payload_length h - 2 - k)" using k by linarith
    then show ?thesis using payload_length_bound[of h] by simp
  qed
  have m: "?n - (payload_length h - 2 - k) = ?m" "?n > payload_length h - 2 - k \<longleftrightarrow> length r < k"
    using n(1) k(2) by linarith+
  have dec: "AltSvc_DecodeStrings d st db =
    (if length r < k then
       case report_payload OnAltSvcOriginData (min ?m (length ?x)) st db of (st, db) \<Rightarrow>
         if ?m > min ?m (length ?x) then
           (kDecodeInProgress, d\<lparr>asd_payload_state := AltSvc_kDecodingStrings\<rparr>, st, db)
         else AltSvc_DecodeValue d st db
     else AltSvc_DecodeValue d st db)"
    unfolding AltSvc_DecodeStrings_def Let_def k(1)[symmetric] state_ok_header[OF ok] v m MinLengthRemaining_rest ..
  have N: "payload_length h - 2 = length r + ?n" using n(1) by simp
  have cong: "payload_outcome (after ?es (read_run OnAltSvcValueData OnAltSvcEnd (?n - ?m) (drop ?m ?x))) altsvc_Inv h L q db res
      \<Longrightarrow> payload_outcome (after es (altsvc_strings k (payload_length h - 2) (r @ ?x))) altsvc_Inv h L q db res"
    if "?m \<le> length ?x" for res
    using altsvc_strings_split[OF n(2) refl that] by (subst (asm) payload_outcome_cong) (auto simp: N)
  show ?thesis
  proof (cases "length r < k")
    case True
    let ?a = "min ?m (length ?x)"
    have "?a \<le> ?n" using n(2) by simp
    then obtain fs where rep: "report_payload OnAltSvcOriginData ?a st db =
        (st\<lparr>fds_listener := fds_listener st @ fs, fds_remaining_payload := ?n - ?a\<rparr>, AdvanceCursor db ?a)"
      and fs: "expand fs = expand1 (OnAltSvcOriginData (take ?a ?x))"
      using report_payload_events[OF _ bound byte_runs(5)] by blast
    let ?st = "st\<lparr>fds_listener := fds_listener st @ fs, fds_remaining_payload := ?n - ?a\<rparr>"
    show ?thesis
    proof (cases "?a < ?m")
      case short: True
      then have "?a = length ?x" "length r + length ?x < payload_length h - 2"
        "Suc (Suc (payload_length h - 2)) = payload_length h" "Suc (Suc (length r + length ?x)) < payload_length h"
        using k(2,3) by auto
      then show ?thesis
        using True short ok pad n L fs rep q d k
        by (simp add: dec payload_outcome_def altsvc_strings_def altsvc_Inv_def rest_simps)
    next
      case False
      then have a: "?a = ?m" "?m \<le> length ?x" by simp_all
      have "payload_outcome (after ?es (read_run OnAltSvcValueData OnAltSvcEnd (fds_remaining_payload ?st)
          (rest (AdvanceCursor db ?m)))) altsvc_Inv h L q (AdvanceCursor db ?m) (AltSvc_DecodeValue d ?st (AdvanceCursor db ?m))"
        by (rule altsvc_value) (use ok pad n L fs q d k bound a True in \<open>auto simp: rest_simps\<close>)
      from payload_outcome_advance[OF this, of db] True a rep show ?thesis
        by (auto simp: dec rest_simps intro!: cong)
    qed
  next
    case False
    have "payload_outcome (after ?es (read_run OnAltSvcValueData OnAltSvcEnd ?n ?x)) altsvc_Inv h L q db
        (AltSvc_DecodeValue d st db)"
      by (rule altsvc_value) (use ok pad n L q d k bound False in auto)
    then show ?thesis using False by (auto simp: dec intro!: cong)
  qed
qed

lemma altsvc_fields:
  assumes "struct_outcome 2 DoDecode_AltSvc out got st db (status, v, st', db')" "state_ok h st"
    "fds_remaining_payload st + length got = payload_length h" "fds_remaining_padding st = 0" "length got < 2"
    "length (got @ rest db) \<le> payload_length h" "expand (fds_listener st) = L" "asd_altsvc_fields d = v"
  shows "payload_outcome (altsvc_grammar h (got @ rest db)) altsvc_Inv h L (got @ rest db) db
    (AltSvc_MaybeDecodedStruct status d st' db')"
  using assms(1,2) assms(3)[symmetric] assms(5)
proof (cases rule: struct_phase)
  case whole
  let ?k = "unat (af_origin_length v)" and ?n = "payload_length h - 2"
  have g: "altsvc_grammar h (got @ rest db) =
      (if ?k \<le> ?n then after [OnAltSvcStart h ?k (?n - ?k)] (altsvc_strings ?k ?n (rest db'))
       else (kDecodeError, [OnFrameSizeError h]))"
    by (simp add: altsvc_grammar_def whole(10) Let_def)
  show ?thesis
  proof (cases "?k \<le> ?n")
    case True
    let ?st = "notify (OnAltSvcStart h ?k (?n - ?k)) st'"
    have "payload_outcome (after [OnAltSvcStart h ?k (?n - ?k)] (altsvc_strings ?k ?n ([] @ rest db')))
        altsvc_Inv h L (got @ rest db) db' (AltSvc_DecodeStrings d ?st db')"
      by (rule altsvc_strings_outcome) (use whole assms True in auto)
    from payload_outcome_advance[OF this whole(7)] True whole assms(8) show ?thesis
      by (simp add: g AltSvc_MaybeDecodedStruct_def state_ok_header Let_def)
  next
    case False
    with whole assms show ?thesis
      by (auto simp: g AltSvc_MaybeDecodedStruct_def Let_def ReportFrameSizeError_def payload_outcome_def state_ok_header)
  qed
next
  case part
  then show ?thesis using assms
    by (simp add: altsvc_grammar_def AltSvc_MaybeDecodedStruct_def payload_outcome_def altsvc_Inv_def)
next
  case short
  then show ?thesis using assms
    by (simp add: altsvc_grammar_def AltSvc_MaybeDecodedStruct_def payload_outcome_def)
qed

lemma altsvc_strings_no_error: "fst (altsvc_strings k n r) \<noteq> kDecodeError"
  by (simp add: altsvc_strings_def)

interpretation p_altsvc: payload_decoder AltSvc_StartDecodingPayload AltSvc_ResumeDecodingPayload
  altsvc_grammar altsvc_Inv
proof
  fix h :: Http2FrameHeader and st db and d :: AltSvcPayloadDecoder
  assume a: "state_ok h st" "length (rest db) \<le> payload_length h"
  let ?st = "InitializeRemainders st"
  obtain s v st' db' where r: "StartDecodingStructureInPayload 2 DoDecode_AltSvc (asd_altsvc_fields d) ?st db = (s, v, st', db')"
    by (metis prod_cases4)
  have "struct_outcome 2 DoDecode_AltSvc (asd_altsvc_fields d) [] ?st db (s, v, st', db')"
    unfolding r[symmetric] using a(1) by (intro c_altsvc.Start_structure) (simp add: state_ok_def)
  from altsvc_fields[OF this] a
  show "payload_outcome (altsvc_grammar h (rest db)) altsvc_Inv h (expand (fds_listener st)) (rest db) db
      (AltSvc_StartDecodingPayload d st db)"
    by (simp add: AltSvc_StartDecodingPayload_def AltSvc_ResumeDecodingPayload_def r state_ok_header)
next
  fix h :: Http2FrameHeader and st p db L and d :: AltSvcPayloadDecoder
  assume a: "state_ok h st" "altsvc_Inv h p d st" "fst (altsvc_grammar h p) = kDecodeInProgress"
    "fds_remaining_payload st + fds_remaining_padding st + length p = payload_length h"
    "length (p @ rest db) \<le> payload_length h" "expand (fds_listener st) = L @ expand (snd (altsvc_grammar h p))"
  then have n: "fds_remaining_payload st + length p = payload_length h" "fds_remaining_padding st = 0"
    by (simp_all add: altsvc_Inv_def)
  show "payload_outcome (altsvc_grammar h (p @ rest db)) altsvc_Inv h L (p @ rest db) db
      (AltSvc_ResumeDecodingPayload d st db)"
  proof (cases "length p < 2")
    case True
    obtain s v st' db' where r: "ResumeDecodingStructureInPayload 2 DoDecode_AltSvc (asd_altsvc_fields d) st db = (s, v, st', db')"
      by (metis prod_cases4)
    have p: "asd_payload_state d = AltSvc_kResumeDecodingStruct" "collecting p st"
      using a(2) True by (auto simp: altsvc_Inv_def)
    have "struct_outcome 2 DoDecode_AltSvc (asd_altsvc_fields d) p st db (s, v, st', db')"
      unfolding r[symmetric] using p(2) True by (intro c_altsvc.Resume_structure)
    moreover have "snd (altsvc_grammar h p) = []"
      using a(3) True by (auto simp: altsvc_grammar_def read_struct_def split: if_splits)
    ultimately show ?thesis
      using altsvc_fields[of "asd_altsvc_fields d" p st db s v st' db' h] a n True
      by (simp add: AltSvc_ResumeDecodingPayload_def p r)
  next
    case False
    let ?v = "fst (DoDecode_AltSvc (mkDecodeBuffer (take 2 p)))"
    let ?k = "unat (af_origin_length ?v)" and ?n = "payload_length h - 2"
    have len: "2 \<le> length p" "2 \<le> payload_length h" using False a(5) by auto
    have d: "asd_payload_state d = AltSvc_kDecodingStrings" "asd_altsvc_fields d = ?v"
      using a(2) False by (simp_all add: altsvc_Inv_def)
    have k: "?k \<le> ?n" using a(3) len by (auto simp: altsvc_grammar_def read_struct_def Let_def split: if_splits)
    have g: "altsvc_grammar h (p @ x) = after [OnAltSvcStart h ?k (?n - ?k)] (altsvc_strings ?k ?n (drop 2 p @ x))" for x
      using len k by (simp add: altsvc_grammar_def read_struct_def Let_def)
    have ev: "expand (fds_listener st) = L @ expand ([OnAltSvcStart h ?k (?n - ?k)] @
        [OnAltSvcOriginData (take ?k (drop 2 p)), OnAltSvcValueData (drop ?k (drop 2 p))])"
      using a(3,6) g[of "[]"] by (auto simp: altsvc_strings_def split: if_splits)
    show ?thesis
      unfolding g AltSvc_ResumeDecodingPayload_def d(1) AltSvcPayloadState.case
      by (rule altsvc_strings_outcome[OF a(1) n(2) _ _ _ _ _ _ _ _ ev]) (use n a(5) len k d in auto)
  qed
next
  show "altsvc_grammar h (p @ x) = altsvc_grammar h p"
    if "fst (altsvc_grammar h p) = kDecodeError" for h p x
    using that by (auto simp: altsvc_grammar_def read_struct_def altsvc_strings_no_error Let_def split: if_splits)
qed

end
