(* ===== verification/Payload_Settings.thy ===== *)
theory Payload_Settings
  imports Payload_Contract
begin

text \<open>
  \<^verbatim>\<open>http2/decoder/payload_decoders/settings_payload_decoder.cc\<close>: the payload is a sequence of
  six-byte settings, or empty for an acknowledgement. \<open>HandleNotDone\<close> only returns the status it is
  given.
\<close>

section \<open>SETTINGS\<close>

record SettingsPayloadDecoder =
  std_setting_fields :: Http2SettingFields

lemma StartDecodingStructureInPayload_decreases:
  "StartDecodingStructureInPayload sz dec out st db = (kDecodeDone, out', st', db') \<Longrightarrow> 0 < sz \<Longrightarrow>
   fds_remaining_payload st' < fds_remaining_payload st"
  by (auto simp: StartDecodingStructureInPayload_def SD_Start_payload_def IncompleteStart_payload_def Let_def
      MinLengthRemaining_def ReportFrameSizeError_def split: prod.splits if_splits)

function StartDecodingSettings :: "SettingsPayloadDecoder payload_op" where
  "StartDecodingSettings d st db =
     (if fds_remaining_payload st > 0 then
        case StartDecodingStructureInPayload 6 DoDecode_Setting (std_setting_fields d) st db of
          (status, out, st, db) \<Rightarrow>
            let d = d\<lparr>std_setting_fields := out\<rparr>
            in if status = kDecodeDone then StartDecodingSettings d (notify (OnSetting out) st) db
               else (status, d, st, db)
      else (kDecodeDone, d, notify OnSettingsEnd st, db))"
  by pat_completeness auto
termination
  by (relation "measure (\<lambda>(d, st, db). fds_remaining_payload st)")
    (auto simp: notify_def dest!: sym[of _ "StartDecodingStructureInPayload _ _ _ _ _"]
      StartDecodingStructureInPayload_decreases)

declare StartDecodingSettings.simps [simp del]

definition Settings_StartDecodingPayload :: "SettingsPayloadDecoder payload_op" where
  "Settings_StartDecodingPayload d st db =
     (let frame_header = fds_frame_header st; total_length = payload_length frame_header
      in if IsAck frame_header then
           if total_length = 0 then (kDecodeDone, d, notify (OnSettingsAck frame_header) st, db)
           else
             let (status, st) = ReportFrameSizeError (InitializeRemainders st) in (status, d, st, db)
         else
           let st = InitializeRemainders st;
               st = notify (OnSettingsStart frame_header) st
           in StartDecodingSettings d st db)"

definition Settings_ResumeDecodingPayload :: "SettingsPayloadDecoder payload_op" where
  "Settings_ResumeDecodingPayload d st db =
     (let (status, out, st, db) = ResumeDecodingStructureInPayload 6 DoDecode_Setting (std_setting_fields d) st db;
          d = d\<lparr>std_setting_fields := out\<rparr>
      in if status = kDecodeDone then StartDecodingSettings d (notify (OnSetting out) st) db
         else (status, d, st, db))"

section \<open>The grammar\<close>

function settings_items :: "Http2FrameHeader \<Rightarrow> nat \<Rightarrow> bytes \<Rightarrow> DecodeStatus \<times> frame_event list" where
  "settings_items h n r =
     (if n = 0 then (kDecodeDone, [OnSettingsEnd])
      else if 6 \<le> length r \<and> 6 \<le> n then
        after [OnSetting (fst (DoDecode_Setting (mkDecodeBuffer (take 6 r))))] (settings_items h (n - 6) (drop 6 r))
      else if length r < n then (kDecodeInProgress, [])
      else (kDecodeError, [OnFrameSizeError h]))"
  by pat_completeness auto
termination by (relation "measure (\<lambda>(h, n, r). n)") auto

declare settings_items.simps [simp del]

definition settings_grammar :: payload_grammar where
  "settings_grammar h q =
     (if IsAck h then
        if payload_length h = 0 then (kDecodeDone, [OnSettingsAck h]) else (kDecodeError, [OnFrameSizeError h])
      else after [OnSettingsStart h] (settings_items h (payload_length h) q))"

section \<open>SETTINGS meets the contract\<close>

text \<open>\<open>settings_pending q\<close> are the bytes of the setting that is being read at the prefix \<open>q\<close>.\<close>

definition settings_pending :: "bytes \<Rightarrow> bytes" where
  "settings_pending q = drop (length q div 6 * 6) q"

definition settings_Inv :: "Http2FrameHeader \<Rightarrow> bytes \<Rightarrow> SettingsPayloadDecoder \<Rightarrow> FrameDecoderState \<Rightarrow> bool" where
  "settings_Inv h q d st \<longleftrightarrow>
     \<not> IsAck h \<and> fds_remaining_padding st = 0 \<and> collecting (settings_pending q) st"

lemma settings_pending_append:
  assumes "length b mod 6 = 0" "length g < 6"
  shows "settings_pending (b @ g) = g"
proof -
  have "(length b + length g) div 6 * 6 = length b" using assms by presburger
  then show ?thesis by (simp add: settings_pending_def)
qed

lemma settings_pending_split:
  obtains b where "p = b @ settings_pending p" "length b mod 6 = 0" "length (settings_pending p) < 6"
proof
  have "length p div 6 * 6 \<le> length p" by simp
  then show "length (take (length p div 6 * 6) p) mod 6 = 0" "length (settings_pending p) < 6"
    by (simp_all add: settings_pending_def min_absorb2)
qed (simp add: settings_pending_def)

lemma settings_loop:
  assumes "state_ok h st" "fds_remaining_padding st = 0" "\<not> IsAck h" "expand (fds_listener st) = L @ expand es"
    "fds_remaining_payload st + length q = payload_length h + length (rest db)"
    "length (rest db) \<le> fds_remaining_payload st" "q = qs @ rest db" "length qs mod 6 = 0"
  shows "payload_outcome (after es (settings_items h (fds_remaining_payload st) (rest db))) settings_Inv h L q db
    (StartDecodingSettings d st db)"
  using assms
proof (induction d st db arbitrary: es qs rule: StartDecodingSettings.induct)
  case (1 d st db)
  note qs = "1.prems"(7,8)
  show ?case
  proof (cases "fds_remaining_payload st = 0")
    case True
    then show ?thesis using "1.prems"
      by (subst StartDecodingSettings.simps, subst settings_items.simps) (simp add: payload_outcome_def)
  next
    case False
    obtain s v st' db' where r:
      "StartDecodingStructureInPayload 6 DoDecode_Setting (std_setting_fields d) st db = (s, v, st', db')"
      by (metis prod_cases4)
    have out: "struct_outcome 6 DoDecode_Setting (std_setting_fields d) [] st db (s, v, st', db')"
      unfolding r[symmetric] using "1.prems"(1) by (intro c_setting.Start_structure) (simp add: state_ok_def)
    have loop: "StartDecodingSettings d st db =
        (if s = kDecodeDone then StartDecodingSettings (d\<lparr>std_setting_fields := v\<rparr>) (notify (OnSetting v) st') db'
         else (s, d\<lparr>std_setting_fields := v\<rparr>, st', db'))"
      using False r by (subst StartDecodingSettings.simps) (simp add: Let_def)
    have items: "settings_items h (fds_remaining_payload st) (rest db) =
        read_struct 6 DoDecode_Setting (fds_remaining_payload st) h ([] @ rest db)
          (\<lambda>v r. after [OnSetting v] (settings_items h (fds_remaining_payload st - 6) r))"
      using False by (subst settings_items.simps) (simp add: read_struct_def)
    have n0: "fds_remaining_payload st = fds_remaining_payload st + length ([] :: bytes)" "length ([] :: bytes) < 6" by simp_all
    show ?thesis using out "1.prems"(1) n0
    proof (cases rule: struct_phase)
      case whole
      have q1: "q = (qs @ take 6 (rest db)) @ rest db'" "length (qs @ take 6 (rest db)) mod 6 = 0"
        using qs whole(8,9) by (simp_all add: mod_add_left_eq[symmetric])
      have "payload_outcome (after (es @ [OnSetting v]) (settings_items h (fds_remaining_payload (notify (OnSetting v) st'))
          (rest db'))) settings_Inv h L q db'
          (StartDecodingSettings (d\<lparr>std_setting_fields := v\<rparr>) (notify (OnSetting v) st') db')"
        by (rule "1.IH"[OF _ r[symmetric] refl refl refl whole(1), where qs = "qs @ take 6 (rest db)"]) (use False whole "1.prems" q1 in auto)
      from payload_outcome_advance[OF this whole(7)] whole show ?thesis
        by (simp add: loop items after_def)
    next
      case part
      have "settings_pending q = rest db" using qs part(9) by (simp add: settings_pending_append)
      with part "1.prems" show ?thesis
        by (simp add: loop items payload_outcome_def settings_Inv_def)
    next
      case short
      with "1.prems" show ?thesis unfolding items by (simp add: loop payload_outcome_def)
    qed
  qed
qed

lemma settings_items_step:
  "6 \<le> length r \<Longrightarrow> 6 \<le> n \<Longrightarrow> settings_items h n r =
   after [OnSetting (fst (DoDecode_Setting (mkDecodeBuffer (take 6 r))))] (settings_items h (n - 6) (drop 6 r))"
  by (subst settings_items.simps) simp

text \<open>The settings that a prefix of whole settings gives.\<close>

lemma settings_items_prefix:
  assumes "length r mod 6 = 0" "length r \<le> n"
  shows "\<exists>es. \<forall>y. settings_items h n (r @ y) = after es (settings_items h (n - length r) y)"
  using assms
proof (induction r arbitrary: n rule: length_induct)
  case (1 r)
  show ?case
  proof (cases "r = []")
    case True
    then show ?thesis by (intro exI[of _ "[]"]) (simp add: after_def)
  next
    case False
    then have len: "6 \<le> length r" "length (drop 6 r) < length r" using "1.prems"(1) by (auto intro: dvd_imp_le)
    have "length (drop 6 r) mod 6 = 0" "length (drop 6 r) \<le> n - 6"
      using "1.prems" len by (simp_all add: mod_if)
    from "1.IH"[rule_format, OF len(2) this] obtain es where es: "\<And>y. settings_items h (n - 6) (drop 6 r @ y) =
        after es (settings_items h (n - 6 - length (drop 6 r)) y)" by blast
    show ?thesis
      using len "1.prems"(2)
      by (intro exI[of _ "OnSetting (fst (DoDecode_Setting (mkDecodeBuffer (take 6 r)))) # es"])
        (simp add: settings_items_step es after_def)
  qed
qed

lemma settings_error_final:
  "fst (settings_items h n p) = kDecodeError \<Longrightarrow> settings_items h n (p @ x) = settings_items h n p"
proof (induction h n p rule: settings_items.induct)
  case (1 h n r)
  then show ?case
    by (subst (1 2) settings_items.simps) (auto simp: settings_items.simps[of h n r] split: if_splits)
qed

interpretation p_settings: payload_decoder Settings_StartDecodingPayload Settings_ResumeDecodingPayload
  settings_grammar settings_Inv
proof
  fix h :: Http2FrameHeader and st db and d :: SettingsPayloadDecoder
  assume a: "state_ok h st" "length (rest db) \<le> payload_length h"
  show "payload_outcome (settings_grammar h (rest db)) settings_Inv h (expand (fds_listener st)) (rest db) db
      (Settings_StartDecodingPayload d st db)"
  proof (cases "IsAck h")
    case True
    with a show ?thesis
      by (auto simp: Settings_StartDecodingPayload_def settings_grammar_def Let_def ReportFrameSizeError_def
          payload_outcome_def state_ok_header)
  next
    case False
    let ?st = "notify (OnSettingsStart h) (InitializeRemainders st)"
    have "payload_outcome (after [OnSettingsStart h] (settings_items h (fds_remaining_payload ?st) (rest db)))
        settings_Inv h (expand (fds_listener st)) (rest db) db (StartDecodingSettings d ?st db)"
      by (rule settings_loop[where qs = "[]"]) (use a False in \<open>auto simp: state_ok_header\<close>)
    with a False show ?thesis
      by (simp add: Settings_StartDecodingPayload_def settings_grammar_def state_ok_header)
  qed
next
  fix h :: Http2FrameHeader and st p db L and d :: SettingsPayloadDecoder
  assume a: "state_ok h st" "settings_Inv h p d st" "fst (settings_grammar h p) = kDecodeInProgress"
    "fds_remaining_payload st + fds_remaining_padding st + length p = payload_length h"
    "length (p @ rest db) \<le> payload_length h" "expand (fds_listener st) = L @ expand (snd (settings_grammar h p))"
  let ?got = "settings_pending p"
  have I: "\<not> IsAck h" "fds_remaining_padding st = 0" "collecting ?got st" using a(2) by (auto simp: settings_Inv_def)
  obtain b where p: "p = b @ ?got" "length b mod 6 = 0" "length ?got < 6" by (rule settings_pending_split)
  then have len: "length p = length b + length ?got" by (metis length_append)
  define n where "n = payload_length h - length b"
  obtain es where es: "settings_items h (payload_length h) (b @ y) = after es (settings_items h n y)" for y
    using settings_items_prefix[OF p(2), of "payload_length h" h] a(4) len unfolding n_def by auto
  have g: "settings_grammar h (p @ y) = after ([OnSettingsStart h] @ es) (settings_items h n (?got @ y))" for y
  proof -
    have "p @ y = b @ ?got @ y" using p(1) by (metis append.assoc)
    then have "settings_items h (payload_length h) (p @ y) = after es (settings_items h n (?got @ y))"
      using es[of "?got @ y"] by metis
    then show ?thesis using I(1) by (simp add: settings_grammar_def after_def)
  qed
  have "settings_items h n ?got = (kDecodeInProgress, [])"
    using a(3) g[of "[]"] p(3) by (simp add: settings_items.simps[of h n ?got] split: if_splits)
  then have L: "expand (fds_listener st) = L @ expand ([OnSettingsStart h] @ es)" "0 < n"
    using a(6) g[of "[]"] by (simp, cases "n = 0") (simp_all add: settings_items.simps[of h 0])
  obtain s v st' db' where r:
    "ResumeDecodingStructureInPayload 6 DoDecode_Setting (std_setting_fields d) st db = (s, v, st', db')"
    by (metis prod_cases4)
  have out: "struct_outcome 6 DoDecode_Setting (std_setting_fields d) ?got st db (s, v, st', db')"
    unfolding r[symmetric] using I(3) p(3) by (intro c_setting.Resume_structure)
  have n: "n = fds_remaining_payload st + length ?got" using a(4) I(2) len by (simp add: n_def)
  have items: "settings_items h n (?got @ rest db) = read_struct 6 DoDecode_Setting n h (?got @ rest db)
      (\<lambda>v r. after [OnSetting v] (settings_items h (n - 6) r))"
    using L(2) by (subst settings_items.simps) (simp add: read_struct_def)
  show "payload_outcome (settings_grammar h (p @ rest db)) settings_Inv h L (p @ rest db) db
      (Settings_ResumeDecodingPayload d st db)"
    using out a(1) n p(3)
  proof (cases rule: struct_phase)
    case whole
    have p1: "p @ rest db = b @ ?got @ rest db" using p(1) by (metis append.assoc)
    have "payload_outcome (after ([OnSettingsStart h] @ es @ [OnSetting v])
        (settings_items h (fds_remaining_payload (notify (OnSetting v) st')) (rest db'))) settings_Inv h L (p @ rest db) db'
        (StartDecodingSettings (d\<lparr>std_setting_fields := v\<rparr>) (notify (OnSetting v) st') db')"
      by (rule settings_loop[where qs = "b @ take 6 (?got @ rest db)"])
        (use whole I L p(2,3) n len a(4,5) p1 in \<open>auto simp: mod_add_left_eq[symmetric]\<close>)
    from payload_outcome_advance[OF this whole(7)] whole(1,3) show ?thesis
      by (simp add: g items whole(10) Settings_ResumeDecodingPayload_def r after_def)
  next
    case part
    have "settings_pending (p @ rest db) = ?got @ rest db"
      using settings_pending_append[OF p(2) part(9)] p(1) by (metis append.assoc)
    with part a(4,5) I L n len show ?thesis
      unfolding g items part(12) by (simp add: Settings_ResumeDecodingPayload_def r payload_outcome_def settings_Inv_def)
  next
    case short
    with a(4,5) I L n len show ?thesis
      unfolding g items short(9) by (simp add: Settings_ResumeDecodingPayload_def r payload_outcome_def)
  qed
next
  show "settings_grammar h (p @ x) = settings_grammar h p"
    if "fst (settings_grammar h p) = kDecodeError" for h p x
    using that by (auto simp: settings_grammar_def settings_error_final)
qed

end
