(* ===== verification/Payload_Padded.thy ===== *)
theory Payload_Padded
  imports Payload_Contract
begin

text \<open>
  The decoders of the payloads that may be padded: \<^verbatim>\<open>data_payload_decoder.cc\<close>,
  \<^verbatim>\<open>headers_payload_decoder.cc\<close> and \<^verbatim>\<open>push_promise_payload_decoder.cc\<close> of
  \<^verbatim>\<open>http2/decoder/payload_decoders\<close>. A label of a \<open>switch\<close> that other labels fall into is a
  definition of its own; the loops around the \<open>switch\<close> only go on to a later label.
\<close>

section \<open>DATA\<close>

datatype DataPayloadState = Data_kReadPadLength | Data_kReadPayload | Data_kSkipPadding

record DataPayloadDecoder =
  dpd_payload_state :: DataPayloadState

definition Data_SkipPadding :: "DataPayloadDecoder payload_op" where
  "Data_SkipPadding d st db =
     (case SkipPadding st db of (skipped, st, db) \<Rightarrow>
        if skipped then (kDecodeDone, d, notify OnDataEnd st, db)
        else (kDecodeInProgress, d\<lparr>dpd_payload_state := Data_kSkipPadding\<rparr>, st, db))"

definition Data_ReadPayload :: "DataPayloadDecoder payload_op" where
  "Data_ReadPayload d st db =
     (case report_available OnDataPayload (AvailablePayload st db) st db of (st, db) \<Rightarrow>
        if fds_remaining_payload st > 0 then
          (kDecodeInProgress, d\<lparr>dpd_payload_state := Data_kReadPayload\<rparr>, st, db)
        else Data_SkipPadding d st db)"

definition Data_ReadPadLength :: "DataPayloadDecoder payload_op" where
  "Data_ReadPadLength d st db =
     (case ReadPadLength st db True of (status, st, db) \<Rightarrow>
        if status \<noteq> kDecodeDone then (status, d, st, db) else Data_ReadPayload d st db)"

definition Data_ResumeDecodingPayload :: "DataPayloadDecoder payload_op" where
  "Data_ResumeDecodingPayload d st db =
     (case dpd_payload_state d of
        Data_kReadPadLength \<Rightarrow> Data_ReadPadLength d st db
      | Data_kReadPayload \<Rightarrow> Data_ReadPayload d st db
      | Data_kSkipPadding \<Rightarrow> Data_SkipPadding d st db)"

definition Data_StartDecodingPayload :: "DataPayloadDecoder payload_op" where
  "Data_StartDecodingPayload d st db =
     (let frame_header = fds_frame_header st; total_length = payload_length frame_header
      in if \<not> IsPadded frame_header \<and> Remaining db = total_length then
           let st = notify (OnDataStart frame_header) st;
               (st, db) =
                 (if total_length > 0 then
                    (notify (OnDataPayload (cursor_bytes db total_length)) st, AdvanceCursor db total_length)
                  else (st, db))
           in (kDecodeDone, d, notify OnDataEnd st, db)
         else
           let d = d\<lparr>dpd_payload_state :=
                      if \<not> IsPadded frame_header then Data_kReadPayload else Data_kReadPadLength\<rparr>;
               st = InitializeRemainders st;
               st = notify (OnDataStart frame_header) st
           in Data_ResumeDecodingPayload d st db)"

section \<open>HEADERS\<close>

datatype HeadersPayloadState =
    Headers_kReadPadLength
  | Headers_kStartDecodingPriorityFields
  | Headers_kReadPayload
  | Headers_kSkipPadding
  | Headers_kResumeDecodingPriorityFields

record HeadersPayloadDecoder =
  hpd_payload_state :: HeadersPayloadState
  hpd_priority_fields :: Http2PriorityFields

definition Headers_SkipPadding :: "HeadersPayloadDecoder payload_op" where
  "Headers_SkipPadding d st db =
     (case SkipPadding st db of (skipped, st, db) \<Rightarrow>
        if skipped then (kDecodeDone, d, notify OnHeadersEnd st, db)
        else (kDecodeInProgress, d\<lparr>hpd_payload_state := Headers_kSkipPadding\<rparr>, st, db))"

definition Headers_ReadPayload :: "HeadersPayloadDecoder payload_op" where
  "Headers_ReadPayload d st db =
     (case report_available OnHpackFragment (AvailablePayload st db) st db of (st, db) \<Rightarrow>
        if fds_remaining_payload st > 0 then
          (kDecodeInProgress, d\<lparr>hpd_payload_state := Headers_kReadPayload\<rparr>, st, db)
        else Headers_SkipPadding d st db)"

definition Headers_StartDecodingPriorityFields :: "HeadersPayloadDecoder payload_op" where
  "Headers_StartDecodingPriorityFields d st db =
     (case StartDecodingStructureInPayload 5 DoDecode_Priority (hpd_priority_fields d) st db of (status, out, st, db) \<Rightarrow>
        let d = d\<lparr>hpd_priority_fields := out\<rparr>
        in if status \<noteq> kDecodeDone then
             (status, d\<lparr>hpd_payload_state := Headers_kResumeDecodingPriorityFields\<rparr>, st, db)
           else Headers_ReadPayload d (notify (OnHeadersPriority out) st) db)"

definition Headers_ReadPadLength :: "HeadersPayloadDecoder payload_op" where
  "Headers_ReadPadLength d st db =
     (case ReadPadLength st db True of (status, st, db) \<Rightarrow>
        if status \<noteq> kDecodeDone then (status, d, st, db)
        else if \<not> HasPriority (fds_frame_header st) then
          Headers_ReadPayload (d\<lparr>hpd_payload_state := Headers_kReadPayload\<rparr>) st db
        else Headers_StartDecodingPriorityFields d st db)"

definition Headers_ResumeDecodingPriorityFields :: "HeadersPayloadDecoder payload_op" where
  "Headers_ResumeDecodingPriorityFields d st db =
     (case ResumeDecodingStructureInPayload 5 DoDecode_Priority (hpd_priority_fields d) st db of (status, out, st, db) \<Rightarrow>
        let d = d\<lparr>hpd_priority_fields := out\<rparr>
        in if status \<noteq> kDecodeDone then (status, d, st, db)
           else Headers_ReadPayload (d\<lparr>hpd_payload_state := Headers_kReadPayload\<rparr>)
                  (notify (OnHeadersPriority out) st) db)"

definition Headers_ResumeDecodingPayload :: "HeadersPayloadDecoder payload_op" where
  "Headers_ResumeDecodingPayload d st db =
     (case hpd_payload_state d of
        Headers_kReadPadLength \<Rightarrow> Headers_ReadPadLength d st db
      | Headers_kStartDecodingPriorityFields \<Rightarrow> Headers_StartDecodingPriorityFields d st db
      | Headers_kReadPayload \<Rightarrow> Headers_ReadPayload d st db
      | Headers_kSkipPadding \<Rightarrow> Headers_SkipPadding d st db
      | Headers_kResumeDecodingPriorityFields \<Rightarrow> Headers_ResumeDecodingPriorityFields d st db)"

definition Headers_StartDecodingPayload :: "HeadersPayloadDecoder payload_op" where
  "Headers_StartDecodingPayload d st db =
     (let frame_header = fds_frame_header st; total_length = payload_length frame_header;
          payload_flags = FLAG_PADDED OR FLAG_PRIORITY
      in if \<not> HasAnyFlags frame_header payload_flags \<and> Remaining db = total_length then
           let st = notify (OnHeadersStart frame_header) st;
               (st, db) =
                 (if total_length > 0 then
                    (notify (OnHpackFragment (cursor_bytes db total_length)) st, AdvanceCursor db total_length)
                  else (st, db))
           in (kDecodeDone, d, notify OnHeadersEnd st, db)
         else
           let d = d\<lparr>hpd_payload_state :=
                      if \<not> HasAnyFlags frame_header payload_flags then Headers_kReadPayload
                      else if IsPadded frame_header then Headers_kReadPadLength
                      else Headers_kStartDecodingPriorityFields\<rparr>;
               st = InitializeRemainders st;
               st = notify (OnHeadersStart frame_header) st
           in Headers_ResumeDecodingPayload d st db)"

section \<open>PUSH\_PROMISE\<close>

datatype PushPromisePayloadState =
    PushPromise_kReadPadLength
  | PushPromise_kStartDecodingPushPromiseFields
  | PushPromise_kReadPayload
  | PushPromise_kSkipPadding
  | PushPromise_kResumeDecodingPushPromiseFields

record PushPromisePayloadDecoder =
  ppd_payload_state :: PushPromisePayloadState
  ppd_push_promise_fields :: Http2PushPromiseFields

definition ReportPushPromise :: "PushPromisePayloadDecoder \<Rightarrow> FrameDecoderState \<Rightarrow> FrameDecoderState" where
  "ReportPushPromise d st =
     (let frame_header = fds_frame_header st
      in if IsPadded frame_header then
           notify (OnPushPromiseStart frame_header (ppd_push_promise_fields d) (1 + fds_remaining_padding st)) st
         else notify (OnPushPromiseStart frame_header (ppd_push_promise_fields d) 0) st)"

definition PushPromise_SkipPadding :: "PushPromisePayloadDecoder payload_op" where
  "PushPromise_SkipPadding d st db =
     (case SkipPadding st db of (skipped, st, db) \<Rightarrow>
        if skipped then (kDecodeDone, d, notify OnPushPromiseEnd st, db)
        else (kDecodeInProgress, d\<lparr>ppd_payload_state := PushPromise_kSkipPadding\<rparr>, st, db))"

definition PushPromise_ReadPayload :: "PushPromisePayloadDecoder payload_op" where
  "PushPromise_ReadPayload d st db =
     (case report_payload OnHpackFragment (AvailablePayload st db) st db of (st, db) \<Rightarrow>
        if fds_remaining_payload st > 0 then
          (kDecodeInProgress, d\<lparr>ppd_payload_state := PushPromise_kReadPayload\<rparr>, st, db)
        else PushPromise_SkipPadding d st db)"

definition PushPromise_StartDecodingFields :: "PushPromisePayloadDecoder payload_op" where
  "PushPromise_StartDecodingFields d st db =
     (case StartDecodingStructureInPayload 4 DoDecode_PushPromise (ppd_push_promise_fields d) st db of (status, out, st, db) \<Rightarrow>
        let d = d\<lparr>ppd_push_promise_fields := out\<rparr>
        in if status \<noteq> kDecodeDone then
             (status, d\<lparr>ppd_payload_state := PushPromise_kResumeDecodingPushPromiseFields\<rparr>, st, db)
           else PushPromise_ReadPayload d (ReportPushPromise d st) db)"

definition PushPromise_ReadPadLength :: "PushPromisePayloadDecoder payload_op" where
  "PushPromise_ReadPadLength d st db =
     (case ReadPadLength st db False of (status, st, db) \<Rightarrow>
        if status \<noteq> kDecodeDone then
          (status, d\<lparr>ppd_payload_state := PushPromise_kReadPadLength\<rparr>, st, db)
        else PushPromise_StartDecodingFields d st db)"

definition PushPromise_ResumeDecodingFields :: "PushPromisePayloadDecoder payload_op" where
  "PushPromise_ResumeDecodingFields d st db =
     (case ResumeDecodingStructureInPayload 4 DoDecode_PushPromise (ppd_push_promise_fields d) st db of (status, out, st, db) \<Rightarrow>
        let d = d\<lparr>ppd_push_promise_fields := out\<rparr>
        in if status = kDecodeDone then
             PushPromise_ReadPayload (d\<lparr>ppd_payload_state := PushPromise_kReadPayload\<rparr>) (ReportPushPromise d st) db
           else (status, d\<lparr>ppd_payload_state := PushPromise_kResumeDecodingPushPromiseFields\<rparr>, st, db))"

definition PushPromise_ResumeDecodingPayload :: "PushPromisePayloadDecoder payload_op" where
  "PushPromise_ResumeDecodingPayload d st db =
     (case ppd_payload_state d of
        PushPromise_kReadPadLength \<Rightarrow> PushPromise_ReadPadLength d st db
      | PushPromise_kStartDecodingPushPromiseFields \<Rightarrow> PushPromise_StartDecodingFields d st db
      | PushPromise_kReadPayload \<Rightarrow> PushPromise_ReadPayload d st db
      | PushPromise_kSkipPadding \<Rightarrow> PushPromise_SkipPadding d st db
      | PushPromise_kResumeDecodingPushPromiseFields \<Rightarrow> PushPromise_ResumeDecodingFields d st db)"

definition PushPromise_StartDecodingPayload :: "PushPromisePayloadDecoder payload_op" where
  "PushPromise_StartDecodingPayload d st db =
     (let d = d\<lparr>ppd_payload_state :=
                if \<not> IsPadded (fds_frame_header st) then PushPromise_kStartDecodingPushPromiseFields
                else PushPromise_kReadPadLength\<rparr>;
          st = InitializeRemainders st
      in PushPromise_ResumeDecodingPayload d st db)"

section \<open>Padding in the grammars\<close>

definition padding_of :: "Http2FrameHeader \<Rightarrow> bytes \<Rightarrow> nat" where
  "padding_of h q = (if IsPadded h then unat (hd q) else 0)"

definition content_of :: "Http2FrameHeader \<Rightarrow> bytes \<Rightarrow> bytes" where
  "content_of h q = (if IsPadded h then tl q else q)"

definition content_length :: "Http2FrameHeader \<Rightarrow> bytes \<Rightarrow> nat" where
  "content_length h q = payload_length h - (if IsPadded h then unat (hd q) + 1 else 0)"

text \<open>
  The Pad Length field, if the frame has one; \<open>k\<close> goes on with the length of the content, the
  length of the padding, and what follows the field.
\<close>

definition read_pad ::
  "bool \<Rightarrow> Http2FrameHeader \<Rightarrow> bytes \<Rightarrow> (nat \<Rightarrow> nat \<Rightarrow> bytes \<Rightarrow> DecodeStatus \<times> frame_event list) \<Rightarrow>
   DecodeStatus \<times> frame_event list" where
  "read_pad report h q k =
     (if IsPadded h \<and> q = [] then
        if payload_length h = 0 then (kDecodeError, [OnPaddingTooLong h 1]) else (kDecodeInProgress, [])
      else if IsPadded h \<and> payload_length h < unat (hd q) + 1 then
        (kDecodeError, [OnPaddingTooLong h (unat (hd q) + 1 - payload_length h)])
      else
        after (if IsPadded h \<and> report then [OnPadLength (padding_of h q)] else [])
          (k (content_length h q) (padding_of h q) (content_of h q)))"

text \<open>A run of \<open>n\<close> bytes of content, \<open>pad\<close> bytes of padding, and the end of the frame.\<close>

definition padded_tail ::
  "(bytes \<Rightarrow> frame_event) \<Rightarrow> frame_event \<Rightarrow> nat \<Rightarrow> nat \<Rightarrow> bytes \<Rightarrow> DecodeStatus \<times> frame_event list" where
  "padded_tail run fin n pad r =
     (if length r = n + pad then (kDecodeDone, [run (take n r), OnPadding (drop n r), fin])
      else (kDecodeInProgress, [run (take n r), OnPadding (drop n r)]))"

definition data_grammar :: payload_grammar where
  "data_grammar h q = after [OnDataStart h] (read_pad True h q (padded_tail OnDataPayload OnDataEnd))"

definition headers_content :: "Http2FrameHeader \<Rightarrow> nat \<Rightarrow> nat \<Rightarrow> bytes \<Rightarrow> DecodeStatus \<times> frame_event list" where
  "headers_content h n pad r =
     (if HasPriority h then
        read_struct 5 DoDecode_Priority n h r
          (\<lambda>v r. after [OnHeadersPriority v] (padded_tail OnHpackFragment OnHeadersEnd (n - 5) pad r))
      else padded_tail OnHpackFragment OnHeadersEnd n pad r)"

definition headers_grammar :: payload_grammar where
  "headers_grammar h q = after [OnHeadersStart h] (read_pad True h q (headers_content h))"

definition push_promise_content :: "Http2FrameHeader \<Rightarrow> nat \<Rightarrow> nat \<Rightarrow> bytes \<Rightarrow> DecodeStatus \<times> frame_event list" where
  "push_promise_content h n pad r =
     read_struct 4 DoDecode_PushPromise n h r
       (\<lambda>v r. after [OnPushPromiseStart h v (if IsPadded h then 1 + pad else 0)]
          (padded_tail OnHpackFragment OnPushPromiseEnd (n - 4) pad r))"

definition push_promise_grammar :: payload_grammar where
  "push_promise_grammar h q = read_pad False h q (push_promise_content h)"

section \<open>The phases\<close>

lemma tail_skip:
  assumes "state_ok h st" "fds_remaining_payload st = 0" "fds_remaining_padding st + length r = n + pad" "n \<le> length r"
    "length (rest db) \<le> fds_remaining_padding st"
    "length q + fds_remaining_padding st = payload_length h + length (rest db)"
    "expand (fds_listener st) = L @ expand (es @ [ev (take n r), OnPadding (drop n r)])"
    "\<And>st'. fds_remaining_payload st' = 0 \<Longrightarrow> Inv h q ds st'"
  shows "payload_outcome (after es (padded_tail ev fin n pad (r @ rest db))) Inv h L q db
    (case SkipPadding st db of (skipped, st, db) \<Rightarrow>
       if skipped then (kDecodeDone, dd, notify fin st, db) else (kDecodeInProgress, ds, st, db))"
  using assms
  by (cases "length (rest db) = fds_remaining_padding st"; cases "length (rest db) = 0")
    (auto simp: SkipPadding_result Let_def payload_outcome_def padded_tail_def rest_simps min_def)

lemma tail_read:
  assumes ok: "state_ok h st" and n: "fds_remaining_payload st + length r = n" "fds_remaining_padding st = pad"
    and len: "length (rest db) \<le> fds_remaining_payload st + pad" "n < 2 ^ 32"
      "length q + fds_remaining_payload st + pad = payload_length h + length (rest db)"
    and ev: "byte_run ev" "expand (fds_listener st) = L @ expand (es @ [ev r])"
    and rep: "report = report_available \<or> report = report_payload"
    and rd: "\<And>st'. length (r @ rest db) < n \<Longrightarrow> fds_remaining_padding st' = pad \<Longrightarrow> Inv h q dr st'"
    and sk: "\<And>st'. n \<le> length (r @ rest db) \<Longrightarrow> fds_remaining_payload st' = 0 \<Longrightarrow> Inv h q ds st'"
  shows "payload_outcome (after es (padded_tail ev fin n pad (r @ rest db))) Inv h L q db
    (case report ev (AvailablePayload st db) st db of (st, db) \<Rightarrow>
       if fds_remaining_payload st > 0 then (kDecodeInProgress, dr, st, db)
       else case SkipPadding st db of (skipped, st, db) \<Rightarrow>
         if skipped then (kDecodeDone, dd, notify fin st, db) else (kDecodeInProgress, ds, st, db))"
proof -
  let ?n = "fds_remaining_payload st" and ?x = "rest db"
  define a where "a = min ?n (length ?x)"
  have av: "AvailablePayload st db = a" "a \<le> ?n" "?n < 2 ^ 32"
    using n(1) len(2) by (auto simp: AvailablePayload_def rest_simps a_def)
  obtain fs where r: "report ev (AvailablePayload st db) st db =
      (st\<lparr>fds_listener := fds_listener st @ fs, fds_remaining_payload := ?n - a\<rparr>, AdvanceCursor db a)"
    and fs: "expand fs = expand1 (ev (take a ?x))"
    using rep report_available_events[OF av(2,3) ev(1)] report_payload_events[OF av(2,3) ev(1)] av(1) by metis
  let ?st = "st\<lparr>fds_listener := fds_listener st @ fs, fds_remaining_payload := ?n - a\<rparr>"
  have run: "expand (fds_listener ?st) = L @ expand (es @ [ev (r @ take a ?x)])"
    using ev fs by (simp add: byte_run_append)
  show ?thesis
  proof (cases "length ?x < ?n")
    case True
    then have "a = length ?x" by (simp add: a_def)
    with True run ok n len rd[of ?st] show ?thesis
      by (simp add: r payload_outcome_def padded_tail_def rest_simps)
  next
    case False
    then have a: "a = ?n" by (simp add: a_def)
    have "payload_outcome (after es (padded_tail ev fin n pad ((r @ take a ?x) @ rest (AdvanceCursor db a)))) Inv h L q
      (AdvanceCursor db a)
      (case SkipPadding ?st (AdvanceCursor db a) of (skipped, st, db) \<Rightarrow>
       if skipped then (kDecodeDone, dd, notify fin st, db) else (kDecodeInProgress, ds, st, db))"
      by (rule tail_skip) (use a False run ok n len sk ev in \<open>auto simp: rest_simps\<close>)
    from payload_outcome_advance[OF this, of db] a False show ?thesis
      by (simp add: r rest_simps)
  qed
qed

text \<open>The Pad Length field is read at the start of the payload.\<close>

lemma pad_phase:
  assumes r: "ReadPadLength st db report = (status, st', db')" and ok: "state_ok h st" and h: "IsPadded h"
    and n: "fds_remaining_payload st = payload_length h" "fds_remaining_padding st = 0" "length (rest db) \<le> payload_length h"
  obtains
    (read) "status = kDecodeDone" "state_ok h st'" "rest db \<noteq> []" "fds_remaining_padding st' = padding_of h (rest db)"
      "fds_remaining_payload st' = content_length h (rest db)" "reads db db'" "rest db' = content_of h (rest db)"
      "fds_listener st' = fds_listener st @ (if report then [OnPadLength (padding_of h (rest db))] else [])"
      "content_length h (rest db) + padding_of h (rest db) + 1 = payload_length h"
      "\<And>k. read_pad report h (rest db) k = after (if report then [OnPadLength (padding_of h (rest db))] else [])
          (k (content_length h (rest db)) (padding_of h (rest db)) (rest db'))"
  | (wait) "status = kDecodeInProgress" "rest db = []" "st' = st" "db' = db" "0 < payload_length h"
      "\<And>k. read_pad report h (rest db) k = (kDecodeInProgress, [])"
  | (bad) es where "status = kDecodeError" "state_ok h st'" "reads db db'"
      "fds_remaining_payload st' + fds_remaining_padding st' + length (rest db) = payload_length h + length (rest db')"
      "fds_listener st' = fds_listener st @ es" "\<And>k. read_pad report h (rest db) k = (kDecodeError, es)"
proof (cases "rest db")
  case Nil
  show ?thesis
  proof (cases "payload_length h = 0")
    case True
    show ?thesis
      by (rule bad[of "[OnPaddingTooLong h 1]"])
        (use r ok h n Nil True in \<open>auto simp: ReadPadLength_def Let_def rest_simps state_ok_header read_pad_def\<close>)
  next
    case False
    show ?thesis
      by (rule wait) (use r ok h n Nil False in \<open>auto simp: ReadPadLength_def Let_def rest_simps state_ok_header read_pad_def\<close>)
  qed
next
  case (Cons b x)
  show ?thesis
  proof (cases "unat b + 1 \<le> payload_length h")
    case True
    show ?thesis
      by (rule read) (use r ok h n Cons True in \<open>auto simp: ReadPadLength_def Let_def rest_simps state_ok_header
        DecodeUInt8_rest read_pad_def padding_of_def content_length_def content_of_def split: if_splits\<close>)
  next
    case False
    have one: "nat ((int (payload_length h) - 1) mod 2 ^ 32) = payload_length h - 1"
      using nat_wrap[OF _ payload_length_bound, of 1 h] n(3) Cons by simp
    have "ReadPadLength st db report =
        (kDecodeError, notify (OnPaddingTooLong h (unat b + 1 - payload_length h))
          (st\<lparr>fds_remaining_payload := payload_length h - 1, fds_remaining_padding := 0\<rparr>), AdvanceCursor db 1)"
      unfolding ReadPadLength_def Let_def state_ok_header[OF ok] one DecodeUInt8_rest[OF Cons]
      using Cons False state_ok_header[OF ok] by (simp add: HasData_rest)
    with r have st': "status = kDecodeError" "st' = notify (OnPaddingTooLong h (unat b + 1 - payload_length h))
          (st\<lparr>fds_remaining_payload := payload_length h - 1, fds_remaining_padding := 0\<rparr>)" "db' = AdvanceCursor db 1"
      by simp_all
    show ?thesis
      by (rule bad[of "[OnPaddingTooLong h (unat b + 1 - payload_length h)]"])
        (use ok h n Cons False in \<open>auto simp: st' rest_simps read_pad_def\<close>)
  qed
qed

text \<open>Where the tail stands after the content and padding \<open>r\<close>: reading the content or skipping the padding.\<close>

definition tail_Inv :: "nat \<Rightarrow> nat \<Rightarrow> bytes \<Rightarrow> bool \<Rightarrow> bool \<Rightarrow> FrameDecoderState \<Rightarrow> bool" where
  "tail_Inv n pad r reading skipping st \<longleftrightarrow>
     (if length r < n then reading \<and> fds_remaining_padding st = pad
      else skipping \<and> fds_remaining_payload st = 0)"

lemma tail_resume:
  assumes ok: "state_ok h st" and n: "fds_remaining_payload st + fds_remaining_padding st + length r = n + pad" "n < 2 ^ 32"
    and Inv: "tail_Inv n pad r reading skipping st"
    and len: "length (rest db) \<le> fds_remaining_payload st + fds_remaining_padding st"
      "length q + fds_remaining_payload st + fds_remaining_padding st = payload_length h + length (rest db)"
    and ev: "byte_run ev" "fst (padded_tail ev fin n pad r) = kDecodeInProgress"
      "expand (fds_listener st) = L @ expand (es @ snd (padded_tail ev fin n pad r))"
    and rep: "report = report_available \<or> report = report_payload"
    and rd: "\<And>st'. length (r @ rest db) < n \<Longrightarrow> fds_remaining_padding st' = pad \<Longrightarrow> I h q dr st'"
    and sk: "\<And>st'. n \<le> length (r @ rest db) \<Longrightarrow> fds_remaining_payload st' = 0 \<Longrightarrow> I h q ds st'"
    and reading: "reading \<Longrightarrow> result =
      (case report ev (AvailablePayload st db) st db of (st, db) \<Rightarrow>
         if fds_remaining_payload st > 0 then (kDecodeInProgress, dr, st, db)
         else case SkipPadding st db of (skipped, st, db) \<Rightarrow>
           if skipped then (kDecodeDone, dd, notify fin st, db) else (kDecodeInProgress, ds, st, db))"
    and skipping: "skipping \<Longrightarrow> result =
      (case SkipPadding st db of (skipped, st, db) \<Rightarrow>
         if skipped then (kDecodeDone, dd, notify fin st, db) else (kDecodeInProgress, ds, st, db))"
  shows "payload_outcome (after es (padded_tail ev fin n pad (r @ rest db))) I h L q db result"
proof (cases "length r < n")
  case True
  with Inv have *: "reading" "fds_remaining_padding st = pad" by (simp_all add: tail_Inv_def)
  have L: "expand (fds_listener st) = L @ expand (es @ [ev r])"
    using ev True by (auto simp: padded_tail_def split: if_splits)
  show ?thesis unfolding reading[OF *(1)]
    by (rule tail_read[OF ok _ _ _ _ _ ev(1) L rep]) (use * n len True rd sk in auto)
next
  case False
  with Inv have *: "skipping" "fds_remaining_payload st = 0" by (simp_all add: tail_Inv_def)
  have L: "expand (fds_listener st) = L @ expand (es @ [ev (take n r), OnPadding (drop n r)])"
    using ev by (auto simp: padded_tail_def split: if_splits)
  show ?thesis unfolding skipping[OF *(1)]
    by (rule tail_skip[where es = es and ev = ev]) (use ok L * n len False sk in auto)
qed

lemma padded_prefix:
  assumes "\<not> (IsPadded h \<and> p = [])"
  shows "padding_of h (p @ x) = padding_of h p" "content_of h (p @ x) = content_of h p @ x"
    "content_length h (p @ x) = content_length h p" "length (content_of h p) + (if IsPadded h then 1 else 0) = length p"
  using assms by (auto simp: padding_of_def content_of_def content_length_def)

text \<open>Past the Pad Length field, the grammar is that of the content.\<close>

lemma read_pad_go:
  assumes "\<not> (IsPadded h \<and> p = [])" "fst (read_pad report h p k) \<noteq> kDecodeError"
  shows "read_pad report h (p @ x) k = after (if IsPadded h \<and> report then [OnPadLength (padding_of h p)] else [])
      (k (content_length h p) (padding_of h p) (content_of h p @ x))"
    "content_length h p + padding_of h p + (if IsPadded h then 1 else 0) = payload_length h"
  using assms by (auto simp: read_pad_def padded_prefix padding_of_def content_length_def content_of_def split: if_splits)

lemma read_pad_final:
  assumes "\<And>n pad r x. fst (k n pad r) = kDecodeError \<Longrightarrow> k n pad (r @ x) = k n pad r"
    "fst (read_pad report h p k) = kDecodeError" "length (p @ x) \<le> payload_length h"
  shows "read_pad report h (p @ x) k = read_pad report h p k"
proof (cases "IsPadded h")
  case True
  with assms show ?thesis by (cases "p = []") (auto simp: read_pad_def padded_prefix(1-3) split: if_splits)
next
  case False
  with assms show ?thesis by (simp add: read_pad_def padding_of_def content_length_def content_of_def)
qed

lemma padded_tail_no_error [simp]: "fst (padded_tail ev fin n pad r) \<noteq> kDecodeError"
  by (simp add: padded_tail_def)

text \<open>A structure at the start of the content, followed by the tail.\<close>

lemma fields_outcome:
  assumes out: "struct_outcome sz dec out got st db (s, v, st', db')" and ok: "state_ok h st"
    and n: "n = fds_remaining_payload st + length got" and got: "length got < sz" and r: "r = got @ rest db"
    and pad: "fds_remaining_padding st = pad" and len: "length r \<le> n + pad" "length q + n + pad = payload_length h + length r"
    and L: "expand (fds_listener st) = L @ expand es"
    and fields: "state_ok h st' \<Longrightarrow> fds_remaining_payload st' = n - sz \<Longrightarrow> fds_remaining_padding st' = pad \<Longrightarrow>
      fds_listener st' = fds_listener st \<Longrightarrow> rest db' = drop sz r \<Longrightarrow> sz \<le> length r \<Longrightarrow> sz \<le> n \<Longrightarrow> s = kDecodeDone \<Longrightarrow>
      payload_outcome (after (es @ E v) (padded_tail ev fin (n - sz) pad (drop sz r))) I h L q db' result"
    and stop: "s \<noteq> kDecodeDone \<Longrightarrow> result = (s, d, st', db')"
    and part: "collecting r st' \<Longrightarrow> length r < sz \<Longrightarrow> fds_remaining_padding st' = pad \<Longrightarrow>
      fds_remaining_payload st' + length r = n \<Longrightarrow> I h q d st'"
  shows "payload_outcome (after es (read_struct sz dec n h r (\<lambda>v r. after (E v) (padded_tail ev fin (n - sz) pad r)))) I h L q db result"
  using out ok n got
proof (cases rule: struct_phase)
  case whole
  have "payload_outcome (after (es @ E v) (padded_tail ev fin (n - sz) pad (drop sz r))) I h L q db' result"
    by (rule fields) (use whole pad in \<open>simp_all add: r\<close>)
  from payload_outcome_advance[OF this whole(7)] show ?thesis
    unfolding r whole(10) by (simp add: whole(8) after_def)
next
  case part': part
  have "I h q d st'" by (rule part) (use part' pad in \<open>simp_all add: r\<close>)
  with part' pad len L show ?thesis
    unfolding r part'(12) by (simp add: stop payload_outcome_def r)
next
  case short
  with pad len L show ?thesis
    unfolding r short(9) by (simp add: stop payload_outcome_def r)
qed

text \<open>Where the decoder stands in such a content: \<open>resuming\<close> the structure, or in the tail.\<close>

definition content_Inv :: "nat \<Rightarrow> nat \<Rightarrow> nat \<Rightarrow> bytes \<Rightarrow> bool \<Rightarrow> bool \<Rightarrow> bool \<Rightarrow> FrameDecoderState \<Rightarrow> bool" where
  "content_Inv sz n pad r resuming reading skipping st \<longleftrightarrow>
     (if length r < sz then
        resuming \<and> collecting r st \<and> fds_remaining_padding st = pad \<and> fds_remaining_payload st + length r = n
      else tail_Inv (n - sz) pad (drop sz r) reading skipping st)"

lemma read_struct_tail_final:
  "fst (read_struct sz dec n h r (\<lambda>v r. after (E v) (padded_tail ev fin (n - sz) pad r))) = kDecodeError \<Longrightarrow>
   read_struct sz dec n h (r @ x) (\<lambda>v r. after (E v) (padded_tail ev fin (n - sz) pad r)) =
   read_struct sz dec n h r (\<lambda>v r. after (E v) (padded_tail ev fin (n - sz) pad r))"
  by (auto simp: read_struct_def split: if_splits)

section \<open>DATA meets the contract\<close>

definition data_Inv :: "Http2FrameHeader \<Rightarrow> bytes \<Rightarrow> DataPayloadDecoder \<Rightarrow> FrameDecoderState \<Rightarrow> bool" where
  "data_Inv h q d st \<longleftrightarrow>
     (if IsPadded h \<and> q = [] then dpd_payload_state d = Data_kReadPadLength \<and> fds_remaining_padding st = 0
      else tail_Inv (content_length h q) (padding_of h q) (content_of h q)
             (dpd_payload_state d = Data_kReadPayload) (dpd_payload_state d = Data_kSkipPadding) st)"

lemma data_payload:
  assumes "state_ok h st" "\<not> (IsPadded h \<and> q = [])" "content_of h q = rest db"
    "fds_remaining_payload st = content_length h q" "fds_remaining_padding st = padding_of h q"
    "content_length h q + padding_of h q + (if IsPadded h then 1 else 0) = payload_length h" "length q \<le> payload_length h"
    "expand (fds_listener st) = L @ expand es"
  shows "payload_outcome (after es (padded_tail OnDataPayload OnDataEnd (content_length h q) (padding_of h q) (content_of h q)))
    data_Inv h L q db (Data_ReadPayload d st db)"
proof -
  have "payload_outcome (after es (padded_tail OnDataPayload OnDataEnd (content_length h q) (padding_of h q) ([] @ rest db)))
    data_Inv h L q db (Data_ReadPayload d st db)"
    unfolding Data_ReadPayload_def Data_SkipPadding_def
    by (rule tail_read)
      (use assms padded_prefix(4)[OF assms(2)] payload_length_bound[of h] in \<open>auto simp: data_Inv_def tail_Inv_def\<close>)
  then show ?thesis by (simp add: assms(3))
qed

lemma data_pad:
  assumes "state_ok h st" "IsPadded h" "fds_remaining_payload st = payload_length h" "fds_remaining_padding st = 0"
    "length (rest db) \<le> payload_length h" "expand (fds_listener st) = L @ expand [OnDataStart h]"
    "dpd_payload_state d = Data_kReadPadLength"
  shows "payload_outcome (data_grammar h (rest db)) data_Inv h L (rest db) db (Data_ReadPadLength d st db)"
proof -
  obtain s st' db' where r: "ReadPadLength st db True = (s, st', db')" by (metis prod_cases3)
  show ?thesis
    using r assms(1-5)
  proof (cases rule: pad_phase)
    case read
    let ?pre = "[OnDataStart h, OnPadLength (padding_of h (rest db))]"
    have "payload_outcome (after ?pre (padded_tail OnDataPayload OnDataEnd (content_length h (rest db)) (padding_of h (rest db))
        (content_of h (rest db)))) data_Inv h L (rest db) db' (Data_ReadPayload d st' db')"
      by (rule data_payload) (use read assms in auto)
    from payload_outcome_advance[OF this read(6)] show ?thesis
      by (simp add: data_grammar_def Data_ReadPadLength_def r read(1,7,10) after_def)
  next
    case wait
    with assms show ?thesis
      by (simp add: data_grammar_def Data_ReadPadLength_def r payload_outcome_def data_Inv_def)
  next
    case (bad es)
    with assms show ?thesis
      by (simp add: data_grammar_def Data_ReadPadLength_def r payload_outcome_def)
  qed
qed

interpretation p_data: payload_decoder Data_StartDecodingPayload Data_ResumeDecodingPayload data_grammar data_Inv
proof
  fix h :: Http2FrameHeader and st db and d :: DataPayloadDecoder
  assume a: "state_ok h st" "length (rest db) \<le> payload_length h"
  let ?st = "notify (OnDataStart h) (InitializeRemainders st)"
  show "payload_outcome (data_grammar h (rest db)) data_Inv h (expand (fds_listener st)) (rest db) db
      (Data_StartDecodingPayload d st db)"
  proof (cases "IsPadded h")
    case True
    then show ?thesis
      using data_pad[of h ?st db "expand (fds_listener st)" "d\<lparr>dpd_payload_state := Data_kReadPadLength\<rparr>"] a
      by (simp add: Data_StartDecodingPayload_def Data_ResumeDecodingPayload_def Let_def state_ok_header)
  next
    case False
    then have h: "content_length h (rest db) = payload_length h" "padding_of h (rest db) = 0" "content_of h (rest db) = rest db"
      by (simp_all add: content_length_def padding_of_def content_of_def)
    have g: "data_grammar h (rest db) = after [OnDataStart h] (padded_tail OnDataPayload OnDataEnd (payload_length h) 0 (rest db))"
      using False by (simp add: data_grammar_def read_pad_def h after_def)
    show ?thesis
    proof (cases "length (rest db) = payload_length h")
      case True
      with a False show ?thesis
        by (auto simp: g Data_StartDecodingPayload_def Let_def state_ok_header payload_outcome_def padded_tail_def rest_simps)
    next
      case long: False
      with data_payload[of h ?st "rest db" db "expand (fds_listener st)" "[OnDataStart h]"
          "d\<lparr>dpd_payload_state := Data_kReadPayload\<rparr>"] False a h show ?thesis
        by (simp add: g Data_StartDecodingPayload_def Data_ResumeDecodingPayload_def Let_def state_ok_header Remaining_rest)
    qed
  qed
next
  fix h :: Http2FrameHeader and st p db L and d :: DataPayloadDecoder
  assume a: "state_ok h st" "data_Inv h p d st" "fst (data_grammar h p) = kDecodeInProgress"
    "fds_remaining_payload st + fds_remaining_padding st + length p = payload_length h"
    "length (p @ rest db) \<le> payload_length h" "expand (fds_listener st) = L @ expand (snd (data_grammar h p))"
  show "payload_outcome (data_grammar h (p @ rest db)) data_Inv h L (p @ rest db) db (Data_ResumeDecodingPayload d st db)"
  proof (cases "IsPadded h \<and> p = []")
    case True
    then have "snd (data_grammar h p) = [OnDataStart h]"
      using a(3) by (auto simp: data_grammar_def read_pad_def split: if_splits)
    with data_pad[of h st db L d] True a show ?thesis
      by (simp add: data_Inv_def Data_ResumeDecodingPayload_def)
  next
    case False
    let ?n = "content_length h p" and ?pad = "padding_of h p" and ?r = "content_of h p"
    let ?pre = "OnDataStart h # (if IsPadded h then [OnPadLength ?pad] else [])"
    have nerr: "fst (read_pad True h p (padded_tail OnDataPayload OnDataEnd)) \<noteq> kDecodeError"
      using a(3) by (simp add: data_grammar_def)
    note go = read_pad_go[OF False nerr]
    have g: "data_grammar h (p @ x) = after ?pre (padded_tail OnDataPayload OnDataEnd ?n ?pad (?r @ x))" for x
      by (simp add: data_grammar_def go(1) after_def)
    have len: "length ?r + (if IsPadded h then 1 else 0) = length p" by (rule padded_prefix(4)[OF False])
    have Inv: "tail_Inv ?n ?pad ?r (dpd_payload_state d = Data_kReadPayload) (dpd_payload_state d = Data_kSkipPadding) st"
      using a(2) False by (simp only: data_Inv_def if_False)
    show ?thesis
      unfolding g
      by (rule tail_resume[OF a(1) _ _ Inv, where report = report_available and
            dr = "d\<lparr>dpd_payload_state := Data_kReadPayload\<rparr>" and ds = "d\<lparr>dpd_payload_state := Data_kSkipPadding\<rparr>" and dd = d])
        (use a(3-6) g[of "[]"] go(2) len False payload_length_bound[of h] in
          \<open>auto simp: data_Inv_def tail_Inv_def padded_prefix(1-3) Data_ResumeDecodingPayload_def Data_ReadPayload_def Data_SkipPadding_def
            split: if_splits prod.split\<close>)
  qed
next
  show "data_grammar h (p @ x) = data_grammar h p"
    if "fst (data_grammar h p) = kDecodeError" "length (p @ x) \<le> payload_length h" for h p x
    using that read_pad_final[of "padded_tail OnDataPayload OnDataEnd" True h p x] by (simp add: data_grammar_def)
qed

end
