(* ===== verification/Payload_Headers.thy ===== *)
theory Payload_Headers
  imports Payload_Padded
begin

text \<open>
  The decoders of HEADERS and PUSH\_PROMISE payloads meet the contract: both have a structure at
  the start of the content, which HEADERS has only with the PRIORITY flag.
\<close>

section \<open>PUSH\_PROMISE\<close>

definition push_promise_Inv :: "Http2FrameHeader \<Rightarrow> bytes \<Rightarrow> PushPromisePayloadDecoder \<Rightarrow> FrameDecoderState \<Rightarrow> bool" where
  "push_promise_Inv h q d st \<longleftrightarrow>
     (if IsPadded h \<and> q = [] then ppd_payload_state d = PushPromise_kReadPadLength \<and> fds_remaining_padding st = 0
      else content_Inv 4 (content_length h q) (padding_of h q) (content_of h q)
             (ppd_payload_state d = PushPromise_kResumeDecodingPushPromiseFields)
             (ppd_payload_state d = PushPromise_kReadPayload) (ppd_payload_state d = PushPromise_kSkipPadding) st)"

lemma push_promise_payload:
  assumes "state_ok h st" "\<not> (IsPadded h \<and> q = [])" "rest db = drop 4 (content_of h q)"
    "4 \<le> length (content_of h q)" "4 \<le> content_length h q" "fds_remaining_payload st = content_length h q - 4"
    "fds_remaining_padding st = padding_of h q"
    "content_length h q + padding_of h q + (if IsPadded h then 1 else 0) = payload_length h" "length q \<le> payload_length h"
    "expand (fds_listener st) = L @ expand es"
  shows "payload_outcome (after es (padded_tail OnHpackFragment OnPushPromiseEnd (content_length h q - 4) (padding_of h q)
      (drop 4 (content_of h q)))) push_promise_Inv h L q db (PushPromise_ReadPayload d st db)"
proof -
  have "payload_outcome (after es (padded_tail OnHpackFragment OnPushPromiseEnd (content_length h q - 4) (padding_of h q)
      ([] @ rest db))) push_promise_Inv h L q db (PushPromise_ReadPayload d st db)"
    unfolding PushPromise_ReadPayload_def PushPromise_SkipPadding_def
    by (rule tail_read)
      (use assms padded_prefix(4)[OF assms(2)] payload_length_bound[of h] in
        \<open>auto simp: push_promise_Inv_def content_Inv_def tail_Inv_def\<close>)
  then show ?thesis by (simp add: assms(3))
qed

lemma push_promise_fields:
  assumes out: "struct_outcome 4 DoDecode_PushPromise out got st db (s, v, st', db')" and ok: "state_ok h st"
    and q: "\<not> (IsPadded h \<and> q = [])" "content_of h q = got @ rest db" "length got < 4"
    and n: "fds_remaining_payload st + length got = content_length h q" "fds_remaining_padding st = padding_of h q"
      "content_length h q + padding_of h q + (if IsPadded h then 1 else 0) = payload_length h" "length q \<le> payload_length h"
    and L: "expand (fds_listener st) = L @ expand es" and d: "ppd_push_promise_fields d = v"
    and d1: "ppd_payload_state d1 = PushPromise_kResumeDecodingPushPromiseFields"
  shows "payload_outcome (after es (push_promise_content h (content_length h q) (padding_of h q) (content_of h q)))
    push_promise_Inv h L q db
    (if s = kDecodeDone then PushPromise_ReadPayload d2 (ReportPushPromise d st') db' else (s, d1, st', db'))"
proof -
  let ?E = "\<lambda>v. [OnPushPromiseStart h v (if IsPadded h then 1 + padding_of h q else 0)]"
  have len: "length (content_of h q) + (if IsPadded h then 1 else 0) = length q" by (rule padded_prefix(4)[OF q(1)])
  have rep: "ReportPushPromise d st' = notify (hd (?E v)) st'"
    if "state_ok h st'" "fds_remaining_padding st' = padding_of h q"
    using that d by (simp add: ReportPushPromise_def state_ok_header Let_def)
  show ?thesis
    unfolding push_promise_content_def
  proof (rule fields_outcome[OF out ok n(1)[symmetric] q(3,2) n(2) _ _ L, where d = d1])
    assume *: "state_ok h st'" "fds_remaining_payload st' = content_length h q - 4" "fds_remaining_padding st' = padding_of h q"
      "fds_listener st' = fds_listener st" "rest db' = drop 4 (content_of h q)" "4 \<le> length (content_of h q)"
      "4 \<le> content_length h q" "s = kDecodeDone"
    show "payload_outcome (after (es @ ?E v) (padded_tail OnHpackFragment OnPushPromiseEnd (content_length h q - 4)
        (padding_of h q) (drop 4 (content_of h q)))) push_promise_Inv h L q db'
      (if s = kDecodeDone then PushPromise_ReadPayload d2 (ReportPushPromise d st') db' else (s, d1, st', db'))"
      unfolding rep[OF *(1,3)] *(8) list.sel(1) if_P[OF refl]
      by (rule push_promise_payload) (use * q n L in simp_all)
  qed (use n len q d1 in \<open>auto simp: push_promise_Inv_def content_Inv_def\<close>)
qed

lemma push_promise_start_fields:
  assumes "state_ok h st" "\<not> (IsPadded h \<and> q = [])" "content_of h q = rest db"
    "fds_remaining_payload st = content_length h q" "fds_remaining_padding st = padding_of h q"
    "content_length h q + padding_of h q + (if IsPadded h then 1 else 0) = payload_length h" "length q \<le> payload_length h"
    "expand (fds_listener st) = L @ expand es"
  shows "payload_outcome (after es (push_promise_content h (content_length h q) (padding_of h q) (content_of h q)))
    push_promise_Inv h L q db (PushPromise_StartDecodingFields d st db)"
proof -
  obtain s v st' db' where r: "StartDecodingStructureInPayload 4 DoDecode_PushPromise (ppd_push_promise_fields d) st db = (s, v, st', db')"
    by (metis prod_cases4)
  have out: "struct_outcome 4 DoDecode_PushPromise (ppd_push_promise_fields d) [] st db (s, v, st', db')"
    unfolding r[symmetric] using assms(1) by (intro c_push_promise.Start_structure) (simp add: state_ok_def)
  let ?d = "d\<lparr>ppd_push_promise_fields := v\<rparr>"
  have "PushPromise_StartDecodingFields d st db =
    (if s = kDecodeDone then PushPromise_ReadPayload ?d (ReportPushPromise ?d st') db'
     else (s, ?d\<lparr>ppd_payload_state := PushPromise_kResumeDecodingPushPromiseFields\<rparr>, st', db'))"
    by (simp add: PushPromise_StartDecodingFields_def r Let_def)
  then show ?thesis
    by (simp only:) (rule push_promise_fields[OF out]; use assms in simp)
qed

lemma push_promise_pad:
  assumes "state_ok h st" "IsPadded h" "fds_remaining_payload st = payload_length h" "fds_remaining_padding st = 0"
    "length (rest db) \<le> payload_length h" "expand (fds_listener st) = L" "ppd_payload_state d = PushPromise_kReadPadLength"
  shows "payload_outcome (push_promise_grammar h (rest db)) push_promise_Inv h L (rest db) db (PushPromise_ReadPadLength d st db)"
proof -
  obtain s st' db' where r: "ReadPadLength st db False = (s, st', db')" by (metis prod_cases3)
  show ?thesis
    using r assms(1-5)
  proof (cases rule: pad_phase)
    case read
    have "payload_outcome (after [] (push_promise_content h (content_length h (rest db)) (padding_of h (rest db))
        (content_of h (rest db)))) push_promise_Inv h L (rest db) db' (PushPromise_StartDecodingFields d st' db')"
      by (rule push_promise_start_fields) (use read assms in auto)
    from payload_outcome_advance[OF this read(6)] show ?thesis
      by (simp add: push_promise_grammar_def PushPromise_ReadPadLength_def r read(1,7,10))
  next
    case wait
    with assms show ?thesis
      by (simp add: push_promise_grammar_def PushPromise_ReadPadLength_def r payload_outcome_def push_promise_Inv_def)
  next
    case (bad es)
    with assms show ?thesis
      by (simp add: push_promise_grammar_def PushPromise_ReadPadLength_def r payload_outcome_def)
  qed
qed

interpretation p_push_promise: payload_decoder PushPromise_StartDecodingPayload PushPromise_ResumeDecodingPayload
  push_promise_grammar push_promise_Inv
proof
  fix h :: Http2FrameHeader and st db and d :: PushPromisePayloadDecoder
  assume a: "state_ok h st" "length (rest db) \<le> payload_length h"
  let ?st = "InitializeRemainders st"
  show "payload_outcome (push_promise_grammar h (rest db)) push_promise_Inv h (expand (fds_listener st)) (rest db) db
      (PushPromise_StartDecodingPayload d st db)"
  proof (cases "IsPadded h")
    case True
    then show ?thesis
      using push_promise_pad[of h ?st db "expand (fds_listener st)" "d\<lparr>ppd_payload_state := PushPromise_kReadPadLength\<rparr>"] a
      by (simp add: PushPromise_StartDecodingPayload_def PushPromise_ResumeDecodingPayload_def Let_def state_ok_header)
  next
    case False
    then have h: "content_length h (rest db) = payload_length h" "padding_of h (rest db) = 0" "content_of h (rest db) = rest db"
      by (simp_all add: content_length_def padding_of_def content_of_def)
    have "payload_outcome (after [] (push_promise_content h (content_length h (rest db)) (padding_of h (rest db)) (content_of h (rest db))))
      push_promise_Inv h (expand (fds_listener st)) (rest db) db
      (PushPromise_StartDecodingFields (d\<lparr>ppd_payload_state := PushPromise_kStartDecodingPushPromiseFields\<rparr>) ?st db)"
      by (rule push_promise_start_fields) (use False a h in \<open>auto simp: state_ok_header\<close>)
    with False a show ?thesis
      by (simp add: push_promise_grammar_def read_pad_def PushPromise_StartDecodingPayload_def
          PushPromise_ResumeDecodingPayload_def Let_def state_ok_header)
  qed
next
  fix h :: Http2FrameHeader and st p db L and d :: PushPromisePayloadDecoder
  assume a: "state_ok h st" "push_promise_Inv h p d st" "fst (push_promise_grammar h p) = kDecodeInProgress"
    "fds_remaining_payload st + fds_remaining_padding st + length p = payload_length h"
    "length (p @ rest db) \<le> payload_length h" "expand (fds_listener st) = L @ expand (snd (push_promise_grammar h p))"
  show "payload_outcome (push_promise_grammar h (p @ rest db)) push_promise_Inv h L (p @ rest db) db
      (PushPromise_ResumeDecodingPayload d st db)"
  proof (cases "IsPadded h \<and> p = []")
    case True
    then have "snd (push_promise_grammar h p) = []"
      using a(3) by (auto simp: push_promise_grammar_def read_pad_def split: if_splits)
    with push_promise_pad[of h st db L d] True a show ?thesis
      by (simp add: push_promise_Inv_def PushPromise_ResumeDecodingPayload_def)
  next
    case False
    let ?n = "content_length h p" and ?pad = "padding_of h p" and ?r = "content_of h p"
    have nerr: "fst (read_pad False h p (push_promise_content h)) \<noteq> kDecodeError"
      using a(3) by (simp add: push_promise_grammar_def)
    note go = read_pad_go[OF False nerr]
    have g: "push_promise_grammar h (p @ x) = after [] (push_promise_content h ?n ?pad (?r @ x))" for x
      by (simp add: push_promise_grammar_def go(1))
    have len: "length ?r + (if IsPadded h then 1 else 0) = length p" by (rule padded_prefix(4)[OF False])
    have Inv: "content_Inv 4 ?n ?pad ?r (ppd_payload_state d = PushPromise_kResumeDecodingPushPromiseFields)
        (ppd_payload_state d = PushPromise_kReadPayload) (ppd_payload_state d = PushPromise_kSkipPadding) st"
      using a(2) False by (simp only: push_promise_Inv_def if_False)
    have F: "\<not> (IsPadded h \<and> p @ rest db = [])" using False by auto
    note pre = padded_prefix(1-3)[OF False, of "rest db"]
    show ?thesis
    proof (cases "length ?r < 4")
      case True
      with Inv have I: "ppd_payload_state d = PushPromise_kResumeDecodingPushPromiseFields" "collecting ?r st"
        "fds_remaining_padding st = ?pad" "fds_remaining_payload st + length ?r = ?n" by (simp_all add: content_Inv_def)
      obtain s v st' db' where r: "ResumeDecodingStructureInPayload 4 DoDecode_PushPromise (ppd_push_promise_fields d) st db = (s, v, st', db')"
        by (metis prod_cases4)
      have out: "struct_outcome 4 DoDecode_PushPromise (ppd_push_promise_fields d) ?r st db (s, v, st', db')"
        unfolding r[symmetric] using I(2) True by (intro c_push_promise.Resume_structure)
      let ?d = "d\<lparr>ppd_push_promise_fields := v\<rparr>"
      have res: "PushPromise_ResumeDecodingPayload d st db =
        (if s = kDecodeDone then PushPromise_ReadPayload (?d\<lparr>ppd_payload_state := PushPromise_kReadPayload\<rparr>) (ReportPushPromise ?d st') db'
         else (s, ?d\<lparr>ppd_payload_state := PushPromise_kResumeDecodingPushPromiseFields\<rparr>, st', db'))"
        by (simp add: PushPromise_ResumeDecodingPayload_def I PushPromise_ResumeDecodingFields_def r Let_def)
      have "push_promise_content h ?n ?pad ?r = (kDecodeInProgress, [])"
        using a(3) g[of "[]"] True by (auto simp: push_promise_content_def read_struct_def split: if_splits)
      then have L: "expand (fds_listener st) = L @ expand []" using a(6) g[of "[]"] by simp
      show ?thesis
        using push_promise_fields[OF out a(1) F _ True _ _ _ _ L, of ?d
            "?d\<lparr>ppd_payload_state := PushPromise_kResumeDecodingPushPromiseFields\<rparr>"] I(3,4) go(2) a(5)
        unfolding res g by (simp add: pre)
    next
      case False
      let ?v = "fst (DoDecode_PushPromise (mkDecodeBuffer (take 4 ?r)))"
      let ?pre = "[OnPushPromiseStart h ?v (if IsPadded h then 1 + ?pad else 0)]"
      have n: "4 \<le> ?n" using a(3) g[of "[]"] False len go(2) a(4)
        by (auto simp: push_promise_content_def read_struct_def split: if_splits)
      have c: "push_promise_content h ?n ?pad (?r @ x) =
          after ?pre (padded_tail OnHpackFragment OnPushPromiseEnd (?n - 4) ?pad (drop 4 ?r @ x))" for x
        using False n by (simp add: push_promise_content_def read_struct_def)
      have Inv': "tail_Inv (?n - 4) ?pad (drop 4 ?r) (ppd_payload_state d = PushPromise_kReadPayload)
          (ppd_payload_state d = PushPromise_kSkipPadding) st"
        using Inv False by (simp add: content_Inv_def)
      have "payload_outcome (after ?pre (padded_tail OnHpackFragment OnPushPromiseEnd (?n - 4) ?pad (drop 4 ?r @ rest db)))
          push_promise_Inv h L (p @ rest db) db (PushPromise_ResumeDecodingPayload d st db)"
        by (rule tail_resume[OF a(1) _ _ Inv', where report = report_payload and
            dr = "d\<lparr>ppd_payload_state := PushPromise_kReadPayload\<rparr>" and
            ds = "d\<lparr>ppd_payload_state := PushPromise_kSkipPadding\<rparr>" and dd = d])
          (use a(3-6) g[of "[]"] c[of "[]"] go(2) len n False F payload_length_bound[of h] in
          \<open>auto simp: push_promise_Inv_def content_Inv_def tail_Inv_def pre PushPromise_ResumeDecodingPayload_def
            PushPromise_ReadPayload_def PushPromise_SkipPadding_def split: if_splits prod.split\<close>)
      then show ?thesis unfolding g c by (simp add: after_def)
    qed
  qed
next
  show "push_promise_grammar h (p @ x) = push_promise_grammar h p"
    if "fst (push_promise_grammar h p) = kDecodeError" "length (p @ x) \<le> payload_length h" for h p x
    using that read_pad_final[of "push_promise_content h" False h p x]
    by (simp add: push_promise_grammar_def push_promise_content_def read_struct_tail_final)
qed

section \<open>HEADERS\<close>

lemma HasAnyFlags_headers:
  "HasAnyFlags h (FLAG_PADDED OR FLAG_PRIORITY) \<longleftrightarrow> IsPadded h \<or> HasPriority h"
proof -
  have "fh_flags h AND (FLAG_PADDED OR FLAG_PRIORITY) = 0 \<longleftrightarrow> fh_flags h AND FLAG_PADDED = 0 \<and> fh_flags h AND FLAG_PRIORITY = 0"
    by (auto simp: bit_eq_iff bit_simps)
  then show ?thesis by (auto simp: HasAnyFlags_def IsPadded_def HasPriority_def)
qed

definition headers_Inv :: "Http2FrameHeader \<Rightarrow> bytes \<Rightarrow> HeadersPayloadDecoder \<Rightarrow> FrameDecoderState \<Rightarrow> bool" where
  "headers_Inv h q d st \<longleftrightarrow>
     (if IsPadded h \<and> q = [] then hpd_payload_state d = Headers_kReadPadLength \<and> fds_remaining_padding st = 0
      else content_Inv (if HasPriority h then 5 else 0) (content_length h q) (padding_of h q) (content_of h q)
             (hpd_payload_state d = Headers_kResumeDecodingPriorityFields)
             (hpd_payload_state d = Headers_kReadPayload) (hpd_payload_state d = Headers_kSkipPadding) st)"

lemma headers_payload:
  assumes "state_ok h st" "\<not> (IsPadded h \<and> q = [])" "rest db = drop k (content_of h q)" "k = (if HasPriority h then 5 else 0)"
    "k \<le> length (content_of h q)" "k \<le> content_length h q" "fds_remaining_payload st = content_length h q - k"
    "fds_remaining_padding st = padding_of h q"
    "content_length h q + padding_of h q + (if IsPadded h then 1 else 0) = payload_length h" "length q \<le> payload_length h"
    "expand (fds_listener st) = L @ expand es"
  shows "payload_outcome (after es (padded_tail OnHpackFragment OnHeadersEnd (content_length h q - k) (padding_of h q)
      (drop k (content_of h q)))) headers_Inv h L q db (Headers_ReadPayload d st db)"
proof -
  have "payload_outcome (after es (padded_tail OnHpackFragment OnHeadersEnd (content_length h q - k) (padding_of h q)
      ([] @ rest db))) headers_Inv h L q db (Headers_ReadPayload d st db)"
    unfolding Headers_ReadPayload_def Headers_SkipPadding_def
    by (rule tail_read)
      (use assms(1-3,5-) assms(4)[symmetric] padded_prefix(4)[OF assms(2)] payload_length_bound[of h] in
        \<open>auto simp: headers_Inv_def content_Inv_def tail_Inv_def\<close>)
  then show ?thesis by (simp add: assms(3))
qed

lemma headers_fields:
  assumes out: "struct_outcome 5 DoDecode_Priority out got st db (s, v, st', db')" and ok: "state_ok h st"
    and q: "\<not> (IsPadded h \<and> q = [])" "content_of h q = got @ rest db" "length got < 5" "HasPriority h"
    and n: "fds_remaining_payload st + length got = content_length h q" "fds_remaining_padding st = padding_of h q"
      "content_length h q + padding_of h q + (if IsPadded h then 1 else 0) = payload_length h" "length q \<le> payload_length h"
    and L: "expand (fds_listener st) = L @ expand es"
    and d1: "hpd_payload_state d1 = Headers_kResumeDecodingPriorityFields"
  shows "payload_outcome (after es (headers_content h (content_length h q) (padding_of h q) (content_of h q)))
    headers_Inv h L q db
    (if s \<noteq> kDecodeDone then (s, d1, st', db') else Headers_ReadPayload d2 (notify (OnHeadersPriority v) st') db')"
proof -
  let ?E = "\<lambda>v. [OnHeadersPriority v]"
  have len: "length (content_of h q) + (if IsPadded h then 1 else 0) = length q" by (rule padded_prefix(4)[OF q(1)])
  show ?thesis
    unfolding headers_content_def if_P[OF q(4)]
  proof (rule fields_outcome[OF out ok n(1)[symmetric] q(3,2) n(2) _ _ L, where d = d1])
    assume *: "state_ok h st'" "fds_remaining_payload st' = content_length h q - 5" "fds_remaining_padding st' = padding_of h q"
      "fds_listener st' = fds_listener st" "rest db' = drop 5 (content_of h q)" "5 \<le> length (content_of h q)"
      "5 \<le> content_length h q" "s = kDecodeDone"
    have nd: "\<not> s \<noteq> kDecodeDone" using *(8) by simp
    show "payload_outcome (after (es @ ?E v) (padded_tail OnHpackFragment OnHeadersEnd (content_length h q - 5)
        (padding_of h q) (drop 5 (content_of h q)))) headers_Inv h L q db'
      (if s \<noteq> kDecodeDone then (s, d1, st', db') else Headers_ReadPayload d2 (notify (OnHeadersPriority v) st') db')"
      unfolding if_not_P[OF nd]
      by (rule headers_payload) (use * q n L in simp_all)
  qed (use n len q d1 in \<open>auto simp: headers_Inv_def content_Inv_def\<close>)
qed

lemma headers_start_content:
  assumes "state_ok h st" "\<not> (IsPadded h \<and> q = [])" "content_of h q = rest db"
    "fds_remaining_payload st = content_length h q" "fds_remaining_padding st = padding_of h q"
    "content_length h q + padding_of h q + (if IsPadded h then 1 else 0) = payload_length h" "length q \<le> payload_length h"
    "expand (fds_listener st) = L @ expand es"
  shows "payload_outcome (after es (headers_content h (content_length h q) (padding_of h q) (content_of h q)))
    headers_Inv h L q db
    (if HasPriority h then Headers_StartDecodingPriorityFields d st db else Headers_ReadPayload d' st db)"
proof (cases "HasPriority h")
  case True
  obtain s v st' db' where r: "StartDecodingStructureInPayload 5 DoDecode_Priority (hpd_priority_fields d) st db = (s, v, st', db')"
    by (metis prod_cases4)
  have out: "struct_outcome 5 DoDecode_Priority (hpd_priority_fields d) [] st db (s, v, st', db')"
    unfolding r[symmetric] using assms(1) by (intro c_priority.Start_structure) (simp add: state_ok_def)
  let ?d = "d\<lparr>hpd_priority_fields := v\<rparr>"
  have "Headers_StartDecodingPriorityFields d st db =
    (if s \<noteq> kDecodeDone then (s, ?d\<lparr>hpd_payload_state := Headers_kResumeDecodingPriorityFields\<rparr>, st', db')
     else Headers_ReadPayload ?d (notify (OnHeadersPriority v) st') db')"
    by (simp add: Headers_StartDecodingPriorityFields_def r Let_def)
  then show ?thesis
    unfolding if_P[OF True] by (simp only:) (rule headers_fields[OF out]; use assms True in simp)
next
  case False
  then have c: "headers_content h n pad r = padded_tail OnHpackFragment OnHeadersEnd (n - 0) pad (drop 0 r)" for n pad r
    by (simp add: headers_content_def)
  show ?thesis unfolding if_not_P[OF False] c
    by (rule headers_payload) (use assms False in simp_all)
qed

lemma headers_pad:
  assumes "state_ok h st" "IsPadded h" "fds_remaining_payload st = payload_length h" "fds_remaining_padding st = 0"
    "length (rest db) \<le> payload_length h" "expand (fds_listener st) = L @ expand [OnHeadersStart h]"
    "hpd_payload_state d = Headers_kReadPadLength"
  shows "payload_outcome (headers_grammar h (rest db)) headers_Inv h L (rest db) db (Headers_ReadPadLength d st db)"
proof -
  obtain s st' db' where r: "ReadPadLength st db True = (s, st', db')" by (metis prod_cases3)
  show ?thesis
    using r assms(1-5)
  proof (cases rule: pad_phase)
    case read
    let ?pre = "[OnHeadersStart h, OnPadLength (padding_of h (rest db))]"
    have "payload_outcome (after ?pre (headers_content h (content_length h (rest db)) (padding_of h (rest db))
        (content_of h (rest db)))) headers_Inv h L (rest db) db'
        (if HasPriority h then Headers_StartDecodingPriorityFields d st' db'
         else Headers_ReadPayload (d\<lparr>hpd_payload_state := Headers_kReadPayload\<rparr>) st' db')"
      by (rule headers_start_content) (use read assms in auto)
    from payload_outcome_advance[OF this read(6)] show ?thesis
      by (simp add: headers_grammar_def Headers_ReadPadLength_def r read(1,7,10) state_ok_header[OF read(2)] after_def
          split: if_splits)
  next
    case wait
    with assms show ?thesis
      by (simp add: headers_grammar_def Headers_ReadPadLength_def r payload_outcome_def headers_Inv_def)
  next
    case (bad es)
    with assms show ?thesis
      by (simp add: headers_grammar_def Headers_ReadPadLength_def r payload_outcome_def)
  qed
qed

lemma headers_start:
  assumes a: "state_ok h st" "length (rest db) \<le> payload_length h"
  shows "payload_outcome (headers_grammar h (rest db)) headers_Inv h (expand (fds_listener st)) (rest db) db
      (Headers_StartDecodingPayload d st db)"
proof (cases "IsPadded h")
  case True
  then show ?thesis
    using headers_pad[of h "notify (OnHeadersStart h) (InitializeRemainders st)" db "expand (fds_listener st)"
        "d\<lparr>hpd_payload_state := Headers_kReadPadLength\<rparr>"] a
    by (simp add: Headers_StartDecodingPayload_def Headers_ResumeDecodingPayload_def Let_def state_ok_header HasAnyFlags_headers)
next
  case False
  let ?st = "notify (OnHeadersStart h) (InitializeRemainders st)"
  have h: "content_length h (rest db) = payload_length h" "padding_of h (rest db) = 0" "content_of h (rest db) = rest db"
    using False by (simp_all add: content_length_def padding_of_def content_of_def)
  have g: "headers_grammar h (rest db) = after [OnHeadersStart h] (headers_content h (payload_length h) 0 (rest db))"
    using False by (simp add: headers_grammar_def read_pad_def h after_def)
  show ?thesis
  proof (cases "\<not> HasPriority h \<and> length (rest db) = payload_length h")
    case True
    with a False show ?thesis
      by (auto simp: g headers_content_def Headers_StartDecodingPayload_def Let_def state_ok_header payload_outcome_def
          padded_tail_def rest_simps HasAnyFlags_headers)
  next
    case long: False
    have "payload_outcome (after [OnHeadersStart h] (headers_content h (content_length h (rest db)) (padding_of h (rest db))
        (content_of h (rest db)))) headers_Inv h (expand (fds_listener st)) (rest db) db
      (if HasPriority h then Headers_StartDecodingPriorityFields (d\<lparr>hpd_payload_state := Headers_kStartDecodingPriorityFields\<rparr>) ?st db
       else Headers_ReadPayload (d\<lparr>hpd_payload_state := Headers_kReadPayload\<rparr>) ?st db)"
      by (rule headers_start_content) (use False a h in \<open>auto simp: state_ok_header\<close>)
    with long False a h show ?thesis
      by (auto simp: g Headers_StartDecodingPayload_def Headers_ResumeDecodingPayload_def Let_def state_ok_header
          Remaining_rest HasAnyFlags_headers split: if_splits)
  qed
qed

lemma headers_resume:
  assumes a: "state_ok h st" "headers_Inv h p d st" "fst (headers_grammar h p) = kDecodeInProgress"
    "fds_remaining_payload st + fds_remaining_padding st + length p = payload_length h"
    "length (p @ rest db) \<le> payload_length h" "expand (fds_listener st) = L @ expand (snd (headers_grammar h p))"
    and p: "\<not> (IsPadded h \<and> p = [])"
  shows "payload_outcome (headers_grammar h (p @ rest db)) headers_Inv h L (p @ rest db) db
    (Headers_ResumeDecodingPayload d st db)"
proof -
  let ?n = "content_length h p" and ?pad = "padding_of h p" and ?r = "content_of h p" and ?k = "if HasPriority h then 5 else 0"
  let ?pre = "OnHeadersStart h # (if IsPadded h then [OnPadLength ?pad] else [])"
  have nerr: "fst (read_pad True h p (headers_content h)) \<noteq> kDecodeError"
    using a(3) by (simp add: headers_grammar_def)
  note go = read_pad_go[OF p nerr]
  have g: "headers_grammar h (p @ x) = after ?pre (headers_content h ?n ?pad (?r @ x))" for x
    by (simp add: headers_grammar_def go(1) after_def)
  have len: "length ?r + (if IsPadded h then 1 else 0) = length p" by (rule padded_prefix(4)[OF p])
  have Inv: "content_Inv ?k ?n ?pad ?r (hpd_payload_state d = Headers_kResumeDecodingPriorityFields)
      (hpd_payload_state d = Headers_kReadPayload) (hpd_payload_state d = Headers_kSkipPadding) st"
    using a(2) p by (simp only: headers_Inv_def if_False)
  have F: "\<not> (IsPadded h \<and> p @ rest db = [])" using p by auto
  note pre = padded_prefix(1-3)[OF p, of "rest db"]
  show ?thesis
  proof (cases "length ?r < ?k")
    case True
    then have pr: "HasPriority h" "length ?r < 5" by (simp_all split: if_splits)
    with Inv have I: "hpd_payload_state d = Headers_kResumeDecodingPriorityFields" "collecting ?r st"
      "fds_remaining_padding st = ?pad" "fds_remaining_payload st + length ?r = ?n" by (simp_all add: content_Inv_def)
    obtain s v st' db' where r: "ResumeDecodingStructureInPayload 5 DoDecode_Priority (hpd_priority_fields d) st db = (s, v, st', db')"
      by (metis prod_cases4)
    have out: "struct_outcome 5 DoDecode_Priority (hpd_priority_fields d) ?r st db (s, v, st', db')"
      unfolding r[symmetric] using I(2) pr by (intro c_priority.Resume_structure)
    let ?d = "d\<lparr>hpd_priority_fields := v\<rparr>"
    have res: "Headers_ResumeDecodingPayload d st db =
      (if s \<noteq> kDecodeDone then (s, ?d, st', db')
       else Headers_ReadPayload (?d\<lparr>hpd_payload_state := Headers_kReadPayload\<rparr>) (notify (OnHeadersPriority v) st') db')"
      by (simp add: Headers_ResumeDecodingPayload_def I Headers_ResumeDecodingPriorityFields_def r Let_def)
    have "headers_content h ?n ?pad ?r = (kDecodeInProgress, [])"
      using a(3) g[of "[]"] pr by (auto simp: headers_content_def read_struct_def split: if_splits)
    then have L: "expand (fds_listener st) = L @ expand ?pre" using a(6) g[of "[]"] by simp
    show ?thesis
      using headers_fields[OF out a(1) F _ pr(2,1) _ _ _ _ L, of ?d] I go(2) a(5)
      unfolding res g by (simp add: pre)
  next
    case False
    define es where "es = (if HasPriority h then [OnHeadersPriority (fst (DoDecode_Priority (mkDecodeBuffer (take 5 ?r))))] else [])"
    have n: "?k \<le> ?n" using a(3) g[of "[]"] False len go(2) a(4)
      by (auto simp: headers_content_def read_struct_def split: if_splits)
    have c: "headers_content h ?n ?pad (?r @ x) =
        after es (padded_tail OnHpackFragment OnHeadersEnd (?n - ?k) ?pad (drop ?k ?r @ x))" for x
      using False n by (auto simp: headers_content_def read_struct_def after_def es_def split: if_splits)
    have Inv': "tail_Inv (?n - ?k) ?pad (drop ?k ?r) (hpd_payload_state d = Headers_kReadPayload)
        (hpd_payload_state d = Headers_kSkipPadding) st"
      using Inv False unfolding content_Inv_def by (simp only: if_False)
    have k: "length (drop ?k ?r) + ?k = length ?r" "?n - ?k + ?k = ?n" using False n by simp_all
    have "payload_outcome (after (?pre @ es) (padded_tail OnHpackFragment OnHeadersEnd (?n - ?k) ?pad (drop ?k ?r @ rest db)))
        headers_Inv h L (p @ rest db) db (Headers_ResumeDecodingPayload d st db)"
      by (rule tail_resume[OF a(1) _ _ Inv', where report = report_available and
          dr = "d\<lparr>hpd_payload_state := Headers_kReadPayload\<rparr>" and
          ds = "d\<lparr>hpd_payload_state := Headers_kSkipPadding\<rparr>" and dd = d])
        (use a(3-6) g[of "[]"] c[of "[]"] go(2) len n k False F payload_length_bound[of h] in
        \<open>auto simp: headers_Inv_def content_Inv_def tail_Inv_def pre Headers_ResumeDecodingPayload_def
          Headers_ReadPayload_def Headers_SkipPadding_def split: if_splits prod.split\<close>)
    then show ?thesis unfolding g c by (simp add: after_def)
  qed
qed

interpretation p_headers: payload_decoder Headers_StartDecodingPayload Headers_ResumeDecodingPayload
  headers_grammar headers_Inv
proof
  fix h :: Http2FrameHeader and st p db L and d :: HeadersPayloadDecoder
  assume a: "state_ok h st" "headers_Inv h p d st" "fst (headers_grammar h p) = kDecodeInProgress"
    "fds_remaining_payload st + fds_remaining_padding st + length p = payload_length h"
    "length (p @ rest db) \<le> payload_length h" "expand (fds_listener st) = L @ expand (snd (headers_grammar h p))"
  show "payload_outcome (headers_grammar h (p @ rest db)) headers_Inv h L (p @ rest db) db
      (Headers_ResumeDecodingPayload d st db)"
  proof (cases "IsPadded h \<and> p = []")
    case True
    then have "snd (headers_grammar h p) = [OnHeadersStart h]"
      using a(3) by (auto simp: headers_grammar_def read_pad_def split: if_splits)
    with headers_pad[of h st db L d] True a show ?thesis
      by (simp add: headers_Inv_def Headers_ResumeDecodingPayload_def)
  qed (rule headers_resume[OF a])
next
  have "fst (headers_content h n pad r) = kDecodeError \<Longrightarrow> headers_content h n pad (r @ x) = headers_content h n pad r" for h n pad r x
    by (auto simp: headers_content_def read_struct_tail_final split: if_splits)
  then show "headers_grammar h (p @ x) = headers_grammar h p"
    if "fst (headers_grammar h p) = kDecodeError" "length (p @ x) \<le> payload_length h" for h p x
    using that read_pad_final[of "headers_content h" True h p x] by (simp add: headers_grammar_def)
qed (rule headers_start)

end
