(* ===== verification/Http2_Frame_Decoder.thy ===== *)
theory Http2_Frame_Decoder
  imports Payload_Single_Struct Payload_Unpadded Payload_Settings Payload_Headers
begin

text \<open>
  \<^verbatim>\<open>http2/decoder/http2_frame_decoder.h\<close> and \<^verbatim>\<open>.cc\<close>: the decoder of a stream of frames.

  The payload decoders share storage in a union; here each has a field of its own. That makes no
  difference, because \<open>Start\<close> is called before any use of a member of the union, and the contract of
  the payload decoders is proved for every content that the storage may have by then.

  The listener's answer to \<open>OnFrameHeader\<close> is the parameter \<open>accept\<close>, which sees the calls received so
  far and the header.
\<close>

datatype Http2FrameDecoderState =
    kStartDecodingHeader
  | kResumeDecodingHeader
  | kResumeDecodingPayload
  | kDiscardPayload

record Http2FrameDecoder =
  fd_frame_decoder_state :: FrameDecoderState
  fd_altsvc :: AltSvcPayloadDecoder
  fd_continuation :: unit
  fd_data :: DataPayloadDecoder
  fd_goaway :: GoAwayPayloadDecoder
  fd_headers :: HeadersPayloadDecoder
  fd_ping :: PingPayloadDecoder
  fd_priority :: PriorityPayloadDecoder
  fd_push_promise :: PushPromisePayloadDecoder
  fd_rst_stream :: RstStreamPayloadDecoder
  fd_settings :: SettingsPayloadDecoder
  fd_unknown :: unit
  fd_window_update :: WindowUpdatePayloadDecoder
  fd_state :: Http2FrameDecoderState
  fd_maximum_payload_size :: nat

type_synonym frame_acceptor = "frame_event list \<Rightarrow> Http2FrameHeader \<Rightarrow> bool"

definition DefaultMaxFrameSize :: nat where
  "DefaultMaxFrameSize = 16384"

text \<open>
  A listener is given by the calls it has received; \<open>None\<close> stands for \<open>nullptr\<close>, for which the
  decoder uses its own listener.
\<close>

definition set_listener :: "frame_event list option \<Rightarrow> Http2FrameDecoder \<Rightarrow> Http2FrameDecoder" where
  "set_listener listener fd =
     fd\<lparr>fd_frame_decoder_state := (fd_frame_decoder_state fd)
          \<lparr>fds_listener := (case listener of None \<Rightarrow> [] | Some l \<Rightarrow> l)\<rparr>\<rparr>"

text \<open>The constructor leaves the members other than these as the storage \<open>mem\<close> has them.\<close>

definition new_Http2FrameDecoder :: "Http2FrameDecoder \<Rightarrow> frame_event list option \<Rightarrow> Http2FrameDecoder" where
  "new_Http2FrameDecoder mem listener =
     set_listener listener (mem\<lparr>fd_state := kStartDecodingHeader, fd_maximum_payload_size := DefaultMaxFrameSize\<rparr>)"

definition set_maximum_payload_size :: "nat \<Rightarrow> Http2FrameDecoder \<Rightarrow> Http2FrameDecoder" where
  "set_maximum_payload_size v fd = fd\<lparr>fd_maximum_payload_size := v\<rparr>"

definition IsDiscardingPayload :: "Http2FrameDecoder \<Rightarrow> bool" where
  "IsDiscardingPayload fd \<longleftrightarrow> fd_state fd = kDiscardPayload"

type_synonym frame_op = "Http2FrameDecoder \<Rightarrow> DecodeBuffer \<Rightarrow> DecodeStatus \<times> Http2FrameDecoder \<times> DecodeBuffer"

section \<open>The payload decoders by frame type\<close>

definition StartDecodingAltSvcPayload :: frame_op where
  "StartDecodingAltSvcPayload fd db =
     (let st = fds_ClearFlags (fd_frame_decoder_state fd);
          (status, d, st, db) = AltSvc_StartDecodingPayload (fd_altsvc fd) st db
      in (status, fd\<lparr>fd_frame_decoder_state := st, fd_altsvc := d\<rparr>, db))"

definition ResumeDecodingAltSvcPayload :: frame_op where
  "ResumeDecodingAltSvcPayload fd db =
     (let (status, d, st, db) = AltSvc_ResumeDecodingPayload (fd_altsvc fd) (fd_frame_decoder_state fd) db
      in (status, fd\<lparr>fd_frame_decoder_state := st, fd_altsvc := d\<rparr>, db))"

definition StartDecodingContinuationPayload :: frame_op where
  "StartDecodingContinuationPayload fd db =
     (let st = fds_RetainFlags FLAG_END_HEADERS (fd_frame_decoder_state fd);
          (status, d, st, db) = Continuation_StartDecodingPayload (fd_continuation fd) st db
      in (status, fd\<lparr>fd_frame_decoder_state := st, fd_continuation := d\<rparr>, db))"

definition ResumeDecodingContinuationPayload :: frame_op where
  "ResumeDecodingContinuationPayload fd db =
     (let (status, d, st, db) = Continuation_ResumeDecodingPayload (fd_continuation fd) (fd_frame_decoder_state fd) db
      in (status, fd\<lparr>fd_frame_decoder_state := st, fd_continuation := d\<rparr>, db))"

definition StartDecodingDataPayload :: frame_op where
  "StartDecodingDataPayload fd db =
     (let st = fds_RetainFlags (FLAG_END_STREAM OR FLAG_PADDED) (fd_frame_decoder_state fd);
          (status, d, st, db) = Data_StartDecodingPayload (fd_data fd) st db
      in (status, fd\<lparr>fd_frame_decoder_state := st, fd_data := d\<rparr>, db))"

definition ResumeDecodingDataPayload :: frame_op where
  "ResumeDecodingDataPayload fd db =
     (let (status, d, st, db) = Data_ResumeDecodingPayload (fd_data fd) (fd_frame_decoder_state fd) db
      in (status, fd\<lparr>fd_frame_decoder_state := st, fd_data := d\<rparr>, db))"

definition StartDecodingGoAwayPayload :: frame_op where
  "StartDecodingGoAwayPayload fd db =
     (let st = fds_ClearFlags (fd_frame_decoder_state fd);
          (status, d, st, db) = GoAway_StartDecodingPayload (fd_goaway fd) st db
      in (status, fd\<lparr>fd_frame_decoder_state := st, fd_goaway := d\<rparr>, db))"

definition ResumeDecodingGoAwayPayload :: frame_op where
  "ResumeDecodingGoAwayPayload fd db =
     (let (status, d, st, db) = GoAway_ResumeDecodingPayload (fd_goaway fd) (fd_frame_decoder_state fd) db
      in (status, fd\<lparr>fd_frame_decoder_state := st, fd_goaway := d\<rparr>, db))"

definition StartDecodingHeadersPayload :: frame_op where
  "StartDecodingHeadersPayload fd db =
     (let st = fds_RetainFlags (FLAG_END_STREAM OR FLAG_END_HEADERS OR FLAG_PADDED OR FLAG_PRIORITY) (fd_frame_decoder_state fd);
          (status, d, st, db) = Headers_StartDecodingPayload (fd_headers fd) st db
      in (status, fd\<lparr>fd_frame_decoder_state := st, fd_headers := d\<rparr>, db))"

definition ResumeDecodingHeadersPayload :: frame_op where
  "ResumeDecodingHeadersPayload fd db =
     (let (status, d, st, db) = Headers_ResumeDecodingPayload (fd_headers fd) (fd_frame_decoder_state fd) db
      in (status, fd\<lparr>fd_frame_decoder_state := st, fd_headers := d\<rparr>, db))"

definition StartDecodingPingPayload :: frame_op where
  "StartDecodingPingPayload fd db =
     (let st = fds_RetainFlags FLAG_ACK (fd_frame_decoder_state fd);
          (status, d, st, db) = Ping_StartDecodingPayload (fd_ping fd) st db
      in (status, fd\<lparr>fd_frame_decoder_state := st, fd_ping := d\<rparr>, db))"

definition ResumeDecodingPingPayload :: frame_op where
  "ResumeDecodingPingPayload fd db =
     (let (status, d, st, db) = Ping_ResumeDecodingPayload (fd_ping fd) (fd_frame_decoder_state fd) db
      in (status, fd\<lparr>fd_frame_decoder_state := st, fd_ping := d\<rparr>, db))"

definition StartDecodingPriorityPayload :: frame_op where
  "StartDecodingPriorityPayload fd db =
     (let st = fds_ClearFlags (fd_frame_decoder_state fd);
          (status, d, st, db) = Priority_StartDecodingPayload (fd_priority fd) st db
      in (status, fd\<lparr>fd_frame_decoder_state := st, fd_priority := d\<rparr>, db))"

definition ResumeDecodingPriorityPayload :: frame_op where
  "ResumeDecodingPriorityPayload fd db =
     (let (status, d, st, db) = Priority_ResumeDecodingPayload (fd_priority fd) (fd_frame_decoder_state fd) db
      in (status, fd\<lparr>fd_frame_decoder_state := st, fd_priority := d\<rparr>, db))"

definition StartDecodingPushPromisePayload :: frame_op where
  "StartDecodingPushPromisePayload fd db =
     (let st = fds_RetainFlags (FLAG_END_HEADERS OR FLAG_PADDED) (fd_frame_decoder_state fd);
          (status, d, st, db) = PushPromise_StartDecodingPayload (fd_push_promise fd) st db
      in (status, fd\<lparr>fd_frame_decoder_state := st, fd_push_promise := d\<rparr>, db))"

definition ResumeDecodingPushPromisePayload :: frame_op where
  "ResumeDecodingPushPromisePayload fd db =
     (let (status, d, st, db) = PushPromise_ResumeDecodingPayload (fd_push_promise fd) (fd_frame_decoder_state fd) db
      in (status, fd\<lparr>fd_frame_decoder_state := st, fd_push_promise := d\<rparr>, db))"

definition StartDecodingRstStreamPayload :: frame_op where
  "StartDecodingRstStreamPayload fd db =
     (let st = fds_ClearFlags (fd_frame_decoder_state fd);
          (status, d, st, db) = RstStream_StartDecodingPayload (fd_rst_stream fd) st db
      in (status, fd\<lparr>fd_frame_decoder_state := st, fd_rst_stream := d\<rparr>, db))"

definition ResumeDecodingRstStreamPayload :: frame_op where
  "ResumeDecodingRstStreamPayload fd db =
     (let (status, d, st, db) = RstStream_ResumeDecodingPayload (fd_rst_stream fd) (fd_frame_decoder_state fd) db
      in (status, fd\<lparr>fd_frame_decoder_state := st, fd_rst_stream := d\<rparr>, db))"

definition StartDecodingSettingsPayload :: frame_op where
  "StartDecodingSettingsPayload fd db =
     (let st = fds_RetainFlags FLAG_ACK (fd_frame_decoder_state fd);
          (status, d, st, db) = Settings_StartDecodingPayload (fd_settings fd) st db
      in (status, fd\<lparr>fd_frame_decoder_state := st, fd_settings := d\<rparr>, db))"

definition ResumeDecodingSettingsPayload :: frame_op where
  "ResumeDecodingSettingsPayload fd db =
     (let (status, d, st, db) = Settings_ResumeDecodingPayload (fd_settings fd) (fd_frame_decoder_state fd) db
      in (status, fd\<lparr>fd_frame_decoder_state := st, fd_settings := d\<rparr>, db))"

definition StartDecodingUnknownPayload :: frame_op where
  "StartDecodingUnknownPayload fd db =
     (let st = fd_frame_decoder_state fd;
          (status, d, st, db) = Unknown_StartDecodingPayload (fd_unknown fd) st db
      in (status, fd\<lparr>fd_frame_decoder_state := st, fd_unknown := d\<rparr>, db))"

definition ResumeDecodingUnknownPayload :: frame_op where
  "ResumeDecodingUnknownPayload fd db =
     (let (status, d, st, db) = Unknown_ResumeDecodingPayload (fd_unknown fd) (fd_frame_decoder_state fd) db
      in (status, fd\<lparr>fd_frame_decoder_state := st, fd_unknown := d\<rparr>, db))"

definition StartDecodingWindowUpdatePayload :: frame_op where
  "StartDecodingWindowUpdatePayload fd db =
     (let st = fds_ClearFlags (fd_frame_decoder_state fd);
          (status, d, st, db) = WindowUpdate_StartDecodingPayload (fd_window_update fd) st db
      in (status, fd\<lparr>fd_frame_decoder_state := st, fd_window_update := d\<rparr>, db))"

definition ResumeDecodingWindowUpdatePayload :: frame_op where
  "ResumeDecodingWindowUpdatePayload fd db =
     (let (status, d, st, db) = WindowUpdate_ResumeDecodingPayload (fd_window_update fd) (fd_frame_decoder_state fd) db
      in (status, fd\<lparr>fd_frame_decoder_state := st, fd_window_update := d\<rparr>, db))"

section \<open>The decoder\<close>

text \<open>The \<open>switch\<close> of \<open>StartDecodingPayload\<close>.\<close>

definition StartDecodingPayload_switch :: "Http2FrameType \<Rightarrow> frame_op" where
  "StartDecodingPayload_switch type =
    (if type = FRAME_DATA then StartDecodingDataPayload
     else if type = FRAME_HEADERS then StartDecodingHeadersPayload
     else if type = FRAME_PRIORITY then StartDecodingPriorityPayload
     else if type = FRAME_RST_STREAM then StartDecodingRstStreamPayload
     else if type = FRAME_SETTINGS then StartDecodingSettingsPayload
     else if type = FRAME_PUSH_PROMISE then StartDecodingPushPromisePayload
     else if type = FRAME_PING then StartDecodingPingPayload
     else if type = FRAME_GOAWAY then StartDecodingGoAwayPayload
     else if type = FRAME_WINDOW_UPDATE then StartDecodingWindowUpdatePayload
     else if type = FRAME_CONTINUATION then StartDecodingContinuationPayload
     else if type = FRAME_ALTSVC then StartDecodingAltSvcPayload
     else StartDecodingUnknownPayload)"

text \<open>The \<open>switch\<close> of \<open>ResumeDecodingPayload\<close>.\<close>

definition ResumeDecodingPayload_switch :: "Http2FrameType \<Rightarrow> frame_op" where
  "ResumeDecodingPayload_switch type =
    (if type = FRAME_DATA then ResumeDecodingDataPayload
     else if type = FRAME_HEADERS then ResumeDecodingHeadersPayload
     else if type = FRAME_PRIORITY then ResumeDecodingPriorityPayload
     else if type = FRAME_RST_STREAM then ResumeDecodingRstStreamPayload
     else if type = FRAME_SETTINGS then ResumeDecodingSettingsPayload
     else if type = FRAME_PUSH_PROMISE then ResumeDecodingPushPromisePayload
     else if type = FRAME_PING then ResumeDecodingPingPayload
     else if type = FRAME_GOAWAY then ResumeDecodingGoAwayPayload
     else if type = FRAME_WINDOW_UPDATE then ResumeDecodingWindowUpdatePayload
     else if type = FRAME_CONTINUATION then ResumeDecodingContinuationPayload
     else if type = FRAME_ALTSVC then ResumeDecodingAltSvcPayload
     else ResumeDecodingUnknownPayload)"

definition fd_StartDecodingPayload :: "frame_acceptor \<Rightarrow> frame_op" where
  "fd_StartDecodingPayload accept fd db =
     (let st = fd_frame_decoder_state fd;
          header = fds_frame_header st;
          accepted = accept (fds_listener st) header;
          st = notify (OnFrameHeader header) st
      in if \<not> accepted then
           (kDecodeError,
            fd\<lparr>fd_state := kDiscardPayload, fd_frame_decoder_state := InitializeRemainders st\<rparr>, db)
         else if payload_length header > fd_maximum_payload_size fd then
           (kDecodeError,
            fd\<lparr>fd_state := kDiscardPayload,
               fd_frame_decoder_state := notify (OnFrameSizeError header) (InitializeRemainders st)\<rparr>, db)
         else
           let fd = fd\<lparr>fd_frame_decoder_state := st\<rparr>;
               (status, fd, subs) =
                 StartDecodingPayload_switch (fh_type header) fd (DecodeBufferSubset db (payload_length header));
               db = end_DecodeBufferSubset db subs
           in if status = kDecodeDone then (status, fd\<lparr>fd_state := kStartDecodingHeader\<rparr>, db)
              else if status = kDecodeInProgress then (status, fd\<lparr>fd_state := kResumeDecodingPayload\<rparr>, db)
              else (status, fd\<lparr>fd_state := kDiscardPayload\<rparr>, db))"

definition fd_ResumeDecodingPayload :: frame_op where
  "fd_ResumeDecodingPayload fd db =
     (let st = fd_frame_decoder_state fd;
          remaining = remaining_total_payload st;
          (status, fd, subs) =
            ResumeDecodingPayload_switch (fh_type (fds_frame_header st)) fd (DecodeBufferSubset db remaining);
          db = end_DecodeBufferSubset db subs
      in if status = kDecodeDone then (status, fd\<lparr>fd_state := kStartDecodingHeader\<rparr>, db)
         else if status = kDecodeInProgress then (status, fd, db)
         else (status, fd\<lparr>fd_state := kDiscardPayload\<rparr>, db))"

definition DiscardPayload :: frame_op where
  "DiscardPayload fd db =
     (let st = fd_frame_decoder_state fd;
          st = st\<lparr>fds_remaining_payload := (fds_remaining_payload st + fds_remaining_padding st) mod 2 ^ 32,
                  fds_remaining_padding := 0\<rparr>;
          avail = AvailablePayload st db;
          (st, db) = (if avail > 0 then (ConsumePayload avail st, AdvanceCursor db avail) else (st, db));
          fd = fd\<lparr>fd_frame_decoder_state := st\<rparr>
      in if fds_remaining_payload st = 0 then (kDecodeDone, fd\<lparr>fd_state := kStartDecodingHeader\<rparr>, db)
         else (kDecodeInProgress, fd, db))"

definition DecodeFrame :: "frame_acceptor \<Rightarrow> frame_op" where
  "DecodeFrame accept fd db =
     (case fd_state fd of
        kStartDecodingHeader \<Rightarrow>
          let (finished, st, db) = StartDecodingFrameHeader (fd_frame_decoder_state fd) db;
              fd = fd\<lparr>fd_frame_decoder_state := st\<rparr>
          in if finished then fd_StartDecodingPayload accept fd db
             else (kDecodeInProgress, fd\<lparr>fd_state := kResumeDecodingHeader\<rparr>, db)
      | kResumeDecodingHeader \<Rightarrow>
          let (finished, st, db) = ResumeDecodingFrameHeader (fd_frame_decoder_state fd) db;
              fd = fd\<lparr>fd_frame_decoder_state := st\<rparr>
          in if finished then fd_StartDecodingPayload accept fd db
             else (kDecodeInProgress, fd, db)
      | kResumeDecodingPayload \<Rightarrow> fd_ResumeDecodingPayload fd db
      | kDiscardPayload \<Rightarrow> DiscardPayload fd db)"

section \<open>The grammar of a frame\<close>

text \<open>The header that the payload decoders see: flags that the frame type does not define are cleared.\<close>

definition retained :: "Http2FrameHeader \<Rightarrow> Http2FrameHeader" where
  "retained h =
    (let type = fh_type h in
     if type = FRAME_DATA then RetainFlags (FLAG_END_STREAM OR FLAG_PADDED) h
     else if type = FRAME_HEADERS then RetainFlags (FLAG_END_STREAM OR FLAG_END_HEADERS OR FLAG_PADDED OR FLAG_PRIORITY) h
     else if type = FRAME_PRIORITY then h\<lparr>fh_flags := 0\<rparr>
     else if type = FRAME_RST_STREAM then h\<lparr>fh_flags := 0\<rparr>
     else if type = FRAME_SETTINGS then RetainFlags FLAG_ACK h
     else if type = FRAME_PUSH_PROMISE then RetainFlags (FLAG_END_HEADERS OR FLAG_PADDED) h
     else if type = FRAME_PING then RetainFlags FLAG_ACK h
     else if type = FRAME_GOAWAY then h\<lparr>fh_flags := 0\<rparr>
     else if type = FRAME_WINDOW_UPDATE then h\<lparr>fh_flags := 0\<rparr>
     else if type = FRAME_CONTINUATION then RetainFlags FLAG_END_HEADERS h
     else if type = FRAME_ALTSVC then h\<lparr>fh_flags := 0\<rparr>
     else h)"

definition frame_payload_grammar :: payload_grammar where
  "frame_payload_grammar h q =
    (let type = fh_type h in
     if type = FRAME_DATA then data_grammar h q
     else if type = FRAME_HEADERS then headers_grammar h q
     else if type = FRAME_PRIORITY then single_grammar 5 DoDecode_Priority OnPriorityFrame h q
     else if type = FRAME_RST_STREAM then single_grammar 4 DoDecode_RstStream rst_event h q
     else if type = FRAME_SETTINGS then settings_grammar h q
     else if type = FRAME_PUSH_PROMISE then push_promise_grammar h q
     else if type = FRAME_PING then single_grammar 8 DoDecode_Ping ping_event h q
     else if type = FRAME_GOAWAY then goaway_grammar h q
     else if type = FRAME_WINDOW_UPDATE then single_grammar 4 DoDecode_WindowUpdate window_update_event h q
     else if type = FRAME_CONTINUATION then continuation_grammar h q
     else if type = FRAME_ALTSVC then altsvc_grammar h q
     else unknown_grammar h q)"

definition frame_Inv :: "Http2FrameHeader \<Rightarrow> bytes \<Rightarrow> Http2FrameDecoder \<Rightarrow> FrameDecoderState \<Rightarrow> bool" where
  "frame_Inv h q fd st =
    (let type = fh_type h in
     if type = FRAME_DATA then data_Inv h q (fd_data fd) st
     else if type = FRAME_HEADERS then headers_Inv h q (fd_headers fd) st
     else if type = FRAME_PRIORITY then single_Inv 5 h q (fd_priority fd) st
     else if type = FRAME_RST_STREAM then single_Inv 4 h q (fd_rst_stream fd) st
     else if type = FRAME_SETTINGS then settings_Inv h q (fd_settings fd) st
     else if type = FRAME_PUSH_PROMISE then push_promise_Inv h q (fd_push_promise fd) st
     else if type = FRAME_PING then single_Inv 8 h q (fd_ping fd) st
     else if type = FRAME_GOAWAY then goaway_Inv h q (fd_goaway fd) st
     else if type = FRAME_WINDOW_UPDATE then single_Inv 4 h q (fd_window_update fd) st
     else if type = FRAME_CONTINUATION then run_Inv h q (fd_continuation fd) st
     else if type = FRAME_ALTSVC then altsvc_Inv h q (fd_altsvc fd) st
     else run_Inv h q (fd_unknown fd) st)"

section \<open>A payload decoder as a member of the frame decoder\<close>

text \<open>
  \<open>frame_outcome h L q fd db result\<close>: a call of the frame decoder on the payload of a frame with the
  header \<open>h\<close> has taken it to the prefix \<open>q\<close> of the payload.
\<close>

definition frame_outcome ::
  "Http2FrameHeader \<Rightarrow> frame_event list \<Rightarrow> bytes \<Rightarrow> Http2FrameDecoder \<Rightarrow> DecodeBuffer \<Rightarrow>
   DecodeStatus \<times> Http2FrameDecoder \<times> DecodeBuffer \<Rightarrow> bool" where
  "frame_outcome h L q fd db result \<longleftrightarrow>
     (case result of (s, fd', db') \<Rightarrow>
        fd_maximum_payload_size fd' = fd_maximum_payload_size fd \<and>
        payload_outcome (frame_payload_grammar h q) frame_Inv h L q db (s, fd', fd_frame_decoder_state fd', db'))"

text \<open>
  \<open>get\<close> and \<open>put\<close> access the member, \<open>of_type\<close> are the frame types it is for, and \<open>flags\<close> is what the
  frame decoder does to the header before it starts the member.
\<close>

locale payload_member = payload_decoder start resume G Inv
  for start resume :: "'d payload_op" and G Inv +
  fixes get :: "Http2FrameDecoder \<Rightarrow> 'd"
    and put :: "'d \<Rightarrow> Http2FrameDecoder \<Rightarrow> Http2FrameDecoder"
    and of_type :: "Http2FrameType \<Rightarrow> bool"
    and flags :: "Http2FrameHeader \<Rightarrow> Http2FrameHeader"
  assumes get_put: "get (put d fd) = d"
    and put_state: "fd_frame_decoder_state (put d fd) = fd_frame_decoder_state fd"
      "fd_maximum_payload_size (put d fd) = fd_maximum_payload_size fd"
    and member_grammar: "of_type (fh_type h) \<Longrightarrow> frame_payload_grammar h q = G h q"
    and member_Inv: "of_type (fh_type h) \<Longrightarrow> frame_Inv h q fd st = Inv h q (get fd) st"
    and member_flags: "of_type (fh_type h) \<Longrightarrow> retained h = flags h" "fh_type (flags h) = fh_type h"
      "payload_length (flags h) = payload_length h"
begin

text \<open>The outcome of a call on the frame decoder, in terms of its own grammar and invariant.\<close>

lemma member_start:
  assumes "of_type (fh_type h)" "state_ok h (fd_frame_decoder_state fd)" "length (rest db) \<le> payload_length h"
    "start (get fd) ((fd_frame_decoder_state fd)\<lparr>fds_frame_header := flags h\<rparr>) db = (s, d, st, db')"
  shows "frame_outcome (retained h) (expand (fds_listener (fd_frame_decoder_state fd))) (rest db) fd db
    (s, put d (fd\<lparr>fd_frame_decoder_state := st\<rparr>), db')"
proof -
  let ?st = "(fd_frame_decoder_state fd)\<lparr>fds_frame_header := flags h\<rparr>"
  have "payload_outcome (G (flags h) (rest db)) Inv (flags h) (expand (fds_listener ?st)) (rest db) db (start (get fd) ?st db)"
    by (rule start_outcome) (use assms in \<open>simp_all add: state_ok_def member_flags\<close>)
  with assms(1,4) show ?thesis
    by (auto simp: frame_outcome_def payload_outcome_def member_flags member_grammar member_Inv get_put put_state
        split: DecodeStatus.splits)
qed

lemma member_start_op:
  assumes "of_type (fh_type h)" "state_ok h (fd_frame_decoder_state fd)" "length (rest db) \<le> payload_length h"
  shows "frame_outcome (retained h) (expand (fds_listener (fd_frame_decoder_state fd))) (rest db) fd db
    (case start (get fd) ((fd_frame_decoder_state fd)\<lparr>fds_frame_header := flags h\<rparr>) db of (s, d, st, db') \<Rightarrow>
       (s, put d (fd\<lparr>fd_frame_decoder_state := st\<rparr>), db'))"
  using member_start[OF assms] by (auto split: prod.split)

lemma member_resume:
  assumes "of_type (fh_type h)" "state_ok h st" "frame_Inv h p fd st" "fst (frame_payload_grammar h p) = kDecodeInProgress"
    "fds_remaining_payload st + fds_remaining_padding st + length p = payload_length h"
    "length (p @ rest db) \<le> payload_length h" "expand (fds_listener st) = L @ expand (snd (frame_payload_grammar h p))"
    "resume (get fd) st db = (s, d, st', db')"
  shows "frame_outcome h L (p @ rest db) fd db (s, put d (fd\<lparr>fd_frame_decoder_state := st'\<rparr>), db')"
proof -
  have "payload_outcome (G h (p @ rest db)) Inv h L (p @ rest db) db (resume (get fd) st db)"
    by (rule resume_outcome) (use assms in \<open>simp_all add: member_grammar member_Inv\<close>)
  with assms(1,8) show ?thesis
    by (auto simp: frame_outcome_def payload_outcome_def member_grammar member_Inv get_put put_state
        split: DecodeStatus.splits)
qed

lemma member_resume_op:
  assumes "of_type (fh_type h)" "state_ok h (fd_frame_decoder_state fd)" "frame_Inv h p fd (fd_frame_decoder_state fd)"
    "fst (frame_payload_grammar h p) = kDecodeInProgress"
    "fds_remaining_payload (fd_frame_decoder_state fd) + fds_remaining_padding (fd_frame_decoder_state fd) + length p =
       payload_length h"
    "length (p @ rest db) \<le> payload_length h"
    "expand (fds_listener (fd_frame_decoder_state fd)) = L @ expand (snd (frame_payload_grammar h p))"
  shows "frame_outcome h L (p @ rest db) fd db
    (case resume (get fd) (fd_frame_decoder_state fd) db of (s, d, st, db') \<Rightarrow>
       (s, put d (fd\<lparr>fd_frame_decoder_state := st\<rparr>), db'))"
  using member_resume[OF assms] by (auto split: prod.split)

lemma member_final:
  "of_type (fh_type h) \<Longrightarrow> fst (frame_payload_grammar h p) = kDecodeError \<Longrightarrow> length (p @ x) \<le> payload_length h \<Longrightarrow>
   frame_payload_grammar h (p @ x) = frame_payload_grammar h p"
  by (simp add: member_grammar error_final)

end

definition known_types :: "Http2FrameType set" where
  "known_types = {FRAME_DATA, FRAME_HEADERS, FRAME_PRIORITY, FRAME_RST_STREAM, FRAME_SETTINGS, FRAME_PUSH_PROMISE,
     FRAME_PING, FRAME_GOAWAY, FRAME_WINDOW_UPDATE, FRAME_CONTINUATION, FRAME_ALTSVC}"

lemmas member_simps = frame_payload_grammar_def frame_Inv_def retained_def RetainFlags_def payload_length_def
  known_types_def frame_type_defs

interpretation m_data: payload_member Data_StartDecodingPayload Data_ResumeDecodingPayload
  data_grammar data_Inv fd_data "\<lambda>d fd. fd\<lparr>fd_data := d\<rparr>" "\<lambda>t. t = FRAME_DATA" "\<lambda>h. RetainFlags (FLAG_END_STREAM OR FLAG_PADDED) h"
  by unfold_locales (auto simp: member_simps)

interpretation m_headers: payload_member Headers_StartDecodingPayload Headers_ResumeDecodingPayload
  headers_grammar headers_Inv fd_headers "\<lambda>d fd. fd\<lparr>fd_headers := d\<rparr>" "\<lambda>t. t = FRAME_HEADERS" "\<lambda>h. RetainFlags (FLAG_END_STREAM OR FLAG_END_HEADERS OR FLAG_PADDED OR FLAG_PRIORITY) h"
  by unfold_locales (auto simp: member_simps)

interpretation m_priority: payload_member Priority_StartDecodingPayload Priority_ResumeDecodingPayload
  "single_grammar 5 DoDecode_Priority OnPriorityFrame" "single_Inv 5" fd_priority "\<lambda>d fd. fd\<lparr>fd_priority := d\<rparr>" "\<lambda>t. t = FRAME_PRIORITY" "\<lambda>h. h\<lparr>fh_flags := 0\<rparr>"
  by unfold_locales (auto simp: member_simps)

interpretation m_rst_stream: payload_member RstStream_StartDecodingPayload RstStream_ResumeDecodingPayload
  "single_grammar 4 DoDecode_RstStream rst_event" "single_Inv 4" fd_rst_stream "\<lambda>d fd. fd\<lparr>fd_rst_stream := d\<rparr>" "\<lambda>t. t = FRAME_RST_STREAM" "\<lambda>h. h\<lparr>fh_flags := 0\<rparr>"
  by unfold_locales (auto simp: member_simps)

interpretation m_settings: payload_member Settings_StartDecodingPayload Settings_ResumeDecodingPayload
  settings_grammar settings_Inv fd_settings "\<lambda>d fd. fd\<lparr>fd_settings := d\<rparr>" "\<lambda>t. t = FRAME_SETTINGS" "\<lambda>h. RetainFlags FLAG_ACK h"
  by unfold_locales (auto simp: member_simps)

interpretation m_push_promise: payload_member PushPromise_StartDecodingPayload PushPromise_ResumeDecodingPayload
  push_promise_grammar push_promise_Inv fd_push_promise "\<lambda>d fd. fd\<lparr>fd_push_promise := d\<rparr>" "\<lambda>t. t = FRAME_PUSH_PROMISE" "\<lambda>h. RetainFlags (FLAG_END_HEADERS OR FLAG_PADDED) h"
  by unfold_locales (auto simp: member_simps)

interpretation m_ping: payload_member Ping_StartDecodingPayload Ping_ResumeDecodingPayload
  "single_grammar 8 DoDecode_Ping ping_event" "single_Inv 8" fd_ping "\<lambda>d fd. fd\<lparr>fd_ping := d\<rparr>" "\<lambda>t. t = FRAME_PING" "\<lambda>h. RetainFlags FLAG_ACK h"
  by unfold_locales (auto simp: member_simps)

interpretation m_goaway: payload_member GoAway_StartDecodingPayload GoAway_ResumeDecodingPayload
  goaway_grammar goaway_Inv fd_goaway "\<lambda>d fd. fd\<lparr>fd_goaway := d\<rparr>" "\<lambda>t. t = FRAME_GOAWAY" "\<lambda>h. h\<lparr>fh_flags := 0\<rparr>"
  by unfold_locales (auto simp: member_simps)

interpretation m_window_update: payload_member WindowUpdate_StartDecodingPayload WindowUpdate_ResumeDecodingPayload
  "single_grammar 4 DoDecode_WindowUpdate window_update_event" "single_Inv 4" fd_window_update "\<lambda>d fd. fd\<lparr>fd_window_update := d\<rparr>" "\<lambda>t. t = FRAME_WINDOW_UPDATE" "\<lambda>h. h\<lparr>fh_flags := 0\<rparr>"
  by unfold_locales (auto simp: member_simps)

interpretation m_continuation: payload_member Continuation_StartDecodingPayload Continuation_ResumeDecodingPayload
  continuation_grammar run_Inv fd_continuation "\<lambda>d fd. fd\<lparr>fd_continuation := d\<rparr>" "\<lambda>t. t = FRAME_CONTINUATION" "\<lambda>h. RetainFlags FLAG_END_HEADERS h"
  by unfold_locales (auto simp: member_simps)

interpretation m_altsvc: payload_member AltSvc_StartDecodingPayload AltSvc_ResumeDecodingPayload
  altsvc_grammar altsvc_Inv fd_altsvc "\<lambda>d fd. fd\<lparr>fd_altsvc := d\<rparr>" "\<lambda>t. t = FRAME_ALTSVC" "\<lambda>h. h\<lparr>fh_flags := 0\<rparr>"
  by unfold_locales (auto simp: member_simps)

interpretation m_unknown: payload_member Unknown_StartDecodingPayload Unknown_ResumeDecodingPayload
  unknown_grammar run_Inv fd_unknown "\<lambda>d fd. fd\<lparr>fd_unknown := d\<rparr>" "\<lambda>t. t \<notin> known_types" "\<lambda>h. h"
  by unfold_locales (auto simp: member_simps)

section \<open>The frame decoder follows the grammar\<close>

lemma frame_type_cases:
  obtains (data) "t = FRAME_DATA"
  | (headers) "t = FRAME_HEADERS"
  | (priority) "t = FRAME_PRIORITY"
  | (rst_stream) "t = FRAME_RST_STREAM"
  | (settings) "t = FRAME_SETTINGS"
  | (push_promise) "t = FRAME_PUSH_PROMISE"
  | (ping) "t = FRAME_PING"
  | (goaway) "t = FRAME_GOAWAY"
  | (window_update) "t = FRAME_WINDOW_UPDATE"
  | (continuation) "t = FRAME_CONTINUATION"
  | (altsvc) "t = FRAME_ALTSVC"
  | (unknown) "t \<notin> known_types"
  by (auto simp: known_types_def)

lemmas start_ops =
  StartDecodingAltSvcPayload_def
  StartDecodingContinuationPayload_def
  StartDecodingDataPayload_def
  StartDecodingGoAwayPayload_def
  StartDecodingHeadersPayload_def
  StartDecodingPingPayload_def
  StartDecodingPriorityPayload_def
  StartDecodingPushPromisePayload_def
  StartDecodingRstStreamPayload_def
  StartDecodingSettingsPayload_def
  StartDecodingUnknownPayload_def
  StartDecodingWindowUpdatePayload_def

lemmas resume_ops =
  ResumeDecodingAltSvcPayload_def
  ResumeDecodingContinuationPayload_def
  ResumeDecodingDataPayload_def
  ResumeDecodingGoAwayPayload_def
  ResumeDecodingHeadersPayload_def
  ResumeDecodingPingPayload_def
  ResumeDecodingPriorityPayload_def
  ResumeDecodingPushPromisePayload_def
  ResumeDecodingRstStreamPayload_def
  ResumeDecodingSettingsPayload_def
  ResumeDecodingUnknownPayload_def
  ResumeDecodingWindowUpdatePayload_def

lemmas switch_simps = StartDecodingPayload_switch_def ResumeDecodingPayload_switch_def start_ops resume_ops Let_def
  fds_RetainFlags_def fds_ClearFlags_def known_types_def frame_type_defs

lemma start_switch:
  assumes a: "state_ok h (fd_frame_decoder_state fd)" "length (rest db) \<le> payload_length h"
  shows "frame_outcome (retained h) (expand (fds_listener (fd_frame_decoder_state fd))) (rest db) fd db
    (StartDecodingPayload_switch (fh_type h) fd db)"
proof -
  have h: "fds_frame_header (fd_frame_decoder_state fd) = h" using a(1) by (rule state_ok_header)
  show ?thesis
  proof (cases "fh_type h" rule: frame_type_cases)
    case data
    with m_data.member_start_op[of h fd db] a h show ?thesis by (simp add: switch_simps)
  next
    case headers
    with m_headers.member_start_op[of h fd db] a h show ?thesis by (simp add: switch_simps)
  next
    case priority
    with m_priority.member_start_op[of h fd db] a h show ?thesis by (simp add: switch_simps)
  next
    case rst_stream
    with m_rst_stream.member_start_op[of h fd db] a h show ?thesis by (simp add: switch_simps)
  next
    case settings
    with m_settings.member_start_op[of h fd db] a h show ?thesis by (simp add: switch_simps)
  next
    case push_promise
    with m_push_promise.member_start_op[of h fd db] a h show ?thesis by (simp add: switch_simps)
  next
    case ping
    with m_ping.member_start_op[of h fd db] a h show ?thesis by (simp add: switch_simps)
  next
    case goaway
    with m_goaway.member_start_op[of h fd db] a h show ?thesis by (simp add: switch_simps)
  next
    case window_update
    with m_window_update.member_start_op[of h fd db] a h show ?thesis by (simp add: switch_simps)
  next
    case continuation
    with m_continuation.member_start_op[of h fd db] a h show ?thesis by (simp add: switch_simps)
  next
    case altsvc
    with m_altsvc.member_start_op[of h fd db] a h show ?thesis by (simp add: switch_simps)
  next
    case unknown
    have "(fd_frame_decoder_state fd)\<lparr>fds_frame_header := h\<rparr> = fd_frame_decoder_state fd" using h by simp
    with unknown m_unknown.member_start_op[of h fd db] a show ?thesis by (simp add: switch_simps)
  qed
qed

lemma resume_switch:
  assumes a: "state_ok h (fd_frame_decoder_state fd)" "frame_Inv h p fd (fd_frame_decoder_state fd)"
    "fst (frame_payload_grammar h p) = kDecodeInProgress"
    "fds_remaining_payload (fd_frame_decoder_state fd) + fds_remaining_padding (fd_frame_decoder_state fd) + length p =
       payload_length h"
    "length (p @ rest db) \<le> payload_length h"
    "expand (fds_listener (fd_frame_decoder_state fd)) = L @ expand (snd (frame_payload_grammar h p))"
  shows "frame_outcome h L (p @ rest db) fd db (ResumeDecodingPayload_switch (fh_type h) fd db)"
proof (cases "fh_type h" rule: frame_type_cases)
  case data
  with m_data.member_resume_op[OF _ a] show ?thesis by (simp add: switch_simps)
next
  case headers
  with m_headers.member_resume_op[OF _ a] show ?thesis by (simp add: switch_simps)
next
  case priority
  with m_priority.member_resume_op[OF _ a] show ?thesis by (simp add: switch_simps)
next
  case rst_stream
  with m_rst_stream.member_resume_op[OF _ a] show ?thesis by (simp add: switch_simps)
next
  case settings
  with m_settings.member_resume_op[OF _ a] show ?thesis by (simp add: switch_simps)
next
  case push_promise
  with m_push_promise.member_resume_op[OF _ a] show ?thesis by (simp add: switch_simps)
next
  case ping
  with m_ping.member_resume_op[OF _ a] show ?thesis by (simp add: switch_simps)
next
  case goaway
  with m_goaway.member_resume_op[OF _ a] show ?thesis by (simp add: switch_simps)
next
  case window_update
  with m_window_update.member_resume_op[OF _ a] show ?thesis by (simp add: switch_simps)
next
  case continuation
  with m_continuation.member_resume_op[OF _ a] show ?thesis by (simp add: switch_simps)
next
  case altsvc
  with m_altsvc.member_resume_op[OF _ a] show ?thesis by (simp add: switch_simps)
next
  case unknown
  with m_unknown.member_resume_op[OF _ a] show ?thesis by (simp add: switch_simps)
qed

lemma frame_error_final:
  assumes a: "fst (frame_payload_grammar h p) = kDecodeError" "length (p @ x) \<le> payload_length h"
  shows "frame_payload_grammar h (p @ x) = frame_payload_grammar h p"
proof (cases "fh_type h" rule: frame_type_cases)
  case data
  then show ?thesis by (rule m_data.member_final[OF _ a])
next
  case headers
  then show ?thesis by (rule m_headers.member_final[OF _ a])
next
  case priority
  then show ?thesis by (rule m_priority.member_final[OF _ a])
next
  case rst_stream
  then show ?thesis by (rule m_rst_stream.member_final[OF _ a])
next
  case settings
  then show ?thesis by (rule m_settings.member_final[OF _ a])
next
  case push_promise
  then show ?thesis by (rule m_push_promise.member_final[OF _ a])
next
  case ping
  then show ?thesis by (rule m_ping.member_final[OF _ a])
next
  case goaway
  then show ?thesis by (rule m_goaway.member_final[OF _ a])
next
  case window_update
  then show ?thesis by (rule m_window_update.member_final[OF _ a])
next
  case continuation
  then show ?thesis by (rule m_continuation.member_final[OF _ a])
next
  case altsvc
  then show ?thesis by (rule m_altsvc.member_final[OF _ a])
next
  case unknown
  then show ?thesis by (rule m_unknown.member_final[OF _ a])
qed

end
