(* ===== verification/Frame_Stream.thy ===== *)
theory Frame_Stream
  imports Http2_Frame_Decoder
begin

text \<open>
  Runs of \<open>Http2FrameDecoder\<close> over a byte stream that arrives in segments. The reference is
  \<open>split_frames\<close>, which cuts the whole stream into frames by their headers alone; the decoder's calls
  are those of the grammar, frame by frame. \<open>at_point\<close> relates a state of the decoder to the position
  in the stream, and every call of \<open>DecodeFrame\<close> moves it along the stream.
\<close>

section \<open>A caller\<close>

text \<open>The decoder is called until the buffer is used up, whatever it returns; then comes the next buffer.\<close>

partial_function (option) DecodeFrames ::
  "frame_acceptor \<Rightarrow> Http2FrameDecoder \<Rightarrow> DecodeBuffer \<Rightarrow> Http2FrameDecoder option" where
  "DecodeFrames accept fd db =
     (if HasData db then
        case DecodeFrame accept fd db of (status, fd, db) \<Rightarrow> DecodeFrames accept fd db
      else Some fd)"

fun DecodeSegments :: "frame_acceptor \<Rightarrow> Http2FrameDecoder \<Rightarrow> bytes list \<Rightarrow> Http2FrameDecoder option" where
  "DecodeSegments accept fd [] = Some fd"
| "DecodeSegments accept fd (c # cs) =
     (case DecodeFrames accept fd (mkDecodeBuffer c) of
        None \<Rightarrow> None | Some fd \<Rightarrow> DecodeSegments accept fd cs)"

section \<open>The reference\<close>

definition header_of :: "bytes \<Rightarrow> Http2FrameHeader" where
  "header_of bs = fst (DoDecode_FrameHeader (mkDecodeBuffer (take 9 bs)))"

text \<open>A frame with the header \<open>h\<close> that the listener accepts or not, for a limit \<open>limit\<close> on the payload.\<close>

definition frame_grammar :: "bool \<Rightarrow> nat \<Rightarrow> payload_grammar" where
  "frame_grammar accepted limit h q =
     after [OnFrameHeader h]
       (if \<not> accepted then (kDecodeError, [])
        else if payload_length h > limit then (kDecodeError, [OnFrameSizeError h])
        else frame_payload_grammar (retained h) q)"

function split_frames :: "frame_acceptor \<Rightarrow> nat \<Rightarrow> frame_event list \<Rightarrow> bytes \<Rightarrow> frame_event list \<times> bytes" where
  "split_frames accept limit L bs =
     (if 9 \<le> length bs \<and> payload_length (header_of bs) \<le> length (drop 9 bs) then
        let h = header_of bs; n = payload_length h
        in split_frames accept limit (L @ expand (snd (frame_grammar (accept L h) limit h (take n (drop 9 bs)))))
             (drop n (drop 9 bs))
      else (L, bs))"
  by pat_completeness auto
termination by (relation "measure (\<lambda>(accept, limit, L, bs). length bs)") auto

declare split_frames.simps [simp del]

definition calls_at :: "frame_acceptor \<Rightarrow> nat \<Rightarrow> frame_event list \<times> bytes \<Rightarrow> frame_event list" where
  "calls_at accept limit = (\<lambda>(L, bs).
     if length bs < 9 then L
     else L @ expand (snd (frame_grammar (accept L (header_of bs)) limit (header_of bs) (drop 9 bs))))"

text \<open>All calls for the stream \<open>bs\<close>, byte runs expanded.\<close>

definition stream_calls :: "frame_acceptor \<Rightarrow> nat \<Rightarrow> bytes \<Rightarrow> frame_event list" where
  "stream_calls accept limit bs = calls_at accept limit (split_frames accept limit [] bs)"

text \<open>The listener decides on what it has been told, not on how the transport has cut it.\<close>

definition cut_blind :: "frame_acceptor \<Rightarrow> bool" where
  "cut_blind accept \<longleftrightarrow> (\<forall>es h. accept es h = accept (expand es) h)"

section \<open>Cutting a stream into frames\<close>

lemma header_of_append: "9 \<le> length bs \<Longrightarrow> header_of (bs @ x) = header_of bs"
  by (simp add: header_of_def)

lemma split_frames_short:
  "length bs < 9 \<or> length (drop 9 bs) < payload_length (header_of bs) \<Longrightarrow> split_frames accept limit L bs = (L, bs)"
  by (subst split_frames.simps) auto

lemma split_frames_frame:
  assumes "length hdr = 9" "length q = payload_length (header_of hdr)"
  shows "split_frames accept limit L (hdr @ q @ x) =
    split_frames accept limit (L @ expand (snd (frame_grammar (accept L (header_of hdr)) limit (header_of hdr) q))) x"
  using assms by (subst split_frames.simps) (simp add: Let_def header_of_append)

lemma split_frames_append:
  "split_frames accept limit L bs = (L', r) \<Longrightarrow> split_frames accept limit L (bs @ x) = split_frames accept limit L' (r @ x)"
proof (induction accept limit L bs rule: split_frames.induct)
  case (1 accept limit L bs)
  show ?case
  proof (cases "9 \<le> length bs \<and> payload_length (header_of bs) \<le> length (drop 9 bs)")
    case True
    let ?h = "header_of bs" and ?n = "payload_length (header_of bs)"
    let ?L = "L @ expand (snd (frame_grammar (accept L ?h) limit ?h (take ?n (drop 9 bs))))"
    have s: "split_frames accept limit L bs = split_frames accept limit ?L (drop ?n (drop 9 bs))"
      using True by (subst split_frames.simps) (simp add: Let_def)
    have "split_frames accept limit L (bs @ x) = split_frames accept limit ?L (drop ?n (drop 9 bs) @ x)"
      using True by (subst split_frames.simps) (auto simp: Let_def header_of_append)
    then show ?thesis using "1.IH"[OF True refl refl] "1.prems" s by simp
  next
    case False
    then have "split_frames accept limit L bs = (L, bs)" by (subst split_frames.simps) auto
    then show ?thesis using "1.prems" by simp
  qed
qed

section \<open>Where the decoder stands\<close>

text \<open>
  \<open>at_point accept L bs fd next\<close>: the calls up to the last frame boundary were \<open>L\<close>, and \<open>bs\<close> has been
  read since; \<open>next\<close> is unread input in the same buffer, which a decoder that found an error may
  have looked at.
\<close>

definition at_point :: "frame_acceptor \<Rightarrow> frame_event list \<Rightarrow> bytes \<Rightarrow> Http2FrameDecoder \<Rightarrow> bytes \<Rightarrow> bool" where
  "at_point accept L bs fd nxt \<longleftrightarrow>
     (let st = fd_frame_decoder_state fd; calls = expand (fds_listener st);
          left = fds_remaining_payload st + fds_remaining_padding st
      in length (sd_buffer (fds_structure_decoder st)) = 9 \<and>
         (if length bs < 9 then
            calls = L \<and>
            (fd_state fd = kResumeDecodingHeader \<and> collecting bs st \<or>
             bs = [] \<and> (fd_state fd = kStartDecodingHeader \<or> fd_state fd = kDiscardPayload \<and> left = 0))
          else
            let h = header_of bs; q = drop 9 bs; g = frame_grammar (accept L h) (fd_maximum_payload_size fd) h
            in length q < payload_length h \<and> left + length q = payload_length h \<and>
               (fd_state fd = kDiscardPayload \<and>
                (let seen = q @ take (payload_length h - length q) nxt
                 in fst (g seen) = kDecodeError \<and> calls = L @ expand (snd (g seen))) \<or>
                fd_state fd = kResumeDecodingPayload \<and> fst (g q) = kDecodeInProgress \<and>
                calls = L @ expand (snd (g q)) \<and> accept L h \<and> payload_length h \<le> fd_maximum_payload_size fd \<and>
                state_ok (retained h) st \<and> frame_Inv (retained h) q fd st)))"

definition reached :: "frame_acceptor \<Rightarrow> frame_event list \<Rightarrow> bytes \<Rightarrow> Http2FrameDecoder \<Rightarrow> bytes \<Rightarrow> bool" where
  "reached accept L bs fd nxt \<longleftrightarrow>
     (case split_frames accept (fd_maximum_payload_size fd) L bs of (L', r) \<Rightarrow> at_point accept L' r fd nxt)"

lemma frame_Inv_fd_state [simp]: "frame_Inv h q (fd\<lparr>fd_state := s\<rparr>) st = frame_Inv h q fd st"
  by (simp add: frame_Inv_def)

text \<open>A window on the buffer, closed after some of it has been read.\<close>

lemma window_closed:
  assumes "reads (DecodeBufferSubset db n) subs"
  obtains k where "k \<le> length (take n (rest db))" "rest subs = drop k (take n (rest db))"
    "rest (end_DecodeBufferSubset db subs) = drop k (rest db)"
  using assms by (auto simp: reads_def rest_simps)

text \<open>The first byte after the frame header starts the payload.\<close>

lemma frame_grammar_accepted:
  "accept L h \<Longrightarrow> payload_length h \<le> limit \<Longrightarrow>
   frame_grammar (accept L h) limit h q = after [OnFrameHeader h] (frame_payload_grammar (retained h) q)"
  by (simp add: frame_grammar_def)

lemma retained_length [simp]: "payload_length (retained h) = payload_length h" "fh_type (retained h) = fh_type h"
  by (simp_all add: retained_def RetainFlags_def payload_length_def Let_def)

definition state_after :: "DecodeStatus \<Rightarrow> Http2FrameDecoderState" where
  "state_after s = (case s of kDecodeDone \<Rightarrow> kStartDecodingHeader | kDecodeInProgress \<Rightarrow> kResumeDecodingPayload
     | kDecodeError \<Rightarrow> kDiscardPayload)"

lemma payload_reached:
  assumes out: "frame_outcome (retained h) (L @ [OnFrameHeader h]) (p @ x) fd (DecodeBufferSubset db m) (s, fd1, subs)"
    and x: "x = take m (rest db)" "length p + m = payload_length h"
    and hdr: "length hdr = 9" "header_of hdr = h" and acc: "accept L h" "payload_length h \<le> fd_maximum_payload_size fd"
  shows "\<exists>c. rest db = c @ rest (end_DecodeBufferSubset db subs) \<and>
    reached accept L (hdr @ p @ c) (fd1\<lparr>fd_state := state_after s\<rparr>) (rest (end_DecodeBufferSubset db subs)) \<and>
    (s = kDecodeInProgress \<longrightarrow> rest (end_DecodeBufferSubset db subs) = []) \<and>
    fd_maximum_payload_size fd1 = fd_maximum_payload_size fd"
proof -
  let ?st = "fd_frame_decoder_state fd1" and ?q = "p @ x" and ?fd = "fd1\<lparr>fd_state := state_after s\<rparr>"
  let ?limit = "fd_maximum_payload_size fd" and ?n = "payload_length h"
  have lim: "fd_maximum_payload_size fd1 = ?limit"
    and o: "payload_outcome (frame_payload_grammar (retained h) ?q) frame_Inv (retained h) (L @ [OnFrameHeader h]) ?q
      (DecodeBufferSubset db m) (s, fd1, ?st, subs)"
    using out by (auto simp: frame_outcome_def)
  have ok: "state_ok (retained h) ?st" and rd: "reads (DecodeBufferSubset db m) subs"
    and g: "fst (frame_grammar True ?limit h ?q) = s" "expand (fds_listener ?st) = L @ expand (snd (frame_grammar True ?limit h ?q))"
    using o acc by (auto simp: payload_outcome_def frame_grammar_def)
  obtain k where k: "k \<le> length x" "rest subs = drop k x" "rest (end_DecodeBufferSubset db subs) = drop k (rest db)"
    using window_closed[OF rd] x by metis
  let ?c = "take k (rest db)"
  have c: "rest db = ?c @ rest (end_DecodeBufferSubset db subs)" by (simp add: k)
  have cx: "?c = take k x" using k(1) x(1) by (simp add: min_absorb1)
  have buf: "length (sd_buffer (fds_structure_decoder ?st)) = 9" using ok by (simp add: state_ok_def)
  have len: "length ?q \<le> ?n" using x by simp
  have frame: "split_frames accept ?limit L (hdr @ ?q) =
      (L @ expand (snd (frame_grammar True ?limit h ?q)), [])" if "length ?q = ?n"
    using split_frames_frame[OF hdr(1), of ?q accept ?limit L "[]"] that acc(1) hdr
    by (simp add: split_frames_short)
  have mid: "split_frames accept ?limit L (hdr @ p @ c) = (L, hdr @ p @ c)" if "length (p @ c) < ?n" for c
    by (rule split_frames_short) (use that hdr in \<open>simp add: header_of_append\<close>)
  have "reached accept L (hdr @ p @ ?c) ?fd (rest (end_DecodeBufferSubset db subs)) \<and>
      (s = kDecodeInProgress \<longrightarrow> rest (end_DecodeBufferSubset db subs) = [])"
  proof (cases s)
    case kDecodeDone
    then have "length ?q = ?n" "k = length x" using o k by (auto simp: payload_outcome_def)
    with frame kDecodeDone g buf cx lim show ?thesis by (simp add: reached_def at_point_def Let_def state_after_def)
  next
    case kDecodeInProgress
    then have q: "length ?q < ?n" "k = length x" "frame_Inv (retained h) ?q fd1 ?st"
      "fds_remaining_payload ?st + fds_remaining_padding ?st + length ?q = ?n"
      using o k by (auto simp: payload_outcome_def)
    moreover have "drop k (rest db) = []" using q(1,2) x by (simp add: min_def split: if_splits)
    ultimately show ?thesis using mid[of x] kDecodeInProgress g buf cx lim acc ok hdr k(3)
      by (simp add: reached_def at_point_def Let_def state_after_def header_of_append)
  next
    case kDecodeError
    then have t: "fds_remaining_payload ?st + fds_remaining_padding ?st + length ?q = ?n + length (drop k x)"
      using o k by (simp add: payload_outcome_def)
    then have tk: "fds_remaining_payload ?st + fds_remaining_padding ?st + length (p @ take k x) = ?n"
      using k(1) by simp
    show ?thesis
    proof (cases "fds_remaining_payload ?st + fds_remaining_padding ?st = 0")
      case True
      then have "k = length x" "length ?q = ?n" using tk t len k(1) by auto
      with frame kDecodeError g buf cx lim True show ?thesis by (simp add: reached_def at_point_def Let_def state_after_def)
    next
      case False
      then have short: "length (p @ take k x) < ?n" using tk by linarith
      have seen: "take k x @ take (?n - length (p @ take k x)) (drop k (rest db)) = x"
      proof -
        have "?n - length (p @ take k x) = m - k" using x(2) k(1) by simp
        moreover have "take k x = take k (rest db)" using cx by simp
        ultimately show ?thesis using k(1) x(1) by (simp add: take_add[symmetric])
      qed
      show ?thesis
        using mid[OF short] kDecodeError g buf cx lim acc(1) hdr k(3) tk short seen
        by (simp add: reached_def at_point_def Let_def state_after_def header_of_append)
    qed
  qed
  with c lim show ?thesis by blast
qed

section \<open>One call\<close>

text \<open>A call that reads nothing brings the decoder closer to the next frame.\<close>

definition rank :: "Http2FrameDecoderState \<Rightarrow> nat" where
  "rank s = (case s of kResumeDecodingPayload \<Rightarrow> 2 | kDiscardPayload \<Rightarrow> 1 | _ \<Rightarrow> 0)"

definition call_result ::
  "frame_acceptor \<Rightarrow> frame_event list \<Rightarrow> bytes \<Rightarrow> nat \<Rightarrow> DecodeBuffer \<Rightarrow> nat \<Rightarrow> DecodeStatus \<times> Http2FrameDecoder \<times> DecodeBuffer \<Rightarrow> bool" where
  "call_result accept L bs limit db r result \<longleftrightarrow>
     (case result of (s, fd, db') \<Rightarrow>
        fd_maximum_payload_size fd = limit \<and>
        (\<exists>c. rest db = c @ rest db' \<and> reached accept L (bs @ c) fd (rest db')) \<and>
        (s = kDecodeInProgress \<longrightarrow> rest db' = []) \<and>
        (rest db \<noteq> [] \<longrightarrow> 3 * length (rest db') + rank (fd_state fd) < 3 * length (rest db) + r))"

lemma payload_call:
  assumes out: "frame_outcome (retained h) (L @ [OnFrameHeader h]) (p @ take m (rest db)) fd (DecodeBufferSubset db m) (s, fd1, subs)"
    and m: "length p + m = payload_length h"
    and hdr: "length hdr = 9" "header_of hdr = h" and acc: "accept L h" "payload_length h \<le> fd_maximum_payload_size fd"
  shows "call_result accept L (hdr @ p) (fd_maximum_payload_size fd) db 2
    (s, fd1\<lparr>fd_state := state_after s\<rparr>, end_DecodeBufferSubset db subs)"
proof -
  let ?db = "end_DecodeBufferSubset db subs"
  obtain c where c: "rest db = c @ rest ?db" "reached accept L (hdr @ p @ c) (fd1\<lparr>fd_state := state_after s\<rparr>) (rest ?db)"
    "s = kDecodeInProgress \<longrightarrow> rest ?db = []" "fd_maximum_payload_size fd1 = fd_maximum_payload_size fd"
    using payload_reached[where accept = accept, OF out refl m hdr acc] by blast
  have "3 * length (rest ?db) + rank (state_after s) < 3 * length (rest db) + 2" if "rest db \<noteq> []"
  proof (cases c)
    case Nil
    with that c(1,3) have "s \<noteq> kDecodeInProgress" by auto
    then have "rank (state_after s) < 2" by (cases s) (auto simp: rank_def state_after_def)
    with Nil c(1) show ?thesis by simp
  next
    case (Cons b c')
    have "rank (state_after s) \<le> 2" by (cases s) (auto simp: rank_def state_after_def)
    moreover have "length (rest db) = Suc (length c' + length (rest ?db))"
      using arg_cong[OF c(1), of length] Cons by simp
    ultimately show ?thesis by simp
  qed
  with c show ?thesis by (auto simp: call_result_def)
qed

lemma reject_reached:
  assumes "length hdr = 9" "header_of hdr = h" "length (sd_buffer (fds_structure_decoder st)) = 9"
    "fds_frame_header st = h" "fd_maximum_payload_size fd = limit"
    "\<And>q. frame_grammar (accept L h) limit h q = (kDecodeError, es)" "expand (fds_listener st) = L @ expand es"
  shows "reached accept L hdr (fd\<lparr>fd_state := kDiscardPayload, fd_frame_decoder_state := InitializeRemainders st\<rparr>) nxt"
proof (cases "payload_length h = 0")
  case True
  then have "split_frames accept limit L (hdr @ [] @ []) = (L @ expand es, [])"
    by (subst split_frames_frame) (use assms in \<open>simp_all add: split_frames_short\<close>)
  with assms True show ?thesis by (simp add: reached_def at_point_def Let_def)
next
  case False
  then have "split_frames accept limit L hdr = (L, hdr)" by (intro split_frames_short) (use assms in simp)
  with assms False show ?thesis by (simp add: reached_def at_point_def Let_def)
qed

text \<open>The header is complete: \<open>hdr\<close> are its bytes.\<close>

lemma start_payload_call:
  assumes ok: "state_ok h (fd_frame_decoder_state fd)" and hdr: "length hdr = 9" "header_of hdr = h"
    and L: "expand (fds_listener (fd_frame_decoder_state fd)) = L" and blind: "cut_blind accept"
  shows "call_result accept L hdr (fd_maximum_payload_size fd) db 3 (fd_StartDecodingPayload accept fd db)"
proof -
  let ?st = "fd_frame_decoder_state fd" and ?limit = "fd_maximum_payload_size fd"
  have acc: "accept (fds_listener ?st) h = accept L h" using blind L unfolding cut_blind_def by metis
  have h: "fds_frame_header ?st = h" "length (sd_buffer (fds_structure_decoder ?st)) = 9"
    using ok by (simp_all add: state_ok_def)
  have rej: "call_result accept L hdr ?limit db 3 (kDecodeError, fd', db)"
    if "reached accept L hdr fd' (rest db)" "fd_state fd' = kDiscardPayload" "fd_maximum_payload_size fd' = ?limit" for fd'
    using that by (auto simp: call_result_def rank_def intro!: exI[of _ "[]"])
  consider (refused) "\<not> accept L h" | (long) "accept L h" "payload_length h > ?limit"
    | (good) "accept L h" "payload_length h \<le> ?limit" by linarith
  then show ?thesis
  proof cases
    case refused
    let ?st' = "notify (OnFrameHeader h) ?st"
    have r: "fd_StartDecodingPayload accept fd db =
        (kDecodeError, fd\<lparr>fd_state := kDiscardPayload, fd_frame_decoder_state := InitializeRemainders ?st'\<rparr>, db)"
      using refused acc h by (simp add: fd_StartDecodingPayload_def Let_def)
    show ?thesis unfolding r
      by (rule rej, rule reject_reached[of _ h, where es = "[OnFrameHeader h]"])
        (use refused hdr h L in \<open>simp_all add: frame_grammar_def after_def\<close>)
  next
    case long
    let ?st' = "notify (OnFrameSizeError h) (notify (OnFrameHeader h) ?st)"
    have "notify (OnFrameSizeError h) (InitializeRemainders (notify (OnFrameHeader h) ?st)) = InitializeRemainders ?st'"
      by (simp add: notify_def InitializeRemainders_def)
    then have r: "fd_StartDecodingPayload accept fd db =
        (kDecodeError, fd\<lparr>fd_state := kDiscardPayload, fd_frame_decoder_state := InitializeRemainders ?st'\<rparr>, db)"
      using long acc h by (simp add: fd_StartDecodingPayload_def Let_def)
    show ?thesis unfolding r
      by (rule rej, rule reject_reached[of _ h, where es = "[OnFrameHeader h, OnFrameSizeError h]"])
        (use long hdr h L in \<open>auto simp: frame_grammar_def after_def\<close>)
  next
    case good
    let ?fd = "fd\<lparr>fd_frame_decoder_state := notify (OnFrameHeader h) ?st\<rparr>"
    let ?sub = "DecodeBufferSubset db (payload_length h)"
    obtain s fd1 subs where sw: "StartDecodingPayload_switch (fh_type h) ?fd ?sub = (s, fd1, subs)" by (metis prod_cases3)
    have "frame_outcome (retained h) (expand (fds_listener (fd_frame_decoder_state ?fd))) (rest ?sub) ?fd ?sub (s, fd1, subs)"
      unfolding sw[symmetric] by (rule start_switch) (use ok in \<open>simp_all add: rest_simps\<close>)
    then have out: "frame_outcome (retained h) (L @ [OnFrameHeader h]) ([] @ take (payload_length h) (rest db)) ?fd ?sub (s, fd1, subs)"
      by (simp add: L rest_simps)
    have r: "fd_StartDecodingPayload accept fd db = (s, fd1\<lparr>fd_state := state_after s\<rparr>, end_DecodeBufferSubset db subs)"
      using good acc h sw by (cases s) (simp_all add: fd_StartDecodingPayload_def Let_def state_after_def)
    from payload_call[where accept = accept, OF out _ hdr good(1)] good(2) show ?thesis
      unfolding r by (fastforce simp: call_result_def)
  qed
qed

text \<open>The bytes \<open>x\<close> that completed the header were read before the payload.\<close>

lemma call_result_shift:
  assumes "call_result accept L (bs @ x) limit db1 3 result" "rest db = x @ rest db1" "x \<noteq> []"
  shows "call_result accept L bs limit db r result"
proof -
  obtain s fd db' where res: "result = (s, fd, db')" by (metis prod_cases3)
  have rank: "rank (fd_state fd) \<le> 2" by (cases "fd_state fd") (simp_all add: rank_def)
  from assms(1) obtain c where c: "rest db1 = c @ rest db'" "reached accept L ((bs @ x) @ c) fd (rest db')"
    "fd_maximum_payload_size fd = limit" "s = kDecodeInProgress \<longrightarrow> rest db' = []"
    "rest db1 \<noteq> [] \<longrightarrow> 3 * length (rest db') + rank (fd_state fd) < 3 * length (rest db1) + 3"
    by (auto simp: call_result_def res)
  have "length (rest db) = length x + length (rest db1)" "0 < length x" "length (rest db') \<le> length (rest db1)"
    using assms(2,3) c(1) by simp_all
  then have "3 * length (rest db') + rank (fd_state fd) < 3 * length (rest db) + r"
    using rank by linarith
  with c assms(2) show ?thesis by (auto simp: call_result_def res intro!: exI[of _ "x @ c"])
qed

lemma start_header_call:
  assumes "at_point accept L [] fd nxt" "fd_state fd = kStartDecodingHeader" "cut_blind accept"
  shows "call_result accept L [] (fd_maximum_payload_size fd) db 0 (DecodeFrame accept fd db)"
proof -
  let ?st = "fd_frame_decoder_state fd"
  have a: "length (sd_buffer (fds_structure_decoder ?st)) = 9" "expand (fds_listener ?st) = L"
    using assms(1) by (simp_all add: at_point_def Let_def)
  show ?thesis
  proof (cases "9 \<le> length (rest db)")
    case True
    let ?hdr = "take 9 (rest db)" and ?db = "AdvanceCursor db 9"
    let ?fd = "fd\<lparr>fd_frame_decoder_state := ?st\<lparr>fds_frame_header := header_of ?hdr\<rparr>\<rparr>"
    have r: "DecodeFrame accept fd db = fd_StartDecodingPayload accept ?fd ?db"
      using assms(2) c_header.SD_Start_whole[OF True, of "fds_frame_header ?st" "fds_structure_decoder ?st"]
      by (simp add: DecodeFrame_def StartDecodingFrameHeader_def header_of_def)
    have "call_result accept L ?hdr (fd_maximum_payload_size ?fd) ?db 3 (fd_StartDecodingPayload accept ?fd ?db)"
      by (rule start_payload_call[where h = "header_of ?hdr"]) (use a True assms(3) in \<open>simp_all add: state_ok_def\<close>)
    then have *: "call_result accept L ([] @ ?hdr) (fd_maximum_payload_size fd) ?db 3 (fd_StartDecodingPayload accept ?fd ?db)"
      by simp
    show ?thesis unfolding r
      by (rule call_result_shift[OF *]) (use True in \<open>auto simp: rest_simps\<close>)
  next
    case False
    then have "length (rest db) < 9" by simp
    from c_header.SD_Start_part[OF this a(1), of "fds_frame_header ?st"] obtain sd where
      sd: "SD_Start 9 DoDecode_FrameHeader (fds_frame_header ?st) (fds_structure_decoder ?st) db =
        (False, fds_frame_header ?st, sd, AdvanceCursor db (length (rest db)))" "sd_ok sd" "filled sd = rest db" by blast
    have "at_point accept L (rest db)
        (fd\<lparr>fd_frame_decoder_state := ?st\<lparr>fds_structure_decoder := sd\<rparr>, fd_state := kResumeDecodingHeader\<rparr>) []"
      using False a sd by (simp add: at_point_def Let_def collecting_def sd_ok_def)
    with False sd assms(2) show ?thesis
      by (simp add: DecodeFrame_def StartDecodingFrameHeader_def call_result_def rest_simps reached_def split_frames_short rank_def)
  qed
qed

lemma resume_header_call:
  assumes "at_point accept L bs fd nxt" "fd_state fd = kResumeDecodingHeader" "cut_blind accept"
  shows "call_result accept L bs (fd_maximum_payload_size fd) db 0 (DecodeFrame accept fd db)"
proof -
  let ?st = "fd_frame_decoder_state fd" and ?sd = "fds_structure_decoder (fd_frame_decoder_state fd)"
  have a: "length bs < 9" "sd_ok ?sd" "filled ?sd = bs" "expand (fds_listener ?st) = L"
    using assms(1,2) by (auto simp: at_point_def Let_def collecting_def split: if_splits)
  then have off: "sd_offset ?sd = length bs" using length_filled[OF a(2)] by simp
  show ?thesis
  proof (cases "9 \<le> length bs + length (rest db)")
    case True
    let ?x = "take (9 - length bs) (rest db)" and ?db = "AdvanceCursor db (9 - length bs)"
    let ?hdr = "bs @ ?x"
    have pre: "sd_offset ?sd \<le> 9" "9 \<le> sd_offset ?sd + length (rest db)" using True off a(1) by simp_all
    from c_header.SD_Resume_whole[OF a(2) pre, of "fds_frame_header ?st"] obtain sd where
      sd: "SD_Resume 9 DoDecode_FrameHeader (fds_frame_header ?st) ?sd db = (True, header_of ?hdr, sd, ?db)" "sd_ok sd"
      unfolding off a(3) using a(1) True by (auto simp: header_of_def)
    let ?fd = "fd\<lparr>fd_frame_decoder_state := ?st\<lparr>fds_frame_header := header_of ?hdr, fds_structure_decoder := sd\<rparr>\<rparr>"
    have r: "DecodeFrame accept fd db = fd_StartDecodingPayload accept ?fd ?db"
      using assms(2) sd by (simp add: DecodeFrame_def ResumeDecodingFrameHeader_def)
    have "call_result accept L ?hdr (fd_maximum_payload_size ?fd) ?db 3 (fd_StartDecodingPayload accept ?fd ?db)"
      by (rule start_payload_call[where h = "header_of ?hdr"])
        (use a True assms(3) sd(2) in \<open>simp_all add: state_ok_def sd_ok_def\<close>)
    then have *: "call_result accept L ?hdr (fd_maximum_payload_size fd) ?db 3 (fd_StartDecodingPayload accept ?fd ?db)"
      by simp
    show ?thesis unfolding r
      by (rule call_result_shift[OF *]) (use True a(1) in \<open>auto simp: rest_simps\<close>)
  next
    case False
    have "sd_offset ?sd + length (rest db) < 9" using False off by simp
    from c_header.SD_Resume_part[OF a(2) this, of "fds_frame_header ?st"] obtain sd where
      sd: "SD_Resume 9 DoDecode_FrameHeader (fds_frame_header ?st) ?sd db =
        (False, fds_frame_header ?st, sd, AdvanceCursor db (length (rest db)))" "sd_ok sd" "filled sd = bs @ rest db"
      using a(3) by blast
    have "at_point accept L (bs @ rest db) (fd\<lparr>fd_frame_decoder_state := ?st\<lparr>fds_structure_decoder := sd\<rparr>\<rparr>) []"
      using False a sd assms(2) by (simp add: at_point_def Let_def collecting_def sd_ok_def)
    with False sd assms(2) show ?thesis
      by (simp add: DecodeFrame_def ResumeDecodingFrameHeader_def call_result_def rest_simps reached_def split_frames_short rank_def)
  qed
qed

lemma DiscardPayload_result:
  assumes "left = fds_remaining_payload (fd_frame_decoder_state fd) + fds_remaining_padding (fd_frame_decoder_state fd)"
    "left < 2 ^ 32" "k = min left (length (rest db))"
  shows "\<exists>fd'. DiscardPayload fd db =
      (if k = left then (kDecodeDone, fd'\<lparr>fd_state := kStartDecodingHeader\<rparr>, AdvanceCursor db k)
       else (kDecodeInProgress, fd', AdvanceCursor db k)) \<and>
    fd_state fd' = fd_state fd \<and> fd_maximum_payload_size fd' = fd_maximum_payload_size fd \<and>
    fds_remaining_payload (fd_frame_decoder_state fd') = left - k \<and> fds_remaining_padding (fd_frame_decoder_state fd') = 0 \<and>
    fds_listener (fd_frame_decoder_state fd') = fds_listener (fd_frame_decoder_state fd) \<and>
    fds_structure_decoder (fd_frame_decoder_state fd') = fds_structure_decoder (fd_frame_decoder_state fd)"
proof -
  let ?st = "(fd_frame_decoder_state fd)\<lparr>fds_remaining_payload := left, fds_remaining_padding := 0\<rparr>"
  have mod: "(fds_remaining_payload (fd_frame_decoder_state fd) + fds_remaining_padding (fd_frame_decoder_state fd)) mod 2 ^ 32 = left"
    using assms(1,2) by simp
  have av: "AvailablePayload ?st db = k" using assms(3) by (simp add: AvailablePayload_def rest_simps)
  have con: "ConsumePayload k ?st = ?st\<lparr>fds_remaining_payload := left - k\<rparr>"
    using assms(2,3) by (subst ConsumePayload_sub) simp_all
  have "DiscardPayload fd db =
      (if k = left then (kDecodeDone, fd\<lparr>fd_frame_decoder_state := ?st\<lparr>fds_remaining_payload := left - k\<rparr>\<rparr>
           \<lparr>fd_state := kStartDecodingHeader\<rparr>, AdvanceCursor db k)
       else (kDecodeInProgress, fd\<lparr>fd_frame_decoder_state := ?st\<lparr>fds_remaining_payload := left - k\<rparr>\<rparr>, AdvanceCursor db k))"
    unfolding DiscardPayload_def Let_def mod av con
    using assms(3) by (cases "k = 0") (auto simp: AdvanceCursor_0)
  then show ?thesis by (intro exI[of _ "fd\<lparr>fd_frame_decoder_state := ?st\<lparr>fds_remaining_payload := left - k\<rparr>\<rparr>"]) simp
qed

lemma discard_call:
  assumes "at_point accept L bs fd (rest db)" "fd_state fd = kDiscardPayload"
  shows "call_result accept L bs (fd_maximum_payload_size fd) db 1 (DecodeFrame accept fd db)"
proof -
  let ?st = "fd_frame_decoder_state fd" and ?limit = "fd_maximum_payload_size fd"
  define left where "left = fds_remaining_payload ?st + fds_remaining_padding ?st"
  define k where "k = min left (length (rest db))"
  have bound: "left < 2 ^ 32"
    using assms payload_length_bound[of "header_of bs"]
    by (auto simp: at_point_def Let_def left_def split: if_splits)
  obtain fd' where D: "DiscardPayload fd db =
      (if k = left then (kDecodeDone, fd'\<lparr>fd_state := kStartDecodingHeader\<rparr>, AdvanceCursor db k)
       else (kDecodeInProgress, fd', AdvanceCursor db k))"
    and fd': "fd_state fd' = fd_state fd" "fd_maximum_payload_size fd' = ?limit"
      "fds_remaining_payload (fd_frame_decoder_state fd') = left - k" "fds_remaining_padding (fd_frame_decoder_state fd') = 0"
      "fds_listener (fd_frame_decoder_state fd') = fds_listener ?st"
      "fds_structure_decoder (fd_frame_decoder_state fd') = fds_structure_decoder ?st"
    using DiscardPayload_result[OF left_def bound k_def] by metis
  have r: "DecodeFrame accept fd db = DiscardPayload fd db" using assms(2) by (simp add: DecodeFrame_def)
  have buf: "length (sd_buffer (fds_structure_decoder ?st)) = 9" using assms(1) by (simp add: at_point_def Let_def)
  show ?thesis
  proof (cases "length bs < 9")
    case True
    with assms have "bs = []" "left = 0" "expand (fds_listener ?st) = L" by (auto simp: at_point_def Let_def left_def)
    with buf fd' show ?thesis unfolding r D
      by (simp add: k_def call_result_def rest_simps reached_def split_frames_short at_point_def Let_def rank_def)
  next
    case False
    let ?h = "header_of bs" and ?q = "drop 9 bs"
    let ?g = "frame_grammar (accept L ?h) ?limit ?h" and ?c = "take k (rest db)"
    have n: "left + length ?q = payload_length ?h"
      using assms False by (auto simp: at_point_def Let_def left_def)
    then have eq: "payload_length ?h - length ?q = left" by simp
    have a: "left + length ?q = payload_length ?h"
      "expand (fds_listener ?st) = L @ expand (snd (?g (?q @ take left (rest db))))"
      "fst (?g (?q @ take left (rest db))) = kDecodeError"
      using assms False n unfolding at_point_def Let_def eq by simp_all
    show ?thesis
    proof (cases "k = left")
      case True
      then have len: "length ?c = left" by (simp add: k_def min_def split: if_splits)
      have "split_frames accept ?limit L (bs @ ?c) = split_frames accept ?limit L (take 9 bs @ (?q @ ?c) @ [])"
        by (simp flip: append_assoc)
      also have "\<dots> = (L @ expand (snd (?g (?q @ ?c))), [])"
        by (subst split_frames_frame)
          (use False a(1) len in \<open>simp_all add: split_frames_short header_of_def\<close>)
      finally have "reached accept L (bs @ ?c) (fd'\<lparr>fd_state := kStartDecodingHeader\<rparr>) (drop k (rest db))"
        using True fd' buf a(2) by (simp add: reached_def at_point_def Let_def)
      with True fd' show ?thesis unfolding r D
        by (auto simp: call_result_def rest_simps rank_def intro!: exI[of _ ?c])
    next
      case k: False
      then have all: "k = length (rest db)" "length (rest db) < left" by (auto simp: k_def min_def split: if_splits)
      have "split_frames accept ?limit L (bs @ rest db) = (L, bs @ rest db)"
        by (rule split_frames_short) (use False a(1) all in \<open>simp add: header_of_append\<close>)
      then have "reached accept L (bs @ rest db) fd' []"
        using fd' buf a all False assms(2) by (simp add: reached_def at_point_def Let_def header_of_append)
      with k all fd' assms(2) show ?thesis unfolding r D
        by (simp add: call_result_def rest_simps rank_def)
    qed
  qed
qed

lemma resume_payload_call:
  assumes "at_point accept L bs fd (rest db)" "fd_state fd = kResumeDecodingPayload"
  shows "call_result accept L bs (fd_maximum_payload_size fd) db 2 (DecodeFrame accept fd db)"
proof -
  let ?st = "fd_frame_decoder_state fd" and ?limit = "fd_maximum_payload_size fd"
  define h p where "h = header_of bs" and "p = drop 9 bs"
  have bs: "9 \<le> length bs" "bs = take 9 bs @ p" "header_of (take 9 bs) = h"
    using assms by (auto simp: at_point_def Let_def h_def p_def header_of_def split: if_splits)
  have a: "length p < payload_length h" "fds_remaining_payload ?st + fds_remaining_padding ?st + length p = payload_length h"
    "accept L h" "payload_length h \<le> ?limit" "state_ok (retained h) ?st" "frame_Inv (retained h) p fd ?st"
    "fst (frame_payload_grammar (retained h) p) = kDecodeInProgress"
    "expand (fds_listener ?st) = (L @ [OnFrameHeader h]) @ expand (snd (frame_payload_grammar (retained h) p))"
    using assms bs(1) by (auto simp: at_point_def Let_def h_def p_def frame_grammar_def)
  define m where "m = payload_length h - length p"
  have rem: "remaining_total_payload ?st = m"
    using a(2) payload_length_bound[of h] by (simp add: remaining_total_payload_def m_def)
  let ?sub = "DecodeBufferSubset db m"
  obtain s fd1 subs where sw: "ResumeDecodingPayload_switch (fh_type h) fd ?sub = (s, fd1, subs)" by (metis prod_cases3)
  have out: "frame_outcome (retained h) (L @ [OnFrameHeader h]) (p @ take m (rest db)) fd ?sub (s, fd1, subs)"
    using resume_switch[of "retained h" fd p ?sub "L @ [OnFrameHeader h]"] a sw by (simp add: rest_simps m_def)
  have st: "fd_state fd1 = kResumeDecodingPayload"
    if "s = kDecodeInProgress"
    using sw assms(2) by (auto simp: ResumeDecodingPayload_switch_def resume_ops Let_def split: if_splits prod.splits)
  have "DecodeFrame accept fd db = (s, fd1\<lparr>fd_state := state_after s\<rparr>, end_DecodeBufferSubset db subs)"
    using assms(2) sw rem st state_ok_header[OF a(5)]
    by (cases s) (simp_all add: DecodeFrame_def fd_ResumeDecodingPayload_def Let_def state_after_def)
  moreover have "call_result accept L (take 9 bs @ p) ?limit db 2
      (s, fd1\<lparr>fd_state := state_after s\<rparr>, end_DecodeBufferSubset db subs)"
    by (rule payload_call[OF out]) (use a bs in \<open>simp_all add: m_def\<close>)
  ultimately show ?thesis using bs(2) by simp
qed

lemma DecodeFrame_call:
  assumes "at_point accept L bs fd (rest db)" "cut_blind accept"
  shows "call_result accept L bs (fd_maximum_payload_size fd) db (rank (fd_state fd)) (DecodeFrame accept fd db)"
proof (cases "fd_state fd")
  case kStartDecodingHeader
  then have "bs = []" using assms(1) by (auto simp: at_point_def Let_def split: if_splits)
  with kStartDecodingHeader assms show ?thesis by (simp add: start_header_call rank_def)
next
  case kResumeDecodingHeader
  with assms show ?thesis by (simp add: resume_header_call rank_def)
next
  case kResumeDecodingPayload
  with assms show ?thesis by (simp add: resume_payload_call rank_def)
next
  case kDiscardPayload
  with discard_call[OF assms(1)] show ?thesis by (simp add: rank_def)
qed

section \<open>Whole streams\<close>

lemma reached_at: "reached accept L bs fd nxt \<Longrightarrow>
   \<exists>L' r. split_frames accept (fd_maximum_payload_size fd) L bs = (L', r) \<and> at_point accept L' r fd nxt"
  by (auto simp: reached_def split: prod.splits)

lemma reached_extend:
  "split_frames accept (fd_maximum_payload_size fd) L bs = (L', r) \<Longrightarrow>
   reached accept L' (r @ c) fd nxt = reached accept L (bs @ c) fd nxt"
  by (simp add: reached_def split_frames_append)

lemma DecodeFrames_reach:
  assumes "cut_blind accept" "reached accept L bs fd (rest db)"
  shows "\<exists>fd'. DecodeFrames accept fd db = Some fd' \<and> fd_maximum_payload_size fd' = fd_maximum_payload_size fd \<and>
    reached accept L (bs @ rest db) fd' []"
  using assms(2)
proof (induction "3 * length (rest db) + rank (fd_state fd)" arbitrary: fd db bs rule: less_induct)
  case less
  show ?case
  proof (cases "rest db = []")
    case True
    with less.prems show ?thesis by (subst DecodeFrames.simps) (simp add: HasData_rest)
  next
    case False
    let ?limit = "fd_maximum_payload_size fd"
    obtain L' r where at: "split_frames accept ?limit L bs = (L', r)" "at_point accept L' r fd (rest db)"
      using reached_at[OF less.prems] by blast
    obtain s fd1 db1 where d: "DecodeFrame accept fd db = (s, fd1, db1)" by (metis prod_cases3)
    from DecodeFrame_call[OF at(2) assms(1)] obtain c where c: "rest db = c @ rest db1" "reached accept L' (r @ c) fd1 (rest db1)"
      "fd_maximum_payload_size fd1 = ?limit"
      "3 * length (rest db1) + rank (fd_state fd1) < 3 * length (rest db) + rank (fd_state fd)"
      using False by (auto simp: call_result_def d)
    have "reached accept L (bs @ c) fd1 (rest db1)" using c(2,3) at(1) reached_extend[of accept fd1 L bs L' r c] by simp
    from less.hyps[OF c(4) this] c(1,3) show ?thesis
      using False d by (subst DecodeFrames.simps) (auto simp: HasData_rest)
  qed
qed

text \<open>An error stays an error, whatever comes in the next buffer.\<close>

lemma frame_grammar_final:
  "fst (frame_grammar a limit h p) = kDecodeError \<Longrightarrow> length (p @ x) \<le> payload_length h \<Longrightarrow>
   frame_grammar a limit h (p @ x) = frame_grammar a limit h p"
  by (auto simp: frame_grammar_def frame_error_final split: if_splits)

lemma at_point_next:
  assumes "at_point accept L bs fd []"
  shows "at_point accept L bs fd nxt"
proof -
  let ?h = "header_of bs" and ?q = "drop 9 bs"
  let ?g = "frame_grammar (accept L ?h) (fd_maximum_payload_size fd) ?h"
  have "fst (?g ?q) = kDecodeError \<Longrightarrow> length ?q < payload_length ?h \<Longrightarrow>
      ?g (?q @ take (payload_length ?h - length ?q) nxt) = ?g ?q"
    by (rule frame_grammar_final) simp_all
  with assms show ?thesis unfolding at_point_def Let_def by (auto split: if_splits)
qed

lemma DecodeSegments_reach:
  assumes "cut_blind accept" "reached accept L bs fd []"
  shows "\<exists>fd'. DecodeSegments accept fd css = Some fd' \<and> fd_maximum_payload_size fd' = fd_maximum_payload_size fd \<and>
    reached accept L (bs @ concat css) fd' []"
  using assms(2)
proof (induction css arbitrary: fd bs)
  case (Cons c css)
  have "reached accept L bs fd (rest (mkDecodeBuffer c))"
    using Cons.prems at_point_next by (auto simp: reached_def)
  from DecodeFrames_reach[OF assms(1) this] obtain fd1 where fd1: "DecodeFrames accept fd (mkDecodeBuffer c) = Some fd1"
    "fd_maximum_payload_size fd1 = fd_maximum_payload_size fd" "reached accept L (bs @ c) fd1 []" by auto
  from Cons.IH[OF fd1(3)] fd1 show ?case by auto
qed simp

text \<open>A decoder at a frame boundary.\<close>

definition fd_fresh :: "Http2FrameDecoder \<Rightarrow> bool" where
  "fd_fresh fd \<longleftrightarrow> fd_state fd = kStartDecodingHeader \<and> fds_listener (fd_frame_decoder_state fd) = [] \<and>
     length (sd_buffer (fds_structure_decoder (fd_frame_decoder_state fd))) = 9"

lemma new_decoder_fresh:
  "length (sd_buffer (fds_structure_decoder (fd_frame_decoder_state mem))) = 9 \<Longrightarrow> fd_fresh (new_Http2FrameDecoder mem None)"
  by (simp add: fd_fresh_def new_Http2FrameDecoder_def set_listener_def)

lemma fresh_reached: "fd_fresh fd \<Longrightarrow> reached accept [] [] fd []"
  by (simp add: fd_fresh_def reached_def split_frames_short at_point_def Let_def)

lemma reached_calls:
  "reached accept [] bs fd [] \<Longrightarrow>
   expand (fds_listener (fd_frame_decoder_state fd)) = stream_calls accept (fd_maximum_payload_size fd) bs"
  by (auto simp: reached_def at_point_def Let_def stream_calls_def calls_at_def split: prod.splits if_splits)

lemma decoder_calls:
  assumes "cut_blind accept" "fd_fresh fd"
  shows "\<exists>fd'. DecodeSegments accept fd css = Some fd' \<and>
    expand (fds_listener (fd_frame_decoder_state fd')) = stream_calls accept (fd_maximum_payload_size fd) (concat css) \<and>
    reached accept [] (concat css) fd' []"
proof -
  from DecodeSegments_reach[OF assms(1) fresh_reached[OF assms(2)], of css] obtain fd' where
    fd': "DecodeSegments accept fd css = Some fd'" "fd_maximum_payload_size fd' = fd_maximum_payload_size fd"
      "reached accept [] (concat css) fd' []" by auto
  from reached_calls[OF fd'(3)] fd' show ?thesis by auto
qed

end
