(* ===== verification/Frame_Properties.thy ===== *)
theory Frame_Properties
  imports Frame_Stream
begin

text \<open>
  What the frame decoder promises its caller: its calls do not depend on how the transport cuts the
  stream, it finds the next frame whatever is wrong with the present one, and its state stays well
  formed.
\<close>

section \<open>Frames as the builder writes them\<close>

definition frame_bytes :: "Http2FrameHeader \<times> bytes \<Rightarrow> bytes" where
  "frame_bytes = (\<lambda>(h, p). fb_Append_FrameHeader h [] @ p)"

definition frame_fits :: "Http2FrameHeader \<times> bytes \<Rightarrow> bool" where
  "frame_fits = (\<lambda>(h, p). fits_FrameHeader h \<and> payload_length h = length p)"

text \<open>The calls for a whole frame after the calls \<open>L\<close>, and for a sequence of frames.\<close>

definition frame_calls :: "frame_acceptor \<Rightarrow> nat \<Rightarrow> frame_event list \<Rightarrow> Http2FrameHeader \<times> bytes \<Rightarrow> frame_event list" where
  "frame_calls accept limit L = (\<lambda>(h, p). L @ expand (snd (frame_grammar (accept L h) limit h p)))"

lemma header_bytes:
  assumes "fits_FrameHeader h"
  shows "length (fb_Append_FrameHeader h []) = 9" "header_of (fb_Append_FrameHeader h [] @ x) = h"
  using frame_header.length_enc[OF assms] frame_header.dec_enc[OF assms] by (simp_all add: header_of_def)

lemma split_frames_step:
  assumes "frame_fits f"
  shows "split_frames accept limit L (frame_bytes f @ x) = split_frames accept limit (frame_calls accept limit L f) x"
proof -
  obtain h p where f: "f = (h, p)" by fastforce
  with assms have h: "fits_FrameHeader h" "payload_length h = length p" by (simp_all add: frame_fits_def)
  have "header_of (fb_Append_FrameHeader h []) = h" using header_bytes(2)[OF h(1), of "[]"] by simp
  then show ?thesis
    using split_frames_frame[OF header_bytes(1)[OF h(1)], of p accept limit L x] h(2)
    by (simp add: f frame_bytes_def frame_calls_def)
qed

lemma split_frames_all:
  "list_all frame_fits fs \<Longrightarrow>
   split_frames accept limit L (concat (map frame_bytes fs) @ x) = split_frames accept limit (foldl (frame_calls accept limit) L fs) x"
  by (induction fs arbitrary: L) (simp_all add: split_frames_step)

section \<open>Segmentation\<close>

text \<open>
  C5: The frame decoder follows the grammar of the stream, however the stream is cut into segments: called
  until each segment is used up it always returns, and the calls it has made are those that the
  reference reads off the whole stream, where runs of bytes are compared byte by byte.
\<close>

theorem frame_stream_calls:
  assumes "cut_blind accept" "fd_fresh fd"
  shows "\<exists>fd'. DecodeSegments accept fd css = Some fd' \<and>
    expand (fds_listener (fd_frame_decoder_state fd')) = stream_calls accept (fd_maximum_payload_size fd) (concat css)"
  using decoder_calls[OF assms] by blast

text \<open>A decoder in memory that is all zero.\<close>

definition zero_header :: Http2FrameHeader where
  "zero_header = \<lparr>fh_payload_length = 0, fh_stream_id = 0, fh_type = 0, fh_flags = 0\<rparr>"

definition zero_priority :: Http2PriorityFields where
  "zero_priority = \<lparr>pf_stream_dependency = 0, pf_weight = 0, pf_is_exclusive = False\<rparr>"

definition zero_memory :: Http2FrameDecoder where
  "zero_memory =
    \<lparr>fd_frame_decoder_state =
       \<lparr>fds_listener = [], fds_frame_header = zero_header, fds_remaining_payload = 0, fds_remaining_padding = 0,
        fds_structure_decoder = \<lparr>sd_offset = 0, sd_buffer = replicate 9 0\<rparr>\<rparr>,
     fd_altsvc = \<lparr>asd_altsvc_fields = \<lparr>af_origin_length = 0\<rparr>, asd_payload_state = AltSvc_kStartDecodingStruct\<rparr>,
     fd_continuation = (),
     fd_data = \<lparr>dpd_payload_state = Data_kReadPadLength\<rparr>,
     fd_goaway = \<lparr>gad_payload_state = GoAway_kStartDecodingFixedFields,
       gad_goaway_fields = \<lparr>gf_last_stream_id = 0, gf_error_code = 0\<rparr>\<rparr>,
     fd_headers = \<lparr>hpd_payload_state = Headers_kReadPadLength, hpd_priority_fields = zero_priority\<rparr>,
     fd_ping = \<lparr>pid_ping_fields = \<lparr>pgf_opaque_data = replicate 8 0\<rparr>\<rparr>,
     fd_priority = \<lparr>prd_priority_fields = zero_priority\<rparr>,
     fd_push_promise = \<lparr>ppd_payload_state = PushPromise_kReadPadLength,
       ppd_push_promise_fields = \<lparr>ppf_promised_stream_id = 0\<rparr>\<rparr>,
     fd_rst_stream = \<lparr>rsd_rst_stream_fields = \<lparr>rf_error_code = 0\<rparr>\<rparr>,
     fd_settings = \<lparr>std_setting_fields = \<lparr>sf_parameter = 0, sf_value = 0\<rparr>\<rparr>,
     fd_unknown = (),
     fd_window_update = \<lparr>wud_window_update_fields = \<lparr>wf_window_size_increment = 0\<rparr>\<rparr>,
     fd_state = kStartDecodingHeader,
     fd_maximum_payload_size = 0\<rparr>"

definition fresh_decoder :: Http2FrameDecoder where
  "fresh_decoder = new_Http2FrameDecoder zero_memory None"

definition accept_all :: frame_acceptor where
  "accept_all es h \<longleftrightarrow> True"

lemma fresh_decoder_fresh [simp]: "fd_fresh fresh_decoder"
  unfolding fresh_decoder_def by (rule new_decoder_fresh) (simp add: zero_memory_def)

lemma fresh_decoder_limit [simp]: "fd_maximum_payload_size fresh_decoder = 16384"
  by (simp add: fresh_decoder_def new_Http2FrameDecoder_def set_listener_def DefaultMaxFrameSize_def)

lemma accept_all_blind [simp]: "cut_blind accept_all"
  by (simp add: cut_blind_def accept_all_def)

text \<open>A PING frame with the payload 1 to 8, in two segments.\<close>

theorem frame_stream_calls_witness:
  "\<exists>fd'. DecodeSegments accept_all fresh_decoder [[0, 0, 8, 6, 0, 0], [0, 0, 0, 1, 2, 3, 4, 5, 6, 7, 8]] = Some fd' \<and>
     expand (fds_listener (fd_frame_decoder_state fd')) =
       stream_calls accept_all 16384 [0, 0, 8, 6, 0, 0, 0, 0, 0, 1, 2, 3, 4, 5, 6, 7, 8]"
  using frame_stream_calls[of accept_all fresh_decoder "[[0, 0, 8, 6, 0, 0], [0, 0, 0, 1, 2, 3, 4, 5, 6, 7, 8]]"] by simp

section \<open>Frame boundaries\<close>

text \<open>
  C6: The decoder finds every frame boundary. In a stream of frames as the builder writes them, with
  any headers and any payloads, right or wrong, too long for the limit or refused by the listener, the
  calls for each frame depend on its own header and payload only, apart from what the listener decides.
\<close>

theorem frames_in_sequence:
  assumes "cut_blind accept" "fd_fresh fd" "list_all frame_fits fs" "concat css = concat (map frame_bytes fs)"
  shows "\<exists>fd'. DecodeSegments accept fd css = Some fd' \<and>
    expand (fds_listener (fd_frame_decoder_state fd')) = foldl (frame_calls accept (fd_maximum_payload_size fd)) [] fs"
proof -
  have "stream_calls accept limit (concat css) = foldl (frame_calls accept limit) [] fs" for limit
    using split_frames_all[OF assms(3), of accept limit "[]" "[]"]
    by (simp add: stream_calls_def assms(4) split_frames_short calls_at_def)
  with decoder_calls[OF assms(1,2), of css] show ?thesis by auto
qed

definition header :: "nat \<Rightarrow> Http2FrameType \<Rightarrow> byte \<Rightarrow> u32 \<Rightarrow> Http2FrameHeader" where
  "header n type flags stream_id =
     \<lparr>fh_payload_length = of_nat n, fh_stream_id = stream_id, fh_type = type, fh_flags = flags\<rparr>"

text \<open>An RST\_STREAM frame of the wrong size, then a WINDOW\_UPDATE frame, byte by byte.\<close>

theorem frames_in_sequence_witness:
  "\<exists>fd'. DecodeSegments accept_all fresh_decoder (map (\<lambda>b. [b])
         (concat (map frame_bytes [(header 3 FRAME_RST_STREAM 0 1, [1, 2, 3]), (header 4 FRAME_WINDOW_UPDATE 0 1, [0, 0, 0, 9])]))) = Some fd' \<and>
     expand (fds_listener (fd_frame_decoder_state fd')) =
       foldl (frame_calls accept_all 16384) []
         [(header 3 FRAME_RST_STREAM 0 1, [1, 2, 3]), (header 4 FRAME_WINDOW_UPDATE 0 1, [0, 0, 0, 9])]"
proof -
  have c: "concat (map (\<lambda>b. [b]) bs) = bs" for bs :: bytes by (induction bs) auto
  show ?thesis
    using frames_in_sequence[of accept_all fresh_decoder
        "[(header 3 FRAME_RST_STREAM 0 1, [1, 2, 3]), (header 4 FRAME_WINDOW_UPDATE 0 1, [0, 0, 0, 9])]", OF _ _ _ c]
    by (simp add: frame_fits_def fits_FrameHeader_def header_def payload_length_def del: foldl_Cons)
qed

section \<open>Well-formed states\<close>

text \<open>
  What the handlers take for granted of the state between two calls, which the source states in its
  comments and its DCHECKs: the buffer for the structures holds a frame header; a frame whose payload
  is being decoded has some of it left and is within the limit; only padded frames have padding;
  and the decoder of its type is in one of the states its \<open>ResumeDecodingPayload\<close> can be called in.
\<close>

definition payload_well_formed :: "Http2FrameDecoder \<Rightarrow> bool" where
  "payload_well_formed fd =
    (let st = fd_frame_decoder_state fd; h = fds_frame_header st; type = fh_type h;
         pad = fds_remaining_padding st; left = fds_remaining_payload st + pad
     in 0 < left \<and> left \<le> payload_length h \<and> payload_length h \<le> fd_maximum_payload_size fd \<and> pad < 256 \<and>
        (pad = 0 \<or> IsPadded h \<and> (type = FRAME_DATA \<or> type = FRAME_HEADERS \<or> type = FRAME_PUSH_PROMISE)) \<and>
        (if type = FRAME_DATA then
           (case dpd_payload_state (fd_data fd) of
              Data_kReadPadLength \<Rightarrow> IsPadded h \<and> left = payload_length h
            | Data_kReadPayload \<Rightarrow> 0 < fds_remaining_payload st
            | Data_kSkipPadding \<Rightarrow> fds_remaining_payload st = 0)
         else if type = FRAME_HEADERS then
           (case hpd_payload_state (fd_headers fd) of
              Headers_kReadPadLength \<Rightarrow> IsPadded h \<and> left = payload_length h
            | Headers_kStartDecodingPriorityFields \<Rightarrow> False
            | Headers_kReadPayload \<Rightarrow> 0 < fds_remaining_payload st
            | Headers_kSkipPadding \<Rightarrow> fds_remaining_payload st = 0
            | Headers_kResumeDecodingPriorityFields \<Rightarrow> HasPriority h)
         else if type = FRAME_SETTINGS then \<not> IsAck h
         else if type = FRAME_PUSH_PROMISE then
           (case ppd_payload_state (fd_push_promise fd) of
              PushPromise_kReadPadLength \<Rightarrow> IsPadded h \<and> left = payload_length h
            | PushPromise_kStartDecodingPushPromiseFields \<Rightarrow> False
            | PushPromise_kReadPayload \<Rightarrow> 0 < fds_remaining_payload st
            | PushPromise_kSkipPadding \<Rightarrow> fds_remaining_payload st = 0
            | PushPromise_kResumeDecodingPushPromiseFields \<Rightarrow> True)
         else if type = FRAME_GOAWAY then
           gad_payload_state (fd_goaway fd) = GoAway_kReadOpaqueData \<or>
           gad_payload_state (fd_goaway fd) = GoAway_kResumeDecodingFixedFields
         else if type = FRAME_ALTSVC then
           asd_payload_state (fd_altsvc fd) = AltSvc_kDecodingStrings \<or>
           asd_payload_state (fd_altsvc fd) = AltSvc_kResumeDecodingStruct
         else True))"

definition fd_well_formed :: "Http2FrameDecoder \<Rightarrow> bool" where
  "fd_well_formed fd =
    (let st = fd_frame_decoder_state fd; sd = fds_structure_decoder st
     in length (sd_buffer sd) = 9 \<and>
        (case fd_state fd of
           kStartDecodingHeader \<Rightarrow> True
         | kResumeDecodingHeader \<Rightarrow> sd_offset sd < 9
         | kResumeDecodingPayload \<Rightarrow> payload_well_formed fd
         | kDiscardPayload \<Rightarrow> fds_remaining_payload st + fds_remaining_padding st < 2 ^ 32))"

text \<open>The padded frames: where the tail is, and how much padding is left.\<close>

lemma tail_left:
  assumes "tail_Inv n pad r reading skipping st" "fds_remaining_payload st + fds_remaining_padding st + length r = n + pad"
  shows "fds_remaining_padding st \<le> pad" "if length r < n then reading \<and> 0 < fds_remaining_payload st else skipping \<and> fds_remaining_payload st = 0"
  using assms by (auto simp: tail_Inv_def split: if_splits)

lemma padding_less: "padding_of h q < 256" "0 < padding_of h q \<Longrightarrow> IsPadded h"
  using unsigned_less[of "hd q", where 'a = nat] by (auto simp: padding_of_def split: if_splits)

lemma read_pad_left:
  assumes "fst (read_pad report h q k) = kDecodeInProgress" "left + length q = payload_length h" "0 < left" "\<not> (IsPadded h \<and> q = [])"
  shows "left + length (content_of h q) = content_length h q + padding_of h q"
  using assms by (cases q) (auto simp: read_pad_def content_of_def content_length_def padding_of_def split: if_splits)

lemma content_left:
  assumes "content_Inv sz n pad r resuming reading skipping st" "sz \<le> length r \<Longrightarrow> sz \<le> n"
    "fds_remaining_payload st + fds_remaining_padding st + length r = n + pad"
  shows "fds_remaining_padding st \<le> pad" "resuming \<and> length r < sz \<or> reading \<and> 0 < fds_remaining_payload st \<or> skipping \<and> fds_remaining_payload st = 0"
  using assms tail_left[of "n - sz" pad "drop sz r" reading skipping st]
  by (auto simp: content_Inv_def split: if_splits)

lemma padding_left:
  "x \<le> padding_of h q \<Longrightarrow> x < 256 \<and> (x = 0 \<or> IsPadded h)"
  using padding_less[of h q] by linarith

lemma data_left:
  assumes "data_Inv h q d st" "fst (data_grammar h q) = kDecodeInProgress"
    "fds_remaining_payload st + fds_remaining_padding st + length q = payload_length h"
    "0 < fds_remaining_payload st + fds_remaining_padding st"
  shows "fds_remaining_padding st < 256 \<and> (fds_remaining_padding st = 0 \<or> IsPadded h) \<and>
    (case dpd_payload_state d of
       Data_kReadPadLength \<Rightarrow> IsPadded h \<and> fds_remaining_payload st + fds_remaining_padding st = payload_length h
     | Data_kReadPayload \<Rightarrow> 0 < fds_remaining_payload st
     | Data_kSkipPadding \<Rightarrow> fds_remaining_payload st = 0)"
proof (cases "IsPadded h \<and> q = []")
  case False
  then have t: "tail_Inv (content_length h q) (padding_of h q) (content_of h q)
      (dpd_payload_state d = Data_kReadPayload) (dpd_payload_state d = Data_kSkipPadding) st"
    and l: "fds_remaining_payload st + fds_remaining_padding st + length (content_of h q) = content_length h q + padding_of h q"
    using assms read_pad_left[of True h q] by (auto simp: data_Inv_def data_grammar_def)
  from tail_left[OF t l] padding_left show ?thesis by (auto split: if_splits)
qed (use assms in \<open>auto simp: data_Inv_def\<close>)

lemma headers_left:
  assumes "headers_Inv h q d st" "fst (headers_grammar h q) = kDecodeInProgress"
    "fds_remaining_payload st + fds_remaining_padding st + length q = payload_length h"
    "0 < fds_remaining_payload st + fds_remaining_padding st"
  shows "fds_remaining_padding st < 256 \<and> (fds_remaining_padding st = 0 \<or> IsPadded h) \<and>
    (case hpd_payload_state d of
       Headers_kReadPadLength \<Rightarrow> IsPadded h \<and> fds_remaining_payload st + fds_remaining_padding st = payload_length h
     | Headers_kStartDecodingPriorityFields \<Rightarrow> False
     | Headers_kReadPayload \<Rightarrow> 0 < fds_remaining_payload st
     | Headers_kSkipPadding \<Rightarrow> fds_remaining_payload st = 0
     | Headers_kResumeDecodingPriorityFields \<Rightarrow> HasPriority h)"
proof (cases "IsPadded h \<and> q = []")
  case False
  let ?r = "content_of h q" and ?n = "content_length h q" and ?sz = "if HasPriority h then 5 else 0 :: nat"
  have c: "content_Inv ?sz ?n (padding_of h q) ?r
      (hpd_payload_state d = Headers_kResumeDecodingPriorityFields)
      (hpd_payload_state d = Headers_kReadPayload) (hpd_payload_state d = Headers_kSkipPadding) st"
    and l: "fds_remaining_payload st + fds_remaining_padding st + length ?r = ?n + padding_of h q"
    using False assms read_pad_left[of True h q] by (auto simp: headers_Inv_def headers_grammar_def)
  have "fst (headers_content h ?n (padding_of h q) ?r) = kDecodeInProgress"
    using False assms(2) by (auto simp: headers_grammar_def read_pad_def split: if_splits)
  then have sz: "?sz \<le> length ?r \<Longrightarrow> ?sz \<le> ?n" by (auto simp: headers_content_def read_struct_def split: if_splits)
  from content_left[OF c sz l] padding_left show ?thesis by (auto split: if_splits)
qed (use assms in \<open>auto simp: headers_Inv_def\<close>)

lemma push_promise_left:
  assumes "push_promise_Inv h q d st" "fst (push_promise_grammar h q) = kDecodeInProgress"
    "fds_remaining_payload st + fds_remaining_padding st + length q = payload_length h"
    "0 < fds_remaining_payload st + fds_remaining_padding st"
  shows "fds_remaining_padding st < 256 \<and> (fds_remaining_padding st = 0 \<or> IsPadded h) \<and>
    (case ppd_payload_state d of
       PushPromise_kReadPadLength \<Rightarrow> IsPadded h \<and> fds_remaining_payload st + fds_remaining_padding st = payload_length h
     | PushPromise_kStartDecodingPushPromiseFields \<Rightarrow> False
     | PushPromise_kReadPayload \<Rightarrow> 0 < fds_remaining_payload st
     | PushPromise_kSkipPadding \<Rightarrow> fds_remaining_payload st = 0
     | PushPromise_kResumeDecodingPushPromiseFields \<Rightarrow> True)"
proof (cases "IsPadded h \<and> q = []")
  case False
  let ?r = "content_of h q" and ?n = "content_length h q"
  have c: "content_Inv 4 ?n (padding_of h q) ?r
      (ppd_payload_state d = PushPromise_kResumeDecodingPushPromiseFields)
      (ppd_payload_state d = PushPromise_kReadPayload) (ppd_payload_state d = PushPromise_kSkipPadding) st"
    and l: "fds_remaining_payload st + fds_remaining_padding st + length ?r = ?n + padding_of h q"
    using False assms read_pad_left[of False h q] by (auto simp: push_promise_Inv_def push_promise_grammar_def)
  have "fst (push_promise_content h ?n (padding_of h q) ?r) = kDecodeInProgress"
    using False assms(2) by (auto simp: push_promise_grammar_def read_pad_def split: if_splits)
  then have sz: "4 \<le> length ?r \<Longrightarrow> 4 \<le> ?n" by (auto simp: push_promise_content_def read_struct_def split: if_splits)
  from content_left[OF c sz l] padding_left show ?thesis by (auto split: if_splits)
qed (use assms in \<open>auto simp: push_promise_Inv_def\<close>)

lemma payload_left:
  assumes "frame_Inv h q fd st" "fst (frame_payload_grammar h q) = kDecodeInProgress" "state_ok h st"
    "fds_remaining_payload st + fds_remaining_padding st + length q = payload_length h"
    "0 < fds_remaining_payload st + fds_remaining_padding st" "payload_length h \<le> fd_maximum_payload_size fd"
    "fd_frame_decoder_state fd = st"
  shows "payload_well_formed fd"
proof -
  have h: "fds_frame_header st = h" using assms(3) by (simp add: state_ok_def)
  have ne: "FRAME_HEADERS \<noteq> FRAME_DATA" "FRAME_PUSH_PROMISE \<noteq> FRAME_DATA" "FRAME_PUSH_PROMISE \<noteq> FRAME_HEADERS"
    "FRAME_PUSH_PROMISE \<noteq> FRAME_SETTINGS" "FRAME_PUSH_PROMISE \<noteq> FRAME_PRIORITY" "FRAME_PUSH_PROMISE \<noteq> FRAME_RST_STREAM"
    by (simp_all add: frame_type_defs)
  consider "fh_type h = FRAME_DATA" | "fh_type h = FRAME_HEADERS" | "fh_type h = FRAME_PUSH_PROMISE"
    | "fh_type h \<notin> {FRAME_DATA, FRAME_HEADERS, FRAME_PUSH_PROMISE}" by auto
  then show ?thesis
  proof cases
    case 1
    with data_left[of h q "fd_data fd" st] assms h show ?thesis
      by (auto simp: payload_well_formed_def frame_Inv_def frame_payload_grammar_def Let_def)
  next
    case 2
    with headers_left[of h q "fd_headers fd" st] assms h ne show ?thesis
      by (auto simp: payload_well_formed_def frame_Inv_def frame_payload_grammar_def Let_def)
  next
    case 3
    with push_promise_left[of h q "fd_push_promise fd" st] assms h ne show ?thesis
      by (auto simp: payload_well_formed_def frame_Inv_def frame_payload_grammar_def Let_def)
  next
    case 4
    then have "fds_remaining_padding st = 0"
      "fh_type h = FRAME_SETTINGS \<Longrightarrow> \<not> IsAck h"
      "fh_type h = FRAME_GOAWAY \<Longrightarrow> gad_payload_state (fd_goaway fd) = GoAway_kReadOpaqueData \<or>
         gad_payload_state (fd_goaway fd) = GoAway_kResumeDecodingFixedFields"
      "fh_type h = FRAME_ALTSVC \<Longrightarrow> asd_payload_state (fd_altsvc fd) = AltSvc_kDecodingStrings \<or>
         asd_payload_state (fd_altsvc fd) = AltSvc_kResumeDecodingStruct"
      using assms(1)
      by (auto simp: frame_Inv_def Let_def single_Inv_def settings_Inv_def goaway_Inv_def altsvc_Inv_def run_Inv_def
          frame_type_defs split: if_splits)
    with 4 assms h show ?thesis by (simp add: payload_well_formed_def Let_def)
  qed
qed

lemma at_point_well_formed:
  assumes "at_point accept L bs fd []"
  shows "fd_well_formed fd"
proof -
  let ?st = "fd_frame_decoder_state fd"
  let ?h = "header_of bs" and ?q = "drop 9 bs"
  have bound: "payload_length ?h < 2 ^ 32" by (rule payload_length_bound)
  show ?thesis
  proof (cases "fd_state fd")
    case kResumeDecodingHeader
    with assms have "collecting bs ?st" "length bs < 9" by (auto simp: at_point_def Let_def split: if_splits)
    then show ?thesis
      using kResumeDecodingHeader length_filled[of "fds_structure_decoder ?st"]
      by (auto simp: fd_well_formed_def collecting_def sd_ok_def)
  next
    case kResumeDecodingPayload
    with assms have a: "frame_Inv (retained ?h) ?q fd ?st" "state_ok (retained ?h) ?st"
      "fst (frame_payload_grammar (retained ?h) ?q) = kDecodeInProgress"
      "fds_remaining_payload ?st + fds_remaining_padding ?st + length ?q = payload_length (retained ?h)"
      "0 < fds_remaining_payload ?st + fds_remaining_padding ?st" "payload_length (retained ?h) \<le> fd_maximum_payload_size fd"
      by (auto simp: at_point_def Let_def frame_grammar_def split: if_splits)
    from payload_left[OF a(1,3,2,4,5,6) refl] a(2) kResumeDecodingPayload show ?thesis
      by (simp add: fd_well_formed_def state_ok_def)
  qed (use assms bound in \<open>auto simp: at_point_def fd_well_formed_def Let_def split: if_splits\<close>)
qed



section \<open>One call\<close>



end
