(* ===== verification/Frame_Roundtrip.thy ===== *)
theory Frame_Roundtrip
  imports Frame_Properties
begin

text \<open>
  Frames of every type, laid out as RFC 7540 and RFC 7838 say with the structures that
  \<open>Http2FrameBuilder\<close> writes, are decoded to the calls that say what the frame holds.
\<close>

section \<open>Frames\<close>

datatype frame_body =
    DataBody "bytes option" bytes
  | HeadersBody "bytes option" "Http2PriorityFields option" bytes
  | PriorityBody Http2PriorityFields
  | RstStreamBody Http2RstStreamFields
  | SettingsBody "Http2SettingFields list"
  | SettingsAckBody
  | PushPromiseBody "bytes option" Http2PushPromiseFields bytes
  | PingBody Http2PingFields
  | GoAwayBody Http2GoAwayFields bytes
  | WindowUpdateBody Http2WindowUpdateFields
  | ContinuationBody bytes
  | AltSvcBody bytes bytes
  | UnknownBody Http2FrameType bytes

fun body_type :: "frame_body \<Rightarrow> Http2FrameType" where
  "body_type (DataBody pad d) = FRAME_DATA"
| "body_type (HeadersBody pad prio d) = FRAME_HEADERS"
| "body_type (PriorityBody f) = FRAME_PRIORITY"
| "body_type (RstStreamBody f) = FRAME_RST_STREAM"
| "body_type (SettingsBody fs) = FRAME_SETTINGS"
| "body_type SettingsAckBody = FRAME_SETTINGS"
| "body_type (PushPromiseBody pad f d) = FRAME_PUSH_PROMISE"
| "body_type (PingBody f) = FRAME_PING"
| "body_type (GoAwayBody f d) = FRAME_GOAWAY"
| "body_type (WindowUpdateBody f) = FRAME_WINDOW_UPDATE"
| "body_type (ContinuationBody d) = FRAME_CONTINUATION"
| "body_type (AltSvcBody origin val) = FRAME_ALTSVC"
| "body_type (UnknownBody type d) = type"

definition padding :: "bytes option \<Rightarrow> bytes" where
  "padding pad = (case pad of None \<Rightarrow> [] | Some z \<Rightarrow> z)"

definition padded :: "bytes option \<Rightarrow> bytes \<Rightarrow> bytes" where
  "padded pad content = (case pad of None \<Rightarrow> content | Some z \<Rightarrow> of_nat (length z) # content @ z)"

definition priority_bytes :: "Http2PriorityFields option \<Rightarrow> bytes" where
  "priority_bytes prio = (case prio of None \<Rightarrow> [] | Some f \<Rightarrow> fb_Append_Priority f [])"

definition origin_length :: "bytes \<Rightarrow> Http2AltSvcFields" where
  "origin_length origin = \<lparr>af_origin_length = of_nat (length origin)\<rparr>"

fun body_bytes :: "frame_body \<Rightarrow> bytes" where
  "body_bytes (DataBody pad d) = padded pad d"
| "body_bytes (HeadersBody pad prio d) = padded pad (priority_bytes prio @ d)"
| "body_bytes (PriorityBody f) = fb_Append_Priority f []"
| "body_bytes (RstStreamBody f) = fb_Append_RstStream f []"
| "body_bytes (SettingsBody fs) = concat (map (\<lambda>f. fb_Append_Setting f []) fs)"
| "body_bytes SettingsAckBody = []"
| "body_bytes (PushPromiseBody pad f d) = padded pad (fb_Append_PushPromise f [] @ d)"
| "body_bytes (PingBody f) = fb_Append_Ping f []"
| "body_bytes (GoAwayBody f d) = fb_Append_GoAway f [] @ d"
| "body_bytes (WindowUpdateBody f) = fb_Append_WindowUpdate f []"
| "body_bytes (ContinuationBody d) = d"
| "body_bytes (AltSvcBody origin val) = fb_Append_AltSvc (origin_length origin) [] @ origin @ val"
| "body_bytes (UnknownBody type d) = d"

text \<open>The flags say what the payload holds, and the values fit the fields they are written to.\<close>

definition pad_ok :: "Http2FrameHeader \<Rightarrow> bytes option \<Rightarrow> bool" where
  "pad_ok h pad \<longleftrightarrow> (case pad of None \<Rightarrow> \<not> IsPadded h | Some z \<Rightarrow> IsPadded h \<and> length z < 256)"

fun body_ok :: "Http2FrameHeader \<Rightarrow> frame_body \<Rightarrow> bool" where
  "body_ok h (DataBody pad d) = pad_ok h pad"
| "body_ok h (HeadersBody pad prio d) =
     (pad_ok h pad \<and> (case prio of None \<Rightarrow> \<not> HasPriority h | Some f \<Rightarrow> HasPriority h \<and> fits_Priority f))"
| "body_ok h (PriorityBody f) = fits_Priority f"
| "body_ok h (SettingsBody fs) = (\<not> IsAck h)"
| "body_ok h SettingsAckBody = IsAck h"
| "body_ok h (PushPromiseBody pad f d) = (pad_ok h pad \<and> fits_31 (ppf_promised_stream_id f))"
| "body_ok h (PingBody f) = (length (pgf_opaque_data f) = 8)"
| "body_ok h (GoAwayBody f d) = fits_31 (gf_last_stream_id f)"
| "body_ok h (WindowUpdateBody f) = fits_31 (wf_window_size_increment f)"
| "body_ok h (AltSvcBody origin val) = (length origin < 2 ^ 16)"
| "body_ok h (UnknownBody type d) = (\<not> IsSupportedHttp2FrameType (ucast type))"
| "body_ok h _ = True"

text \<open>The calls that say what the frame holds.\<close>

definition pad_events :: "bytes option \<Rightarrow> frame_event list" where
  "pad_events pad = (case pad of None \<Rightarrow> [] | Some z \<Rightarrow> [OnPadLength (length z)])"

fun body_events :: "Http2FrameHeader \<Rightarrow> frame_body \<Rightarrow> frame_event list" where
  "body_events h (DataBody pad d) =
     OnDataStart h # pad_events pad @ [OnDataPayload d, OnPadding (padding pad), OnDataEnd]"
| "body_events h (HeadersBody pad prio d) =
     OnHeadersStart h # pad_events pad @ (case prio of None \<Rightarrow> [] | Some f \<Rightarrow> [OnHeadersPriority f]) @
     [OnHpackFragment d, OnPadding (padding pad), OnHeadersEnd]"
| "body_events h (PriorityBody f) = [OnPriorityFrame h f]"
| "body_events h (RstStreamBody f) = [OnRstStream h (rf_error_code f)]"
| "body_events h (SettingsBody fs) = OnSettingsStart h # map OnSetting fs @ [OnSettingsEnd]"
| "body_events h SettingsAckBody = [OnSettingsAck h]"
| "body_events h (PushPromiseBody pad f d) =
     [OnPushPromiseStart h f (case pad of None \<Rightarrow> 0 | Some z \<Rightarrow> 1 + length z),
      OnHpackFragment d, OnPadding (padding pad), OnPushPromiseEnd]"
| "body_events h (PingBody f) = [if IsAck h then OnPingAck h f else OnPing h f]"
| "body_events h (GoAwayBody f d) = [OnGoAwayStart h f, OnGoAwayOpaqueData d, OnGoAwayEnd]"
| "body_events h (WindowUpdateBody f) = [OnWindowUpdate h (wf_window_size_increment f)]"
| "body_events h (ContinuationBody d) = [OnContinuationStart h, OnHpackFragment d, OnContinuationEnd]"
| "body_events h (AltSvcBody origin val) =
     [OnAltSvcStart h (length origin) (length val), OnAltSvcOriginData origin, OnAltSvcValueData val, OnAltSvcEnd]"
| "body_events h (UnknownBody type d) = [OnUnknownStart h, OnUnknownPayload d, OnUnknownEnd]"

text \<open>A frame: the flags and the stream of its header, and its body.\<close>

type_synonym http2_frame = "byte \<times> u32 \<times> frame_body"

definition the_header :: "http2_frame \<Rightarrow> Http2FrameHeader" where
  "the_header = (\<lambda>(flags, stream_id, b). header (length (body_bytes b)) (body_type b) flags stream_id)"

definition the_body :: "http2_frame \<Rightarrow> frame_body" where
  "the_body = (\<lambda>(flags, stream_id, b). b)"

definition http2_frame_ok :: "nat \<Rightarrow> http2_frame \<Rightarrow> bool" where
  "http2_frame_ok limit f \<longleftrightarrow>
     fits_31 (fh_stream_id (the_header f)) \<and> length (body_bytes (the_body f)) < 2 ^ 24 \<and>
     length (body_bytes (the_body f)) \<le> limit \<and> body_ok (the_header f) (the_body f)"

definition http2_frame_bytes :: "http2_frame \<Rightarrow> bytes" where
  "http2_frame_bytes f = fb_Append_FrameHeader (the_header f) [] @ body_bytes (the_body f)"

definition http2_frame_events :: "http2_frame \<Rightarrow> frame_event list" where
  "http2_frame_events f = OnFrameHeader (the_header f) # body_events (retained (the_header f)) (the_body f)"

section \<open>Each body is read back\<close>

context wire_struct
begin

lemma read_struct_enc: "fits v \<Longrightarrow> size \<le> n \<Longrightarrow> read_struct size dec n h (enc v [] @ r) k = k v r"
  by (simp add: read_struct_def length_enc dec_enc)

lemma single_grammar_enc:
  assumes "fits v" "payload_length h = length (enc v [])"
  shows "single_grammar size dec ev h (enc v []) = (kDecodeDone, [ev h v])"
  using assms read_struct_enc[OF assms(1), of "payload_length h" h "[]"] by (simp add: single_grammar_def length_enc)

end

lemma read_pad_padded:
  assumes "pad_ok h pad" "payload_length h = length (padded pad content)"
  shows "read_pad report h (padded pad content) k =
    after (if report then pad_events pad else []) (k (length content) (length (padding pad)) (content @ padding pad))"
  using assms by (auto simp: pad_ok_def padded_def padding_def read_pad_def pad_events_def content_of_def content_length_def
      padding_of_def take_bit_nat_eq_self unsigned_of_nat split: option.splits)

lemma data_body_grammar:
  assumes "pad_ok h pad" "payload_length h = length (padded pad d)"
  shows "data_grammar h (padded pad d) = (kDecodeDone, body_events h (DataBody pad d))"
  by (simp add: data_grammar_def read_pad_padded[OF assms] padded_tail_def after_def)

lemma headers_body_grammar:
  assumes "body_ok h (HeadersBody pad prio d)" "payload_length h = length (body_bytes (HeadersBody pad prio d))"
  shows "headers_grammar h (body_bytes (HeadersBody pad prio d)) = (kDecodeDone, body_events h (HeadersBody pad prio d))"
proof -
  have "headers_content h (length (priority_bytes prio @ d)) (length (padding pad)) ((priority_bytes prio @ d) @ padding pad) =
      (kDecodeDone, (case prio of None \<Rightarrow> [] | Some f \<Rightarrow> [OnHeadersPriority f]) @
        [OnHpackFragment d, OnPadding (padding pad), OnHeadersEnd])"
  proof (cases prio)
    case None
    with assms(1) show ?thesis by (simp add: headers_content_def padded_tail_def priority_bytes_def)
  next
    case (Some f)
    with assms(1) have "fits_Priority f" "HasPriority h" by simp_all
    with Some show ?thesis
      by (simp add: headers_content_def priority.read_struct_enc priority.length_enc padded_tail_def after_def priority_bytes_def)
  qed
  moreover have "pad_ok h pad" using assms(1) by simp
  ultimately show ?thesis using read_pad_padded[of h pad "priority_bytes prio @ d"] assms(2)
    by (simp add: headers_grammar_def after_def)
qed

lemma push_promise_body_grammar:
  assumes "body_ok h (PushPromiseBody pad f d)" "payload_length h = length (body_bytes (PushPromiseBody pad f d))"
  shows "push_promise_grammar h (body_bytes (PushPromiseBody pad f d)) = (kDecodeDone, body_events h (PushPromiseBody pad f d))"
proof -
  let ?c = "fb_Append_PushPromise f [] @ d"
  have f: "fits_31 (ppf_promised_stream_id f)" and p: "pad_ok h pad" using assms(1) by simp_all
  have "push_promise_content h (length ?c) (length (padding pad)) (?c @ padding pad) =
      (kDecodeDone, body_events h (PushPromiseBody pad f d))"
    using p push_promise.length_enc[OF f]
    by (auto simp: push_promise_content_def push_promise.read_struct_enc[OF f] padded_tail_def after_def
        pad_ok_def padding_def split: option.splits)
  with read_pad_padded[OF p, of ?c False] assms(2) show ?thesis by (simp add: push_promise_grammar_def after_def)
qed

lemma settings_body_items:
  "settings_items h (length (body_bytes (SettingsBody fs))) (body_bytes (SettingsBody fs)) = (kDecodeDone, map OnSetting fs @ [OnSettingsEnd])"
proof (induction fs)
  case Nil
  show ?case by (subst settings_items.simps) simp
next
  case (Cons f fs)
  have "length (fb_Append_Setting f []) = 6" "fst (DoDecode_Setting (mkDecodeBuffer (fb_Append_Setting f []))) = f"
    by (simp_all add: setting.length_enc setting.dec_enc)
  with Cons show ?case by (subst settings_items.simps) (simp add: after_def)
qed

lemma altsvc_body_grammar:
  assumes "length orig < 2 ^ 16" "payload_length h = length (body_bytes (AltSvcBody orig val))"
  shows "altsvc_grammar h (body_bytes (AltSvcBody orig val)) = (kDecodeDone, body_events h (AltSvcBody orig val))"
  using assms altsvc.length_enc[of "origin_length orig"]
  by (simp add: altsvc_grammar_def altsvc.read_struct_enc altsvc_strings_def after_def origin_length_def unsigned_of_nat take_bit_nat_eq_self)

lemma goaway_body_grammar:
  assumes "fits_31 (gf_last_stream_id f)" "payload_length h = length (body_bytes (GoAwayBody f d))"
  shows "goaway_grammar h (body_bytes (GoAwayBody f d)) = (kDecodeDone, body_events h (GoAwayBody f d))"
  using assms goaway.length_enc[OF assms(1)] by (simp add: goaway_grammar_def goaway.read_struct_enc read_run_def after_def)

lemma unknown_type:
  assumes "\<not> IsSupportedHttp2FrameType (ucast (t :: Http2FrameType))"
  shows "t \<notin> known_types"
  using assms by (auto simp: IsSupportedHttp2FrameType_def known_types_def frame_type_defs)

lemma body_grammar:
  assumes "body_ok h b" "fh_type h = body_type b" "payload_length h = length (body_bytes b)"
  shows "frame_payload_grammar h (body_bytes b) = (kDecodeDone, body_events h b)"
proof (cases b)
  case (UnknownBody t d)
  with assms unknown_type[of t] show ?thesis
    by (auto simp: frame_payload_grammar_def known_types_def unknown_grammar_def read_run_def after_def Let_def)
qed (use assms in \<open>simp_all add: frame_payload_grammar_def frame_type_defs data_body_grammar
    headers_body_grammar[simplified] push_promise_body_grammar[simplified] altsvc_body_grammar[simplified]
    goaway_body_grammar[simplified] settings_grammar_def settings_body_items[simplified] after_def
    priority.single_grammar_enc rst.single_grammar_enc ping.single_grammar_enc window_update.single_grammar_enc
    rst_event_def ping_event_def window_update_event_def continuation_grammar_def read_run_def\<close>)

section \<open>Flags\<close>

text \<open>The flags that a frame type defines survive \<open>RetainFlags\<close>.\<close>

lemma RetainFlags_flag:
  assumes "m AND f = f"
  shows "fh_flags (RetainFlags m h) AND f = fh_flags h AND f"
proof -
  have "(fh_flags h AND m) AND f = fh_flags h AND (m AND f)" by (simp add: and.assoc)
  with assms show ?thesis by (simp add: RetainFlags_def)
qed

lemma retained_flags:
  "fh_type h \<in> {FRAME_DATA, FRAME_HEADERS, FRAME_PUSH_PROMISE} \<Longrightarrow> IsPadded (retained h) = IsPadded h"
  "fh_type h = FRAME_HEADERS \<Longrightarrow> HasPriority (retained h) = HasPriority h"
  "fh_type h \<in> {FRAME_SETTINGS, FRAME_PING} \<Longrightarrow> IsAck (retained h) = IsAck h"
proof -
  have f: "(FLAG_END_STREAM OR FLAG_PADDED) AND FLAG_PADDED = FLAG_PADDED"
    "(FLAG_END_HEADERS OR FLAG_PADDED) AND FLAG_PADDED = FLAG_PADDED"
    "(FLAG_END_STREAM OR FLAG_END_HEADERS OR FLAG_PADDED OR FLAG_PRIORITY) AND FLAG_PADDED = FLAG_PADDED"
    "(FLAG_END_STREAM OR FLAG_END_HEADERS OR FLAG_PADDED OR FLAG_PRIORITY) AND FLAG_PRIORITY = FLAG_PRIORITY"
    "FLAG_ACK AND FLAG_ACK = FLAG_ACK"
    by (simp_all add: FLAG_END_STREAM_def FLAG_END_HEADERS_def FLAG_PADDED_def FLAG_PRIORITY_def)
  note r = f[THEN RetainFlags_flag, of h]
  show "fh_type h \<in> {FRAME_DATA, FRAME_HEADERS, FRAME_PUSH_PROMISE} \<Longrightarrow> IsPadded (retained h) = IsPadded h"
    using r(1-3) by (auto simp: retained_def IsPadded_def Let_def frame_type_defs)
  show "fh_type h = FRAME_HEADERS \<Longrightarrow> HasPriority (retained h) = HasPriority h"
    using r(4) by (auto simp: retained_def HasPriority_def Let_def frame_type_defs)
  show "fh_type h \<in> {FRAME_SETTINGS, FRAME_PING} \<Longrightarrow> IsAck (retained h) = IsAck h"
    using r(5) by (auto simp: retained_def IsAck_def Let_def frame_type_defs)
qed

lemma body_ok_retained: "fh_type h = body_type b \<Longrightarrow> body_ok (retained h) b = body_ok h b"
  using retained_flags[of h] by (cases b) (auto simp: pad_ok_def split: option.splits)

section \<open>Streams of frames\<close>

lemma http2_frame_props:
  assumes "http2_frame_ok limit f"
  shows "frame_fits (the_header f, body_bytes (the_body f))"
    "frame_grammar True limit (the_header f) (body_bytes (the_body f)) = (kDecodeDone, http2_frame_events f)"
proof -
  obtain flags sid b where f: "f = (flags, sid, b)" using prod_cases3 .
  let ?h = "the_header f"
  have n: "payload_length ?h = length (body_bytes b)" "length (body_bytes b) \<le> limit" "fh_type ?h = body_type b" "body_ok ?h b"
    "length (body_bytes b) < 2 ^ 24" "fits_31 (fh_stream_id ?h)"
    using assms by (simp_all add: http2_frame_ok_def f the_header_def the_body_def header_def payload_length_def
        unsigned_of_nat take_bit_nat_eq_self)
  show "frame_fits (?h, body_bytes (the_body f))"
    using n by (simp add: frame_fits_def fits_FrameHeader_def payload_length_def f the_body_def fits_31_def)
  show "frame_grammar True limit ?h (body_bytes (the_body f)) = (kDecodeDone, http2_frame_events f)"
    using n body_grammar[of "retained ?h" b] body_ok_retained[of ?h b]
    by (simp add: frame_grammar_def f the_body_def http2_frame_events_def after_def)
qed

lemma accepted_frames:
  assumes "list_all (http2_frame_ok limit) fs"
  shows "foldl (frame_calls accept_all limit) L (map (\<lambda>f. (the_header f, body_bytes (the_body f))) fs) =
    L @ expand (concat (map http2_frame_events fs))"
  using assms by (induction fs arbitrary: L) (simp_all add: frame_calls_def accept_all_def http2_frame_props)

lemma built_stream_calls:
  assumes "fd_fresh fd" "list_all (http2_frame_ok (fd_maximum_payload_size fd)) fs" "concat css = concat (map http2_frame_bytes fs)"
  shows "\<exists>fd'. DecodeSegments accept_all fd css = Some fd' \<and>
    expand (fds_listener (fd_frame_decoder_state fd')) = expand (concat (map http2_frame_events fs)) \<and>
    reached accept_all [] (concat css) fd' []"
proof -
  let ?fs = "map (\<lambda>f. (the_header f, body_bytes (the_body f))) fs" and ?limit = "fd_maximum_payload_size fd"
  have "list_all frame_fits ?fs" using assms(2) by (auto simp: list_all_iff http2_frame_props)
  from split_frames_all[OF this, of accept_all ?limit "[]" "[]"]
  have "stream_calls accept_all ?limit (concat css) = expand (concat (map http2_frame_events fs))"
    using accepted_frames[OF assms(2), of "[]"]
    by (simp add: stream_calls_def assms(3) split_frames_short calls_at_def http2_frame_bytes_def[abs_def] frame_bytes_def comp_def)
  with decoder_calls[OF accept_all_blind assms(1), of css] show ?thesis by simp
qed

text \<open>
  C4: Frames of every type make the round trip through the frame decoder. A sequence of frames, padded
  or not, with priority or not, and of types the decoder does not know, is written by the builder
  and cut into segments anywhere; the decoder returns, and its calls are those that say frame by frame
  what it holds, the runs of bytes in as many pieces as the segments require.
\<close>

theorem frame_roundtrip:
  assumes "fd_fresh fd" "list_all (http2_frame_ok (fd_maximum_payload_size fd)) fs"
    "concat css = concat (map http2_frame_bytes fs)"
  shows "\<exists>fd'. DecodeSegments accept_all fd css = Some fd' \<and>
    expand (fds_listener (fd_frame_decoder_state fd')) = expand (concat (map http2_frame_events fs))"
  using built_stream_calls[OF assms] by blast

text \<open>A padded HEADERS frame with priority, a PING and a frame of the type 77, byte by byte.\<close>

theorem frame_roundtrip_witness:
  "\<exists>fd'. DecodeSegments accept_all fresh_decoder (map (\<lambda>b. [b]) (concat (map http2_frame_bytes
        [(0x28, 1, HeadersBody (Some [0, 0]) (Some \<lparr>pf_stream_dependency = 3, pf_weight = 16, pf_is_exclusive = True\<rparr>) [130]),
         (0, 0, PingBody \<lparr>pgf_opaque_data = [1, 2, 3, 4, 5, 6, 7, 8]\<rparr>),
         (0, 5, UnknownBody 77 [9])]))) = Some fd' \<and>
     expand (fds_listener (fd_frame_decoder_state fd')) = expand (concat (map http2_frame_events
        [(0x28, 1, HeadersBody (Some [0, 0]) (Some \<lparr>pf_stream_dependency = 3, pf_weight = 16, pf_is_exclusive = True\<rparr>) [130]),
         (0, 0, PingBody \<lparr>pgf_opaque_data = [1, 2, 3, 4, 5, 6, 7, 8]\<rparr>),
         (0, 5, UnknownBody 77 [9])]))"
proof -
  let ?fs = "[(0x28, 1, HeadersBody (Some [0, 0]) (Some \<lparr>pf_stream_dependency = 3, pf_weight = 16, pf_is_exclusive = True\<rparr>) [130]),
         (0, 0, PingBody \<lparr>pgf_opaque_data = [1, 2, 3, 4, 5, 6, 7, 8]\<rparr>), (0, 5, UnknownBody 77 [9])] :: http2_frame list"
  have c: "concat (map (\<lambda>b. [b]) bs) = bs" for bs :: bytes by (induction bs) auto
  have "list_all (http2_frame_ok (fd_maximum_payload_size fresh_decoder)) ?fs"
    by (simp add: http2_frame_ok_def the_header_def the_body_def header_def fits_31_def padded_def priority_bytes_def
        fb_Append_Priority_def fb_Append_Ping_def fb_defs Let_def pad_ok_def fits_Priority_def IsPadded_def HasPriority_def
        FLAG_PADDED_def FLAG_PRIORITY_def IsSupportedHttp2FrameType_def frame_type_defs)
  from frame_roundtrip[OF fresh_decoder_fresh this c] show ?thesis .
qed

end
