(* ===== verification/Frame_Errors.thy ===== *)
theory Frame_Errors
  imports Frame_Roundtrip
begin

text \<open>
  Frames that break the rules: what the decoder reports of them, and that the frames behind them are
  decoded as if nothing had happened.
\<close>

section \<open>A bad frame before good ones\<close>

lemma bad_then_good:
  assumes "fd_fresh fd" "frame_fits (h, p)" "list_all (http2_frame_ok (fd_maximum_payload_size fd)) fs"
    "concat css = frame_bytes (h, p) @ concat (map http2_frame_bytes fs)"
    "snd (frame_grammar True (fd_maximum_payload_size fd) h p) = es"
  shows "\<exists>fd'. DecodeSegments accept_all fd css = Some fd' \<and>
    expand (fds_listener (fd_frame_decoder_state fd')) = expand (es @ concat (map http2_frame_events fs))"
proof -
  let ?fs = "map (\<lambda>f. (the_header f, body_bytes (the_body f))) fs" and ?limit = "fd_maximum_payload_size fd"
  have "list_all frame_fits ((h, p) # ?fs)" using assms(2,3) by (auto simp: list_all_iff http2_frame_props)
  from split_frames_all[OF this, of accept_all ?limit "[]" "[]"]
  have "stream_calls accept_all ?limit (concat css) = expand (es @ concat (map http2_frame_events fs))"
    using accepted_frames[OF assms(3), of "expand es"] assms(5)
    by (simp add: stream_calls_def assms(4) split_frames_short calls_at_def http2_frame_bytes_def[abs_def] frame_bytes_def comp_def
        frame_calls_def accept_all_def)
  with decoder_calls[OF accept_all_blind assms(1), of css] show ?thesis by auto
qed

section \<open>The payload has the wrong length\<close>

text \<open>The rules of RFC 7540 and RFC 7838 on the length of a payload, for the types that have any.\<close>

definition wrong_size :: "Http2FrameHeader \<Rightarrow> bool" where
  "wrong_size h =
    (let n = payload_length h; type = fh_type h in
     type = FRAME_PRIORITY \<and> n \<noteq> 5 \<or> type = FRAME_RST_STREAM \<and> n \<noteq> 4 \<or> type = FRAME_PING \<and> n \<noteq> 8 \<or>
     type = FRAME_WINDOW_UPDATE \<and> n \<noteq> 4 \<or> type = FRAME_GOAWAY \<and> n < 8 \<or> type = FRAME_ALTSVC \<and> n < 2 \<or>
     type = FRAME_SETTINGS \<and> (if IsAck h then n \<noteq> 0 else n mod 6 \<noteq> 0))"

text \<open>The settings that a payload starts with.\<close>

fun whole_settings :: "nat \<Rightarrow> bytes \<Rightarrow> Http2SettingFields list" where
  "whole_settings 0 p = []"
| "whole_settings (Suc k) p = fst (DoDecode_Setting (mkDecodeBuffer (take 6 p))) # whole_settings k (drop 6 p)"

definition before_size_error :: "Http2FrameHeader \<Rightarrow> bytes \<Rightarrow> frame_event list" where
  "before_size_error h p =
     (if fh_type h = FRAME_SETTINGS \<and> \<not> IsAck h
      then OnSettingsStart h # map OnSetting (whole_settings (length p div 6) p) else [])"

lemma settings_items_error:
  "length p mod 6 \<noteq> 0 \<Longrightarrow>
   settings_items h (length p) p = (kDecodeError, map OnSetting (whole_settings (length p div 6) p) @ [OnFrameSizeError h])"
proof (induction "length p" arbitrary: p rule: less_induct)
  case less
  show ?case
  proof (cases "6 \<le> length p")
    case True
    have "length p mod 6 = length (drop 6 p) mod 6" using True le_mod_geq[of 6 "length p"] by simp
    moreover have "length p div 6 = Suc (length (drop 6 p) div 6)" using True le_div_geq[of 6 "length p"] by simp
    ultimately show ?thesis
      using True less.prems less.hyps[of "drop 6 p"] by (subst settings_items.simps) (auto simp: after_def)
  next
    case False
    with less.prems show ?thesis by (subst settings_items.simps) auto
  qed
qed

lemma single_grammar_wrong:
  "payload_length h = length p \<Longrightarrow> length p \<noteq> sz \<Longrightarrow> single_grammar sz dec ev h p = (kDecodeError, [OnFrameSizeError h])"
  by (auto simp: single_grammar_def read_struct_def)

lemma read_struct_short:
  "payload_length h = length p \<Longrightarrow> length p < sz \<Longrightarrow> read_struct sz dec (length p) h p k = (kDecodeError, [OnFrameSizeError h])"
  by (simp add: read_struct_def)

lemma wrong_size_grammar:
  assumes "wrong_size h" "payload_length h = length p"
  shows "frame_payload_grammar h p = (kDecodeError, before_size_error h p @ [OnFrameSizeError h])"
proof -
  consider (settings) "fh_type h = FRAME_SETTINGS" | (other) "fh_type h \<noteq> FRAME_SETTINGS" by blast
  then show ?thesis
  proof cases
    case settings
    with assms settings_items_error[of p h] show ?thesis
      by (auto simp: frame_payload_grammar_def settings_grammar_def before_size_error_def after_def wrong_size_def frame_type_defs
          split: if_splits)
  next
    case other
    with assms show ?thesis
      by (auto simp: wrong_size_def before_size_error_def frame_payload_grammar_def Let_def frame_type_defs
          goaway_grammar_def altsvc_grammar_def single_grammar_wrong read_struct_short)
  qed
qed

lemma wrong_size_retained: "wrong_size (retained h) = wrong_size h"
  using retained_flags(3)[of h] by (auto simp: wrong_size_def Let_def)

text \<open>
  C32: A frame whose payload does not have the length its type asks for is reported with
  \<open>OnFrameSizeError\<close>, after the whole settings in the case of SETTINGS and before any other call
  about its payload otherwise; the rest of it is skipped, and the frames behind it are decoded.
\<close>

theorem wrong_size_reported:
  assumes "fd_fresh fd" "frame_fits (h, p)" "wrong_size h" "length p \<le> fd_maximum_payload_size fd"
    "list_all (http2_frame_ok (fd_maximum_payload_size fd)) fs"
    "concat css = frame_bytes (h, p) @ concat (map http2_frame_bytes fs)"
  shows "\<exists>fd'. DecodeSegments accept_all fd css = Some fd' \<and>
    expand (fds_listener (fd_frame_decoder_state fd')) =
      expand (OnFrameHeader h # before_size_error (retained h) p @ [OnFrameSizeError (retained h)] @ concat (map http2_frame_events fs))"
proof -
  have "payload_length h = length p" using assms(2) by (simp add: frame_fits_def)
  then have "snd (frame_grammar True (fd_maximum_payload_size fd) h p) =
      OnFrameHeader h # before_size_error (retained h) p @ [OnFrameSizeError (retained h)]"
    using wrong_size_grammar[of "retained h" p] assms(3,4) by (simp add: frame_grammar_def wrong_size_retained)
  from bad_then_good[OF assms(1,2,5,6) this] show ?thesis by simp
qed

text \<open>SETTINGS with seven bytes, then a PING.\<close>

theorem wrong_size_reported_witness:
  "\<exists>fd'. DecodeSegments accept_all fresh_decoder [frame_bytes (header 7 FRAME_SETTINGS 0 0, [0, 3, 0, 0, 0, 9, 1]) @
        concat (map http2_frame_bytes [(0, 0, PingBody \<lparr>pgf_opaque_data = [1, 2, 3, 4, 5, 6, 7, 8]\<rparr>)])] = Some fd' \<and>
     expand (fds_listener (fd_frame_decoder_state fd')) =
       expand (OnFrameHeader (header 7 FRAME_SETTINGS 0 0) #
         before_size_error (retained (header 7 FRAME_SETTINGS 0 0)) [0, 3, 0, 0, 0, 9, 1] @
         [OnFrameSizeError (retained (header 7 FRAME_SETTINGS 0 0))] @
         concat (map http2_frame_events [(0, 0, PingBody \<lparr>pgf_opaque_data = [1, 2, 3, 4, 5, 6, 7, 8]\<rparr>)]))"
  by (rule wrong_size_reported)
    (simp_all add: frame_fits_def fits_FrameHeader_def header_def payload_length_def wrong_size_def IsAck_def FLAG_ACK_def frame_type_defs
      http2_frame_ok_def the_header_def the_body_def fits_31_def fb_Append_Ping_def)

section \<open>The frame is too long, or refused\<close>

text \<open>
  C34: A frame longer than the limit is never decoded: the listener hears of its header and of the error,
  with the flags as they were sent, and of nothing in its payload. A frame that the listener refuses
  leaves only the call that asked. In both cases exactly its payload is skipped.
\<close>

theorem oversized_and_refused:
  assumes "cut_blind accept" "fd_fresh fd" "list_all frame_fits fs" "concat css = concat (map frame_bytes fs)"
    "\<And>L h p. (h, p) \<in> set fs \<Longrightarrow> \<not> accept L h \<or> payload_length h > fd_maximum_payload_size fd"
  shows "\<exists>fd'. DecodeSegments accept fd css = Some fd' \<and>
    expand (fds_listener (fd_frame_decoder_state fd')) =
      foldl (\<lambda>L (h, p). L @ OnFrameHeader h # (if accept L h then [OnFrameSizeError h] else [])) [] fs"
proof -
  have "foldl (frame_calls accept (fd_maximum_payload_size fd)) L gs =
      foldl (\<lambda>L (h, p). L @ OnFrameHeader h # (if accept L h then [OnFrameSizeError h] else [])) L gs"
    if "set gs \<subseteq> set fs" for L gs
    using that assms(5) by (induction gs arbitrary: L) (fastforce simp: frame_calls_def frame_grammar_def after_def)+
  moreover have "stream_calls accept limit (concat css) = foldl (frame_calls accept limit) [] fs" for limit
    using split_frames_all[OF assms(3), of accept limit "[]" "[]"]
    by (simp add: stream_calls_def assms(4) split_frames_short calls_at_def)
  ultimately show ?thesis using decoder_calls[OF assms(1,2), of css] by auto
qed

text \<open>A listener that refuses DATA, a limit of four bytes, and a PING behind a DATA frame.\<close>

theorem oversized_and_refused_witness:
  "\<exists>fd'. DecodeSegments (\<lambda>L h. fh_type h \<noteq> FRAME_DATA) (set_maximum_payload_size 4 fresh_decoder)
        [frame_bytes (header 1 FRAME_DATA 0 1, [65]), frame_bytes (header 8 FRAME_PING 0 0, [1, 2, 3, 4, 5, 6, 7, 8])] = Some fd' \<and>
     expand (fds_listener (fd_frame_decoder_state fd')) =
       [OnFrameHeader (header 1 FRAME_DATA 0 1), OnFrameHeader (header 8 FRAME_PING 0 0), OnFrameSizeError (header 8 FRAME_PING 0 0)]"
proof -
  have f: "fd_fresh (set_maximum_payload_size 4 fresh_decoder)" "fd_maximum_payload_size (set_maximum_payload_size 4 fresh_decoder) = 4"
    using fresh_decoder_fresh by (simp_all add: fd_fresh_def set_maximum_payload_size_def)
  let ?fs = "[(header 1 FRAME_DATA 0 1, [65]), (header 8 FRAME_PING 0 0, [1, 2, 3, 4, 5, 6, 7, 8])]"
  have c: "cut_blind (\<lambda>L h. fh_type h \<noteq> FRAME_DATA)" by (simp add: cut_blind_def)
  have fits: "list_all frame_fits ?fs"
    by (simp add: frame_fits_def fits_FrameHeader_def header_def payload_length_def)
  have css: "concat [frame_bytes (header 1 FRAME_DATA 0 1, [65]), frame_bytes (header 8 FRAME_PING 0 0, [1, 2, 3, 4, 5, 6, 7, 8])] =
      concat (map frame_bytes ?fs)" by simp
  have bad: "\<not> fh_type h \<noteq> FRAME_DATA \<or> payload_length h > fd_maximum_payload_size (set_maximum_payload_size 4 fresh_decoder)"
    if "(h, p) \<in> set ?fs" for h p
    using that by (auto simp: f header_def payload_length_def)
  show ?thesis using oversized_and_refused[OF c f(1) fits css bad]
    by (simp add: header_def frame_type_defs del: DecodeSegments.simps)
qed

section \<open>The padding is too long\<close>

definition padding_missing :: "Http2FrameHeader \<Rightarrow> bytes \<Rightarrow> nat" where
  "padding_missing h p =
     (if fh_type h \<in> {FRAME_DATA, FRAME_HEADERS, FRAME_PUSH_PROMISE} \<and> IsPadded h
      then (case p of [] \<Rightarrow> 1 | b # _ \<Rightarrow> unat b + 1 - length p) else 0)"

definition payload_start :: "Http2FrameHeader \<Rightarrow> frame_event list" where
  "payload_start h =
     (if fh_type h = FRAME_DATA then [OnDataStart h] else if fh_type h = FRAME_HEADERS then [OnHeadersStart h] else [])"

lemma padding_missing_grammar:
  assumes "0 < padding_missing h p" "payload_length h = length p"
  shows "frame_payload_grammar h p = (kDecodeError, payload_start h @ [OnPaddingTooLong h (padding_missing h p)])"
proof -
  have p: "IsPadded h" "fh_type h \<in> {FRAME_DATA, FRAME_HEADERS, FRAME_PUSH_PROMISE}"
    using assms(1) by (auto simp: padding_missing_def split: if_splits)
  have "read_pad report h p k = (kDecodeError, [OnPaddingTooLong h (padding_missing h p)])" for report k
    using assms p by (cases p) (auto simp: padding_missing_def read_pad_def)
  with p(2) show ?thesis
    by (auto simp: frame_payload_grammar_def data_grammar_def headers_grammar_def push_promise_grammar_def payload_start_def
        after_def frame_type_defs)
qed

text \<open>
  C33: A padded frame whose padding does not fit into its payload, or that has no room for the Pad Length
  field, is reported with the number of bytes that are missing, and none of its content is; the frames
  behind it are decoded.
\<close>

theorem padding_too_long_reported:
  assumes "fd_fresh fd" "frame_fits (h, p)" "0 < padding_missing h p" "length p \<le> fd_maximum_payload_size fd"
    "list_all (http2_frame_ok (fd_maximum_payload_size fd)) fs"
    "concat css = frame_bytes (h, p) @ concat (map http2_frame_bytes fs)"
  shows "\<exists>fd'. DecodeSegments accept_all fd css = Some fd' \<and>
    expand (fds_listener (fd_frame_decoder_state fd')) =
      expand (OnFrameHeader h # payload_start (retained h) @ [OnPaddingTooLong (retained h) (padding_missing h p)] @
        concat (map http2_frame_events fs))"
proof -
  have "padding_missing (retained h) p = padding_missing h p"
    using retained_flags(1)[of h] by (auto simp: padding_missing_def)
  moreover have "payload_length h = length p" using assms(2) by (simp add: frame_fits_def)
  ultimately have "snd (frame_grammar True (fd_maximum_payload_size fd) h p) =
      OnFrameHeader h # payload_start (retained h) @ [OnPaddingTooLong (retained h) (padding_missing h p)]"
    using padding_missing_grammar[of "retained h" p] assms(3,4) by (simp add: frame_grammar_def)
  from bad_then_good[OF assms(1,2,5,6) this] show ?thesis by simp
qed

text \<open>DATA with two bytes of payload, the first of which asks for five bytes of padding.\<close>

theorem padding_too_long_reported_witness:
  "\<exists>fd'. DecodeSegments accept_all fresh_decoder [frame_bytes (header 2 FRAME_DATA 8 1, [5, 65])] = Some fd' \<and>
     expand (fds_listener (fd_frame_decoder_state fd')) =
       expand (OnFrameHeader (header 2 FRAME_DATA 8 1) # payload_start (retained (header 2 FRAME_DATA 8 1)) @
         [OnPaddingTooLong (retained (header 2 FRAME_DATA 8 1)) 4])"
  using padding_too_long_reported[of fresh_decoder "header 2 FRAME_DATA 8 1" "[5, 65]" "[]" "[frame_bytes (header 2 FRAME_DATA 8 1, [5, 65])]"]
  by (simp add: frame_fits_def fits_FrameHeader_def header_def payload_length_def padding_missing_def IsPadded_def FLAG_PADDED_def
      frame_type_defs)

section \<open>A call without input\<close>

text \<open>
  C40: A call with an empty buffer while the decoder waits for a new frame returns \<open>kDecodeInProgress\<close>,
  makes no call to the listener, and leaves the decoder in the middle of a frame header.
\<close>

theorem no_input_in_progress:
  assumes "fd_state fd = kStartDecodingHeader" "rest db = []"
  shows "\<exists>fd'. DecodeFrame accept fd db = (kDecodeInProgress, fd', db) \<and> fd_state fd' = kResumeDecodingHeader \<and>
    fds_listener (fd_frame_decoder_state fd') = fds_listener (fd_frame_decoder_state fd)"
proof -
  have "Remaining db = 0" using assms(2) by (simp add: Remaining_rest)
  then have "\<exists>st. StartDecodingFrameHeader (fd_frame_decoder_state fd) db = (False, st, db) \<and>
      fds_listener st = fds_listener (fd_frame_decoder_state fd)"
    using assms(2) by (simp add: StartDecodingFrameHeader_def SD_Start_def IncompleteStart_def MinLengthRemaining_def AdvanceCursor_0 Let_def)
  with assms(1) show ?thesis by (auto simp: DecodeFrame_def)
qed

theorem no_input_in_progress_witness:
  "\<exists>fd'. DecodeFrame accept_all fresh_decoder (mkDecodeBuffer []) = (kDecodeInProgress, fd', mkDecodeBuffer []) \<and>
     fd_state fd' = kResumeDecodingHeader \<and>
     fds_listener (fd_frame_decoder_state fd') = fds_listener (fd_frame_decoder_state fresh_decoder)"
  using no_input_in_progress[of fresh_decoder "mkDecodeBuffer []" accept_all] fresh_decoder_fresh by (simp add: fd_fresh_def)

end
