(* ===== verification/Hpack_Decoder_Tables.thy ===== *)
theory Hpack_Decoder_Tables
  imports Http2_Structures
begin

text \<open>
  \<^verbatim>\<open>http2/hpack/decoder/hpack_decoder_tables.{h,cc}\<close> and \<^verbatim>\<open>http2/hpack/hpack_string.h\<close>: the static
  table and the dynamic table of the HPACK decoder. An entry is a pair of a name and a value
  (\<open>HpackStringPair\<close>); the front of the dynamic table is the newest entry. The debug listener is the
  log of the calls it gets, if there is one; the time stamps it hands out and gets back are left out.

  The first section is the contract of a table of bounded size as RFC 7541 states it in section 4,
  a locale; the dynamic table here and the table of the encoder both meet it.
\<close>

section \<open>Tables of bounded size\<close>

type_synonym HpackStringPair = "bytes \<times> bytes"

definition HpackStringPair_size :: "HpackStringPair \<Rightarrow> nat" where
  "HpackStringPair_size e = 32 + length (fst e) + length (snd e)"

abbreviation table_size :: "HpackStringPair list \<Rightarrow> nat" where
  "table_size es \<equiv> sum_list (map HpackStringPair_size es)"

text \<open>The newest entries that fit into a limit, and the table after an insertion.\<close>

fun fit :: "nat \<Rightarrow> HpackStringPair list \<Rightarrow> HpackStringPair list" where
  "fit n [] = []"
| "fit n (e # es) = (if HpackStringPair_size e \<le> n then e # fit (n - HpackStringPair_size e) es else [])"

definition add_entry :: "nat \<Rightarrow> HpackStringPair \<Rightarrow> HpackStringPair list \<Rightarrow> HpackStringPair list" where
  "add_entry lim e es = fit lim (e # es)"

lemma size_pos [simp]: "0 < HpackStringPair_size e"
  by (simp add: HpackStringPair_size_def)

lemma table_size_fit: "table_size (fit n es) \<le> n"
  by (induction n es rule: fit.induct) auto

lemma fit_all: "table_size es \<le> n \<Longrightarrow> fit n es = es"
  by (induction n es rule: fit.induct) auto

lemma fit_prefix: "prefix (fit n es) es"
  by (induction n es rule: fit.induct) auto

lemma fit_butlast: "n < table_size es \<Longrightarrow> fit n es = fit n (butlast es)"
proof (induction n es rule: fit.induct)
  case (2 n e es)
  then show ?case by (cases es) auto
qed simp

lemma fit_fit: "fit n (fit m es) = fit (min n m) es"
proof (induction es arbitrary: n m)
  case (Cons e es)
  then show ?case by (auto simp: min_def le_diff_conv)
qed simp

text \<open>A change a peer asks for: a new entry, or a new limit.\<close>

datatype table_op = Add bytes bytes | Resize nat

fun table_spec :: "table_op \<Rightarrow> nat \<times> HpackStringPair list \<Rightarrow> nat \<times> HpackStringPair list" where
  "table_spec (Add n v) (lim, es) = (lim, add_entry lim (n, v) es)"
| "table_spec (Resize m) (lim, es) = (m, fit m es)"

locale bounded_table =
  fixes add :: "bytes \<Rightarrow> bytes \<Rightarrow> 't \<Rightarrow> 't"
    and resize :: "nat \<Rightarrow> 't \<Rightarrow> 't"
    and entries :: "'t \<Rightarrow> HpackStringPair list"
    and limit :: "'t \<Rightarrow> nat"
    and invar :: "'t \<Rightarrow> bool"
  assumes add_entries: "invar t \<Longrightarrow> entries (add n v t) = add_entry (limit t) (n, v) (entries t)"
    and add_limit: "invar t \<Longrightarrow> limit (add n v t) = limit t"
    and add_invar: "invar t \<Longrightarrow> invar (add n v t)"
    and resize_entries: "invar t \<Longrightarrow> entries (resize m t) = fit m (entries t)"
    and resize_limit: "invar t \<Longrightarrow> limit (resize m t) = m"
    and resize_invar: "invar t \<Longrightarrow> invar (resize m t)"
    and within: "invar t \<Longrightarrow> table_size (entries t) \<le> limit t"
begin

fun apply_op :: "table_op \<Rightarrow> 't \<Rightarrow> 't" where
  "apply_op (Add n v) t = add n v t"
| "apply_op (Resize m) t = resize m t"

lemma apply_op_spec:
  "invar t \<Longrightarrow> invar (apply_op p t) \<and>
     (limit (apply_op p t), entries (apply_op p t)) = table_spec p (limit t, entries t)"
  by (cases p) (simp_all add: add_entries add_limit add_invar resize_entries resize_limit resize_invar)

lemma ops_spec:
  "invar t \<Longrightarrow> invar (fold apply_op ps t) \<and>
     (limit (fold apply_op ps t), entries (fold apply_op ps t)) = fold table_spec ps (limit t, entries t)"
  by (induction ps arbitrary: t) (simp_all add: apply_op_spec)

end

section \<open>The static table\<close>

definition kFirstDynamicTableIndex :: nat where "kFirstDynamicTableIndex = 62"

definition static_table_entries :: "(string \<times> string) list" where
  "static_table_entries =
    [('':authority'', ''''),
     ('':method'', ''GET''),
     ('':method'', ''POST''),
     ('':path'', ''/''),
     ('':path'', ''/index.html''),
     ('':scheme'', ''http''),
     ('':scheme'', ''https''),
     ('':status'', ''200''),
     ('':status'', ''204''),
     ('':status'', ''206''),
     ('':status'', ''304''),
     ('':status'', ''400''),
     ('':status'', ''404''),
     ('':status'', ''500''),
     (''accept-charset'', ''''),
     (''accept-encoding'', ''gzip, deflate''),
     (''accept-language'', ''''),
     (''accept-ranges'', ''''),
     (''accept'', ''''),
     (''access-control-allow-origin'', ''''),
     (''age'', ''''),
     (''allow'', ''''),
     (''authorization'', ''''),
     (''cache-control'', ''''),
     (''content-disposition'', ''''),
     (''content-encoding'', ''''),
     (''content-language'', ''''),
     (''content-length'', ''''),
     (''content-location'', ''''),
     (''content-range'', ''''),
     (''content-type'', ''''),
     (''cookie'', ''''),
     (''date'', ''''),
     (''etag'', ''''),
     (''expect'', ''''),
     (''expires'', ''''),
     (''from'', ''''),
     (''host'', ''''),
     (''if-match'', ''''),
     (''if-modified-since'', ''''),
     (''if-none-match'', ''''),
     (''if-range'', ''''),
     (''if-unmodified-since'', ''''),
     (''last-modified'', ''''),
     (''link'', ''''),
     (''location'', ''''),
     (''max-forwards'', ''''),
     (''proxy-authenticate'', ''''),
     (''proxy-authorization'', ''''),
     (''range'', ''''),
     (''referer'', ''''),
     (''refresh'', ''''),
     (''retry-after'', ''''),
     (''server'', ''''),
     (''set-cookie'', ''''),
     (''strict-transport-security'', ''''),
     (''transfer-encoding'', ''''),
     (''user-agent'', ''''),
     (''vary'', ''''),
     (''via'', ''''),
     (''www-authenticate'', '''')]"

definition MakeStaticTable :: "HpackStringPair list" where
  "MakeStaticTable = ([], []) # map (\<lambda>(name, value). (ascii name, ascii value)) static_table_entries"

definition StaticTable_Lookup :: "nat \<Rightarrow> HpackStringPair option" where
  "StaticTable_Lookup index =
     (if 0 < index \<and> index < kFirstDynamicTableIndex then Some (MakeStaticTable ! index) else None)"

lemma length_static_table: "length MakeStaticTable = kFirstDynamicTableIndex"
  by (simp add: MakeStaticTable_def static_table_entries_def kFirstDynamicTableIndex_def)

section \<open>The dynamic table\<close>

datatype table_debug_event = OnEntryInserted HpackStringPair nat | OnUseEntry HpackStringPair nat

record HpackDecoderDynamicTable =
  dt_table :: "HpackStringPair list"
  dt_size_limit :: nat
  dt_current_size :: nat
  dt_insert_count :: nat
  dt_debug_listener :: "table_debug_event list option"

definition HpackDecoderDynamicTable_init :: HpackDecoderDynamicTable where
  "HpackDecoderDynamicTable_init =
     \<lparr>dt_table = [], dt_size_limit = unat DefaultHeaderTableSize, dt_current_size = 0,
      dt_insert_count = kFirstDynamicTableIndex - 1, dt_debug_listener = None\<rparr>"

definition RemoveLastEntry :: "HpackDecoderDynamicTable \<Rightarrow> HpackDecoderDynamicTable" where
  "RemoveLastEntry t =
     (if dt_table t \<noteq> [] then
        t\<lparr>dt_current_size := dt_current_size t - HpackStringPair_size (last (dt_table t)),
          dt_table := butlast (dt_table t)\<rparr>
      else t)"

text \<open>
  The loop removes entries until the size is within the limit. It never ends when the table runs
  empty before that, so it is a partial function; the invariant below rules that out.
\<close>

partial_function (option) EnsureSize_loop :: "nat \<Rightarrow> HpackDecoderDynamicTable \<Rightarrow> HpackDecoderDynamicTable option" where
  "EnsureSize_loop lim t =
     (if dt_current_size t > lim then EnsureSize_loop lim (RemoveLastEntry t) else Some t)"

definition EnsureSizeNoMoreThan :: "nat \<Rightarrow> HpackDecoderDynamicTable \<Rightarrow> HpackDecoderDynamicTable" where
  "EnsureSizeNoMoreThan lim t = the (EnsureSize_loop lim t)"

definition DynamicTableSizeUpdate :: "nat \<Rightarrow> HpackDecoderDynamicTable \<Rightarrow> HpackDecoderDynamicTable" where
  "DynamicTableSizeUpdate size_limit t = (EnsureSizeNoMoreThan size_limit t)\<lparr>dt_size_limit := size_limit\<rparr>"

definition DynamicTable_Insert ::
  "bytes \<Rightarrow> bytes \<Rightarrow> HpackDecoderDynamicTable \<Rightarrow> bool \<times> HpackDecoderDynamicTable" where
  "DynamicTable_Insert name value t =
     (let entry = (name, value);
          entry_size = HpackStringPair_size entry
      in if entry_size > dt_size_limit t then
           (False, t\<lparr>dt_table := [], dt_current_size := 0\<rparr>)
         else
           let t = t\<lparr>dt_insert_count := dt_insert_count t + 1\<rparr>;
               t = t\<lparr>dt_debug_listener :=
                      map_option (\<lambda>es. es @ [OnEntryInserted entry (dt_insert_count t)]) (dt_debug_listener t)\<rparr>;
               insert_limit = dt_size_limit t - entry_size;
               t = EnsureSizeNoMoreThan insert_limit t
           in (True, t\<lparr>dt_table := entry # dt_table t, dt_current_size := dt_current_size t + entry_size\<rparr>))"

definition DynamicTable_Lookup ::
  "nat \<Rightarrow> HpackDecoderDynamicTable \<Rightarrow> HpackStringPair option \<times> HpackDecoderDynamicTable" where
  "DynamicTable_Lookup index t =
     (if index < length (dt_table t) then
        let entry = dt_table t ! index;
            insert_count_of_index = dt_insert_count t + length (dt_table t) - index
        in (Some entry,
            t\<lparr>dt_debug_listener :=
               map_option (\<lambda>es. es @ [OnUseEntry entry insert_count_of_index]) (dt_debug_listener t)\<rparr>)
      else (None, t))"

text \<open>Both tables: the index space continues from the static into the dynamic table.\<close>

definition Tables_Lookup ::
  "nat \<Rightarrow> HpackDecoderDynamicTable \<Rightarrow> HpackStringPair option \<times> HpackDecoderDynamicTable" where
  "Tables_Lookup index t =
     (if index < kFirstDynamicTableIndex then (StaticTable_Lookup index, t)
      else DynamicTable_Lookup (index - kFirstDynamicTableIndex) t)"

section \<open>The invariant\<close>

definition table_ok :: "HpackDecoderDynamicTable \<Rightarrow> bool" where
  "table_ok t \<longleftrightarrow> dt_current_size t = table_size (dt_table t) \<and> dt_current_size t \<le> dt_size_limit t"

lemma table_ok_init: "table_ok HpackDecoderDynamicTable_init"
  by (simp add: table_ok_def HpackDecoderDynamicTable_init_def DefaultHeaderTableSize_def)

lemma table_size_butlast: "es \<noteq> [] \<Longrightarrow> table_size (butlast es) = table_size es - HpackStringPair_size (last es)"
  by (cases es rule: rev_cases) auto

lemma EnsureSize_loop_fit:
  "dt_current_size t = table_size (dt_table t) \<Longrightarrow>
   EnsureSize_loop lim t =
     Some (t\<lparr>dt_table := fit lim (dt_table t), dt_current_size := table_size (fit lim (dt_table t))\<rparr>)"
proof (induction "length (dt_table t)" arbitrary: t rule: less_induct)
  case less
  show ?case
  proof (cases "dt_current_size t > lim")
    case True
    then have ne: "dt_table t \<noteq> []" using less.prems by auto
    let ?t = "RemoveLastEntry t"
    have "length (dt_table ?t) < length (dt_table t)" "dt_current_size ?t = table_size (dt_table ?t)"
      using ne less.prems by (simp_all add: RemoveLastEntry_def table_size_butlast)
    note IH = less.hyps[OF this]
    have "fit lim (dt_table ?t) = fit lim (dt_table t)"
      using fit_butlast[of lim "dt_table t"] True less.prems ne by (simp add: RemoveLastEntry_def)
    moreover have "?t\<lparr>dt_table := x, dt_current_size := y\<rparr> = t\<lparr>dt_table := x, dt_current_size := y\<rparr>" for x y
      by (simp add: RemoveLastEntry_def)
    ultimately show ?thesis using True IH by (simp add: EnsureSize_loop.simps[of lim t])
  next
    case False
    then show ?thesis using less.prems by (simp add: EnsureSize_loop.simps[of lim t] fit_all)
  qed
qed

lemma EnsureSize_fit:
  "table_ok t \<Longrightarrow> EnsureSizeNoMoreThan lim t =
     t\<lparr>dt_table := fit lim (dt_table t), dt_current_size := table_size (fit lim (dt_table t))\<rparr>"
  by (simp add: EnsureSizeNoMoreThan_def EnsureSize_loop_fit table_ok_def)

lemma table_ok_debug: "table_ok (t\<lparr>dt_insert_count := c, dt_debug_listener := l\<rparr>) = table_ok t"
  by (simp add: table_ok_def)

lemma Insert_entries:
  assumes "table_ok t"
  shows "table_ok (snd (DynamicTable_Insert n v t))"
    and "dt_table (snd (DynamicTable_Insert n v t)) = add_entry (dt_size_limit t) (n, v) (dt_table t)"
    and "dt_size_limit (snd (DynamicTable_Insert n v t)) = dt_size_limit t"
proof -
  let ?e = "HpackStringPair_size (n, v)" and ?l = "dt_size_limit t"
  have "?e \<le> ?l \<Longrightarrow> table_size (fit (?l - ?e) (dt_table t)) + ?e \<le> ?l"
    using table_size_fit[of "?l - ?e" "dt_table t"] by simp
  then show "table_ok (snd (DynamicTable_Insert n v t))"
    "dt_table (snd (DynamicTable_Insert n v t)) = add_entry (dt_size_limit t) (n, v) (dt_table t)"
    "dt_size_limit (snd (DynamicTable_Insert n v t)) = dt_size_limit t"
    using assms by (simp_all add: DynamicTable_Insert_def Let_def EnsureSize_fit table_ok_debug add_entry_def)
      (simp_all add: table_ok_def)
qed

interpretation dt: bounded_table "\<lambda>n v t. snd (DynamicTable_Insert n v t)" DynamicTableSizeUpdate dt_table dt_size_limit table_ok
  by unfold_locales
    (auto simp: Insert_entries DynamicTableSizeUpdate_def EnsureSize_fit table_size_fit table_ok_def[of "_\<lparr>dt_size_limit := _\<rparr>"],
     auto simp: table_ok_def)

lemma Lookup_table [simp]:
  "dt_table (snd (Tables_Lookup i t)) = dt_table t"
  "dt_size_limit (snd (Tables_Lookup i t)) = dt_size_limit t"
  "dt_current_size (snd (Tables_Lookup i t)) = dt_current_size t"
  "table_ok (snd (Tables_Lookup i t)) = table_ok t"
  by (auto simp: Tables_Lookup_def DynamicTable_Lookup_def Let_def table_ok_def)

lemma Lookup_entry:
  "fst (Tables_Lookup i t) =
     (if i = 0 then None
      else if i < kFirstDynamicTableIndex then Some (MakeStaticTable ! i)
      else if i - kFirstDynamicTableIndex < length (dt_table t) then Some (dt_table t ! (i - kFirstDynamicTableIndex))
      else None)"
  by (auto simp: Tables_Lookup_def StaticTable_Lookup_def DynamicTable_Lookup_def Let_def kFirstDynamicTableIndex_def)

section \<open>Properties\<close>

fun table_apply :: "table_op \<Rightarrow> HpackDecoderDynamicTable \<Rightarrow> HpackDecoderDynamicTable" where
  "table_apply (Add name value) t = snd (DynamicTable_Insert name value t)"
| "table_apply (Resize size_limit) t = DynamicTableSizeUpdate size_limit t"

lemma table_apply_op: "dt.apply_op = table_apply"
proof (intro ext)
  show "dt.apply_op p t = table_apply p t" for p t by (cases p) simp_all
qed

lemma table_run_ok: "table_ok (fold table_apply ps HpackDecoderDynamicTable_init)"
  using dt.ops_spec[OF table_ok_init, of ps] by (simp add: table_apply_op)

text \<open>
  C28: After any sequence of insertions and size updates the dynamic table holds what RFC 7541
  prescribes, the newest entries that fit into the limit, and an index of a block finds the static
  entry or the dynamic entry of that position.
\<close>

theorem dynamic_table_refines:
  "let t = fold table_apply ps HpackDecoderDynamicTable_init in
     (dt_size_limit t, dt_table t) = fold table_spec ps (4096, []) \<and>
     fst (Tables_Lookup i t) =
       (let es = tl MakeStaticTable @ snd (fold table_spec ps (4096, []))
        in if 0 < i \<and> i \<le> length es then Some (es ! (i - 1)) else None)"
proof -
  let ?t = "fold table_apply ps HpackDecoderDynamicTable_init"
  have e: "(dt_size_limit ?t, dt_table ?t) = fold table_spec ps (4096, [])"
    using dt.ops_spec[OF table_ok_init, of ps]
    by (simp add: table_apply_op HpackDecoderDynamicTable_init_def DefaultHeaderTableSize_def)
  have l: "length (tl MakeStaticTable) = 61"
    by (simp add: length_static_table kFirstDynamicTableIndex_def)
  have n: "tl MakeStaticTable ! (i - 1) = MakeStaticTable ! i" if "0 < i" "i < 62"
    using that l nth_tl[of "i - 1" MakeStaticTable] by simp
  have "fst (Tables_Lookup i ?t) = (let es = tl MakeStaticTable @ dt_table ?t
        in if 0 < i \<and> i \<le> length es then Some (es ! (i - 1)) else None)"
    using l n by (auto simp: Lookup_entry kFirstDynamicTableIndex_def nth_append Let_def)
  moreover have "dt_table ?t = snd (fold table_spec ps (4096, []))" by (simp add: e[symmetric])
  ultimately show ?thesis using e by (simp add: Let_def)
qed

text \<open>
  C29: The eviction loop ends on every table that insertions and size updates produce, for every limit,
  and leaves a table within the limit; on a table whose recorded size is wrong it would not.
\<close>

theorem eviction_terminates:
  "(\<exists>t. EnsureSize_loop lim (fold table_apply ps HpackDecoderDynamicTable_init) = Some t \<and>
     table_size (dt_table t) \<le> lim \<and> dt_current_size t \<le> lim)"
  using table_run_ok[of ps] EnsureSize_loop_fit table_size_fit by (auto simp: table_ok_def)



end
