(* ===== verification/Hpack_Header_Table.thy ===== *)
theory Hpack_Header_Table
  imports Hpack_Decoder_Tables
begin

text \<open>
  \<^verbatim>\<open>spdy/hpack/hpack_header_table.{h,cc}\<close>, \<^verbatim>\<open>hpack_static_table.{h,cc}\<close>, \<^verbatim>\<open>hpack_entry.{h,cc}\<close> and
  the static table of \<^verbatim>\<open>hpack_constants.cc\<close>: the header table of the HPACK encoder. A pointer to an
  entry is the entry; entries are told apart by their insertion index, as in the code. The hash
  indices are maps. A failed \<open>CHECK\<close>, and the use of an iterator that points at nothing, is
  \<open>None\<close>. The debug visitor, which only observes, is left out.

  The table meets the contract of \<open>Hpack_Decoder_Tables\<close>, so it stays in step with the table of the
  decoder; and an index it gives out is an index under which the decoder finds the entry.
\<close>

section \<open>Entries and the static table\<close>

datatype EntryType = LOOKUP | DYNAMIC | STATIC

record HpackEntry =
  he_name :: bytes
  he_value :: bytes
  he_insertion_index :: nat
  he_type :: EntryType

definition kSizeOverhead :: nat where "kSizeOverhead = 32"

definition HpackEntry_Size :: "bytes \<Rightarrow> bytes \<Rightarrow> nat" where
  "HpackEntry_Size name value = length name + length value + kSizeOverhead"

abbreviation pair_of :: "HpackEntry \<Rightarrow> HpackStringPair" where
  "pair_of e \<equiv> (he_name e, he_value e)"

definition HpackStaticTableVector :: "(string \<times> string) list" where
  "HpackStaticTableVector =
    [('':authority'', ''''),
     ('':method'', ''GET''),
     ('':method'', ''POST''),
     ('':path'', ''/''),
     ('':path'', ''/index.html''),
     ('':scheme'', ''http''),
     ('':scheme'', ''https''),
     ('':status'', ''200''),
     ('':status'', ''204''),
     ('':status'', ''206''),
     ('':status'', ''304''),
     ('':status'', ''400''),
     ('':status'', ''404''),
     ('':status'', ''500''),
     (''accept-charset'', ''''),
     (''accept-encoding'', ''gzip, deflate''),
     (''accept-language'', ''''),
     (''accept-ranges'', ''''),
     (''accept'', ''''),
     (''access-control-allow-origin'', ''''),
     (''age'', ''''),
     (''allow'', ''''),
     (''authorization'', ''''),
     (''cache-control'', ''''),
     (''content-disposition'', ''''),
     (''content-encoding'', ''''),
     (''content-language'', ''''),
     (''content-length'', ''''),
     (''content-location'', ''''),
     (''content-range'', ''''),
     (''content-type'', ''''),
     (''cookie'', ''''),
     (''date'', ''''),
     (''etag'', ''''),
     (''expect'', ''''),
     (''expires'', ''''),
     (''from'', ''''),
     (''host'', ''''),
     (''if-match'', ''''),
     (''if-modified-since'', ''''),
     (''if-none-match'', ''''),
     (''if-range'', ''''),
     (''if-unmodified-since'', ''''),
     (''last-modified'', ''''),
     (''link'', ''''),
     (''location'', ''''),
     (''max-forwards'', ''''),
     (''proxy-authenticate'', ''''),
     (''proxy-authorization'', ''''),
     (''range'', ''''),
     (''referer'', ''''),
     (''refresh'', ''''),
     (''retry-after'', ''''),
     (''server'', ''''),
     (''set-cookie'', ''''),
     (''strict-transport-security'', ''''),
     (''transfer-encoding'', ''''),
     (''user-agent'', ''''),
     (''vary'', ''''),
     (''via'', ''''),
     (''www-authenticate'', '''')]"

record HpackStaticTable =
  st_static_entries :: "HpackEntry list"
  st_static_index :: "HpackStringPair \<rightharpoonup> HpackEntry"
  st_static_name_index :: "bytes \<rightharpoonup> HpackEntry"

fun StaticTable_fill :: "nat \<Rightarrow> (string \<times> string) list \<Rightarrow> HpackStaticTable \<Rightarrow> HpackStaticTable option" where
  "StaticTable_fill total_insertions [] t = Some t"
| "StaticTable_fill total_insertions ((name, value) # es) t =
     (let entry = \<lparr>he_name = ascii name, he_value = ascii value, he_insertion_index = total_insertions, he_type = STATIC\<rparr>;
          t = t\<lparr>st_static_entries := st_static_entries t @ [entry]\<rparr>
      in if st_static_index t (pair_of entry) \<noteq> None then None
         else
           let t = t\<lparr>st_static_index := (st_static_index t)(pair_of entry \<mapsto> entry)\<rparr>;
               t = (if st_static_name_index t (he_name entry) = None
                    then t\<lparr>st_static_name_index := (st_static_name_index t)(he_name entry \<mapsto> entry)\<rparr> else t)
           in StaticTable_fill (total_insertions + 1) es t)"

definition StaticTable_Initialize :: "(string \<times> string) list \<Rightarrow> HpackStaticTable \<Rightarrow> HpackStaticTable option" where
  "StaticTable_Initialize static_entry_table t =
     (if st_static_entries t \<noteq> [] then None else StaticTable_fill 0 static_entry_table t)"

definition ObtainHpackStaticTable :: HpackStaticTable where
  "ObtainHpackStaticTable =
     the (StaticTable_Initialize HpackStaticTableVector
            \<lparr>st_static_entries = [], st_static_index = Map.empty, st_static_name_index = Map.empty\<rparr>)"

section \<open>The header table\<close>

definition kDefaultHeaderTableSizeSetting :: nat where "kDefaultHeaderTableSizeSetting = 4096"

record HpackHeaderTable =
  tb_dynamic_entries :: "HpackEntry list"
  tb_dynamic_index :: "HpackStringPair \<rightharpoonup> HpackEntry"
  tb_dynamic_name_index :: "bytes \<rightharpoonup> HpackEntry"
  tb_settings_size_bound :: nat
  tb_size :: nat
  tb_max_size :: nat
  tb_total_insertions :: nat

abbreviation static_entries :: "HpackEntry list" where
  "static_entries \<equiv> st_static_entries ObtainHpackStaticTable"

definition HpackHeaderTable_init :: HpackHeaderTable where
  "HpackHeaderTable_init =
     \<lparr>tb_dynamic_entries = [], tb_dynamic_index = Map.empty, tb_dynamic_name_index = Map.empty,
      tb_settings_size_bound = kDefaultHeaderTableSizeSetting, tb_size = 0,
      tb_max_size = kDefaultHeaderTableSizeSetting, tb_total_insertions = length static_entries\<rparr>"

definition GetByIndex :: "nat \<Rightarrow> HpackHeaderTable \<Rightarrow> HpackEntry option" where
  "GetByIndex index t =
     (if index = 0 then None
      else
        let index = index - 1
        in if index < length static_entries then Some (static_entries ! index)
           else
             let index = index - length static_entries
             in if index < length (tb_dynamic_entries t) then Some (tb_dynamic_entries t ! index) else None)"

definition GetByName :: "bytes \<Rightarrow> HpackHeaderTable \<Rightarrow> HpackEntry option" where
  "GetByName name t =
     (case st_static_name_index ObtainHpackStaticTable name of
        Some e \<Rightarrow> Some e
      | None \<Rightarrow> tb_dynamic_name_index t name)"

definition GetByNameAndValue :: "bytes \<Rightarrow> bytes \<Rightarrow> HpackHeaderTable \<Rightarrow> HpackEntry option" where
  "GetByNameAndValue name value t =
     (case st_static_index ObtainHpackStaticTable (name, value) of
        Some e \<Rightarrow> Some e
      | None \<Rightarrow> tb_dynamic_index t (name, value))"

definition IndexOf :: "HpackEntry \<Rightarrow> HpackHeaderTable \<Rightarrow> nat" where
  "IndexOf entry t =
     (if he_type entry = LOOKUP then 0
      else if he_type entry = STATIC then 1 + he_insertion_index entry
      else tb_total_insertions t - he_insertion_index entry + length static_entries)"

fun reclaim_count :: "nat \<Rightarrow> HpackEntry list \<Rightarrow> nat" where
  "reclaim_count reclaim_size [] = 0"
| "reclaim_count reclaim_size (e # es) =
     (if reclaim_size = 0 then 0
      else 1 + reclaim_count (reclaim_size - min reclaim_size (HpackEntry_Size (he_name e) (he_value e))) es)"

definition EvictionCountToReclaim :: "nat \<Rightarrow> HpackHeaderTable \<Rightarrow> nat" where
  "EvictionCountToReclaim reclaim_size t = reclaim_count reclaim_size (rev (tb_dynamic_entries t))"

definition EvictionCountForEntry :: "bytes \<Rightarrow> bytes \<Rightarrow> HpackHeaderTable \<Rightarrow> nat" where
  "EvictionCountForEntry name value t =
     (let available_size = tb_max_size t - tb_size t; entry_size = HpackEntry_Size name value
      in if entry_size \<le> available_size then 0
         else EvictionCountToReclaim (entry_size - available_size) t)"

text \<open>The range of entries that an insertion would evict, as the list of them.\<close>

definition EvictionSet :: "bytes \<Rightarrow> bytes \<Rightarrow> HpackHeaderTable \<Rightarrow> HpackEntry list" where
  "EvictionSet name value t =
     drop (length (tb_dynamic_entries t) - EvictionCountForEntry name value t) (tb_dynamic_entries t)"

fun Evict :: "nat \<Rightarrow> HpackHeaderTable \<Rightarrow> HpackHeaderTable option" where
  "Evict 0 t = Some t"
| "Evict (Suc count) t =
     (if tb_dynamic_entries t = [] then None
      else
        let entry = last (tb_dynamic_entries t);
            t = t\<lparr>tb_size := tb_size t - HpackEntry_Size (he_name entry) (he_value entry)\<rparr>
        in case tb_dynamic_index t (pair_of entry) of
             None \<Rightarrow> None
           | Some it \<Rightarrow>
               let t = (if he_insertion_index it = he_insertion_index entry
                        then t\<lparr>tb_dynamic_index := (tb_dynamic_index t)(pair_of entry := None)\<rparr> else t)
               in case tb_dynamic_name_index t (he_name entry) of
                    None \<Rightarrow> None
                  | Some name_it \<Rightarrow>
                      let t = (if he_insertion_index name_it = he_insertion_index entry
                               then t\<lparr>tb_dynamic_name_index := (tb_dynamic_name_index t)(he_name entry := None)\<rparr> else t)
                      in Evict count (t\<lparr>tb_dynamic_entries := butlast (tb_dynamic_entries t)\<rparr>))"

definition SetMaxSize :: "nat \<Rightarrow> HpackHeaderTable \<Rightarrow> HpackHeaderTable option" where
  "SetMaxSize max_size t =
     (if \<not> max_size \<le> tb_settings_size_bound t then None
      else
        let t = t\<lparr>tb_max_size := max_size\<rparr>
        in if tb_size t > tb_max_size t then
             case Evict (EvictionCountToReclaim (tb_size t - tb_max_size t) t) t of
               None \<Rightarrow> None
             | Some t \<Rightarrow> if \<not> tb_size t \<le> tb_max_size t then None else Some t
           else Some t)"

definition SetSettingsHeaderTableSize :: "nat \<Rightarrow> HpackHeaderTable \<Rightarrow> HpackHeaderTable option" where
  "SetSettingsHeaderTableSize settings_size t =
     (let t = t\<lparr>tb_settings_size_bound := settings_size\<rparr> in SetMaxSize (tb_settings_size_bound t) t)"

definition TryAddEntry :: "bytes \<Rightarrow> bytes \<Rightarrow> HpackHeaderTable \<Rightarrow> (HpackEntry option \<times> HpackHeaderTable) option" where
  "TryAddEntry name value t =
     (case Evict (EvictionCountForEntry name value t) t of
        None \<Rightarrow> None
      | Some t \<Rightarrow>
          let entry_size = HpackEntry_Size name value
          in if entry_size > tb_max_size t - tb_size t then Some (None, t)
             else
               let new_entry = \<lparr>he_name = name, he_value = value, he_insertion_index = tb_total_insertions t, he_type = DYNAMIC\<rparr>
               in Some (Some new_entry,
                    t\<lparr>tb_dynamic_entries := new_entry # tb_dynamic_entries t,
                      tb_dynamic_index := (tb_dynamic_index t)(pair_of new_entry \<mapsto> new_entry),
                      tb_dynamic_name_index := (tb_dynamic_name_index t)(he_name new_entry \<mapsto> new_entry),
                      tb_size := tb_size t + entry_size,
                      tb_total_insertions := tb_total_insertions t + 1\<rparr>))"

section \<open>The static table\<close>

fun static_rows :: "nat \<Rightarrow> (string \<times> string) list \<Rightarrow> HpackEntry list" where
  "static_rows n [] = []"
| "static_rows n ((name, value) # es) =
     \<lparr>he_name = ascii name, he_value = ascii value, he_insertion_index = n, he_type = STATIC\<rparr> # static_rows (Suc n) es"

abbreviation pair_index :: "HpackEntry list \<Rightarrow> HpackStringPair \<rightharpoonup> HpackEntry" where
  "pair_index es \<equiv> map_of (map (\<lambda>e. (pair_of e, e)) es)"

abbreviation name_index :: "HpackEntry list \<Rightarrow> bytes \<rightharpoonup> HpackEntry" where
  "name_index es \<equiv> map_of (map (\<lambda>e. (he_name e, e)) es)"

lemma pair_index_None: "pair_index es k = None \<longleftrightarrow> k \<notin> pair_of ` set es"
  by (auto simp: map_of_eq_None_iff image_iff)

lemma StaticTable_fill_rows:
  assumes "distinct (map pair_of (st_static_entries t @ static_rows n es))"
    and "st_static_index t = pair_index (st_static_entries t)"
    and "st_static_name_index t = name_index (st_static_entries t)"
  shows "StaticTable_fill n es t =
    (let all = st_static_entries t @ static_rows n es
     in Some (t\<lparr>st_static_entries := all, st_static_index := pair_index all, st_static_name_index := name_index all\<rparr>))"
  using assms
proof (induction es arbitrary: n t)
  case (Cons x es)
  obtain nm vl where x: "x = (nm, vl)" by (cases x)
  let ?e = "\<lparr>he_name = ascii nm, he_value = ascii vl, he_insertion_index = n, he_type = STATIC\<rparr>"
  let ?es = "st_static_entries t @ [?e]"
  let ?t = "t\<lparr>st_static_entries := ?es, st_static_index := pair_index ?es, st_static_name_index := name_index ?es\<rparr>"
  have new: "pair_index (st_static_entries t) (pair_of ?e) = None"
    using Cons.prems(1) by (auto simp: pair_index_None x)
  have i: "(pair_index (st_static_entries t))(pair_of ?e \<mapsto> ?e) = pair_index ?es"
    using new by (auto simp: fun_eq_iff map_add_def split: option.split)
  have m: "(if name_index (st_static_entries t) (ascii nm) = None
      then (name_index (st_static_entries t))(ascii nm \<mapsto> ?e) else name_index (st_static_entries t)) = name_index ?es"
    by (auto simp: fun_eq_iff map_add_def split: option.split)
  have "StaticTable_fill n (x # es) t = StaticTable_fill (n + 1) es ?t"
    using Cons.prems(2,3) new i m 
    by (cases t; cases "name_index (st_static_entries t) (ascii nm)") (simp_all add: x Let_def)
  moreover have "distinct (map pair_of (st_static_entries ?t @ static_rows (n + 1) es))"
    using Cons.prems(1) by (simp add: x)
  ultimately show ?case using Cons.IH[of ?t "n + 1"] by (simp add: x Let_def)
next
  case (Nil n t)
  then show ?case by (cases t) (simp add: Let_def)
qed

lemma static_entries_distinct: "distinct HpackStaticTableVector"
  by (simp add: HpackStaticTableVector_def)

lemma inj_ascii: "ascii s = ascii t \<longleftrightarrow> s = t"
proof -
  have "inj (\<lambda>c. of_nat (of_char c) :: byte)"
  proof (rule injI)
    fix c d :: char assume "(of_nat (of_char c) :: byte) = of_nat (of_char d)"
    then have "unat (of_nat (of_char c) :: byte) = unat (of_nat (of_char d) :: byte)" by simp
    moreover have "(of_char c :: nat) < 256" "(of_char d :: nat) < 256" by simp_all
    ultimately have "(of_char c :: nat) = of_char d" by (simp add: unat_of_nat)
    then show "c = d" by simp
  qed
  then show ?thesis unfolding ascii_def by (rule inj_map_eq_map)
qed

lemma static_rows_pairs: "map pair_of (static_rows n es) = map (\<lambda>(name, val). (ascii name, ascii val)) es"
  by (induction n es rule: static_rows.induct) auto

lemma static_rows_nth: "i < length es \<Longrightarrow> he_insertion_index (static_rows n es ! i) = n + i \<and> he_type (static_rows n es ! i) = STATIC"
proof (induction es arbitrary: n i)
  case (Cons x es)
  then show ?case by (cases x; cases i) auto
qed simp

lemma length_static_rows [simp]: "length (static_rows n es) = length es"
  by (induction n es rule: static_rows.induct) auto

lemma static_table_eq:
  "ObtainHpackStaticTable =
     (let all = static_rows 0 HpackStaticTableVector
      in \<lparr>st_static_entries = all, st_static_index = pair_index all, st_static_name_index = name_index all\<rparr>)"
proof -
  have "inj_on (\<lambda>(name, val). (ascii name, ascii val)) (set HpackStaticTableVector)"
    by (auto simp: inj_on_def inj_ascii)
  then have "distinct (map pair_of (static_rows 0 HpackStaticTableVector))"
    by (simp add: static_rows_pairs distinct_map static_entries_distinct)
  then show ?thesis
    by (simp add: ObtainHpackStaticTable_def StaticTable_Initialize_def StaticTable_fill_rows Let_def)
qed

text \<open>The static table of the encoder is the one of the decoder, without its entry 0.\<close>

lemma static_tables_agree: "map pair_of static_entries = tl MakeStaticTable" "length static_entries = 61"
  by (simp_all add: static_table_eq Let_def static_rows_pairs MakeStaticTable_def)
    (simp_all add: HpackStaticTableVector_def static_table_entries_def)

section \<open>Eviction\<close>

lemma HpackEntry_Size_pair: "HpackEntry_Size (he_name e) (he_value e) = HpackStringPair_size (pair_of e)"
  by (simp add: HpackEntry_Size_def HpackStringPair_size_def kSizeOverhead_def)

lemma reclaim_count_0 [simp]: "reclaim_count 0 es = 0"
  by (cases es) auto

lemma reclaim_fit:
  "m < table_size (map pair_of es) \<Longrightarrow>
   reclaim_count (table_size (map pair_of es) - m) (rev es) \<le> length es \<and>
   map pair_of (take (length es - reclaim_count (table_size (map pair_of es) - m) (rev es)) es) = fit m (map pair_of es)"
proof (induction es rule: rev_induct)
  case (snoc e xs)
  define T where "T = table_size (map pair_of xs)"
  define z where "z = HpackStringPair_size (pair_of e)"
  have m: "m < T + z" "table_size (map pair_of (xs @ [e])) = T + z" using snoc.prems by (simp_all add: T_def z_def)
  have r: "T + z - (m + min (T + z - m) z) = T - m" using m(1) by (auto simp: min_def)
  have c: "reclaim_count (T + z - m) (rev (xs @ [e])) = Suc (reclaim_count (T - m) (rev xs))"
    using m(1) by (simp add: HpackEntry_Size_pair r flip: z_def)
  have f: "fit m (map pair_of (xs @ [e])) = fit m (map pair_of xs)"
    using fit_butlast[of m "map pair_of (xs @ [e])"] snoc.prems by (simp add: butlast_append)
  show ?case unfolding m(2) c f
  proof (cases "m < T")
    case True
    then show "Suc (reclaim_count (T - m) (rev xs)) \<le> length (xs @ [e]) \<and>
      map pair_of (take (length (xs @ [e]) - Suc (reclaim_count (T - m) (rev xs))) (xs @ [e])) = fit m (map pair_of xs)"
      using snoc.IH by (simp add: T_def)
  next
    case False
    then show "Suc (reclaim_count (T - m) (rev xs)) \<le> length (xs @ [e]) \<and>
      map pair_of (take (length (xs @ [e]) - Suc (reclaim_count (T - m) (rev xs))) (xs @ [e])) = fit m (map pair_of xs)"
      by (simp add: fit_all T_def)
  qed
qed simp

lemma reclaim_all:
  "table_size (map pair_of es) < r \<Longrightarrow> reclaim_count r (rev es) = length es"
proof (induction es arbitrary: r rule: rev_induct)
  case (snoc e xs)
  let ?s = "HpackStringPair_size (pair_of e)"
  have "table_size (map pair_of xs) < r - min r ?s" using snoc.prems by (auto simp: min_def)
  then show ?case using snoc.IH snoc.prems by (auto simp: HpackEntry_Size_pair)
qed simp

text \<open>Removing the oldest entry from an index, unless a newer entry has taken its place.\<close>

lemma index_erase:
  assumes "he_insertion_index e \<notin> he_insertion_index ` set xs"
  shows "\<exists>it. map_of (map (\<lambda>e. (k e, e)) (xs @ [e])) (k e) = Some it \<and>
    (if he_insertion_index it = he_insertion_index e then (map_of (map (\<lambda>e. (k e, e)) (xs @ [e])))(k e := None)
     else map_of (map (\<lambda>e. (k e, e)) (xs @ [e]))) = map_of (map (\<lambda>e. (k e, e)) xs)"
proof (cases "map_of (map (\<lambda>e. (k e, e)) xs) (k e)")
  case None
  then have "(map_of (map (\<lambda>e. (k e, e)) (xs @ [e])))(k e := None) = map_of (map (\<lambda>e. (k e, e)) xs)"
    by (auto simp: fun_eq_iff map_add_def split: option.split)
  moreover have "map_of (map (\<lambda>e. (k e, e)) (xs @ [e])) (k e) = Some e" using None by (simp add: map_add_def)
  ultimately show ?thesis by auto
next
  case (Some it)
  then have "it \<in> set xs" by (auto dest: map_of_SomeD)
  then have "he_insertion_index it \<noteq> he_insertion_index e" using assms by (metis imageI)
  moreover have "map_of (map (\<lambda>e. (k e, e)) (xs @ [e])) = map_of (map (\<lambda>e. (k e, e)) xs)"
    using Some by (auto simp: fun_eq_iff map_add_def split: option.split)
  ultimately show ?thesis using Some by auto
qed

text \<open>What the indices and the recorded size say about the entries.\<close>

definition header_core :: "HpackHeaderTable \<Rightarrow> bool" where
  "header_core t \<longleftrightarrow> (let es = tb_dynamic_entries t in
     tb_size t = table_size (map pair_of es) \<and>
     tb_dynamic_index t = pair_index es \<and> tb_dynamic_name_index t = name_index es \<and>
     length static_entries + length es \<le> tb_total_insertions t \<and>
     map he_insertion_index es = rev [tb_total_insertions t - length es ..< tb_total_insertions t] \<and>
     (\<forall>e \<in> set es. he_type e = DYNAMIC))"

definition header_ok :: "HpackHeaderTable \<Rightarrow> bool" where
  "header_ok t \<longleftrightarrow> header_core t \<and> tb_size t \<le> tb_max_size t \<and> tb_max_size t \<le> tb_settings_size_bound t"

definition cut_entries :: "nat \<Rightarrow> HpackHeaderTable \<Rightarrow> HpackHeaderTable" where
  "cut_entries n t = (let es = take n (tb_dynamic_entries t) in
     t\<lparr>tb_dynamic_entries := es, tb_size := table_size (map pair_of es),
       tb_dynamic_index := pair_index es, tb_dynamic_name_index := name_index es\<rparr>)"

lemma cut_core: "header_core t \<Longrightarrow> header_core (cut_entries n t)"
proof -
  assume c: "header_core t"
  let ?es = "tb_dynamic_entries t" and ?m = "tb_total_insertions t"
  have "map he_insertion_index (take n ?es) = take n (rev [?m - length ?es ..< ?m])"
    using c by (simp add: header_core_def Let_def flip: take_map)
  also have "\<dots> = rev [?m - length (take n ?es) ..< ?m]"
    using c by (simp add: header_core_def Let_def take_rev drop_upt min_def)
  finally show ?thesis using c by (auto simp: header_core_def cut_entries_def Let_def dest: in_set_takeD)
qed

lemma cut_simps [simp]:
  "tb_max_size (cut_entries n t) = tb_max_size t" "tb_settings_size_bound (cut_entries n t) = tb_settings_size_bound t"
  "tb_total_insertions (cut_entries n t) = tb_total_insertions t"
  "tb_dynamic_entries (cut_entries n t) = take n (tb_dynamic_entries t)"
  "tb_size (cut_entries n t) = table_size (map pair_of (take n (tb_dynamic_entries t)))"
  by (simp_all add: cut_entries_def Let_def)

lemma cut_all: "header_core t \<Longrightarrow> length (tb_dynamic_entries t) \<le> n \<Longrightarrow> cut_entries n t = t"
  by (cases t) (auto simp: cut_entries_def header_core_def Let_def)

lemma cut_cut: "cut_entries n (cut_entries m t) = cut_entries (min n m) t"
  by (simp add: cut_entries_def Let_def)

lemma Evict_step:
  assumes c: "header_core t" and ne: "tb_dynamic_entries t \<noteq> []"
  shows "Evict (Suc k) t = Evict k (cut_entries (length (tb_dynamic_entries t) - 1) t)"
proof -
  obtain xs e where es: "tb_dynamic_entries t = xs @ [e]" using ne by (metis append_butlast_last_id)
  let ?m = "tb_total_insertions t"
  have "map he_insertion_index (xs @ [e]) = rev [?m - length (xs @ [e]) ..< ?m]"
    using c unfolding header_core_def Let_def es by blast
  then have "distinct (map he_insertion_index (xs @ [e]))" by (metis distinct_rev distinct_upt)
  then have new: "he_insertion_index e \<notin> he_insertion_index ` set xs" by auto
  obtain it where it: "pair_index (xs @ [e]) (pair_of e) = Some it"
    "(if he_insertion_index it = he_insertion_index e then (pair_index (xs @ [e]))(pair_of e := None)
      else pair_index (xs @ [e])) = pair_index xs"
    using index_erase[OF new, of pair_of] by blast
  obtain nit where nit: "name_index (xs @ [e]) (he_name e) = Some nit"
    "(if he_insertion_index nit = he_insertion_index e then (name_index (xs @ [e]))(he_name e := None)
      else name_index (xs @ [e])) = name_index xs"
    using index_erase[OF new, of he_name] by blast
  have t: "tb_size t = table_size (map pair_of xs) + HpackStringPair_size (pair_of e)"
    "tb_dynamic_index t = pair_index (xs @ [e])" "tb_dynamic_name_index t = name_index (xs @ [e])"
    using c by (auto simp: header_core_def es)
  obtain d i n b z mx tot where r: "t = \<lparr>tb_dynamic_entries = d, tb_dynamic_index = i, tb_dynamic_name_index = n,
      tb_settings_size_bound = b, tb_size = z, tb_max_size = mx, tb_total_insertions = tot\<rparr>" by (cases t)
  show ?thesis
    using it nit t es unfolding r
    by (cases "he_insertion_index it = he_insertion_index e"; cases "he_insertion_index nit = he_insertion_index e")
      (simp_all add: HpackEntry_Size_pair cut_entries_def Let_def del: map_append)
qed

lemma Evict_cut:
  "header_core t \<Longrightarrow> k \<le> length (tb_dynamic_entries t) \<Longrightarrow>
   Evict k t = Some (cut_entries (length (tb_dynamic_entries t) - k) t)"
proof (induction k arbitrary: t)
  case 0
  then show ?case by (simp add: cut_all)
next
  case (Suc k)
  let ?n = "length (tb_dynamic_entries t)"
  have "tb_dynamic_entries t \<noteq> []" using Suc.prems(2) by auto
  then have "Evict (Suc k) t = Evict k (cut_entries (?n - 1) t)" using Evict_step Suc.prems(1) by blast
  also have "\<dots> = Some (cut_entries (length (tb_dynamic_entries (cut_entries (?n - 1) t)) - k) (cut_entries (?n - 1) t))"
    by (rule Suc.IH) (use Suc.prems in \<open>auto simp: cut_core\<close>)
  also have "\<dots> = Some (cut_entries (?n - Suc k) t)" using Suc.prems(2) by (simp add: cut_cut min_def)
  finally show ?case .
qed

section \<open>The table stays within its bounds\<close>

abbreviation header_pairs :: "HpackHeaderTable \<Rightarrow> HpackStringPair list" where
  "header_pairs t \<equiv> map pair_of (tb_dynamic_entries t)"

lemma init_header_ok: "header_ok HpackHeaderTable_init"
  by (simp add: header_ok_def header_core_def HpackHeaderTable_init_def)

lemma resize_result:
  assumes "header_ok t"
  shows "\<exists>t'. SetSettingsHeaderTableSize m t = Some t' \<and> header_ok t' \<and> header_pairs t' = fit m (header_pairs t) \<and>
    tb_max_size t' = m \<and> tb_settings_size_bound t' = m"
proof (cases "tb_size t \<le> m")
  case True
  then show ?thesis using assms
    by (auto simp: SetSettingsHeaderTableSize_def SetMaxSize_def header_ok_def header_core_def Let_def fit_all)
next
  case False
  let ?t = "t\<lparr>tb_settings_size_bound := m, tb_max_size := m\<rparr>"
  let ?k = "EvictionCountToReclaim (tb_size t - m) ?t" and ?n = "length (tb_dynamic_entries t)"
  have c: "header_core ?t" "tb_size t = table_size (header_pairs t)"
    using assms by (auto simp: header_ok_def header_core_def Let_def)
  have k: "?k \<le> ?n" "map pair_of (take (?n - ?k) (tb_dynamic_entries t)) = fit m (header_pairs t)"
    using reclaim_fit[of m "tb_dynamic_entries t"] False c(2) by (auto simp: EvictionCountToReclaim_def)
  have e: "Evict ?k ?t = Some (cut_entries (?n - ?k) ?t)" using Evict_cut[OF c(1), of ?k] k(1) by simp
  have l: "table_size (fit m (header_pairs t)) \<le> m" by (rule table_size_fit)
  have "header_ok (cut_entries (?n - ?k) ?t)" using cut_core[OF c(1)] k(2) l by (simp add: header_ok_def)
  then show ?thesis using False k(2) l
    by (simp add: SetSettingsHeaderTableSize_def SetMaxSize_def e Let_def)
qed

lemma add_result:
  assumes "header_ok t"
  shows "\<exists>r t'. TryAddEntry n v t = Some (r, t') \<and> header_ok t' \<and>
    header_pairs t' = add_entry (tb_max_size t) (n, v) (header_pairs t) \<and>
    tb_max_size t' = tb_max_size t \<and> tb_settings_size_bound t' = tb_settings_size_bound t"
proof -
  define M where "M = tb_max_size t"
  define z where "z = HpackStringPair_size (n, v)"
  let ?n = "length (tb_dynamic_entries t)"
  define k where "k = EvictionCountForEntry n v t"
  have c: "header_core t" "tb_size t = table_size (header_pairs t)" "tb_size t \<le> M"
    using assms by (auto simp: header_ok_def header_core_def Let_def M_def)
  have z: "HpackEntry_Size n v = z" by (simp add: HpackEntry_Size_def HpackStringPair_size_def kSizeOverhead_def z_def)
  have k: "k \<le> ?n \<and> map pair_of (take (?n - k) (tb_dynamic_entries t)) = (if z \<le> M then fit (M - z) (header_pairs t) else [])"
  proof -
    consider "z \<le> M - tb_size t" | "M - tb_size t < z" "z \<le> M" | "M < z" by linarith
    then show ?thesis
    proof cases
      case 1
      then have "k = 0" by (simp add: k_def EvictionCountForEntry_def z M_def)
      moreover have "table_size (header_pairs t) \<le> M - z" "z \<le> M" using 1 c(2,3) by auto
      ultimately show ?thesis by (simp add: fit_all)
    next
      case 2
      then have "k = reclaim_count (table_size (header_pairs t) - (M - z)) (rev (tb_dynamic_entries t))"
        using c(2,3) by (simp add: k_def EvictionCountForEntry_def EvictionCountToReclaim_def z M_def add.commute)
      then show ?thesis using reclaim_fit[of "M - z" "tb_dynamic_entries t"] 2 c(2,3) by simp
    next
      case 3
      have "table_size (header_pairs t) < z - (M - tb_size t)" using 3 c(2,3) by linarith
      then have "reclaim_count (z - (M - tb_size t)) (rev (tb_dynamic_entries t)) = ?n" by (rule reclaim_all)
      moreover have "\<not> z \<le> M - tb_size t" using 3 by linarith
      ultimately have "k = ?n"
        unfolding k_def EvictionCountForEntry_def EvictionCountToReclaim_def z Let_def M_def by simp
      then show ?thesis using 3 by simp
    qed
  qed
  let ?t = "cut_entries (?n - k) t"
  have e: "Evict (EvictionCountForEntry n v t) t = Some ?t" using Evict_cut[OF c(1), of k] k by (simp add: k_def)
  have core: "header_core ?t" by (rule cut_core[OF c(1)])
  have sz: "tb_size ?t = table_size (if z \<le> M then fit (M - z) (header_pairs t) else [])" using k by simp
  show ?thesis
  proof (cases "z \<le> M")
    case True
    have le: "tb_size ?t \<le> M - z" using sz table_size_fit[of "M - z" "header_pairs t"] True by simp
    have fits: "\<not> z > M - tb_size ?t" using le True by linarith
    let ?e = "\<lparr>he_name = n, he_value = v, he_insertion_index = tb_total_insertions t, he_type = DYNAMIC\<rparr>"
    let ?t' = "?t\<lparr>tb_dynamic_entries := ?e # tb_dynamic_entries ?t,
                      tb_dynamic_index := (tb_dynamic_index ?t)((n, v) \<mapsto> ?e),
                      tb_dynamic_name_index := (tb_dynamic_name_index ?t)(n \<mapsto> ?e),
                      tb_size := tb_size ?t + z,
                      tb_total_insertions := tb_total_insertions ?t + 1\<rparr>"
    have r: "TryAddEntry n v t = Some (Some ?e, ?t')"
      using fits by (simp add: TryAddEntry_def e z M_def Let_def del: cut_simps(4,5))
    have core': "header_core ?t'"
      using core by (auto simp: header_core_def Let_def z_def upt_Suc_append Suc_diff_le)
    have p: "header_pairs ?t' = (n, v) # fit (M - z) (header_pairs t)" using k True by simp
    show ?thesis
      using r core' p le True assms
      by (auto simp: header_ok_def add_entry_def M_def z_def[symmetric] simp del: cut_simps(4,5))
  next
    case False
    then have "\<not> z \<le> M - tb_size ?t" by linarith
    then have r: "TryAddEntry n v t = Some (None, ?t)"
      by (simp add: TryAddEntry_def e z M_def Let_def del: cut_simps(4,5))
    have "header_pairs ?t = []" using k False by simp
    then show ?thesis using r core sz False assms
      by (auto simp: header_ok_def add_entry_def M_def z_def[symmetric] simp del: cut_simps(4,5))
  qed
qed

interpretation ht: bounded_table "\<lambda>n v t. snd (the (TryAddEntry n v t))" "\<lambda>m t. the (SetSettingsHeaderTableSize m t)"
  header_pairs tb_max_size header_ok
proof unfold_locales
  fix t :: HpackHeaderTable and n v m
  assume ok: "header_ok t"
  obtain r t' where a: "TryAddEntry n v t = Some (r, t')" "header_ok t'"
    "header_pairs t' = add_entry (tb_max_size t) (n, v) (header_pairs t)" "tb_max_size t' = tb_max_size t"
    using add_result[OF ok, of n v] by blast
  then show "header_pairs (snd (the (TryAddEntry n v t))) = add_entry (tb_max_size t) (n, v) (header_pairs t)"
    "tb_max_size (snd (the (TryAddEntry n v t))) = tb_max_size t" "header_ok (snd (the (TryAddEntry n v t)))" by auto
  obtain u where b: "SetSettingsHeaderTableSize m t = Some u" "header_ok u" "header_pairs u = fit m (header_pairs t)" "tb_max_size u = m"
    using resize_result[OF ok, of m] by blast
  then show "header_pairs (the (SetSettingsHeaderTableSize m t)) = fit m (header_pairs t)"
    "tb_max_size (the (SetSettingsHeaderTableSize m t)) = m" "header_ok (the (SetSettingsHeaderTableSize m t))" by auto
  show "table_size (header_pairs t) \<le> tb_max_size t"
    using ok by (simp add: header_ok_def header_core_def Let_def)
qed

section \<open>Indices\<close>

abbreviation all_entries :: "HpackHeaderTable \<Rightarrow> HpackEntry list" where
  "all_entries t \<equiv> static_entries @ tb_dynamic_entries t"

lemma GetByIndex_all:
  "GetByIndex i t = (if 0 < i \<and> i \<le> length (all_entries t) then Some (all_entries t ! (i - 1)) else None)"
  by (auto simp: GetByIndex_def Let_def nth_append)

lemma static_entry: "i < length static_entries \<Longrightarrow> he_insertion_index (static_entries ! i) = i \<and> he_type (static_entries ! i) = STATIC"
  using static_rows_nth[of i HpackStaticTableVector 0] by (simp add: static_table_eq Let_def)

lemma dynamic_entry:
  assumes "header_core t" "i < length (tb_dynamic_entries t)"
  shows "he_insertion_index (tb_dynamic_entries t ! i) = tb_total_insertions t - 1 - i \<and>
    he_type (tb_dynamic_entries t ! i) = DYNAMIC \<and> i < tb_total_insertions t"
proof -
  let ?es = "tb_dynamic_entries t" and ?m = "tb_total_insertions t"
  have c: "map he_insertion_index ?es = rev [?m - length ?es ..< ?m]" "\<forall>e \<in> set ?es. he_type e = DYNAMIC" "length ?es \<le> ?m"
    using assms(1) by (auto simp: header_core_def Let_def)
  have "he_insertion_index (?es ! i) = map he_insertion_index ?es ! i" using assms(2) by simp
  also have "\<dots> = ?m - 1 - i" unfolding c(1) using assms(2) c(3) by (simp add: rev_nth)
  finally show ?thesis using c(2,3) assms(2) by auto
qed

lemma IndexOf_nth:
  assumes "header_core t" "i < length (all_entries t)"
  shows "IndexOf (all_entries t ! i) t = i + 1"
proof (cases "i < length static_entries")
  case True
  then show ?thesis using static_entry[OF True] by (simp add: IndexOf_def nth_append)
next
  case False
  define j where "j = i - length static_entries"
  have j: "j < length (tb_dynamic_entries t)" "i = length static_entries + j" using False assms(2) by (auto simp: j_def)
  then show ?thesis using dynamic_entry[OF assms(1) j(1)] by (simp add: IndexOf_def nth_append)
qed

text \<open>A map built from a list finds the first entry with a key.\<close>

lemma index_first:
  "map_of (map (\<lambda>e. (k e, e)) es) x = Some e \<Longrightarrow> \<exists>i < length es. e = es ! i \<and> k e = x \<and> (\<forall>j < i. k (es ! j) \<noteq> x)"
proof (induction es)
  case (Cons a es)
  show ?case
  proof (cases "k a = x")
    case True
    then show ?thesis using Cons.prems by (intro exI[of _ 0]) auto
  next
    case False
    then obtain i where i: "i < length es" "e = es ! i" "k e = x" "\<forall>j < i. k (es ! j) \<noteq> x"
      using Cons by auto
    have "\<forall>j < Suc i. k ((a # es) ! j) \<noteq> x" using False i(4) by (auto simp: nth_Cons split: nat.split)
    then show ?thesis using i by (intro exI[of _ "Suc i"]) auto
  qed
qed simp

lemma index_none: "map_of (map (\<lambda>e. (k e, e)) es) x = None \<Longrightarrow> i < length es \<Longrightarrow> k (es ! i) \<noteq> x"
  by (force simp: map_of_eq_None_iff image_iff)

lemma lookup_first:
  assumes "header_core t"
  shows "GetByNameAndValue n v t = pair_index (all_entries t) (n, v)" "GetByName n t = name_index (all_entries t) n"
proof -
  have st: "st_static_index ObtainHpackStaticTable = pair_index static_entries"
    "st_static_name_index ObtainHpackStaticTable = name_index static_entries"
    by (simp_all add: static_table_eq Let_def)
  have d: "tb_dynamic_index t = pair_index (tb_dynamic_entries t)" "tb_dynamic_name_index t = name_index (tb_dynamic_entries t)"
    using assms by (auto simp: header_core_def Let_def)
  show "GetByNameAndValue n v t = pair_index (all_entries t) (n, v)"
    by (auto simp: GetByNameAndValue_def st d map_add_def split: option.split)
  show "GetByName n t = name_index (all_entries t) n"
    by (auto simp: GetByName_def st d map_add_def split: option.split)
qed

section \<open>The two ends of a connection\<close>

fun header_apply :: "table_op \<Rightarrow> HpackHeaderTable \<Rightarrow> HpackHeaderTable option" where
  "header_apply (Add name val) t = map_option snd (TryAddEntry name val t)"
| "header_apply (Resize settings_size) t = SetSettingsHeaderTableSize settings_size t"

fun header_run :: "table_op list \<Rightarrow> HpackHeaderTable \<Rightarrow> HpackHeaderTable option" where
  "header_run [] t = Some t"
| "header_run (p # ps) t = (case header_apply p t of None \<Rightarrow> None | Some t \<Rightarrow> header_run ps t)"

lemma header_apply_op: "header_ok t \<Longrightarrow> header_apply p t = Some (ht.apply_op p t)"
proof (cases p)
  case (Add n v)
  assume "header_ok t"
  then obtain r t' where "TryAddEntry n v t = Some (r, t')" using add_result[of t n v] by blast
  then show ?thesis by (simp add: Add)
next
  case (Resize m)
  assume "header_ok t"
  then obtain t' where "SetSettingsHeaderTableSize m t = Some t'" using resize_result[of t m] by blast
  then show ?thesis by (simp add: Resize)
qed

lemma header_run_ok:
  "header_ok t \<Longrightarrow> \<exists>t'. header_run ps t = Some t' \<and> header_ok t' \<and>
     (tb_max_size t', header_pairs t') = fold table_spec ps (tb_max_size t, header_pairs t)"
proof (induction ps arbitrary: t)
  case (Cons p ps)
  have a: "header_ok (ht.apply_op p t)"
    "(tb_max_size (ht.apply_op p t), header_pairs (ht.apply_op p t)) = table_spec p (tb_max_size t, header_pairs t)"
    using ht.apply_op_spec[OF Cons.prems, of p] by auto
  show ?case using Cons.IH[OF a(1)] header_apply_op[OF Cons.prems, of p] by (simp add: a(2))
qed simp

lemma in_step_run:
  obtains t where "header_run ps HpackHeaderTable_init = Some t" "header_ok t"
    "tb_max_size t = dt_size_limit (fold table_apply ps HpackDecoderDynamicTable_init)"
    "header_pairs t = dt_table (fold table_apply ps HpackDecoderDynamicTable_init)"
proof -
  obtain t where t: "header_run ps HpackHeaderTable_init = Some t" "header_ok t"
    "(tb_max_size t, header_pairs t) = fold table_spec ps (4096, [])"
    using header_run_ok[OF init_header_ok, of ps]
    by (auto simp: HpackHeaderTable_init_def kDefaultHeaderTableSizeSetting_def)
  let ?d = "fold table_apply ps HpackDecoderDynamicTable_init"
  have "(dt_size_limit ?d, dt_table ?d) = fold table_spec ps (4096, [])"
    using dt.ops_spec[OF table_ok_init, of ps]
    by (simp add: table_apply_op HpackDecoderDynamicTable_init_def DefaultHeaderTableSize_def)
  then have "(tb_max_size t, header_pairs t) = (dt_size_limit ?d, dt_table ?d)" by (simp only: t(3))
  then show ?thesis using that[OF t(1,2)] by simp
qed

text \<open>
  C9: The tables of the two ends of a connection stay in step. Under any sequence of insertions and
  changes of the table size the encoder's table, which evicts by counting from the old end, passes
  all its checks and holds the entries of the decoder's table, which evicts one by one; its
  bookkeeping stays exact.
\<close>

theorem tables_in_step:
  "\<exists>t. header_run ps HpackHeaderTable_init = Some t \<and>
     map pair_of (tb_dynamic_entries t) = dt_table (fold table_apply ps HpackDecoderDynamicTable_init) \<and>
     tb_max_size t = dt_size_limit (fold table_apply ps HpackDecoderDynamicTable_init) \<and>
     tb_size t = dt_current_size (fold table_apply ps HpackDecoderDynamicTable_init) \<and>
     tb_size t \<le> tb_max_size t \<and> tb_max_size t \<le> tb_settings_size_bound t"
proof -
  obtain t where t: "header_run ps HpackHeaderTable_init = Some t" "header_ok t"
    "tb_max_size t = dt_size_limit (fold table_apply ps HpackDecoderDynamicTable_init)"
    "header_pairs t = dt_table (fold table_apply ps HpackDecoderDynamicTable_init)"
    by (rule in_step_run)
  have "tb_size t = table_size (header_pairs t)" using t(2) by (simp add: header_ok_def header_core_def Let_def)
  also have "\<dots> = dt_current_size (fold table_apply ps HpackDecoderDynamicTable_init)"
    using table_run_ok[of ps] by (simp only: t(4) table_ok_def)
  finally show ?thesis using t by (auto simp: header_ok_def)
qed

lemma Lookup_GetByIndex:
  assumes "dt_table d = header_pairs t"
  shows "fst (Tables_Lookup i d) = map_option pair_of (GetByIndex i t)"
proof -
  have "map pair_of (all_entries t) = tl MakeStaticTable @ dt_table d" by (simp add: assms static_tables_agree(1))
  moreover have "MakeStaticTable ! i = tl MakeStaticTable ! (i - 1)" if "0 < i" "i < 62"
    using that nth_tl[of "i - 1" MakeStaticTable] length_static_table by (simp add: kFirstDynamicTableIndex_def)
  moreover have "length (tl MakeStaticTable) = 61" by (simp add: length_static_table kFirstDynamicTableIndex_def)
  moreover have "map_option pair_of (GetByIndex i t) =
      (if 0 < i \<and> i \<le> length (map pair_of (all_entries t)) then Some (map pair_of (all_entries t) ! (i - 1)) else None)"
    unfolding GetByIndex_all length_map by (auto simp: nth_map simp del: map_append length_append)
  ultimately show ?thesis
    by (auto simp: Lookup_entry kFirstDynamicTableIndex_def nth_append simp del: map_append)
qed

lemma lookup_index:
  assumes "header_ok t" "dt_table d = header_pairs t"
  shows "GetByNameAndValue n v t = Some e \<Longrightarrow> fst (Tables_Lookup (IndexOf e t) d) = Some (n, v) \<and>
      (\<forall>i < IndexOf e t. fst (Tables_Lookup i d) \<noteq> Some (n, v))"
    and "GetByNameAndValue n v t = None \<Longrightarrow> fst (Tables_Lookup i d) \<noteq> Some (n, v)"
    and "GetByName n t = Some e \<Longrightarrow> \<exists>w. fst (Tables_Lookup (IndexOf e t) d) = Some (n, w)"
    and "GetByNameAndValue n v t = Some e \<Longrightarrow> 0 < IndexOf e t \<and> IndexOf e t \<le> length (all_entries t)"
    and "GetByName n t = Some e \<Longrightarrow> 0 < IndexOf e t \<and> IndexOf e t \<le> length (all_entries t)"
proof -
  have core: "header_core t" using assms(1) by (simp add: header_ok_def)
  note L = Lookup_GetByIndex[OF assms(2)]
  {
    assume "GetByNameAndValue n v t = Some e"
    then obtain i where i: "i < length (all_entries t)" "e = all_entries t ! i" "pair_of e = (n, v)"
      "\<forall>j < i. pair_of (all_entries t ! j) \<noteq> (n, v)"
      unfolding lookup_first(1)[OF core] using index_first[of pair_of "all_entries t" "(n, v)" e] by blast
    have ix: "IndexOf e t = i + 1" using IndexOf_nth[OF core i(1)] i(2) by simp
    have "fst (Tables_Lookup j d) \<noteq> Some (n, v)" if "j < i + 1" for j
      using that i(1,4) by (auto simp: L GetByIndex_all simp del: length_append)
    moreover have "fst (Tables_Lookup (i + 1) d) = Some (n, v)"
      using i(1-3) by (simp add: L GetByIndex_all del: length_append)
    ultimately show "fst (Tables_Lookup (IndexOf e t) d) = Some (n, v) \<and> (\<forall>i < IndexOf e t. fst (Tables_Lookup i d) \<noteq> Some (n, v))"
      "0 < IndexOf e t \<and> IndexOf e t \<le> length (all_entries t)"
      using ix i(1) by (auto simp del: length_append)
  }
  {
    assume "GetByNameAndValue n v t = None"
    then have "pair_of (all_entries t ! (i - 1)) \<noteq> (n, v)" if "0 < i" "i \<le> length (all_entries t)"
      unfolding lookup_first(1)[OF core] by (rule index_none) (use that in linarith)
    then show "fst (Tables_Lookup i d) \<noteq> Some (n, v)"
      unfolding L GetByIndex_all by (auto simp del: length_append)
  }
  {
    assume "GetByName n t = Some e"
    then obtain i where i: "i < length (all_entries t)" "e = all_entries t ! i" "he_name e = n"
      unfolding lookup_first(2)[OF core] using index_first[of he_name "all_entries t" n e] by blast
    have ix: "IndexOf e t = i + 1" using IndexOf_nth[OF core i(1)] i(2) by simp
    then show "\<exists>w. fst (Tables_Lookup (IndexOf e t) d) = Some (n, w)" "0 < IndexOf e t \<and> IndexOf e t \<le> length (all_entries t)"
      using i by (auto simp: L GetByIndex_all simp del: length_append)
  }
qed

lemma name_index:
  assumes "header_ok t" "dt_table d = header_pairs t"
  shows "GetByName n t = Some e \<Longrightarrow> i < IndexOf e t \<Longrightarrow> fst (Tables_Lookup i d) \<noteq> Some (n, w)"
    and "GetByName n t = None \<Longrightarrow> fst (Tables_Lookup i d) \<noteq> Some (n, w)"
proof -
  note L = Lookup_GetByIndex[OF assms(2)]
  have core: "header_core t" using assms(1) by (simp add: header_ok_def)
  {
    assume "GetByName n t = Some e" "i < IndexOf e t"
    then obtain k where k: "k < length (all_entries t)" "e = all_entries t ! k" "\<forall>j < k. he_name (all_entries t ! j) \<noteq> n"
      unfolding lookup_first(2)[OF core] using index_first[of he_name "all_entries t" n e] by blast
    moreover have "i < k + 1" using IndexOf_nth[OF core k(1)] k(2) \<open>i < IndexOf e t\<close> by simp
    ultimately show "fst (Tables_Lookup i d) \<noteq> Some (n, w)" by (auto simp: L GetByIndex_all simp del: length_append)
  }
  {
    assume "GetByName n t = None"
    then have "he_name (all_entries t ! (i - 1)) \<noteq> n" if "0 < i" "i \<le> length (all_entries t)"
      unfolding lookup_first(2)[OF core] by (rule index_none) (use that in linarith)
    then show "fst (Tables_Lookup i d) \<noteq> Some (n, w)"
      unfolding L GetByIndex_all by (auto simp del: length_append)
  }
qed

text \<open>
  C11: What the encoder looks up, the decoder finds. After any history that both tables share, an entry
  that the encoder finds for a name and a value has an index at which the decoder's tables hold
  that name and value, and no lower index does; when it finds none, no index does. The index it finds
  for a name alone is that of an entry of the decoder's tables with this name, and no lower index has
  one; when it finds none, no index has.
\<close>

theorem encoder_index_decodes:
  assumes "header_run ps HpackHeaderTable_init = Some t"
  defines "d \<equiv> fold table_apply ps HpackDecoderDynamicTable_init"
  shows "(case GetByNameAndValue n v t of
      Some e \<Rightarrow> fst (Tables_Lookup (IndexOf e t) d) = Some (n, v) \<and> (\<forall>i < IndexOf e t. fst (Tables_Lookup i d) \<noteq> Some (n, v))
    | None \<Rightarrow> (\<forall>i. fst (Tables_Lookup i d) \<noteq> Some (n, v))) \<and>
    (case GetByName n t of
      Some e \<Rightarrow> (\<exists>w. fst (Tables_Lookup (IndexOf e t) d) = Some (n, w)) \<and>
        (\<forall>i < IndexOf e t. \<forall>w. fst (Tables_Lookup i d) \<noteq> Some (n, w))
    | None \<Rightarrow> (\<forall>i w. fst (Tables_Lookup i d) \<noteq> Some (n, w)))"
proof -
  have t: "header_ok t" "header_pairs t = dt_table d" using in_step_run[of ps] assms by auto
  then show ?thesis using lookup_index[OF t(1) t(2)[symmetric]] name_index[OF t(1) t(2)[symmetric]]
    by (simp split: option.split)
qed

lemma static_miss: "st_static_index ObtainHpackStaticTable ([0x61], [0x62]) = None"
  by (simp add: static_table_eq Let_def HpackStaticTableVector_def ascii_def)

theorem encoder_index_decodes_witness:
  "\<exists>t e. header_run [Add [0x61] [0x62]] HpackHeaderTable_init = Some t \<and>
     GetByNameAndValue [0x61] [0x62] t = Some e \<and> IndexOf e t = 62 \<and>
     fst (Tables_Lookup 62 (fold table_apply [Add [0x61] [0x62]] HpackDecoderDynamicTable_init)) = Some ([0x61], [0x62])"
proof -
  obtain t e where t: "header_run [Add [0x61] [0x62]] HpackHeaderTable_init = Some t"
    "GetByNameAndValue [0x61] [0x62] t = Some e" "IndexOf e t = 62"
    by (simp add: HpackHeaderTable_init_def TryAddEntry_def EvictionCountForEntry_def HpackEntry_Size_def kSizeOverhead_def
        kDefaultHeaderTableSizeSetting_def Let_def GetByNameAndValue_def static_miss IndexOf_def static_tables_agree)
  then show ?thesis using encoder_index_decodes[OF t(1), of "[0x61]" "[0x62]"] by auto
qed

end
