(* ===== verification/Hpack_Varint.thy ===== *)
theory Hpack_Varint
  imports Resumable
begin

text \<open>
  \<^verbatim>\<open>http2/hpack/decoder/hpack_varint_decoder.h\<close>: the resumable decoder of HPACK variable length
  integers. \<open>value_\<close> is a 32-bit word and additions to it wrap; that an accepted integer never
  has wrapped is part of \<open>varint_ext_correct\<close>. \<open>MarkDone\<close> and the \<open>Check*\<close> methods are empty in
  a release build.
\<close>

record HpackVarintDecoder =
  vd_value :: u32
  vd_offset :: nat

definition MaxExtensionBytes :: nat where
  "MaxExtensionBytes = 5"

definition MaxOffset :: nat where
  "MaxOffset = 7 * (MaxExtensionBytes - 1)"

function VarintDecoder_Resume ::
  "HpackVarintDecoder \<Rightarrow> DecodeBuffer \<Rightarrow> DecodeStatus \<times> HpackVarintDecoder \<times> DecodeBuffer" where
  "VarintDecoder_Resume s db =
     (if Empty db then (kDecodeInProgress, s, db)
      else
        let (b, db1) = DecodeUInt8 db;
            s1 = s\<lparr>vd_value := vd_value s + push_bit (vd_offset s) (ucast (b AND 0x7f))\<rparr>
        in if b AND 0x80 = 0 then
             (if vd_offset s1 < MaxOffset \<or> b = 0 then (kDecodeDone, s1, db1)
              else (kDecodeError, s1, db1))
           else
             let s2 = s1\<lparr>vd_offset := vd_offset s1 + 7\<rparr>
             in if vd_offset s2 \<le> MaxOffset then VarintDecoder_Resume s2 db1
                else (kDecodeError, s2, db1))"
  by pat_completeness auto
termination
  by (relation "measure (\<lambda>(s, db). Remaining db)") (auto simp: Remaining_def Empty_def DecodeUInt8_def)

definition VarintDecoder_StartExtended ::
  "HpackVarintDecoder \<Rightarrow> byte \<Rightarrow> DecodeBuffer \<Rightarrow> DecodeStatus \<times> HpackVarintDecoder \<times> DecodeBuffer" where
  "VarintDecoder_StartExtended s prefix_mask db =
     VarintDecoder_Resume (s\<lparr>vd_value := ucast prefix_mask, vd_offset := 0\<rparr>) db"

definition VarintDecoder_Start ::
  "HpackVarintDecoder \<Rightarrow> byte \<Rightarrow> byte \<Rightarrow> DecodeBuffer \<Rightarrow> DecodeStatus \<times> HpackVarintDecoder \<times> DecodeBuffer" where
  "VarintDecoder_Start s prefix_value prefix_mask db =
     (let s1 = s\<lparr>vd_value := ucast (prefix_value AND prefix_mask)\<rparr>
      in if vd_value s1 < ucast prefix_mask then (kDecodeDone, s1, db)
         else VarintDecoder_Resume (s1\<lparr>vd_offset := 0\<rparr>) db)"

definition VarintDecoder_set_value :: "HpackVarintDecoder \<Rightarrow> u32 \<Rightarrow> HpackVarintDecoder" where
  "VarintDecoder_set_value s v = s\<lparr>vd_value := v\<rparr>"

section \<open>The decoder as a function of the unread bytes\<close>

declare VarintDecoder_Resume.simps [simp del]

fun varint_ext :: "HpackVarintDecoder \<Rightarrow> bytes \<Rightarrow> DecodeStatus \<times> HpackVarintDecoder \<times> nat" where
  "varint_ext s [] = (kDecodeInProgress, s, 0)"
| "varint_ext s (b # bs) =
     (let s1 = s\<lparr>vd_value := vd_value s + push_bit (vd_offset s) (ucast (b AND 0x7f))\<rparr>
      in if b AND 0x80 = 0 then
           (if vd_offset s < 28 \<or> b = 0 then (kDecodeDone, s1, 1) else (kDecodeError, s1, 1))
         else
           let s2 = s1\<lparr>vd_offset := vd_offset s + 7\<rparr>
           in if vd_offset s + 7 \<le> 28 then (case varint_ext s2 bs of (st, t, n) \<Rightarrow> (st, t, Suc n))
              else (kDecodeError, s2, 1))"

lemma MaxOffset_28 [simp]: "MaxOffset = 28"
  by (simp add: MaxOffset_def MaxExtensionBytes_def)

lemma VarintDecoder_Resume_at: "VarintDecoder_Resume s db = read_at db (varint_ext s (rest db))"
proof (induction s "rest db" arbitrary: db rule: varint_ext.induct)
  case (1 s)
  then show ?case by (subst VarintDecoder_Resume.simps) (simp add: rest_simps flip: 1)
next
  case (2 s b bs)
  have r: "rest db = b # bs" using 2(2) by simp
  have d: "DecodeUInt8 db = (b, AdvanceCursor db 1)" by (rule DecodeUInt8_rest[OF r])
  have r1: "bs = rest (AdvanceCursor db 1)" by (simp add: rest_simps r)
  have IH: "\<not> b AND 0x80 = 0 \<Longrightarrow> vd_offset s + 7 \<le> 28 \<Longrightarrow>
      VarintDecoder_Resume (s\<lparr>vd_value := vd_value s + push_bit (vd_offset s) (ucast (b AND 0x7f)),
        vd_offset := vd_offset s + 7\<rparr>) (AdvanceCursor db 1) =
      read_at (AdvanceCursor db 1) (varint_ext (s\<lparr>vd_value := vd_value s +
        push_bit (vd_offset s) (ucast (b AND 0x7f)), vd_offset := vd_offset s + 7\<rparr>) bs)"
    using 2(1)[OF refl _ refl _ r1] r1 by simp
  show ?case
    by (subst VarintDecoder_Resume.simps)
      (auto simp: rest_simps r d IH[simplified] Let_def split: prod.splits)
qed

lemma VarintDecoder_Resume_advances: "VarintDecoder_Resume s db = (st, t, db') \<Longrightarrow> advances db db'"
  by (cases "varint_ext s (rest db)") (auto simp: VarintDecoder_Resume_at)

lemma VarintDecoder_Start_advances: "VarintDecoder_Start s v m db = (st, t, db') \<Longrightarrow> advances db db'"
  by (auto simp: VarintDecoder_Start_def Let_def dest: VarintDecoder_Resume_advances split: if_splits)

lemma varint_ext_len: "varint_ext s xs = (st, t, n) \<Longrightarrow> n \<le> length xs"
  by (induction s xs arbitrary: st t n rule: varint_ext.induct)
    (auto simp: Let_def split: if_splits prod.splits)

lemma varint_ext_pause: "varint_ext s xs = (kDecodeInProgress, t, n) \<Longrightarrow> n = length xs"
  by (induction s xs arbitrary: t n rule: varint_ext.induct)
    (auto simp: Let_def split: if_splits prod.splits)

lemma varint_ext_resume:
  "varint_ext s xs = (kDecodeInProgress, t, n) \<Longrightarrow>
   varint_ext s (xs @ ys) = (case varint_ext t ys of (st, u, m) \<Rightarrow> (st, u, n + m))"
  by (induction s xs arbitrary: t n rule: varint_ext.induct)
    (auto simp: Let_def split: if_splits prod.splits)

lemma varint_ext_stop:
  "varint_ext s xs = (st, t, n) \<Longrightarrow> st \<noteq> kDecodeInProgress \<Longrightarrow> varint_ext s (xs @ ys) = (st, t, n)"
  by (induction s xs arbitrary: st t n rule: varint_ext.induct)
    (auto simp: Let_def split: if_splits prod.splits)

definition VarintDecoder_run ::
  "HpackVarintDecoder \<Rightarrow> bytes \<Rightarrow> DecodeStatus \<times> HpackVarintDecoder \<times> bytes" where
  "VarintDecoder_run s xs = unread (VarintDecoder_Resume s (mkDecodeBuffer xs))"

lemma VarintDecoder_run_ext:
  "VarintDecoder_run s xs = (case varint_ext s xs of (st, t, n) \<Rightarrow> (st, t, drop n xs))"
  by (simp add: VarintDecoder_run_def VarintDecoder_Resume_at rest_simps split: prod.split)

interpretation varint: resumable VarintDecoder_run "\<lambda>_. True"
proof
  fix s s' xs r
  assume "VarintDecoder_run s xs = (kDecodeInProgress, s', r)"
  then show "r = []"
    by (auto simp: VarintDecoder_run_ext dest: varint_ext_pause split: prod.splits)
next
  fix s s' xs r ys
  assume "VarintDecoder_run s xs = (kDecodeInProgress, s', r)"
  then obtain n where "varint_ext s xs = (kDecodeInProgress, s', n)"
    by (auto simp: VarintDecoder_run_ext split: prod.splits)
  then show "VarintDecoder_run s (xs @ ys) = VarintDecoder_run s' ys"
    by (auto simp: VarintDecoder_run_ext varint_ext_resume dest: varint_ext_pause split: prod.splits)
next
  fix s s' xs r ys st
  assume "VarintDecoder_run s xs = (st, s', r)" "st \<noteq> kDecodeInProgress"
  then show "VarintDecoder_run s (xs @ ys) = (st, s', r @ ys)"
    by (auto simp: VarintDecoder_run_ext varint_ext_stop dest: varint_ext_len split: prod.splits)
qed simp

section \<open>The value of an encoding\<close>

text \<open>
  The extension bytes of an encoded integer carry seven bits each, the low-order group first;
  the high bit says that another byte follows. \<open>ext_value\<close> is the integer they stand for, over
  unbounded naturals, and \<open>ext_bytes\<close> holds of exactly one complete run of extension bytes.
\<close>

fun ext_value :: "bytes \<Rightarrow> nat" where
  "ext_value [] = 0"
| "ext_value (b # bs) = unat (b AND 0x7f) + 128 * ext_value bs"

fun ext_bytes :: "bytes \<Rightarrow> bool" where
  "ext_bytes [] \<longleftrightarrow> False"
| "ext_bytes (b # bs) \<longleftrightarrow> (if b AND 0x80 = 0 then bs = [] else ext_bytes bs)"

text \<open>The encodings the decoder accepts: at most four extension bytes, or five of which the last is 0.\<close>

definition ext_accepted :: "bytes \<Rightarrow> bool" where
  "ext_accepted bs \<longleftrightarrow> length bs \<le> 4 \<or> length bs = 5 \<and> last bs = 0"

lemma ext_bytes_Cons_ne: "ext_bytes (b # bs) \<Longrightarrow> b AND 0x80 \<noteq> 0 \<Longrightarrow> bs \<noteq> []"
  by auto

lemma unat_and_7f: "unat ((b :: byte) AND 0x7f) \<le> 127"
proof -
  have "b AND 0x7f \<le> 0x7f" by (rule word_and_le1)
  then show ?thesis by (simp add: word_le_nat_alt)
qed

lemma unat_push_bit_ucast:
  assumes "unat (c :: byte) * 2 ^ n < 2 ^ 32"
  shows "unat (push_bit n (ucast c) :: u32) = unat c * 2 ^ n"
proof -
  have "unat (push_bit n (ucast c) :: u32) = (unat c * 2 ^ n) mod 2 ^ 32"
    by (simp only: unsigned_push_bit_eq unat_ucast_byte_u32)
      (simp add: push_bit_eq_mult take_bit_eq_mod)
  with assms show ?thesis by simp
qed

lemma unat_add_push_bit:
  assumes "unat v + unat (c :: byte) * 2 ^ n < 2 ^ 32"
  shows "unat (v + push_bit n (ucast c) :: u32) = unat v + unat c * 2 ^ n"
  using assms unat_push_bit_ucast[of c n] by (simp add: unat_word_ariths)

lemma varint_step_bound:
  fixes b :: byte
  assumes "unat v \<le> 126 + 2 ^ (7 * k)" "k \<le> 3"
  shows "unat (v + push_bit (7 * k) (ucast (b AND 0x7f)) :: u32) = unat v + unat (b AND 0x7f) * 2 ^ (7 * k)
    \<and> unat v + unat (b AND 0x7f) * 2 ^ (7 * k) \<le> 126 + 2 ^ (7 * Suc k)"
proof -
  have "unat (b AND 0x7f) * 2 ^ (7 * k) \<le> 127 * 2 ^ (7 * k)"
    by (rule mult_right_mono[OF unat_and_7f]) simp
  moreover have "2 ^ (7 * Suc k) = 128 * (2 :: nat) ^ (7 * k)"
    by (simp add: power_add)
  ultimately have le: "unat v + unat (b AND 0x7f) * 2 ^ (7 * k) \<le> 126 + 2 ^ (7 * Suc k)"
    using assms(1) by linarith
  also have "\<dots> \<le> 126 + 2 ^ 28"
    using assms(2) by (intro add_left_mono power_increasing) auto
  also have "\<dots> < (2 ^ 32 :: nat)" by simp
  finally show ?thesis using le by (auto intro: unat_add_push_bit)
qed

lemma varint_ext_correct:
  assumes "ext_bytes ext" "vd_offset s = 7 * k" "k \<le> 4" "unat (vd_value s) \<le> 126 + 2 ^ (7 * k)"
  shows "\<exists>st t n. varint_ext s (ext @ r) = (st, t, n) \<and>
    (if k + length ext \<le> 4 \<or> k + length ext = 5 \<and> last ext = 0
     then st = kDecodeDone \<and> n = length ext \<and>
       unat (vd_value t) = unat (vd_value s) + 2 ^ (7 * k) * ext_value ext
     else st = kDecodeError)"
  using assms
proof (induction ext arbitrary: s k)
  case (Cons b bs)
  let ?v = "vd_value s + push_bit (vd_offset s) (ucast (b AND 0x7f)) :: u32"
  show ?case
  proof (cases "b AND 0x80 = 0")
    case True
    then have bs: "bs = []" using Cons.prems(1) by simp
    have "k \<le> 3 \<Longrightarrow> unat ?v = unat (vd_value s) + 2 ^ (7 * k) * unat (b AND 0x7f)"
      using varint_step_bound[OF Cons.prems(4), of b] Cons.prems(2) by (simp add: mult.commute)
    then show ?thesis using True bs Cons.prems(2,3)
      by (cases "k \<le> 3") (auto simp: Let_def)
  next
    case False
    show ?thesis
    proof (cases "k \<le> 3")
      case True
      let ?s = "s\<lparr>vd_value := ?v, vd_offset := vd_offset s + 7\<rparr>"
      have v: "unat ?v = unat (vd_value s) + unat (b AND 0x7f) * 2 ^ (7 * k)"
        and le: "unat ?v \<le> 126 + 2 ^ (7 * Suc k)"
        using varint_step_bound[OF Cons.prems(4) True, of b] Cons.prems(2) by simp_all
      have "ext_bytes bs" using Cons.prems(1) False by simp
      from Cons.IH[OF this, of ?s "Suc k"] v le Cons.prems(2) True
      obtain st t n where IH: "varint_ext ?s (bs @ r) = (st, t, n)"
        "if Suc k + length bs \<le> 4 \<or> Suc k + length bs = 5 \<and> last bs = 0
         then st = kDecodeDone \<and> n = length bs \<and>
           unat (vd_value t) = unat ?v + 2 ^ (7 * Suc k) * ext_value bs
         else st = kDecodeError"
        by auto
      have off: "vd_offset s + 7 \<le> 28" using True Cons.prems(2) by simp
      have "bs \<noteq> []" using \<open>ext_bytes bs\<close> by auto
      then show ?thesis using False IH off v
        by (auto simp: Let_def algebra_simps power_add split: if_splits)
    next
      case False2: False
      then have "bs \<noteq> []" "k = 4" using Cons.prems(1,3) False by auto
      then show ?thesis using False Cons.prems(2) by (cases bs) (auto simp: Let_def)
    qed
  qed
qed simp

lemma VarintDecoder_StartExtended_value:
  assumes "ext_bytes ext" "unat m \<le> 127" "rest db = ext @ r"
  shows "\<exists>t n. VarintDecoder_StartExtended s m db =
      (if ext_accepted ext then kDecodeDone else kDecodeError, t, AdvanceCursor db n) \<and>
    (ext_accepted ext \<longrightarrow> n = length ext \<and> unat (vd_value t) = unat m + ext_value ext)"
proof -
  let ?s = "s\<lparr>vd_value := ucast m, vd_offset := 0\<rparr>"
  from varint_ext_correct[OF assms(1), of ?s 0 r] assms(2)
  obtain st t n where "varint_ext ?s (ext @ r) = (st, t, n)"
    "if ext_accepted ext then st = kDecodeDone \<and> n = length ext \<and> unat (vd_value t) = unat m + ext_value ext
     else st = kDecodeError"
    by (auto simp: ext_accepted_def)
  then show ?thesis
    using assms(3) by (auto simp: VarintDecoder_StartExtended_def VarintDecoder_Resume_at split: if_splits)
qed

lemma varint_ext_done_ext:
  "varint_ext s xs = (kDecodeDone, t, n) \<Longrightarrow> ext_bytes (take n xs)"
  by (induction s xs arbitrary: t n rule: varint_ext.induct)
    (auto simp: Let_def split: if_splits prod.splits)

lemma ext_value_less: "ext_value bs < 128 ^ length bs"
proof (induction bs)
  case (Cons b bs)
  have "unat (b AND 0x7f) + 128 * ext_value bs < 128 * 128 ^ length bs"
    using unat_and_7f[of b] Cons.IH by linarith
  then show ?case by simp
qed simp

lemma ext_value_accepted: "ext_bytes bs \<Longrightarrow> ext_accepted bs \<Longrightarrow> ext_value bs < 2 ^ 28"
proof -
  assume "ext_accepted bs"
  then consider "length bs \<le> 4" | cs where "bs = cs @ [0]" "length cs = 4"
    by (cases bs rule: rev_cases) (auto simp: ext_accepted_def)
  then show ?thesis
  proof cases
    case 1
    then have "128 ^ length bs \<le> (128 ^ 4 :: nat)" by (intro power_increasing) auto
    then show ?thesis using ext_value_less[of bs] by simp
  next
    case 2
    have "ext_value (cs @ [0]) = ext_value cs" by (induction cs) auto
    then show ?thesis using ext_value_less[of cs] 2 by simp
  qed
qed

text \<open>
  C13: Whatever the input, when the decoder reports an integer it has read one complete run of
  extension bytes, the 32-bit accumulator has not wrapped, and the integer is at most
  268,435,582 (the largest value the class promises to decode).
\<close>

theorem varint_done_bound:
  assumes "VarintDecoder_StartExtended s m db = (kDecodeDone, t, db')" "unat m \<le> 127"
  shows "\<exists>ext r. rest db = ext @ r \<and> rest db' = r \<and> ext_bytes ext \<and>
    unat (vd_value t) = unat m + ext_value ext \<and> unat (vd_value t) \<le> 268435582"
proof -
  let ?s = "s\<lparr>vd_value := ucast m, vd_offset := 0\<rparr>"
  obtain n where n: "varint_ext ?s (rest db) = (kDecodeDone, t, n)" "db' = AdvanceCursor db n"
    using assms(1) by (cases "varint_ext ?s (rest db)")
      (auto simp: VarintDecoder_StartExtended_def VarintDecoder_Resume_at)
  let ?e = "take n (rest db)"
  have e: "ext_bytes ?e" by (rule varint_ext_done_ext[OF n(1)])
  from VarintDecoder_StartExtended_value[OF this assms(2), of db "drop n (rest db)" s] assms(1)
  have "ext_accepted ?e" "unat (vd_value t) = unat m + ext_value ?e"
    by (auto split: if_splits)
  with e ext_value_accepted[OF e] assms(2) show ?thesis
    by (intro exI[of _ ?e] exI[of _ "drop n (rest db)"]) (simp add: n(2) rest_simps)
qed

theorem varint_done_bound_witness:
  "\<exists>ext r. [0x9a, 0x0a] = ext @ r \<and> r = [] \<and> ext_bytes ext \<and>
    1337 = 31 + ext_value ext \<and> (1337 :: nat) \<le> 268435582"
proof -
  let ?db = "mkDecodeBuffer [0x9a, 0x0a]" and ?t = "\<lparr>vd_value = 1337, vd_offset = 7\<rparr>"
  have "VarintDecoder_StartExtended \<lparr>vd_value = 0, vd_offset = 0\<rparr> 31 ?db = (kDecodeDone, ?t, AdvanceCursor ?db (Suc (Suc 0)))"
    by (simp add: VarintDecoder_StartExtended_def VarintDecoder_Resume_at)
  from varint_done_bound[OF this] show ?thesis by (simp add: rest_AdvanceCursor)
qed

text \<open>
  C12: An encoded integer may be cut anywhere by the transport. For every sequence of buffers that
  starts with a complete run of extension bytes the decoder accepts exactly the runs of at most
  four bytes (or five whose last is 0), returns the integer they encode, and leaves the bytes
  after the run unread.
\<close>

theorem varint_fragments:
  assumes "ext_bytes ext" "unat (m :: byte) \<le> 127" "concat css = ext @ r" "css \<noteq> []"
  shows "\<exists>t r'. feed VarintDecoder_run (s\<lparr>vd_value := ucast m, vd_offset := 0\<rparr>) css =
      (if ext_accepted ext then kDecodeDone else kDecodeError, t, r') \<and>
    (ext_accepted ext \<longrightarrow> r' = r \<and> unat (vd_value t) = unat m + ext_value ext)"
proof -
  let ?s = "s\<lparr>vd_value := ucast m, vd_offset := 0\<rparr>"
  have "feed VarintDecoder_run ?s css = unread (VarintDecoder_StartExtended s m (mkDecodeBuffer (ext @ r)))"
    using assms(3,4) by (simp add: varint.feed_whole VarintDecoder_run_def VarintDecoder_StartExtended_def)
  then show ?thesis
    using VarintDecoder_StartExtended_value[OF assms(1,2), of "mkDecodeBuffer (ext @ r)" r s]
    by (auto simp: rest_simps)
qed

theorem varint_fragments_witness:
  "\<exists>t r'. feed VarintDecoder_run \<lparr>vd_value = 31, vd_offset = 0\<rparr> [[0x9a], [], [0x0a, 0x77]] = (kDecodeDone, t, r') \<and>
    r' = [0x77] \<and> unat (vd_value t) = 1337"
  using varint_fragments[of "[0x9a, 0x0a]" 31 "[[0x9a], [], [0x0a, 0x77]]" "[0x77]" "\<lparr>vd_value = 0, vd_offset = 0\<rparr>"]
  by (simp add: ext_accepted_def del: feed.simps)

end
