(* ===== verification/Hpack_Output_Stream.thy ===== *)
theory Hpack_Output_Stream
  imports Hpack_Varint
begin

text \<open>
  \<^verbatim>\<open>spdy/hpack/hpack_output_stream.cc\<close>: the bit-oriented output stream of the HPACK encoder.
  A stream is looked at through \<open>stream_bits\<close>, the bits written so far; the central fact is that
  \<open>AppendBits\<close> appends the bits it is given, across byte boundaries.
\<close>

record HpackOutputStream =
  os_buffer :: bytes
  os_bit_offset :: nat

record HpackPrefix =
  hp_bits :: byte
  hp_bit_size :: nat

definition HpackOutputStream_empty :: HpackOutputStream where
  "HpackOutputStream_empty = \<lparr>os_buffer = [], os_bit_offset = 0\<rparr>"

definition AppendBits :: "byte \<Rightarrow> nat \<Rightarrow> HpackOutputStream \<Rightarrow> HpackOutputStream" where
  "AppendBits bits bit_size s =
     (let new_bit_offset = os_bit_offset s + bit_size;
          buf = os_buffer s;
          buf' = (if os_bit_offset s = 0 then buf @ [push_bit (8 - bit_size) bits]
                  else if new_bit_offset \<le> 8 then
                    buf[length buf - 1 := last buf OR push_bit (8 - new_bit_offset) bits]
                  else
                    buf[length buf - 1 := last buf OR drop_bit (new_bit_offset - 8) bits]
                      @ [push_bit (16 - new_bit_offset) bits])
      in \<lparr>os_buffer = buf', os_bit_offset = new_bit_offset mod 8\<rparr>)"

definition AppendPrefix :: "HpackPrefix \<Rightarrow> HpackOutputStream \<Rightarrow> HpackOutputStream" where
  "AppendPrefix p s = AppendBits (hp_bits p) (hp_bit_size p) s"

definition AppendBytes :: "bytes \<Rightarrow> HpackOutputStream \<Rightarrow> HpackOutputStream" where
  "AppendBytes b s = s\<lparr>os_buffer := os_buffer s @ b\<rparr>"

function AppendUint32_loop :: "u32 \<Rightarrow> HpackOutputStream \<Rightarrow> HpackOutputStream" where
  "AppendUint32_loop I s =
     (if I AND NOT 0x7f \<noteq> 0 then
        AppendUint32_loop (drop_bit 7 I)
          (s\<lparr>os_buffer := os_buffer s @ [ucast ((I AND 0x7f) OR 0x80)]\<rparr>)
      else AppendBits (ucast I) 8 s)"
  by pat_completeness auto
termination
proof (relation "measure (\<lambda>(I, s). unat I)")
  fix I :: u32 and s :: HpackOutputStream
  assume "I AND NOT 0x7f \<noteq> 0"
  then have "0 < unat I" by (cases "I = 0") (auto simp: unat_gt_0)
  then have "drop_bit 7 (unat I) < unat I" by (simp add: drop_bit_eq_div)
  then show "((drop_bit 7 I, s\<lparr>os_buffer := os_buffer s @ [ucast ((I AND 0x7f) OR 0x80)]\<rparr>), I, s)
      \<in> measure (\<lambda>(I, s). unat I)"
    by (simp only: in_measure case_prod_conv unat_drop_bit_eq)
qed simp

declare AppendUint32_loop.simps [simp del]

definition AppendUint32 :: "u32 \<Rightarrow> HpackOutputStream \<Rightarrow> HpackOutputStream" where
  "AppendUint32 I s =
     (let N = 8 - os_bit_offset s; max_first_byte = (push_bit N 1 - 1 :: byte)
      in if I < ucast max_first_byte then AppendBits (ucast I) N s
         else AppendUint32_loop (I - ucast max_first_byte) (AppendBits max_first_byte N s))"

definition TakeString :: "HpackOutputStream \<Rightarrow> bytes \<times> HpackOutputStream" where
  "TakeString s = (os_buffer s, \<lparr>os_buffer = [], os_bit_offset = 0\<rparr>)"

definition BoundedTakeString :: "nat \<Rightarrow> HpackOutputStream \<Rightarrow> bytes \<times> HpackOutputStream" where
  "BoundedTakeString max_size s =
     (if length (os_buffer s) > max_size then
        (take max_size (os_buffer s), s\<lparr>os_buffer := drop max_size (os_buffer s)\<rparr>)
      else TakeString s)"

section \<open>The bits of a stream\<close>

definition stream_ok :: "HpackOutputStream \<Rightarrow> bool" where
  "stream_ok s \<longleftrightarrow> os_bit_offset s < 8 \<and>
     (0 < os_bit_offset s \<longrightarrow>
        os_buffer s \<noteq> [] \<and> (\<forall>i. i < 8 - os_bit_offset s \<longrightarrow> \<not> bit (last (os_buffer s)) i))"

definition stream_bits :: "HpackOutputStream \<Rightarrow> bool list" where
  "stream_bits s =
     (if os_bit_offset s = 0 then bytes_bits (os_buffer s)
      else bytes_bits (butlast (os_buffer s)) @ take (os_bit_offset s) (byte_bits (last (os_buffer s))))"

lemma nth_byte_bits [simp]: "i < 8 \<Longrightarrow> byte_bits b ! i = bit b (7 - i)"
  by (simp add: byte_bits_def bit_unsigned_iff)

lemma byte_bits_push:
  assumes "n \<le> 8" "unat (c :: byte) < 2 ^ n"
  shows "take n (byte_bits (push_bit (8 - n) c)) = bits_of (unat c) n"
  using assms by (intro nth_equalityI) (auto simp: bit_simps)

lemma small_not_bit: "unat (c :: 'a :: len word) < 2 ^ k \<Longrightarrow> k \<le> n \<Longrightarrow> \<not> bit c n"
proof -
  assume "unat c < 2 ^ k" "k \<le> n"
  then have "unat c < 2 ^ n" by (meson less_le_trans one_le_numeral power_increasing)
  then have "\<not> bit (unat c) n" by (simp add: bit_iff_odd)
  then show ?thesis by (auto simp: bit_unsigned_iff dest: bit_imp_le_length)
qed

lemma byte_bits_or_push:
  assumes "off + n \<le> 8" "unat (c :: byte) < 2 ^ n" "\<And>i. i < 8 - off \<Longrightarrow> \<not> bit l i"
  shows "take (off + n) (byte_bits (l OR push_bit (8 - (off + n)) c))
    = take off (byte_bits l) @ bits_of (unat c) n"
proof (rule nth_equalityI)
  fix i assume "i < length (take (off + n) (byte_bits (l OR push_bit (8 - (off + n)) c)))"
  then have i: "i < off + n" by simp
  show "take (off + n) (byte_bits (l OR push_bit (8 - (off + n)) c)) ! i
      = (take off (byte_bits l) @ bits_of (unat c) n) ! i"
  proof (cases "i < off")
    case True
    then have "\<not> bit c (7 - i - (8 - (off + n)))"
      using assms(1) by (intro small_not_bit[OF assms(2)]) linarith
    then show ?thesis using True i assms(1) by (auto simp: nth_append bit_simps)
  next
    case False
    then have "\<not> bit l (7 - i)" "7 - i - (8 - (off + n)) = n - Suc (i - off)" "8 - (off + n) \<le> 7 - i"
      using i assms by (auto simp: assms(3))
    then show ?thesis using False i assms(1) by (auto simp: nth_append bit_simps)
  qed
qed (use assms in simp)

lemma byte_bits_or_spill:
  assumes "8 < off + n" "off < 8" "n \<le> 8" "unat (c :: byte) < 2 ^ n" "\<And>i. i < 8 - off \<Longrightarrow> \<not> bit l i"
  shows "byte_bits (l OR drop_bit (off + n - 8) c) @ take (off + n - 8) (byte_bits (push_bit (16 - (off + n)) c))
    = take off (byte_bits l) @ bits_of (unat c) n" (is "?L = ?R")
proof (rule nth_equalityI)
  show "length ?L = length ?R" using assms by simp
  fix i assume "i < length ?L"
  then have i: "i < off + n" using assms by simp
  consider "i < off" | "off \<le> i" "i < 8" | "8 \<le> i" by linarith
  then show "?L ! i = ?R ! i"
  proof cases
    case 1
    then have "\<not> bit c (off + n - 8 + (7 - i))"
      using assms(1) by (intro small_not_bit[OF assms(4)]) linarith
    then show ?thesis using 1 assms(2) by (auto simp: nth_append bit_simps)
  next
    case 2
    then have "\<not> bit l (7 - i)" "off + n - 8 + (7 - i) = n - Suc (i - off)"
      using i assms by (auto simp: assms(5))
    then show ?thesis using 2 i assms(1-3) by (auto simp: nth_append bit_simps)
  next
    case 3
    then have "7 - (i - 8) - (16 - (off + n)) = n - Suc (i - off)" "16 - (off + n) \<le> 7 - (i - 8)"
      using i assms by auto
    then show ?thesis using 3 i assms(1-3) by (auto simp: nth_append bit_simps)
  qed
qed

lemma snoc_update_last: "(xs @ [x])[length (xs @ [x]) - 1 := y] = xs @ [y]"
  by simp

lemma AppendBits_ok_bits:
  assumes "stream_ok s" "0 < n" "n \<le> 8" "unat c < 2 ^ n"
  shows "stream_ok (AppendBits c n s) \<and> stream_bits (AppendBits c n s) = stream_bits s @ bits_of (unat c) n"
proof (cases "os_bit_offset s = 0")
  case True
  have b: "stream_bits s = bytes_bits (os_buffer s)" using True by (simp add: stream_bits_def)
  have A: "AppendBits c n s =
      \<lparr>os_buffer = os_buffer s @ [push_bit (8 - n) c], os_bit_offset = n mod 8\<rparr>"
    using True by (simp add: AppendBits_def)
  have low: "\<not> bit (push_bit (8 - n) c) i" if "i < 8 - n" for i
    using that by (simp add: bit_push_bit_iff)
  show ?thesis
  proof (cases "n = 8")
    case True
    then show ?thesis unfolding A b by (simp add: stream_ok_def stream_bits_def byte_bits_def)
  next
    case False
    then have "n mod 8 = n" using assms(3) by simp
    then show ?thesis using low byte_bits_push[OF assms(3,4)] assms(2,3) False
      unfolding A b by (simp add: stream_ok_def stream_bits_def)
  qed
next
  case False
  define off where "off = os_bit_offset s"
  have off: "off < 8" "0 < off" using assms(1) False by (auto simp: stream_ok_def off_def)
  obtain xs l where buf: "os_buffer s = xs @ [l]"
    using assms(1) False by (cases "os_buffer s" rule: rev_cases) (auto simp: stream_ok_def)
  have l: "\<And>i. i < 8 - off \<Longrightarrow> \<not> bit l i"
    using assms(1) off by (auto simp: stream_ok_def off_def buf)
  show ?thesis
  proof (cases "off + n \<le> 8")
    case True
    have "\<And>i. i < 8 - (off + n) \<Longrightarrow> \<not> bit (l OR push_bit (8 - (off + n)) c) i"
      using l by (auto simp: bit_simps)
    moreover have "off + n = 8 \<Longrightarrow> byte_bits (l OR c) = take off (byte_bits l) @ bits_of (unat c) n"
      using byte_bits_or_push[OF True assms(4), of l] l by simp
    ultimately show ?thesis using True off byte_bits_or_push[OF True assms(4), of l] l
      by (cases "off + n = 8")
        (auto simp: AppendBits_def Let_def stream_ok_def stream_bits_def buf simp flip: off_def)
  next
    case False
    have "\<And>i. i < 8 - (off + n - 8) \<Longrightarrow> \<not> bit (push_bit (16 - (off + n)) c) i"
      using False by (auto simp: bit_simps)
    then show ?thesis using False off assms(2,3) byte_bits_or_spill[of off n c l] l assms(4)
      by (auto simp: AppendBits_def Let_def stream_ok_def stream_bits_def buf butlast_append le_mod_geq mod_if simp flip: off_def)
  qed
qed

section \<open>Integers\<close>

text \<open>The extension bytes RFC 7541 gives an integer, over unbounded naturals.\<close>

fun ext_encode :: "nat \<Rightarrow> bytes" where
  "ext_encode n = (if n < 128 then [of_nat n] else of_nat (n mod 128 + 128) # ext_encode (n div 128))"

lemma and_not_7f: "(I :: u32) AND - 128 = 0 \<longleftrightarrow> unat I < 128"
proof
  have m: "- 128 = (NOT (mask 7) :: u32)" by (simp add: mask_eq_exp_minus_1)
  {
    assume "I AND - 128 = 0"
    then have "I = take_bit 7 I"
      unfolding m by (auto simp: bit_eq_iff bit_simps)
    then have "unat I = take_bit 7 (unat I)" by (metis unsigned_take_bit_eq)
    also have "\<dots> < 2 ^ 7" by (rule take_bit_nat_less_exp)
    finally show "unat I < 128" by simp
  next
    assume "unat I < 128"
    then show "I AND - 128 = 0"
      using small_not_bit[of I 7] unfolding m by (auto simp: bit_eq_iff bit_simps not_less[symmetric])
  }
qed

lemma take_bit_plus_exp: "take_bit n (m :: nat) + 2 ^ n = take_bit n m OR 2 ^ n"
  by (rule disjunctive_add) (auto simp: bit_simps)

lemma ucast_low_flag:
  "ucast (take_bit n (I :: u32) OR push_bit n 1) = (of_nat (take_bit n (unat I) + 2 ^ n) :: byte)"
proof (rule bit_word_eqI)
  fix k assume "k < LENGTH(8)"
  then show "bit (ucast (take_bit n I OR push_bit n 1) :: byte) k = bit (of_nat (take_bit n (unat I) + 2 ^ n) :: byte) k"
    unfolding take_bit_plus_exp by (auto simp: bit_simps)
qed

lemma byte_of_low7: "ucast (((I :: u32) AND 0x7f) OR 0x80) = (of_nat (unat I mod 128 + 128) :: byte)"
proof -
  have "I AND 0x7f = take_bit 7 I" by (simp add: take_bit_eq_mask mask_eq_exp_minus_1)
  moreover have "unat I mod 128 = take_bit 7 (unat I)" by (simp add: take_bit_eq_mod)
  ultimately show ?thesis using ucast_low_flag[of 7 I] by (simp add: push_bit_eq_mult)
qed

lemma unat_and_7f_mod: "unat ((b :: byte) AND 0x7f) = unat b mod 128"
proof -
  have "b AND 0x7f = take_bit 7 b" by (simp add: take_bit_eq_mask mask_eq_exp_minus_1)
  then have "unat (b AND 0x7f) = take_bit 7 (unat b)" by (simp only: unsigned_take_bit_eq)
  then show ?thesis by (simp add: take_bit_eq_mod)
qed

lemma and_80_iff: "(b :: byte) AND 0x80 = 0 \<longleftrightarrow> unat b < 128"
proof -
  have "b AND 0x80 = 0 \<longleftrightarrow> \<not> bit b 7" using and_exp_eq_0_iff_not_bit[of b 7] by simp
  also have "bit b 7 = odd (unat b div 128)"
    using bit_unsigned_iff[where 'a = nat, of b 7] by (simp add: bit_iff_odd[where 'a = nat])
  also have "\<dots> = (\<not> unat b < 128)" 
  proof -
    have "unat b < 256" using unsigned_less[of b, where 'a = nat] by simp
    then have "unat b div 128 < 2" by (simp add: div_less_iff_less_mult)
    then have "odd (unat b div 128) \<longleftrightarrow> unat b div 128 \<noteq> 0"
      by (cases "unat b div 128") (auto simp: less_Suc_eq numeral_2_eq_2)
    then show ?thesis by (simp add: div_eq_0_iff)
  qed
  finally show ?thesis by simp
qed

declare ext_encode.simps [simp del]

lemma unat_byte_of_nat: "n < 256 \<Longrightarrow> unat (of_nat n :: byte) = n"
  by (simp add: unat_of_nat)

lemma ext_encode_ok:
  "ext_bytes (ext_encode n) \<and> ext_value (ext_encode n) = n"
proof (induction n rule: ext_encode.induct)
  case (1 n)
  show ?case
  proof (cases "n < 128")
    case True
    then show ?thesis
      by (simp add: ext_encode.simps[of n] and_80_iff unat_and_7f_mod unat_byte_of_nat)
  next
    case False
    have m: "unat (of_nat (n mod 128 + 128) :: byte) = n mod 128 + 128"
      by (rule unat_byte_of_nat) (use mod_less_divisor[of 128 n] in linarith)
    show ?thesis using 1[OF False] False
      by (simp only: ext_encode.simps[of n] if_False ext_bytes.simps ext_value.simps
           and_80_iff unat_and_7f_mod m) simp
  qed
qed

lemma ext_encode_ne [simp]: "ext_encode n \<noteq> []"
  by (subst ext_encode.simps) simp

lemma ext_encode_last: "last (ext_encode n) = 0 \<longleftrightarrow> n = 0"
proof (induction n rule: ext_encode.induct)
  case (1 n)
  have "n < 128 \<Longrightarrow> (of_nat n :: byte) = 0 \<longleftrightarrow> n = 0"
    using unat_byte_of_nat[of n] by (auto simp: word_unat_eq_iff)
  then show ?case using 1 by (cases "n < 128") (simp_all add: ext_encode.simps[of n] div_eq_0_iff)
qed

lemma ext_encode_length: "length (ext_encode n) \<le> Suc k \<longleftrightarrow> n < 128 ^ Suc k"
proof (induction k arbitrary: n)
  case 0
  show ?case by (auto simp: ext_encode.simps[of n])
next
  case (Suc k)
  have "n div 128 < 128 ^ Suc k \<longleftrightarrow> n < 128 ^ Suc (Suc k)"
    by (simp add: div_less_iff_less_mult mult.commute)
  moreover have "n < 128 \<Longrightarrow> n < 128 ^ Suc (Suc k)"
    using power_increasing[of 1 "Suc (Suc k)" "128 :: nat"] by (simp del: power_Suc)
  ultimately show ?case using Suc.IH[of "n div 128"]
    by (cases "n < 128") (simp_all add: ext_encode.simps[of n] del: power_Suc)
qed

lemma ext_encode_accepted: "ext_accepted (ext_encode n) \<longleftrightarrow> n < 2 ^ 28"
proof -
  have "length (ext_encode n) = 5 \<Longrightarrow> last (ext_encode n) \<noteq> 0"
    by (cases "n = 0") (simp_all add: ext_encode_last ext_encode.simps[of 0])
  then show ?thesis using ext_encode_length[of n 3] by (auto simp: ext_accepted_def)
qed

lemma AppendUint32_loop_bytes:
  "os_bit_offset s = 0 \<Longrightarrow>
   AppendUint32_loop I s = s\<lparr>os_buffer := os_buffer s @ ext_encode (unat I)\<rparr>"
proof (induction I s rule: AppendUint32_loop.induct)
  case (1 I s)
  show ?case
  proof (cases "unat I < 128")
    case True
    then show ?thesis using 1(2)
      by (simp add: AppendUint32_loop.simps[of I] and_not_7f AppendBits_def Let_def ext_encode.simps[of "unat I"])
  next
    case False
    have "unat (drop_bit 7 I) = unat I div 128"
      by (simp only: unat_drop_bit_eq) (simp add: drop_bit_eq_div)
    then show ?thesis using 1 False
      by (simp add: and_not_7f ext_encode.simps[of "unat I"] AppendUint32_loop.simps[of I] byte_of_low7)
  qed
qed


lemma AppendUint32_bytes:
  assumes "stream_ok s" "os_buffer s = xs @ [l]" "os_bit_offset s = 8 - N" "0 < N" "N < 8"
  shows "AppendUint32 I s = \<lparr>os_buffer = xs @ [l OR of_nat (min (unat I) (2 ^ N - 1))] @
      (if unat I < 2 ^ N - 1 then [] else ext_encode (unat I - (2 ^ N - 1))), os_bit_offset = 0\<rparr>"
proof -
  define M :: byte where "M = push_bit N 1 - 1"
  have lt: "2 ^ N \<le> (128 :: nat)"
    using power_increasing[of N 7 "2 :: nat"] assms(5) by simp
  have M: "M = of_nat (2 ^ N - 1)" by (simp add: M_def push_bit_eq_mult)
  then have uM: "unat M = 2 ^ N - 1" using lt unat_byte_of_nat[of "2 ^ N - 1"] by (simp only: M)
  then have less: "I < ucast M \<longleftrightarrow> unat I < 2 ^ N - 1" by (simp add: word_less_nat_alt)
  have off: "8 - os_bit_offset s = N" using assms(3-5) by simp
  have A: "AppendBits c N s = \<lparr>os_buffer = xs @ [l OR c], os_bit_offset = 0\<rparr>" for c
    using assms(2-5) by (simp add: AppendBits_def Let_def)
  have e: "AppendUint32 I s = (if I < ucast M then AppendBits (ucast I) N s
      else AppendUint32_loop (I - ucast M) (AppendBits M N s))"
    by (simp only: AppendUint32_def Let_def off M_def)
  show ?thesis
  proof (cases "unat I < 2 ^ N - 1")
    case True
    then show ?thesis unfolding e by (simp add: less A)
  next
    case False
    then have "unat (I - ucast M) = unat I - (2 ^ N - 1)"
      using uM by (simp add: unat_sub word_le_nat_alt)
    then show ?thesis using False unfolding e
      by (simp add: less A AppendUint32_loop_bytes) (simp add: M)
  qed
qed

lemma flag_or_value:
  fixes l :: byte
  assumes "\<And>i. i < N \<Longrightarrow> \<not> bit l i" "unat c < 2 ^ N" "N < 8"
  shows "(l OR c) AND (2 ^ N - 1) = c" "(l OR c) AND NOT (2 ^ N - 1) = l"
proof -
  have c: "bit c i \<Longrightarrow> i < N" for i using small_not_bit[OF assms(2), of i] by force
  have l: "bit l i \<Longrightarrow> \<not> i < N" for i using assms(1) by blast
  show "(l OR c) AND (2 ^ N - 1) = c" "(l OR c) AND NOT (2 ^ N - 1) = l"
    unfolding mask_eq_exp_minus_1[symmetric]
    by (rule bit_word_eqI, use c l in \<open>auto simp: bit_simps\<close>)+
qed

text \<open>
  C14: What the encoder's \<open>AppendUint32\<close> writes after an opcode of \<open>8 - N\<close> bits, the decoder's
  \<open>Start\<close> reads back: the opcode bits are kept, an integer below \<open>2^28 + 2^N - 1\<close> is returned
  unchanged with the bytes that follow left unread, and a larger one is refused.
\<close>

theorem varint_roundtrip:
  assumes "stream_ok s" "os_buffer s = xs @ [l]" "os_bit_offset s = 8 - N" "0 < N" "N < 8"
  shows "\<exists>b ext t db. os_buffer (AppendUint32 I s) = xs @ b # ext \<and> b AND NOT (2 ^ N - 1) = l \<and>
    VarintDecoder_Start v b (2 ^ N - 1) (mkDecodeBuffer (ext @ r)) =
      (if unat I < 2 ^ 28 + (2 ^ N - 1) then kDecodeDone else kDecodeError, t, db) \<and>
    (unat I < 2 ^ 28 + (2 ^ N - 1) \<longrightarrow> vd_value t = I \<and> rest db = r)"
proof -
  define M :: nat where "M = 2 ^ N - 1"
  define c :: byte where "c = of_nat (min (unat I) M)"
  define ext where "ext = (if unat I < M then [] else ext_encode (unat I - M))"
  have lt: "2 ^ N \<le> (128 :: nat)" using power_increasing[of N 7 "2 :: nat"] assms(5) by simp
  have "M < 256" using lt by (simp add: M_def)
  then have M: "2 ^ N - 1 = (of_nat M :: byte)" "unat (of_nat M :: byte) = M"
    by (simp add: M_def, rule unat_byte_of_nat)
  have c: "unat c = min (unat I) M" unfolding c_def using lt by (intro unat_byte_of_nat) (simp add: M_def)
  have cN: "unat c < 2 ^ N" using c by (simp add: M_def min_less_iff_disj)
  have l: "\<And>i. i < N \<Longrightarrow> \<not> bit l i" using assms by (auto simp: stream_ok_def)
  note flag = flag_or_value[OF l cN assms(5)]
  have out: "os_buffer (AppendUint32 I s) = xs @ (l OR c) # ext"
    using AppendUint32_bytes[OF assms, of I] by (simp add: c_def ext_def M_def)
  have "\<exists>t db. VarintDecoder_Start v (l OR c) (2 ^ N - 1) (mkDecodeBuffer (ext @ r)) =
      (if unat I < 2 ^ 28 + M then kDecodeDone else kDecodeError, t, db) \<and>
    (unat I < 2 ^ 28 + M \<longrightarrow> vd_value t = I \<and> rest db = r)"
  proof (cases "unat I < M")
    case True
    then show ?thesis using c M flag(1)
      by (simp add: VarintDecoder_Start_def ext_def word_less_nat_alt word_unat_eq_iff)
  next
    case False
    have s: "VarintDecoder_Start v (l OR c) (2 ^ N - 1) (mkDecodeBuffer (ext @ r))
        = VarintDecoder_StartExtended v (of_nat M) (mkDecodeBuffer (ext @ r))"
      using False c M flag(1)
      by (simp add: VarintDecoder_Start_def VarintDecoder_StartExtended_def word_less_nat_alt c_def)
    have "M \<le> 127" using lt by (simp add: M_def)
    with VarintDecoder_StartExtended_value[of "ext_encode (unat I - M)" "of_nat M" "mkDecodeBuffer (ext @ r)" r v]
      ext_encode_ok[of "unat I - M"] ext_encode_accepted[of "unat I - M"] False M
    show ?thesis unfolding s by (auto simp: ext_def rest_simps word_unat_eq_iff)
  qed
  then show ?thesis using out flag(2) by (auto simp: M_def)
qed

theorem varint_roundtrip_witness:
  "\<exists>b ext t db. os_buffer (AppendUint32 1337 \<lparr>os_buffer = [0xe0], os_bit_offset = 3\<rparr>) = [] @ b # ext \<and>
    b AND NOT (2 ^ 5 - 1) = 0xe0 \<and>
    VarintDecoder_Start \<lparr>vd_value = 0, vd_offset = 0\<rparr> b (2 ^ 5 - 1) (mkDecodeBuffer (ext @ [0x01])) =
      (kDecodeDone, t, db) \<and> vd_value t = 1337 \<and> rest db = [0x01]"
proof -
  let ?s = "\<lparr>os_buffer = [0xe0], os_bit_offset = 3\<rparr>"
  have "\<not> bit (push_bit 5 7 :: byte) i" if "i < 5" for i using that by (subst bit_push_bit_iff) simp
  then have ok: "stream_ok ?s" by (simp add: stream_ok_def)
  have s: "os_buffer ?s = [] @ [0xe0]" "os_bit_offset ?s = 8 - 5" "0 < (5 :: nat)" "5 < (8 :: nat)"
    by simp_all
  have "unat (1337 :: u32) < 2 ^ 28 + (2 ^ 5 - 1)" by simp
  then show ?thesis using varint_roundtrip[OF ok s, of 1337 "\<lparr>vd_value = 0, vd_offset = 0\<rparr>" "[0x01]"]
    by (simp only: if_True simp_thms)
qed

end
