(* ===== verification/Hpack_Huffman_Tables.thy ===== *)
theory Hpack_Huffman_Tables
  imports Net_Prelude
begin

text \<open>
  The tables of the Huffman code: from \<^verbatim>\<open>http2/hpack/huffman/http2_hpack_huffman_decoder.cc\<close> the
  decoder's \<open>PrefixToInfo\<close>, \<open>kCanonicalToSymbol\<close> and \<open>kShortCodeTable\<close>, and from
  \<^verbatim>\<open>spdy/hpack/hpack_constants.cc\<close> the encoder's code table.
\<close>

record PrefixInfo =
  pi_first_code :: u32
  pi_code_length :: nat
  pi_first_canonical :: nat

definition DecodeToCanonical :: "PrefixInfo \<Rightarrow> u32 \<Rightarrow> u32" where
  "DecodeToCanonical p bits =
     (let ordinal_in_length = drop_bit (32 - pi_code_length p) (bits - pi_first_code p)
      in of_nat (pi_first_canonical p) + ordinal_in_length)"

definition PrefixToInfo :: "u32 \<Rightarrow> PrefixInfo" where
  "PrefixToInfo value =
    (if value < 0b10111000000000000000000000000000 then
       (if value < 0b01010000000000000000000000000000 then
         \<lparr>pi_first_code = 0b00000000000000000000000000000000, pi_code_length = 5, pi_first_canonical = 0\<rparr>
       else
         \<lparr>pi_first_code = 0b01010000000000000000000000000000, pi_code_length = 6, pi_first_canonical = 10\<rparr>)
     else
       (if value < 0b11111110000000000000000000000000 then
         (if value < 0b11111000000000000000000000000000 then
           \<lparr>pi_first_code = 0b10111000000000000000000000000000, pi_code_length = 7, pi_first_canonical = 36\<rparr>
         else
           \<lparr>pi_first_code = 0b11111000000000000000000000000000, pi_code_length = 8, pi_first_canonical = 68\<rparr>)
       else
         (if value < 0b11111111110000000000000000000000 then
           (if value < 0b11111111101000000000000000000000 then
             if value < 0b11111111010000000000000000000000 then
               \<lparr>pi_first_code = 0b11111110000000000000000000000000, pi_code_length = 10, pi_first_canonical = 74\<rparr>
             else
               \<lparr>pi_first_code = 0b11111111010000000000000000000000, pi_code_length = 11, pi_first_canonical = 79\<rparr>
           else
             \<lparr>pi_first_code = 0b11111111101000000000000000000000, pi_code_length = 12, pi_first_canonical = 82\<rparr>)
         else
           (if value < 0b11111111111111100000000000000000 then
             (if value < 0b11111111111110000000000000000000 then
               if value < 0b11111111111100000000000000000000 then
                 \<lparr>pi_first_code = 0b11111111110000000000000000000000, pi_code_length = 13, pi_first_canonical = 84\<rparr>
               else
                 \<lparr>pi_first_code = 0b11111111111100000000000000000000, pi_code_length = 14, pi_first_canonical = 90\<rparr>
             else
               \<lparr>pi_first_code = 0b11111111111110000000000000000000, pi_code_length = 15, pi_first_canonical = 92\<rparr>)
           else
             (if value < 0b11111111111111110100100000000000 then
               (if value < 0b11111111111111101110000000000000 then
                 if value < 0b11111111111111100110000000000000 then
                   \<lparr>pi_first_code = 0b11111111111111100000000000000000, pi_code_length = 19, pi_first_canonical = 95\<rparr>
                 else
                   \<lparr>pi_first_code = 0b11111111111111100110000000000000, pi_code_length = 20, pi_first_canonical = 98\<rparr>
               else
                 \<lparr>pi_first_code = 0b11111111111111101110000000000000, pi_code_length = 21, pi_first_canonical = 106\<rparr>)
             else
               (if value < 0b11111111111111111110101000000000 then
                 (if value < 0b11111111111111111011000000000000 then
                   \<lparr>pi_first_code = 0b11111111111111110100100000000000, pi_code_length = 22, pi_first_canonical = 119\<rparr>
                 else
                   \<lparr>pi_first_code = 0b11111111111111111011000000000000, pi_code_length = 23, pi_first_canonical = 145\<rparr>)
               else
                 (if value < 0b11111111111111111111101111000000 then
                   (if value < 0b11111111111111111111100000000000 then
                     if value < 0b11111111111111111111011000000000 then
                       \<lparr>pi_first_code = 0b11111111111111111110101000000000, pi_code_length = 24, pi_first_canonical = 174\<rparr>
                     else
                       \<lparr>pi_first_code = 0b11111111111111111111011000000000, pi_code_length = 25, pi_first_canonical = 186\<rparr>
                   else
                     \<lparr>pi_first_code = 0b11111111111111111111100000000000, pi_code_length = 26, pi_first_canonical = 190\<rparr>)
                 else
                   (if value < 0b11111111111111111111111111110000 then
                     if value < 0b11111111111111111111111000100000 then
                       \<lparr>pi_first_code = 0b11111111111111111111101111000000, pi_code_length = 27, pi_first_canonical = 205\<rparr>
                     else
                       \<lparr>pi_first_code = 0b11111111111111111111111000100000, pi_code_length = 28, pi_first_canonical = 224\<rparr>
                   else
                     \<lparr>pi_first_code = 0b11111111111111111111111111110000, pi_code_length = 30, pi_first_canonical = 253\<rparr>))))))))"

definition kCanonicalToSymbol :: "byte list" where
  "kCanonicalToSymbol =
    [0x30, 0x31, 0x32, 0x61, 0x63, 0x65, 0x69, 0x6f, 0x73, 0x74, 0x20, 0x25, 0x2d, 0x2e, 0x2f, 0x33,
     0x34, 0x35, 0x36, 0x37, 0x38, 0x39, 0x3d, 0x41, 0x5f, 0x62, 0x64, 0x66, 0x67, 0x68, 0x6c, 0x6d,
     0x6e, 0x70, 0x72, 0x75, 0x3a, 0x42, 0x43, 0x44, 0x45, 0x46, 0x47, 0x48, 0x49, 0x4a, 0x4b, 0x4c,
     0x4d, 0x4e, 0x4f, 0x50, 0x51, 0x52, 0x53, 0x54, 0x55, 0x56, 0x57, 0x59, 0x6a, 0x6b, 0x71, 0x76,
     0x77, 0x78, 0x79, 0x7a, 0x26, 0x2a, 0x2c, 0x3b, 0x58, 0x5a, 0x21, 0x22, 0x28, 0x29, 0x3f, 0x27,
     0x2b, 0x7c, 0x23, 0x3e, 0x00, 0x24, 0x40, 0x5b, 0x5d, 0x7e, 0x5e, 0x7d, 0x3c, 0x60, 0x7b, 0x5c,
     0xc3, 0xd0, 0x80, 0x82, 0x83, 0xa2, 0xb8, 0xc2, 0xe0, 0xe2, 0x99, 0xa1, 0xa7, 0xac, 0xb0, 0xb1,
     0xb3, 0xd1, 0xd8, 0xd9, 0xe3, 0xe5, 0xe6, 0x81, 0x84, 0x85, 0x86, 0x88, 0x92, 0x9a, 0x9c, 0xa0,
     0xa3, 0xa4, 0xa9, 0xaa, 0xad, 0xb2, 0xb5, 0xb9, 0xba, 0xbb, 0xbd, 0xbe, 0xc4, 0xc6, 0xe4, 0xe8,
     0xe9, 0x01, 0x87, 0x89, 0x8a, 0x8b, 0x8c, 0x8d, 0x8f, 0x93, 0x95, 0x96, 0x97, 0x98, 0x9b, 0x9d,
     0x9e, 0xa5, 0xa6, 0xa8, 0xae, 0xaf, 0xb4, 0xb6, 0xb7, 0xbc, 0xbf, 0xc5, 0xe7, 0xef, 0x09, 0x8e,
     0x90, 0x91, 0x94, 0x9f, 0xab, 0xce, 0xd7, 0xe1, 0xec, 0xed, 0xc7, 0xcf, 0xea, 0xeb, 0xc0, 0xc1,
     0xc8, 0xc9, 0xca, 0xcd, 0xd2, 0xd5, 0xda, 0xdb, 0xee, 0xf0, 0xf2, 0xf3, 0xff, 0xcb, 0xcc, 0xd3,
     0xd4, 0xd6, 0xdd, 0xde, 0xdf, 0xf1, 0xf4, 0xf5, 0xf6, 0xf7, 0xf8, 0xfa, 0xfb, 0xfc, 0xfd, 0xfe,
     0x02, 0x03, 0x04, 0x05, 0x06, 0x07, 0x08, 0x0b, 0x0c, 0x0e, 0x0f, 0x10, 0x11, 0x12, 0x13, 0x14,
     0x15, 0x17, 0x18, 0x19, 0x1a, 0x1b, 0x1c, 0x1d, 0x1e, 0x1f, 0x7f, 0xdc, 0xf9, 0x0a, 0x0d, 0x16]"

definition kShortCodeTable :: "(byte \<times> nat) list" where
  "kShortCodeTable =
    [(0x30, 5), (0x30, 5), (0x30, 5), (0x30, 5), (0x31, 5), (0x31, 5), (0x31, 5), (0x31, 5),
     (0x32, 5), (0x32, 5), (0x32, 5), (0x32, 5), (0x61, 5), (0x61, 5), (0x61, 5), (0x61, 5),
     (0x63, 5), (0x63, 5), (0x63, 5), (0x63, 5), (0x65, 5), (0x65, 5), (0x65, 5), (0x65, 5),
     (0x69, 5), (0x69, 5), (0x69, 5), (0x69, 5), (0x6f, 5), (0x6f, 5), (0x6f, 5), (0x6f, 5),
     (0x73, 5), (0x73, 5), (0x73, 5), (0x73, 5), (0x74, 5), (0x74, 5), (0x74, 5), (0x74, 5),
     (0x20, 6), (0x20, 6), (0x25, 6), (0x25, 6), (0x2d, 6), (0x2d, 6), (0x2e, 6), (0x2e, 6),
     (0x2f, 6), (0x2f, 6), (0x33, 6), (0x33, 6), (0x34, 6), (0x34, 6), (0x35, 6), (0x35, 6),
     (0x36, 6), (0x36, 6), (0x37, 6), (0x37, 6), (0x38, 6), (0x38, 6), (0x39, 6), (0x39, 6),
     (0x3d, 6), (0x3d, 6), (0x41, 6), (0x41, 6), (0x5f, 6), (0x5f, 6), (0x62, 6), (0x62, 6),
     (0x64, 6), (0x64, 6), (0x66, 6), (0x66, 6), (0x67, 6), (0x67, 6), (0x68, 6), (0x68, 6),
     (0x6c, 6), (0x6c, 6), (0x6d, 6), (0x6d, 6), (0x6e, 6), (0x6e, 6), (0x70, 6), (0x70, 6),
     (0x72, 6), (0x72, 6), (0x75, 6), (0x75, 6), (0x3a, 7), (0x42, 7), (0x43, 7), (0x44, 7),
     (0x45, 7), (0x46, 7), (0x47, 7), (0x48, 7), (0x49, 7), (0x4a, 7), (0x4b, 7), (0x4c, 7),
     (0x4d, 7), (0x4e, 7), (0x4f, 7), (0x50, 7), (0x51, 7), (0x52, 7), (0x53, 7), (0x54, 7),
     (0x55, 7), (0x56, 7), (0x57, 7), (0x59, 7), (0x6a, 7), (0x6b, 7), (0x71, 7), (0x76, 7),
     (0x77, 7), (0x78, 7), (0x79, 7), (0x7a, 7)]"

text \<open>
  Each row: the code, left justified in 32 bits; its length; the symbol (256 is EOS). The table of
  the code is given in two parts.
\<close>

definition HpackHuffmanCode_low :: "(u32 \<times> nat \<times> nat) list" where
  "HpackHuffmanCode_low =
    [(0xffc00000, 13, 0), (0xffffb000, 23, 1), (0xfffffe20, 28, 2), (0xfffffe30, 28, 3),
     (0xfffffe40, 28, 4), (0xfffffe50, 28, 5), (0xfffffe60, 28, 6), (0xfffffe70, 28, 7),
     (0xfffffe80, 28, 8), (0xffffea00, 24, 9), (0xfffffff0, 30, 10), (0xfffffe90, 28, 11),
     (0xfffffea0, 28, 12), (0xfffffff4, 30, 13), (0xfffffeb0, 28, 14), (0xfffffec0, 28, 15),
     (0xfffffed0, 28, 16), (0xfffffee0, 28, 17), (0xfffffef0, 28, 18), (0xffffff00, 28, 19),
     (0xffffff10, 28, 20), (0xffffff20, 28, 21), (0xfffffff8, 30, 22), (0xffffff30, 28, 23),
     (0xffffff40, 28, 24), (0xffffff50, 28, 25), (0xffffff60, 28, 26), (0xffffff70, 28, 27),
     (0xffffff80, 28, 28), (0xffffff90, 28, 29), (0xffffffa0, 28, 30), (0xffffffb0, 28, 31),
     (0x50000000, 6, 32), (0xfe000000, 10, 33), (0xfe400000, 10, 34), (0xffa00000, 12, 35),
     (0xffc80000, 13, 36), (0x54000000, 6, 37), (0xf8000000, 8, 38), (0xff400000, 11, 39),
     (0xfe800000, 10, 40), (0xfec00000, 10, 41), (0xf9000000, 8, 42), (0xff600000, 11, 43),
     (0xfa000000, 8, 44), (0x58000000, 6, 45), (0x5c000000, 6, 46), (0x60000000, 6, 47),
     (0x00000000, 5, 48), (0x08000000, 5, 49), (0x10000000, 5, 50), (0x64000000, 6, 51),
     (0x68000000, 6, 52), (0x6c000000, 6, 53), (0x70000000, 6, 54), (0x74000000, 6, 55),
     (0x78000000, 6, 56), (0x7c000000, 6, 57), (0xb8000000, 7, 58), (0xfb000000, 8, 59),
     (0xfff80000, 15, 60), (0x80000000, 6, 61), (0xffb00000, 12, 62), (0xff000000, 10, 63),
     (0xffd00000, 13, 64), (0x84000000, 6, 65), (0xba000000, 7, 66), (0xbc000000, 7, 67),
     (0xbe000000, 7, 68), (0xc0000000, 7, 69), (0xc2000000, 7, 70), (0xc4000000, 7, 71),
     (0xc6000000, 7, 72), (0xc8000000, 7, 73), (0xca000000, 7, 74), (0xcc000000, 7, 75),
     (0xce000000, 7, 76), (0xd0000000, 7, 77), (0xd2000000, 7, 78), (0xd4000000, 7, 79),
     (0xd6000000, 7, 80), (0xd8000000, 7, 81), (0xda000000, 7, 82), (0xdc000000, 7, 83),
     (0xde000000, 7, 84), (0xe0000000, 7, 85), (0xe2000000, 7, 86), (0xe4000000, 7, 87),
     (0xfc000000, 8, 88), (0xe6000000, 7, 89), (0xfd000000, 8, 90), (0xffd80000, 13, 91),
     (0xfffe0000, 19, 92), (0xffe00000, 13, 93), (0xfff00000, 14, 94), (0x88000000, 6, 95),
     (0xfffa0000, 15, 96), (0x18000000, 5, 97), (0x8c000000, 6, 98), (0x20000000, 5, 99),
     (0x90000000, 6, 100), (0x28000000, 5, 101), (0x94000000, 6, 102), (0x98000000, 6, 103),
     (0x9c000000, 6, 104), (0x30000000, 5, 105), (0xe8000000, 7, 106), (0xea000000, 7, 107),
     (0xa0000000, 6, 108), (0xa4000000, 6, 109), (0xa8000000, 6, 110), (0x38000000, 5, 111),
     (0xac000000, 6, 112), (0xec000000, 7, 113), (0xb0000000, 6, 114), (0x40000000, 5, 115),
     (0x48000000, 5, 116), (0xb4000000, 6, 117), (0xee000000, 7, 118), (0xf0000000, 7, 119),
     (0xf2000000, 7, 120), (0xf4000000, 7, 121), (0xf6000000, 7, 122), (0xfffc0000, 15, 123),
     (0xff800000, 11, 124), (0xfff40000, 14, 125), (0xffe80000, 13, 126), (0xffffffc0, 28, 127)]"

definition HpackHuffmanCode_high :: "(u32 \<times> nat \<times> nat) list" where
  "HpackHuffmanCode_high =
    [(0xfffe6000, 20, 128), (0xffff4800, 22, 129), (0xfffe7000, 20, 130), (0xfffe8000, 20, 131),
     (0xffff4c00, 22, 132), (0xffff5000, 22, 133), (0xffff5400, 22, 134), (0xffffb200, 23, 135),
     (0xffff5800, 22, 136), (0xffffb400, 23, 137), (0xffffb600, 23, 138), (0xffffb800, 23, 139),
     (0xffffba00, 23, 140), (0xffffbc00, 23, 141), (0xffffeb00, 24, 142), (0xffffbe00, 23, 143),
     (0xffffec00, 24, 144), (0xffffed00, 24, 145), (0xffff5c00, 22, 146), (0xffffc000, 23, 147),
     (0xffffee00, 24, 148), (0xffffc200, 23, 149), (0xffffc400, 23, 150), (0xffffc600, 23, 151),
     (0xffffc800, 23, 152), (0xfffee000, 21, 153), (0xffff6000, 22, 154), (0xffffca00, 23, 155),
     (0xffff6400, 22, 156), (0xffffcc00, 23, 157), (0xffffce00, 23, 158), (0xffffef00, 24, 159),
     (0xffff6800, 22, 160), (0xfffee800, 21, 161), (0xfffe9000, 20, 162), (0xffff6c00, 22, 163),
     (0xffff7000, 22, 164), (0xffffd000, 23, 165), (0xffffd200, 23, 166), (0xfffef000, 21, 167),
     (0xffffd400, 23, 168), (0xffff7400, 22, 169), (0xffff7800, 22, 170), (0xfffff000, 24, 171),
     (0xfffef800, 21, 172), (0xffff7c00, 22, 173), (0xffffd600, 23, 174), (0xffffd800, 23, 175),
     (0xffff0000, 21, 176), (0xffff0800, 21, 177), (0xffff8000, 22, 178), (0xffff1000, 21, 179),
     (0xffffda00, 23, 180), (0xffff8400, 22, 181), (0xffffdc00, 23, 182), (0xffffde00, 23, 183),
     (0xfffea000, 20, 184), (0xffff8800, 22, 185), (0xffff8c00, 22, 186), (0xffff9000, 22, 187),
     (0xffffe000, 23, 188), (0xffff9400, 22, 189), (0xffff9800, 22, 190), (0xffffe200, 23, 191),
     (0xfffff800, 26, 192), (0xfffff840, 26, 193), (0xfffeb000, 20, 194), (0xfffe2000, 19, 195),
     (0xffff9c00, 22, 196), (0xffffe400, 23, 197), (0xffffa000, 22, 198), (0xfffff600, 25, 199),
     (0xfffff880, 26, 200), (0xfffff8c0, 26, 201), (0xfffff900, 26, 202), (0xfffffbc0, 27, 203),
     (0xfffffbe0, 27, 204), (0xfffff940, 26, 205), (0xfffff100, 24, 206), (0xfffff680, 25, 207),
     (0xfffe4000, 19, 208), (0xffff1800, 21, 209), (0xfffff980, 26, 210), (0xfffffc00, 27, 211),
     (0xfffffc20, 27, 212), (0xfffff9c0, 26, 213), (0xfffffc40, 27, 214), (0xfffff200, 24, 215),
     (0xffff2000, 21, 216), (0xffff2800, 21, 217), (0xfffffa00, 26, 218), (0xfffffa40, 26, 219),
     (0xffffffd0, 28, 220), (0xfffffc60, 27, 221), (0xfffffc80, 27, 222), (0xfffffca0, 27, 223),
     (0xfffec000, 20, 224), (0xfffff300, 24, 225), (0xfffed000, 20, 226), (0xffff3000, 21, 227),
     (0xffffa400, 22, 228), (0xffff3800, 21, 229), (0xffff4000, 21, 230), (0xffffe600, 23, 231),
     (0xffffa800, 22, 232), (0xffffac00, 22, 233), (0xfffff700, 25, 234), (0xfffff780, 25, 235),
     (0xfffff400, 24, 236), (0xfffff500, 24, 237), (0xfffffa80, 26, 238), (0xffffe800, 23, 239),
     (0xfffffac0, 26, 240), (0xfffffcc0, 27, 241), (0xfffffb00, 26, 242), (0xfffffb40, 26, 243),
     (0xfffffce0, 27, 244), (0xfffffd00, 27, 245), (0xfffffd20, 27, 246), (0xfffffd40, 27, 247),
     (0xfffffd60, 27, 248), (0xffffffe0, 28, 249), (0xfffffd80, 27, 250), (0xfffffda0, 27, 251),
     (0xfffffdc0, 27, 252), (0xfffffde0, 27, 253), (0xfffffe00, 27, 254), (0xfffffb80, 26, 255),
     (0xfffffffc, 30, 256)]"

definition HpackHuffmanCode :: "(u32 \<times> nat \<times> nat) list" where
  "HpackHuffmanCode = HpackHuffmanCode_low @ HpackHuffmanCode_high"

section \<open>The groups of codes of one length\<close>

text \<open>Row: the 32-bit prefixes from \<open>lo\<close> up to \<open>hi\<close> start with a code of length \<open>len\<close>; first canonical.\<close>

definition prefix_groups :: "(nat \<times> nat \<times> nat \<times> nat) list" where
  "prefix_groups =
    [(0x00000000, 0x50000000, 5, 0), (0x50000000, 0xb8000000, 6, 10),
     (0xb8000000, 0xf8000000, 7, 36), (0xf8000000, 0xfe000000, 8, 68),
     (0xfe000000, 0xff400000, 10, 74), (0xff400000, 0xffa00000, 11, 79),
     (0xffa00000, 0xffc00000, 12, 82), (0xffc00000, 0xfff00000, 13, 84),
     (0xfff00000, 0xfff80000, 14, 90), (0xfff80000, 0xfffe0000, 15, 92),
     (0xfffe0000, 0xfffe6000, 19, 95), (0xfffe6000, 0xfffee000, 20, 98),
     (0xfffee000, 0xffff4800, 21, 106), (0xffff4800, 0xffffb000, 22, 119),
     (0xffffb000, 0xffffea00, 23, 145), (0xffffea00, 0xfffff600, 24, 174),
     (0xfffff600, 0xfffff800, 25, 186), (0xfffff800, 0xfffffbc0, 26, 190),
     (0xfffffbc0, 0xfffffe20, 27, 205), (0xfffffe20, 0xfffffff0, 28, 224),
     (0xfffffff0, 0x100000000, 30, 253)]"

end
