(* ===== verification/Hpack_Huffman_Code.thy ===== *)
theory Hpack_Huffman_Code
  imports Hpack_Huffman_Tables
begin

text \<open>
  The tables define one prefix code: the decoder's tables, read on the leading 32 bits of the
  input, recognise exactly the codes of the encoder's table. \<open>huff_match\<close>, a search through the
  encoder's table, is the reference for one decoding step, \<open>huff_run\<close> for a whole string.
\<close>

section \<open>The reference\<close>

definition huff_code :: "nat \<Rightarrow> bool list" where
  "huff_code y = (case HpackHuffmanCode ! y of (code, len, _) \<Rightarrow> bits_of (unat code div 2 ^ (32 - len)) len)"

definition huff_match :: "bool list \<Rightarrow> nat option" where
  "huff_match bs = find (\<lambda>y. prefix (huff_code y) bs) [0..<257]"

section \<open>Rows of the tables\<close>

fun find_group :: "(nat \<times> nat \<times> nat \<times> nat) list \<Rightarrow> nat \<Rightarrow> nat \<times> nat \<times> nat" where
  "find_group [] v = (0, 0, 0)"
| "find_group ((lo, hi, len, fc) # gs) v = (if v < hi then (lo, len, fc) else find_group gs v)"

definition canon_chunk :: "nat \<Rightarrow> byte list" where
  "canon_chunk i = take 16 (drop (16 * i) kCanonicalToSymbol)"

definition row_ok :: "u32 \<times> nat \<times> nat \<Rightarrow> bool" where
  "row_ok r = (case r of (code, len, y) \<Rightarrow>
     case find_group prefix_groups (unat code) of (lo, len', fc) \<Rightarrow>
       let k = (unat code - lo) div 2 ^ (32 - len); c = fc + k
       in len' = len \<and> unat code = lo + k * 2 ^ (32 - len) \<and>
          (if y < 256 then c < 256 \<and> canon_chunk (c div 16) ! (c mod 16) = of_nat y else c = 256))"

definition short_ok :: "nat \<times> byte \<times> nat \<Rightarrow> bool" where
  "short_ok r = (case r of (i, y, len) \<Rightarrow>
     case find_group prefix_groups (i * 2 ^ 25) of (lo, len', fc) \<Rightarrow>
       let c = fc + (i * 2 ^ 25 - lo) div 2 ^ (32 - len)
       in len' = len \<and> len \<le> 7 \<and> c < 256 \<and> canon_chunk (c div 16) ! (c mod 16) = y)"

lemma canon_chunks:
  "canon_chunk 0 =
    [0x30, 0x31, 0x32, 0x61, 0x63, 0x65, 0x69, 0x6f, 0x73, 0x74, 0x20, 0x25, 0x2d, 0x2e, 0x2f, 0x33]"
  "canon_chunk (Suc 0) =
    [0x34, 0x35, 0x36, 0x37, 0x38, 0x39, 0x3d, 0x41, 0x5f, 0x62, 0x64, 0x66, 0x67, 0x68, 0x6c, 0x6d]"
  "canon_chunk 2 =
    [0x6e, 0x70, 0x72, 0x75, 0x3a, 0x42, 0x43, 0x44, 0x45, 0x46, 0x47, 0x48, 0x49, 0x4a, 0x4b, 0x4c]"
  "canon_chunk 3 =
    [0x4d, 0x4e, 0x4f, 0x50, 0x51, 0x52, 0x53, 0x54, 0x55, 0x56, 0x57, 0x59, 0x6a, 0x6b, 0x71, 0x76]"
  "canon_chunk 4 =
    [0x77, 0x78, 0x79, 0x7a, 0x26, 0x2a, 0x2c, 0x3b, 0x58, 0x5a, 0x21, 0x22, 0x28, 0x29, 0x3f, 0x27]"
  "canon_chunk 5 =
    [0x2b, 0x7c, 0x23, 0x3e, 0x00, 0x24, 0x40, 0x5b, 0x5d, 0x7e, 0x5e, 0x7d, 0x3c, 0x60, 0x7b, 0x5c]"
  "canon_chunk 6 =
    [0xc3, 0xd0, 0x80, 0x82, 0x83, 0xa2, 0xb8, 0xc2, 0xe0, 0xe2, 0x99, 0xa1, 0xa7, 0xac, 0xb0, 0xb1]"
  "canon_chunk 7 =
    [0xb3, 0xd1, 0xd8, 0xd9, 0xe3, 0xe5, 0xe6, 0x81, 0x84, 0x85, 0x86, 0x88, 0x92, 0x9a, 0x9c, 0xa0]"
  "canon_chunk 8 =
    [0xa3, 0xa4, 0xa9, 0xaa, 0xad, 0xb2, 0xb5, 0xb9, 0xba, 0xbb, 0xbd, 0xbe, 0xc4, 0xc6, 0xe4, 0xe8]"
  "canon_chunk 9 =
    [0xe9, 0x01, 0x87, 0x89, 0x8a, 0x8b, 0x8c, 0x8d, 0x8f, 0x93, 0x95, 0x96, 0x97, 0x98, 0x9b, 0x9d]"
  "canon_chunk 10 =
    [0x9e, 0xa5, 0xa6, 0xa8, 0xae, 0xaf, 0xb4, 0xb6, 0xb7, 0xbc, 0xbf, 0xc5, 0xe7, 0xef, 0x09, 0x8e]"
  "canon_chunk 11 =
    [0x90, 0x91, 0x94, 0x9f, 0xab, 0xce, 0xd7, 0xe1, 0xec, 0xed, 0xc7, 0xcf, 0xea, 0xeb, 0xc0, 0xc1]"
  "canon_chunk 12 =
    [0xc8, 0xc9, 0xca, 0xcd, 0xd2, 0xd5, 0xda, 0xdb, 0xee, 0xf0, 0xf2, 0xf3, 0xff, 0xcb, 0xcc, 0xd3]"
  "canon_chunk 13 =
    [0xd4, 0xd6, 0xdd, 0xde, 0xdf, 0xf1, 0xf4, 0xf5, 0xf6, 0xf7, 0xf8, 0xfa, 0xfb, 0xfc, 0xfd, 0xfe]"
  "canon_chunk 14 =
    [0x02, 0x03, 0x04, 0x05, 0x06, 0x07, 0x08, 0x0b, 0x0c, 0x0e, 0x0f, 0x10, 0x11, 0x12, 0x13, 0x14]"
  "canon_chunk 15 =
    [0x15, 0x17, 0x18, 0x19, 0x1a, 0x1b, 0x1c, 0x1d, 0x1e, 0x1f, 0x7f, 0xdc, 0xf9, 0x0a, 0x0d, 0x16]"
  by (simp_all add: canon_chunk_def kCanonicalToSymbol_def)

lemmas table_simps = prefix_groups_def canon_chunks HpackHuffmanCode_def HpackHuffmanCode_low_def HpackHuffmanCode_high_def

lemma rows_0: "list_all row_ok (take 32 (drop 0 HpackHuffmanCode))"
  by (simp add: row_ok_def table_simps)

lemma rows_1: "list_all row_ok (take 32 (drop 32 HpackHuffmanCode))"
  by (simp add: row_ok_def table_simps)

lemma rows_2: "list_all row_ok (take 32 (drop 64 HpackHuffmanCode))"
  by (simp add: row_ok_def table_simps)

lemma rows_3: "list_all row_ok (take 32 (drop 96 HpackHuffmanCode))"
  by (simp add: row_ok_def table_simps)

lemma rows_4: "list_all row_ok (take 32 (drop 128 HpackHuffmanCode))"
  by (simp add: row_ok_def table_simps)

lemma rows_5: "list_all row_ok (take 32 (drop 160 HpackHuffmanCode))"
  by (simp add: row_ok_def table_simps)

lemma rows_6: "list_all row_ok (take 32 (drop 192 HpackHuffmanCode))"
  by (simp add: row_ok_def table_simps)

lemma rows_7: "list_all row_ok (take 32 (drop 224 HpackHuffmanCode))"
  by (simp add: row_ok_def table_simps)

lemma rows_8: "list_all row_ok (take 32 (drop 256 HpackHuffmanCode))"
  by (simp add: row_ok_def table_simps)

lemma shorts_0: "list_all short_ok (take 32 (drop 0 (List.enumerate 0 kShortCodeTable)))"
  by (simp add: short_ok_def table_simps kShortCodeTable_def)

lemma shorts_1: "list_all short_ok (take 32 (drop 32 (List.enumerate 0 kShortCodeTable)))"
  by (simp add: short_ok_def table_simps kShortCodeTable_def)

lemma shorts_2: "list_all short_ok (take 32 (drop 64 (List.enumerate 0 kShortCodeTable)))"
  by (simp add: short_ok_def table_simps kShortCodeTable_def)

lemma shorts_3: "list_all short_ok (take 32 (drop 96 (List.enumerate 0 kShortCodeTable)))"
  by (simp add: short_ok_def table_simps kShortCodeTable_def)

lemma list_all_take_drop:
  "list_all P (take 32 (drop n xs)) \<Longrightarrow> list_all P (drop (n + 32) xs) \<Longrightarrow> list_all P (drop n xs)"
  by (metis append_take_drop_id drop_drop add.commute list_all_append)

lemma rows_all: "list_all row_ok HpackHuffmanCode"
proof -
  have "list_all row_ok (drop 288 HpackHuffmanCode)" by (simp add: table_simps)
  then have "list_all row_ok (drop 256 HpackHuffmanCode)" using list_all_take_drop[OF rows_8] by simp
  then have "list_all row_ok (drop 224 HpackHuffmanCode)" using list_all_take_drop[OF rows_7] by simp
  then have "list_all row_ok (drop 192 HpackHuffmanCode)" using list_all_take_drop[OF rows_6] by simp
  then have "list_all row_ok (drop 160 HpackHuffmanCode)" using list_all_take_drop[OF rows_5] by simp
  then have "list_all row_ok (drop 128 HpackHuffmanCode)" using list_all_take_drop[OF rows_4] by simp
  then have "list_all row_ok (drop 96 HpackHuffmanCode)" using list_all_take_drop[OF rows_3] by simp
  then have "list_all row_ok (drop 64 HpackHuffmanCode)" using list_all_take_drop[OF rows_2] by simp
  then have "list_all row_ok (drop 32 HpackHuffmanCode)" using list_all_take_drop[OF rows_1] by simp
  then have "list_all row_ok (drop 0 HpackHuffmanCode)" using list_all_take_drop[OF rows_0] by simp
  then show ?thesis by simp
qed

lemma shorts_all: "list_all short_ok (List.enumerate 0 kShortCodeTable)" (is "list_all _ ?t")
proof -
  have "list_all short_ok (drop 128 ?t)" by (simp add: kShortCodeTable_def)
  then have "list_all short_ok (drop 96 ?t)" using list_all_take_drop[OF shorts_3] by simp
  then have "list_all short_ok (drop 64 ?t)" using list_all_take_drop[OF shorts_2] by simp
  then have "list_all short_ok (drop 32 ?t)" using list_all_take_drop[OF shorts_1] by simp
  then have "list_all short_ok (drop 0 ?t)" using list_all_take_drop[OF shorts_0] by simp
  then show ?thesis by simp
qed

lemma length_tables: "length HpackHuffmanCode = 257" "length kCanonicalToSymbol = 256" "length kShortCodeTable = 124"
  by (simp_all add: table_simps kCanonicalToSymbol_def kShortCodeTable_def)

lemma symbol_column: "map (snd \<circ> snd) HpackHuffmanCode = [0..<257]"
  by (simp add: table_simps upt_rec)

lemma canon_chunk_nth: "c < 256 \<Longrightarrow> canon_chunk (c div 16) ! (c mod 16) = kCanonicalToSymbol ! c"
  by (simp add: canon_chunk_def length_tables)

end
