(* ===== verification/Hpack_Huffman_Spec.thy ===== *)
theory Hpack_Huffman_Spec
  imports Hpack_Huffman_Code
begin

text \<open>
  The Huffman code as a prefix code. \<open>huff_match\<close> finds the symbol whose code the input starts
  with by a search through the encoder's table; the lemmas show that the decoder's tables find the
  same symbol, that a match does not depend on the bits behind it, and that \<open>huff_run\<close>, which
  repeats the match, may be interrupted between any two bits.
\<close>

lemma unat_drop_bit: "unat (drop_bit k (w :: 'a::len word)) = unat w div 2 ^ k"
  by (simp only: unsigned_drop_bit_eq take_bit_nat_eq_self[OF unsigned_less]) (simp only: drop_bit_eq_div)

section \<open>Groups\<close>

fun chained :: "nat \<Rightarrow> nat \<Rightarrow> (nat \<times> nat \<times> nat \<times> nat) list \<Rightarrow> bool" where
  "chained s c [] \<longleftrightarrow> s = 2 ^ 32 \<and> c = 257"
| "chained s c ((lo, hi, len, fc) # gs) \<longleftrightarrow>
     lo = s \<and> fc = c \<and> lo < hi \<and> 5 \<le> len \<and> len \<le> 30 \<and> lo mod 2 ^ (32 - len) = 0 \<and> hi mod 2 ^ (32 - len) = 0 \<and>
     chained hi (c + (hi - lo) div 2 ^ (32 - len)) gs"

definition canonical :: "nat \<Rightarrow> nat" where
  "canonical v = (case find_group prefix_groups v of (lo, len, fc) \<Rightarrow> fc + (v - lo) div 2 ^ (32 - len))"

definition group_len :: "nat \<Rightarrow> nat" where
  "group_len v = (case find_group prefix_groups v of (lo, len, fc) \<Rightarrow> len)"

lemma prefix_groups_chained: "chained 0 0 prefix_groups"
  by (simp add: prefix_groups_def)

lemma find_group_in:
  assumes "chained s c gs" "s \<le> v" "v < 2 ^ 32"
  shows "\<exists>lo hi len fc. (lo, hi, len, fc) \<in> set gs \<and> lo \<le> v \<and> v < hi \<and> find_group gs v = (lo, len, fc)"
  using assms
proof (induction s c gs rule: chained.induct)
  case (1 s c)
  then show ?case unfolding chained.simps by (elim conjE) (simp only: not_less[symmetric] simp_thms)
next
  case (2 s c lo hi len fc gs)
  show ?case
  proof (cases "v < hi")
    case True
    have "lo \<le> v" using "2.prems"(1,2) unfolding chained.simps by (elim conjE) (simp only:)
    with True show ?thesis by (intro exI[of _ lo] exI[of _ hi] exI[of _ len] exI[of _ fc]) simp
  next
    case False
    have ch: "chained hi (c + (hi - lo) div 2 ^ (32 - len)) gs"
      using "2.prems"(1) unfolding chained.simps by (elim conjE)
    from "2.IH"[OF ch leI[OF False] "2.prems"(3)] False show ?thesis by (simp only: find_group.simps if_False list.set) blast
  qed
qed

lemma chained_after:
  assumes "chained s c gs" "(lo, hi, len, fc) \<in> set gs"
  shows "s \<le> lo \<and> c \<le> fc \<and> lo < hi \<and> 5 \<le> len \<and> len \<le> 30 \<and> 2 ^ (32 - len) dvd lo \<and> 2 ^ (32 - len) dvd hi
    \<and> hi \<le> 2 ^ 32 \<and> fc + (hi - lo) div 2 ^ (32 - len) \<le> 257"
proof -
  have bound: "chained s c gs \<Longrightarrow> s \<le> 2 ^ 32 \<and> c \<le> 257" for s c gs
    by (induction s c gs rule: chained.induct) auto
  show ?thesis
    using assms
  proof (induction s c gs rule: chained.induct)
    case (2 s c lo0 hi0 len0 fc0 gs)
    have ch: "chained hi0 (c + (hi0 - lo0) div 2 ^ (32 - len0)) gs"
      using "2.prems"(1) unfolding chained.simps by (elim conjE)
    show ?case
    proof (cases "(lo, hi, len, fc) \<in> set gs")
      case True
      from "2.IH"[OF ch True] "2.prems"(1) show ?thesis by auto
    next
      case False
      with 2 bound[OF ch] show ?thesis by (auto simp: mod_eq_0_iff_dvd)
    qed
  qed simp
qed

lemma chained_canonical_unique:
  assumes "chained s c gs" "(lo, hi, len, fc) \<in> set gs" "(lo', hi', len', fc') \<in> set gs"
    "fc \<le> k" "k < fc + (hi - lo) div 2 ^ (32 - len)" "fc' \<le> k" "k < fc' + (hi' - lo') div 2 ^ (32 - len')"
  shows "(lo, hi, len, fc) = (lo', hi', len', fc')"
  using assms
proof (induction s c gs rule: chained.induct)
  case (2 s c lo0 hi0 len0 fc0 gs)
  let ?c = "c + (hi0 - lo0) div 2 ^ (32 - len0)"
  have ch: "chained hi0 ?c gs" using "2.prems"(1) unfolding chained.simps by (elim conjE)
  have after: "(lo1, hi1, len1, fc1) \<in> set gs \<Longrightarrow> ?c \<le> fc1" for lo1 hi1 len1 fc1
    using chained_after[OF ch] by blast
  consider "(lo, hi, len, fc) \<in> set gs" "(lo', hi', len', fc') \<in> set gs"
    | "(lo, hi, len, fc) = (lo0, hi0, len0, fc0)" "(lo', hi', len', fc') = (lo0, hi0, len0, fc0)"
    | "(lo, hi, len, fc) = (lo0, hi0, len0, fc0)" "?c \<le> fc'"
    | "?c \<le> fc" "(lo', hi', len', fc') = (lo0, hi0, len0, fc0)"
    using "2.prems"(2,3) after by auto
  then show ?case
    using "2.IH"[OF ch _ _ "2.prems"(4-7)] "2.prems" by cases auto
qed simp

lemma chained_unique:
  assumes "chained s c gs" "(lo, hi, len, fc) \<in> set gs" "lo \<le> v" "v < hi"
  shows "find_group gs v = (lo, len, fc)"
  using assms
proof (induction s c gs rule: chained.induct)
  case (2 s c lo0 hi0 len0 fc0 gs)
  have ch: "chained hi0 (c + (hi0 - lo0) div 2 ^ (32 - len0)) gs" using "2.prems"(1) unfolding chained.simps by (elim conjE)
  show ?case
  proof (cases "(lo, hi, len, fc) \<in> set gs")
    case True
    with chained_after[OF ch True] 2 show ?thesis by auto
  next
    case False
    with 2 show ?thesis by auto
  qed
qed simp

definition in_group :: "nat \<Rightarrow> nat \<Rightarrow> nat \<Rightarrow> nat \<Rightarrow> nat \<Rightarrow> bool" where
  "in_group v lo hi len fc \<longleftrightarrow> (lo, hi, len, fc) \<in> set prefix_groups \<and> lo \<le> v \<and> v < hi"

lemma in_groupD:
  assumes "in_group v lo hi len fc"
  shows "(lo, hi, len, fc) \<in> set prefix_groups" "lo \<le> v" "v < hi" "find_group prefix_groups v = (lo, len, fc)"
    "group_len v = len" "canonical v = fc + (v - lo) div 2 ^ (32 - len)"
    "5 \<le> len" "len \<le> 30" "2 ^ (32 - len) dvd lo" "2 ^ (32 - len) dvd hi"
    "hi \<le> 2 ^ 32" "fc + (hi - lo) div 2 ^ (32 - len) \<le> 257"
proof -
  show g: "(lo, hi, len, fc) \<in> set prefix_groups" "lo \<le> v" "v < hi" using assms by (simp_all add: in_group_def)
  show f: "find_group prefix_groups v = (lo, len, fc)" by (rule chained_unique[OF prefix_groups_chained g])
  show "group_len v = len" "canonical v = fc + (v - lo) div 2 ^ (32 - len)"
    by (simp_all add: group_len_def canonical_def f)
  note a = chained_after[OF prefix_groups_chained g(1)]
  show "5 \<le> len" "len \<le> 30" "2 ^ (32 - len) dvd lo" "2 ^ (32 - len) dvd hi"
    "hi \<le> 2 ^ 32" "fc + (hi - lo) div 2 ^ (32 - len) \<le> 257" using a by blast+
qed

lemma group_cases:
  assumes "v < 2 ^ 32"
  obtains lo hi len fc where "in_group v lo hi len fc"
  using find_group_in[OF prefix_groups_chained _ assms] by (auto simp: in_group_def)

lemma canonical_range:
  assumes "in_group v lo hi len fc"
  shows "fc \<le> canonical v" "canonical v < fc + (hi - lo) div 2 ^ (32 - len)"
proof -
  note g = in_groupD[OF assms]
  have "(v - lo) div 2 ^ (32 - len) < (hi - lo) div 2 ^ (32 - len)"
    using g(2,3,9,10) by (intro less_mult_imp_div_less) (auto simp: dvd_div_mult_self)
  then show "fc \<le> canonical v" "canonical v < fc + (hi - lo) div 2 ^ (32 - len)" by (simp_all add: g(6))
qed

lemma div_between:
  assumes "(d :: nat) dvd lo" "d dvd hi" "0 < d" "lo \<le> v" "v < hi" "w div d = v div d"
  shows "lo \<le> w" "w < hi"
proof -
  obtain a b where ab: "lo = d * a" "hi = d * b" using assms(1,2) by (auto elim!: dvdE)
  have "a \<le> v div d" using assms(3,4) by (simp add: ab less_eq_div_iff_mult_less_eq mult.commute)
  then have "a \<le> w div d" by (simp add: assms(6))
  then show "lo \<le> w" using assms(3) by (simp add: ab less_eq_div_iff_mult_less_eq mult.commute)
  have "v div d < b" using assms(3,5) by (simp add: ab div_less_iff_less_mult mult.commute)
  then have "w div d < b" by (simp add: assms(6))
  then show "w < hi" using assms(3) by (simp add: ab div_less_iff_less_mult mult.commute)
qed

lemma diff_mult_div: "0 < d \<Longrightarrow> (x - d * a) div d = x div d - (a :: nat)"
proof (cases "d * a \<le> x")
  case True
  assume "0 < d"
  obtain y where "x = d * a + y" using True le_iff_add by auto
  with \<open>0 < d\<close> show ?thesis by simp
next
  case False
  assume "0 < d"
  with False have "x div d < a" by (simp add: div_less_iff_less_mult mult.commute)
  with False show ?thesis by simp
qed

lemma group_stable:
  assumes "v < 2 ^ 32" "w div 2 ^ (32 - group_len v) = v div 2 ^ (32 - group_len v)"
  shows "canonical w = canonical v" "group_len w = group_len v"
proof -
  obtain lo hi len fc where i: "in_group v lo hi len fc" by (rule group_cases[OF assms(1)])
  note g = in_groupD[OF i]
  have "lo \<le> w" "w < hi" using div_between[OF g(9,10) _ g(2,3)] assms(2) by (simp_all add: g(5))
  then have "in_group w lo hi len fc" using i by (simp add: in_group_def)
  note h = in_groupD[OF this]
  show "group_len w = group_len v" by (simp add: g(5) h(5))
  obtain a where a: "lo = 2 ^ (32 - len) * a" using g(9) by (auto elim: dvdE)
  have "(x - lo) div 2 ^ (32 - len) = x div 2 ^ (32 - len) - a" for x
    unfolding a by (rule diff_mult_div) simp
  then show "canonical w = canonical v"
    using assms(2) by (simp add: g(5,6) h(6))
qed

lemma canonical_inj:
  assumes "v < 2 ^ 32" "w < 2 ^ 32" "canonical w = canonical v"
  shows "group_len w = group_len v" "w div 2 ^ (32 - group_len v) = v div 2 ^ (32 - group_len v)"
proof -
  obtain lo hi len fc where i: "in_group v lo hi len fc" by (rule group_cases[OF assms(1)])
  obtain lo' hi' len' fc' where j: "in_group w lo' hi' len' fc'" by (rule group_cases[OF assms(2)])
  note g = in_groupD[OF i] and h = in_groupD[OF j]
  have same: "(lo, hi, len, fc) = (lo', hi', len', fc')"
    using chained_canonical_unique[OF prefix_groups_chained g(1) h(1), of "canonical v"]
      canonical_range[OF i] canonical_range[OF j] assms(3) by simp
  then show "group_len w = group_len v" by (simp add: g(5) h(5))
  obtain a where a: "lo = 2 ^ (32 - len) * a" using g(9) by (auto elim: dvdE)
  have "x div 2 ^ (32 - len) = a + (x - lo) div 2 ^ (32 - len)" if "lo \<le> x" for x
  proof -
    have "(x - lo) div 2 ^ (32 - len) = x div 2 ^ (32 - len) - a" unfolding a by (rule diff_mult_div) simp
    moreover have "a \<le> x div 2 ^ (32 - len)" using that by (simp add: a less_eq_div_iff_mult_less_eq mult.commute)
    ultimately show ?thesis by simp
  qed
  from this[OF g(2)] this[of w] show "w div 2 ^ (32 - group_len v) = v div 2 ^ (32 - group_len v)"
    using same h(2) assms(3) by (simp add: g(5,6) h(6))
qed

lemma canonical_le: "v < 2 ^ 32 \<Longrightarrow> canonical v \<le> 256"
proof -
  assume "v < 2 ^ 32"
  then obtain lo hi len fc where i: "in_group v lo hi len fc" by (rule group_cases)
  from canonical_range(2)[OF i] in_groupD(12)[OF i] show ?thesis by linarith
qed

section \<open>Codes\<close>

definition code_val :: "nat \<Rightarrow> nat" where
  "code_val y = unat (fst (HpackHuffmanCode ! y))"

lemma row_of: "y \<le> 256 \<Longrightarrow> HpackHuffmanCode ! y = (fst (HpackHuffmanCode ! y), fst (snd (HpackHuffmanCode ! y)), y)"
  using arg_cong[OF symbol_column, of "\<lambda>xs. xs ! y"] length_tables(1)
  by (cases "HpackHuffmanCode ! y") (simp del: upt_Suc)

lemma code_val_less: "code_val y < 2 ^ 32"
  using unsigned_less[of "fst (HpackHuffmanCode ! y)", where 'a = nat] by (simp add: code_val_def)

lemma row_facts:
  assumes "y \<le> 256"
  shows "fst (snd (HpackHuffmanCode ! y)) = group_len (code_val y)" "2 ^ (32 - group_len (code_val y)) dvd code_val y"
    "y < 256 \<Longrightarrow> canonical (code_val y) < 256 \<and> kCanonicalToSymbol ! canonical (code_val y) = of_nat y"
    "canonical (code_val 256) = 256"
proof -
  have ok: "row_ok (HpackHuffmanCode ! z)" if "z \<le> 256" for z
    using rows_all that length_tables(1) by (simp add: list_all_length)
  obtain lo hi len fc where i: "in_group (code_val y) lo hi len fc" by (rule group_cases[OF code_val_less])
  note g = in_groupD(4,9)[OF i]
  have r: "row_ok (fst (HpackHuffmanCode ! y), fst (snd (HpackHuffmanCode ! y)), y)"
    using ok[OF assms] row_of[OF assms] by simp
  show "fst (snd (HpackHuffmanCode ! y)) = group_len (code_val y)"
    using r by (simp add: row_ok_def group_len_def g(1) Let_def flip: code_val_def)
  with r show "2 ^ (32 - group_len (code_val y)) dvd code_val y"
    using g(2) by (simp add: row_ok_def group_len_def g(1) Let_def flip: code_val_def)
      (metis dvd_add dvd_triv_right)
  show "canonical (code_val y) < 256 \<and> kCanonicalToSymbol ! canonical (code_val y) = of_nat y" if "y < 256"
    using r that canon_chunk_nth[of "canonical (code_val y)"]
    by (simp add: row_ok_def canonical_def g(1) Let_def flip: code_val_def)
  show "canonical (code_val 256) = 256"
    using ok[of 256] row_of[of 256]
    by (cases "find_group prefix_groups (code_val 256)")
      (auto simp: row_ok_def canonical_def Let_def code_val_def split: prod.splits)
qed

lemma huff_code_eq: "y \<le> 256 \<Longrightarrow> huff_code y = bits_of (code_val y div 2 ^ (32 - group_len (code_val y))) (group_len (code_val y))"
  unfolding huff_code_def by (subst row_of) (simp_all add: row_facts(1) flip: code_val_def)

lemma canonical_code_inj: "inj_on (\<lambda>y. canonical (code_val y)) {..256}"
proof (rule inj_onI)
  fix x y assume xy: "x \<in> {..256 :: nat}" "y \<in> {..256}" "canonical (code_val x) = canonical (code_val y)"
  have small: "(of_nat z :: byte) = of_nat z' \<Longrightarrow> z < 256 \<Longrightarrow> z' < 256 \<Longrightarrow> z = z'" for z z'
    by (drule arg_cong[of _ _ unat]) (simp add: unat_of_nat)
  consider "x < 256" "y < 256" | "x = 256" "y = 256" | "x = 256" "y < 256" | "x < 256" "y = 256"
    using xy(1,2) by fastforce
  then show "x = y"
    using row_facts(3,4)[of x] row_facts(3,4)[of y] xy(3) by cases (auto intro: small)
qed

lemma canonical_code_surj: "c \<le> 256 \<Longrightarrow> \<exists>y\<le>256. canonical (code_val y) = c"
proof -
  assume c: "c \<le> 256"
  have im: "(\<lambda>y. canonical (code_val y)) ` {..256} = {..256}"
    by (rule endo_inj_surj[OF finite_atMost _ canonical_code_inj]) (blast intro: canonical_le code_val_less atMost_iff[THEN iffD2])
  from c have "c \<in> {..256}" by (rule atMost_iff[THEN iffD2])
  then have "c \<in> (\<lambda>y. canonical (code_val y)) ` {..256}" by (simp only: im)
  then show ?thesis by (elim imageE) (blast dest: atMost_iff[THEN iffD1])
qed

section \<open>The decoder's tables\<close>

lemma PrefixToInfo_groups:
  "list_all (\<lambda>(lo, hi, len, fc). lo \<le> unat v \<longrightarrow> unat v < hi \<longrightarrow>
     PrefixToInfo v = \<lparr>pi_first_code = of_nat lo, pi_code_length = len, pi_first_canonical = fc\<rparr>) prefix_groups"
  by (simp add: prefix_groups_def PrefixToInfo_def word_less_nat_alt)

lemma unat_u32_less: "unat (v :: u32) < 2 ^ 32"
  using unsigned_less[of v, where 'a = nat] by simp

lemma PrefixToInfo_eq:
  "pi_code_length (PrefixToInfo v) = group_len (unat v)"
  "unat (DecodeToCanonical (PrefixToInfo v) v) = canonical (unat v)"
proof -
  obtain lo hi len fc where i: "in_group (unat v) lo hi len fc" by (rule group_cases[OF unat_u32_less])
  note g = in_groupD[OF i]
  have p: "PrefixToInfo v = \<lparr>pi_first_code = of_nat lo, pi_code_length = len, pi_first_canonical = fc\<rparr>"
    using PrefixToInfo_groups[of v] g(1-3) by (auto simp: list_all_iff)
  show "pi_code_length (PrefixToInfo v) = group_len (unat v)" by (simp add: p g(5))
  have lo: "unat (of_nat lo :: u32) = lo" using g(2) unat_u32_less[of v] by (simp add: unat_of_nat)
  have "unat (v - of_nat lo) = unat v - lo" using g(2) by (simp add: unat_sub word_le_nat_alt lo)
  then have d: "unat (drop_bit (32 - len) (v - of_nat lo)) = (unat v - lo) div 2 ^ (32 - len)"
    by (simp only: unat_drop_bit)
  have c: "canonical (unat v) < 257" using canonical_le[OF unat_u32_less[of v]] by simp
  have "unat (of_nat fc + drop_bit (32 - len) (v - of_nat lo) :: u32) = fc + (unat v - lo) div 2 ^ (32 - len)"
    using c by (simp add: unat_word_ariths unat_of_nat d g(6))
  then show "unat (DecodeToCanonical (PrefixToInfo v) v) = canonical (unat v)"
    by (simp add: p DecodeToCanonical_def g(6))
qed

lemma group_len_bounds: "v < 2 ^ 32 \<Longrightarrow> 5 \<le> group_len v \<and> group_len v \<le> 30"
  using in_groupD(5,7,8) by (metis group_cases)

section \<open>One step\<close>

definition lead :: "bool list \<Rightarrow> nat" where
  "lead bs = val_of (take 32 (bs @ replicate 32 False))"

lemma lead_less: "lead bs < 2 ^ 32"
  using val_of_less[of "take 32 (bs @ replicate 32 False)"] by (simp add: lead_def min_def split: if_splits)

lemma lead_div: "k \<le> 32 \<Longrightarrow> k \<le> length bs \<Longrightarrow> lead bs div 2 ^ (32 - k) = val_of (take k bs)"
  using val_of_take_div[of k "take 32 (bs @ replicate 32 False)"] by (simp add: lead_def min_def)

lemma code_len: "y \<le> 256 \<Longrightarrow> length (huff_code y) = group_len (code_val y)"
  by (simp add: huff_code_eq)

lemma length_huff_code: "y \<le> 256 \<Longrightarrow> 5 \<le> length (huff_code y) \<and> length (huff_code y) \<le> 30"
  using group_len_bounds[OF code_val_less[of y]] by (simp add: code_len)

lemma val_huff_code: "y \<le> 256 \<Longrightarrow> val_of (huff_code y) = code_val y div 2 ^ (32 - group_len (code_val y))"
proof -
  assume y: "y \<le> 256"
  let ?l = "group_len (code_val y)"
  have "2 ^ 32 = (2 :: nat) ^ ?l * 2 ^ (32 - ?l)"
    using group_len_bounds[OF code_val_less[of y]] by (simp flip: power_add)
  then have "code_val y div 2 ^ (32 - ?l) < 2 ^ ?l"
    using code_val_less[of y] by (simp only: div_less_iff_less_mult zero_less_power zero_less_numeral)
  then show ?thesis by (simp add: huff_code_eq[OF y] val_of_bits_of)
qed

lemma prefix_code_iff:
  assumes y: "y \<le> 256"
  shows "prefix (huff_code y) bs \<longleftrightarrow> group_len (lead bs) \<le> length bs \<and> canonical (lead bs) = canonical (code_val y)"
proof
  let ?l = "group_len (code_val y)"
  have l: "?l \<le> 32" using group_len_bounds[OF code_val_less[of y]] by simp
  {
    assume "prefix (huff_code y) bs"
    then have t: "take ?l bs = huff_code y" "?l \<le> length bs"
      using code_len[OF y] prefix_length_le by (auto simp: prefix_def)
    have "lead bs div 2 ^ (32 - ?l) = code_val y div 2 ^ (32 - ?l)"
      using lead_div[OF l t(2)] by (simp add: t(1) val_huff_code[OF y])
    from group_stable[OF code_val_less this] t(2)
    show "group_len (lead bs) \<le> length bs \<and> canonical (lead bs) = canonical (code_val y)" by simp
  next
    assume a: "group_len (lead bs) \<le> length bs \<and> canonical (lead bs) = canonical (code_val y)"
    note inj = canonical_inj[OF code_val_less lead_less conjunct2[OF a]]
    have len: "?l \<le> length bs" using a inj(1) by simp
    have "take ?l bs = bits_of (val_of (take ?l bs)) ?l"
      by (rule bits_of_val_of[symmetric]) (simp add: len)
    also have "\<dots> = bits_of (val_of (huff_code y)) ?l"
      using lead_div[OF l len] inj(2) by (simp add: val_huff_code[OF y])
    also have "\<dots> = huff_code y" by (rule bits_of_val_of[OF code_len[OF y]])
    finally show "prefix (huff_code y) bs" by (metis take_is_prefix)
  }
qed

lemma match_unique:
  assumes "x \<le> 256" "y \<le> 256" "prefix (huff_code x) bs" "prefix (huff_code y) bs"
  shows "x = y"
  using inj_onD[OF canonical_code_inj, of x y] assms by (simp add: prefix_code_iff)

lemma find_SomeD: "find P xs = Some x \<Longrightarrow> P x \<and> x \<in> set xs"
  by (induction xs) (auto split: if_splits)

lemma symbol_range: "y \<in> set [0..<257] \<longleftrightarrow> y \<le> 256"
  unfolding set_upt atLeastLessThan_iff by linarith

lemma huff_matchD: "huff_match bs = Some y \<Longrightarrow> y \<le> 256 \<and> prefix (huff_code y) bs"
  unfolding huff_match_def by (drule find_SomeD) (simp only: symbol_range)

lemma huff_match_Some: "huff_match bs = Some y \<longleftrightarrow> y \<le> 256 \<and> prefix (huff_code y) bs"
proof
  assume y: "y \<le> 256 \<and> prefix (huff_code y) bs"
  then have "huff_match bs \<noteq> None" unfolding huff_match_def find_None_iff by (metis symbol_range)
  then obtain x where x: "huff_match bs = Some x" by blast
  from huff_matchD[OF x] y x show "huff_match bs = Some y" using match_unique by blast
qed (rule huff_matchD)

lemma huff_match_eq:
  "huff_match bs =
     (if group_len (lead bs) \<le> length bs then
        Some (if canonical (lead bs) < 256 then unat (kCanonicalToSymbol ! canonical (lead bs)) else 256)
      else None)"
proof (cases "group_len (lead bs) \<le> length bs")
  case True
  obtain y where y: "y \<le> 256" "canonical (code_val y) = canonical (lead bs)"
    using canonical_code_surj[OF canonical_le[OF lead_less]] by blast
  then have m: "huff_match bs = Some y" using True by (simp add: huff_match_Some prefix_code_iff)
  have "y < 256 \<or> y = 256" using y(1) by linarith
  then show ?thesis
    using row_facts(3,4)[of y] y(2) True by (auto simp: m unat_of_nat)
next
  case False
  then have "huff_match bs \<noteq> Some y" for y by (simp add: huff_match_Some prefix_code_iff)
  then show ?thesis using False by (cases "huff_match bs") auto
qed

lemma huff_match_append: "huff_match bs = Some y \<Longrightarrow> huff_match (bs @ r) = Some y"
  by (simp add: huff_match_Some prefix_prefix)

lemma huff_match_code: "y \<le> 256 \<Longrightarrow> huff_match (huff_code y @ r) = Some y"
  by (simp add: huff_match_Some)

lemma huff_match_None_length: "huff_match bs = None \<Longrightarrow> length bs < 30"
  using group_len_bounds[OF lead_less[of bs]] by (auto simp: huff_match_eq split: if_splits)

end
