(* ===== verification/Hpack_Huffman.thy ===== *)
theory Hpack_Huffman
  imports Hpack_Huffman_Spec
begin

text \<open>
  \<^verbatim>\<open>http2/hpack/huffman/http2_hpack_huffman_decoder.h\<close> and \<^verbatim>\<open>.cc\<close>: the bit buffer and the two
  decoding loops of \<open>HpackHuffmanDecoder\<close>. The accumulator is a 64-bit word; bit counts are natural
  numbers, which is sound because the count stays between 0 and 64 (\<open>bb_ok\<close>).
\<close>

section \<open>The bit buffer\<close>

record HuffmanBitBuffer =
  bb_accumulator :: u64
  bb_count :: nat

definition BitBuffer_Reset :: "HuffmanBitBuffer \<Rightarrow> HuffmanBitBuffer" where
  "BitBuffer_Reset buf = buf\<lparr>bb_accumulator := 0, bb_count := 0\<rparr>"

definition free_count :: "HuffmanBitBuffer \<Rightarrow> nat" where
  "free_count buf = 64 - bb_count buf"

text \<open>The \<open>do\<close> loop of \<open>AppendBytes\<close>; \<open>ptr\<close> is the input from the current position on.\<close>

fun AppendBytes_loop :: "nat \<Rightarrow> u64 \<Rightarrow> nat \<Rightarrow> bytes \<Rightarrow> u64 \<times> nat" where
  "AppendBytes_loop free_cnt accumulator bytes_used [] = (accumulator, bytes_used)"
| "AppendBytes_loop free_cnt accumulator bytes_used (b # ptr) =
     (let free_cnt = free_cnt - 8;
          accumulator = accumulator OR push_bit free_cnt (ucast b);
          bytes_used = bytes_used + 1
      in if free_cnt \<ge> 8 \<and> ptr \<noteq> [] then AppendBytes_loop free_cnt accumulator bytes_used ptr
         else (accumulator, bytes_used))"

definition BitBuffer_AppendBytes :: "HuffmanBitBuffer \<Rightarrow> bytes \<Rightarrow> nat \<times> HuffmanBitBuffer" where
  "BitBuffer_AppendBytes buf input =
     (if free_count buf < 8 \<or> length input = 0 then (0, buf)
      else
        let (accumulator, bytes_used) = AppendBytes_loop (free_count buf) (bb_accumulator buf) 0 input
        in (bytes_used, buf\<lparr>bb_accumulator := accumulator, bb_count := bb_count buf + bytes_used * 8\<rparr>))"

definition ConsumeBits :: "HuffmanBitBuffer \<Rightarrow> nat \<Rightarrow> HuffmanBitBuffer" where
  "ConsumeBits buf code_length =
     buf\<lparr>bb_accumulator := push_bit code_length (bb_accumulator buf), bb_count := bb_count buf - code_length\<rparr>"

definition InputProperlyTerminated :: "HuffmanBitBuffer \<Rightarrow> bool" where
  "InputProperlyTerminated buf =
     (if bb_count buf < 8 then
        if bb_count buf = 0 then True
        else
          let expected = NOT (drop_bit (bb_count buf) (NOT 0))
          in bb_accumulator buf = expected
      else False)"

section \<open>The bits in the buffer\<close>

definition hbits :: "HuffmanBitBuffer \<Rightarrow> bool list" where
  "hbits buf = take (bb_count buf) (bits_of (unat (bb_accumulator buf)) 64)"

definition bb_ok :: "HuffmanBitBuffer \<Rightarrow> bool" where
  "bb_ok buf \<longleftrightarrow> bb_count buf \<le> 64 \<and>
     drop (bb_count buf) (bits_of (unat (bb_accumulator buf)) 64) = replicate (64 - bb_count buf) False"

lemma length_hbits [simp]: "bb_ok buf \<Longrightarrow> length (hbits buf) = bb_count buf"
  by (simp add: bb_ok_def hbits_def)

lemma acc_bits: "bb_ok buf \<Longrightarrow> bits_of (unat (bb_accumulator buf)) 64 = hbits buf @ replicate (64 - bb_count buf) False"
  unfolding bb_ok_def hbits_def by (metis append_take_drop_id)

lemma bit_unat: "bit (unat (w :: 'a::len word)) n = bit w n"
  by (auto simp: bit_unsigned_iff dest: bit_imp_le_length)

lemma bits_of_word_nth: "i < 64 \<Longrightarrow> bits_of (unat (w :: u64)) 64 ! i = bit w (63 - i)"
  by (simp add: bit_unat)

lemma bb_okI:
  assumes "bits_of (unat (acc :: u64)) 64 = bs @ replicate (64 - n) False" "length bs = n" "n \<le> 64"
    "bb_accumulator buf = acc" "bb_count buf = n"
  shows "bb_ok buf" "hbits buf = bs"
  using assms by (simp_all add: bb_ok_def hbits_def)

lemma hbits_inj: "bb_ok a \<Longrightarrow> bb_ok b \<Longrightarrow> hbits a = hbits b \<Longrightarrow> a = b"
proof -
  assume ok: "bb_ok a" "bb_ok b" and eq: "hbits a = hbits b"
  have c: "bb_count a = bb_count b" using eq length_hbits[OF ok(1)] length_hbits[OF ok(2)] by simp
  have "bits_of (unat (bb_accumulator a)) 64 = bits_of (unat (bb_accumulator b)) 64"
    using acc_bits[OF ok(1)] acc_bits[OF ok(2)] eq c by simp
  then have "bb_accumulator a = bb_accumulator b"
    using bits_of_inj[of "unat (bb_accumulator a)" 64 "unat (bb_accumulator b)"]
      unsigned_less[of "bb_accumulator a", where 'a = nat] unsigned_less[of "bb_accumulator b", where 'a = nat]
    by (simp add: word_unat_eq_iff)
  with c show "a = b" by simp
qed

lemma Reset_bits: "bb_ok (BitBuffer_Reset buf)" "hbits (BitBuffer_Reset buf) = []"
proof -
  have "bits_of (unat (0 :: u64)) 64 = [] @ replicate (64 - 0) False"
    by (rule nth_equalityI) (auto simp: bits_of_word_nth)
  from bb_okI[OF this, of "BitBuffer_Reset buf"] show "bb_ok (BitBuffer_Reset buf)" "hbits (BitBuffer_Reset buf) = []"
    by (simp_all add: BitBuffer_Reset_def)
qed

lemma Consume_bits:
  assumes "bb_ok buf" "n \<le> bb_count buf"
  shows "bb_ok (ConsumeBits buf n)" "hbits (ConsumeBits buf n) = drop n (hbits buf)"
proof -
  have c: "bb_count buf \<le> 64" using assms(1) by (simp add: bb_ok_def)
  have "bits_of (unat (push_bit n (bb_accumulator buf))) 64
      = drop n (bits_of (unat (bb_accumulator buf)) 64) @ replicate n False"
    using assms(2) c by (intro nth_equalityI) (auto simp: bit_unat nth_append bit_push_bit_iff add.commute)
  also have "\<dots> = drop n (hbits buf) @ replicate (64 - (bb_count buf - n)) False"
    using assms(2) c by (simp add: acc_bits[OF assms(1)] assms(1) flip: replicate_add)
  finally have e: "bits_of (unat (push_bit n (bb_accumulator buf))) 64
      = drop n (hbits buf) @ replicate (64 - (bb_count buf - n)) False" .
  show "bb_ok (ConsumeBits buf n)" "hbits (ConsumeBits buf n) = drop n (hbits buf)"
    using c assms by (auto intro!: bb_okI[OF e] simp: ConsumeBits_def)
qed

lemma push_byte:
  assumes "bits_of (unat (acc :: u64)) 64 = bs @ replicate f False" "length bs = 64 - f" "8 \<le> f" "f \<le> 64"
  shows "bits_of (unat (acc OR push_bit (f - 8) (ucast (b :: byte)))) 64 = (bs @ byte_bits b) @ replicate (f - 8) False"
proof (rule nth_equalityI)
  fix i assume "i < length (bits_of (unat (acc OR push_bit (f - 8) (ucast b))) 64)"
  then have i: "i < 64" by simp
  have acc: "bit acc (63 - i) = (bs @ replicate f False) ! i"
    using bits_of_word_nth[OF i, of acc] by (simp add: assms(1))
  consider "i < 64 - f" | "64 - f \<le> i" "i < 72 - f" | "72 - f \<le> i" by linarith
  then show "bits_of (unat (acc OR push_bit (f - 8) (ucast b))) 64 ! i = ((bs @ byte_bits b) @ replicate (f - 8) False) ! i"
  proof cases
    case 1
    have "8 \<le> 63 - i - (f - 8)" using 1 assms(3) by linarith
    then have "\<not> bit (ucast b :: u64) (63 - i - (f - 8))"
      using bit_imp_le_length[of b "63 - i - (f - 8)"] by (auto simp: bit_ucast_iff)
    then show ?thesis using 1 i assms(2) acc by (simp add: bit_unat nth_append bit_or_iff bit_push_bit_iff)
  next
    case 2
    have e: "63 - i - (f - 8) = 7 - (i - (64 - f))" using 2 assms(3,4) by linarith
    show ?thesis using 2 i assms(2-4) acc
      by (auto simp: bit_unat nth_append bit_or_iff bit_push_bit_iff byte_bits_def bit_unat bit_ucast_iff e)
  next
    case 3
    have "\<not> f - 8 \<le> 63 - i" "\<not> i < 64 - f" "\<not> i - (64 - f) < 8" "i - (64 - f) < f" "i - (72 - f) < f - 8"
      using 3 i assms(3,4) by linarith+
    then show ?thesis using i assms(2-4) acc
      by (simp add: bit_unat nth_append bit_or_iff bit_push_bit_iff)
  qed
qed (use assms in simp)

lemma AppendBytes_loop_bits:
  assumes "bits_of (unat (acc :: u64)) 64 = bs @ replicate f False" "length bs = 64 - f" "8 \<le> f" "f \<le> 64" "ptr \<noteq> []"
    "AppendBytes_loop f acc u ptr = (acc', u')"
  shows "\<exists>n. u' = u + n \<and> 0 < n \<and> n \<le> length ptr \<and> 8 * n \<le> f \<and> (n < length ptr \<longrightarrow> f - 8 * n < 8) \<and>
    bits_of (unat acc') 64 = (bs @ bytes_bits (take n ptr)) @ replicate (f - 8 * n) False"
  using assms
proof (induction f acc u ptr arbitrary: bs rule: AppendBytes_loop.induct)
  case (2 f acc u b ptr)
  note p = push_byte[OF "2.prems"(1-4), of b]
  show ?case
  proof (cases "f - 8 \<ge> 8 \<and> ptr \<noteq> []")
    case True
    have l: "length (bs @ byte_bits b) = 64 - (f - 8)" using "2.prems"(2-4) by simp
    have r: "AppendBytes_loop (f - 8) (acc OR push_bit (f - 8) (ucast b)) (u + 1) ptr = (acc', u')"
      using "2.prems"(6) True by (simp add: Let_def)
    obtain n where n: "u' = u + 1 + n" "0 < n" "n \<le> length ptr" "8 * n \<le> f - 8" "n < length ptr \<longrightarrow> f - 8 - 8 * n < 8"
      "bits_of (unat acc') 64 = ((bs @ byte_bits b) @ bytes_bits (take n ptr)) @ replicate (f - 8 - 8 * n) False"
      using "2.IH"[OF refl refl refl True p l conjunct1[OF True] _ conjunct2[OF True] r] "2.prems"(4) by fastforce
    show ?thesis using n True by (intro exI[of _ "Suc n"]) auto
  next
    case False
    have r: "acc' = acc OR push_bit (f - 8) (ucast b)" "u' = u + 1"
      using "2.prems"(6) False by (auto simp: Let_def split: if_splits)
    show ?thesis using r p False "2.prems"(3) by (intro exI[of _ 1]) auto
  qed
qed simp

lemma AppendBytes_bits:
  assumes "bb_ok buf" "BitBuffer_AppendBytes buf input = (n, buf')"
  shows "bb_ok buf'" "hbits buf' = hbits buf @ bytes_bits (take n input)" "n \<le> length input"
    "n = 0 \<longleftrightarrow> input = [] \<or> 56 < bb_count buf"
proof -
  have c: "bb_count buf \<le> 64" using assms(1) by (simp add: bb_ok_def)
  have "bb_ok buf' \<and> hbits buf' = hbits buf @ bytes_bits (take n input) \<and> n \<le> length input \<and>
      (n = 0 \<longleftrightarrow> input = [] \<or> 56 < bb_count buf)"
  proof (cases "free_count buf < 8 \<or> length input = 0")
    case True
    then show ?thesis using assms c by (auto simp: BitBuffer_AppendBytes_def free_count_def)
  next
    case False
    obtain acc u where r: "AppendBytes_loop (free_count buf) (bb_accumulator buf) 0 input = (acc, u)" by fastforce
    obtain m where m: "u = m" "0 < m" "m \<le> length input" "8 * m \<le> free_count buf"
      "bits_of (unat acc) 64 = (hbits buf @ bytes_bits (take m input)) @ replicate (free_count buf - 8 * m) False"
      using AppendBytes_loop_bits[OF _ _ _ _ _ r, of "hbits buf"] acc_bits[OF assms(1)] assms(1) False c
      by (auto simp: free_count_def)
    have n: "n = m" "bb_accumulator buf' = acc" "bb_count buf' = bb_count buf + 8 * m"
      using assms(2) False r m(1) by (auto simp: BitBuffer_AppendBytes_def mult.commute)
    have "bb_ok buf' \<and> hbits buf' = hbits buf @ bytes_bits (take n input)"
      using bb_okI[of acc "hbits buf @ bytes_bits (take m input)" "bb_count buf + 8 * m" buf'] m n assms(1) c
      by (simp add: free_count_def min_def)
    with m n False c show ?thesis by (auto simp: free_count_def)
  qed
  then show "bb_ok buf'" "hbits buf' = hbits buf @ bytes_bits (take n input)" "n \<le> length input"
    "n = 0 \<longleftrightarrow> input = [] \<or> 56 < bb_count buf" by blast+
qed


lemma code_prefix:
  assumes "bb_ok buf"
  shows "unat (ucast (drop_bit 32 (bb_accumulator buf)) :: u32) = lead (hbits buf)"
proof -
  let ?a = "bb_accumulator buf"
  have v: "val_of (bits_of (unat ?a) 64) = unat ?a"
    using unsigned_less[of ?a, where 'a = nat] by (simp add: val_of_bits_of)
  have "lead (hbits buf) = val_of (take 32 (bits_of (unat ?a) 64))"
    using assms by (simp add: lead_def acc_bits min_def)
  also have "\<dots> = unat ?a div 2 ^ 32"
    using val_of_take_div[of 32 "bits_of (unat ?a) 64"] by (simp add: v)
  finally have e: "unat (drop_bit 32 ?a) = lead (hbits buf)" by (simp only: unat_drop_bit)
  show ?thesis using lead_less[of "hbits buf"] by (simp add: unsigned_ucast_eq e take_bit_nat_eq_self)
qed

lemma short_prefix:
  assumes "bb_ok buf" "7 \<le> bb_count buf"
  shows "unat (ucast (drop_bit 57 (bb_accumulator buf)) :: byte) = lead (hbits buf) div 2 ^ 25"
proof -
  let ?a = "bb_accumulator buf"
  have v: "val_of (bits_of (unat ?a) 64) = unat ?a"
    using unsigned_less[of ?a, where 'a = nat] by (simp add: val_of_bits_of)
  have "lead (hbits buf) div 2 ^ 25 = val_of (take 7 (hbits buf))"
    using lead_div[of 7 "hbits buf"] assms by simp
  also have "\<dots> = val_of (take 7 (bits_of (unat ?a) 64))" using assms by (simp add: acc_bits)
  also have "\<dots> = unat ?a div 2 ^ 57" using val_of_take_div[of 7 "bits_of (unat ?a) 64"] by (simp add: v)
  finally have e: "unat (drop_bit 57 ?a) = lead (hbits buf) div 2 ^ 25" by (simp only: unat_drop_bit)
  have "lead (hbits buf) div 2 ^ 25 < 2 ^ 8" using lead_less[of "hbits buf"] by (simp add: div_less_iff_less_mult)
  then show ?thesis by (simp add: unsigned_ucast_eq e take_bit_nat_eq_self)
qed

section \<open>Decoding\<close>

lemma code_length_pos: "0 < pi_code_length (PrefixToInfo v)"
  using group_len_bounds[OF unat_u32_less[of v]] by (simp add: PrefixToInfo_eq)

lemma AppendBytes_zero: "BitBuffer_AppendBytes buf [] = (0, buf)"
  by (simp add: BitBuffer_AppendBytes_def)

lemma AppendBytes_loop_used: "ptr \<noteq> [] \<Longrightarrow> AppendBytes_loop f acc u ptr = (acc', u') \<Longrightarrow> u < u'"
  by (induction f acc u ptr rule: AppendBytes_loop.induct) (fastforce simp: Let_def split: if_splits)+

lemma AppendBytes_none: "BitBuffer_AppendBytes buf input = (0, buf') \<Longrightarrow> buf' = buf"
  using AppendBytes_loop_used[of input "free_count buf" "bb_accumulator buf" 0]
  by (auto simp: BitBuffer_AppendBytes_def Let_def split: if_splits prod.splits)

lemma AppendBytes_progress: "BitBuffer_AppendBytes buf input = (n, buf') \<Longrightarrow> n \<noteq> 0 \<Longrightarrow> length (drop n input) < length input"
  by (cases input) (auto simp: AppendBytes_zero)

text \<open>
  Both loops share the statements from the computation of \<open>code_prefix\<close> on: they are \<open>long_code\<close>,
  whose result is the value to return or the state with which the loop continues.
\<close>

datatype loop_result = Return "bool \<times> HuffmanBitBuffer \<times> bytes" | Continue "HuffmanBitBuffer \<times> bytes \<times> bytes"

definition long_code :: "HuffmanBitBuffer \<Rightarrow> bytes \<Rightarrow> bytes \<Rightarrow> loop_result" where
  "long_code bit_buffer input output =
     (let code_prefix = ucast (drop_bit 32 (bb_accumulator bit_buffer));
          prefix_info = PrefixToInfo code_prefix
      in if pi_code_length prefix_info \<le> bb_count bit_buffer then
           let canonical = DecodeToCanonical prefix_info code_prefix
           in if canonical < 256 then
                Continue (ConsumeBits bit_buffer (pi_code_length prefix_info), input,
                  output @ [kCanonicalToSymbol ! unat canonical])
              else Return (False, bit_buffer, output)
         else
           (case BitBuffer_AppendBytes bit_buffer input of
              (byte_count, bit_buffer) \<Rightarrow>
                if byte_count = 0 then Return (True, bit_buffer, output)
                else Continue (bit_buffer, drop byte_count input, output)))"

abbreviation huff_smaller :: "((HuffmanBitBuffer \<times> bytes \<times> bytes) \<times> (HuffmanBitBuffer \<times> bytes \<times> bytes)) set" where
  "huff_smaller \<equiv> measures [\<lambda>(buf, input, out). length input, \<lambda>(buf, input, out). bb_count buf]"

lemma long_code_smaller: "long_code buf input out = Continue t \<Longrightarrow> (t, buf, input, out) \<in> huff_smaller"
  using code_length_pos[of "ucast (drop_bit 32 (bb_accumulator buf))"] AppendBytes_progress[of buf input]
  by (auto simp: long_code_def Let_def ConsumeBits_def split: if_splits prod.splits)

function IfTree_loop :: "HuffmanBitBuffer \<Rightarrow> bytes \<Rightarrow> bytes \<Rightarrow> bool \<times> HuffmanBitBuffer \<times> bytes" where
  "IfTree_loop bit_buffer input output =
     (case long_code bit_buffer input output of
        Return r \<Rightarrow> r
      | Continue (bit_buffer, input, output) \<Rightarrow> IfTree_loop bit_buffer input output)"
  by pat_completeness auto
termination by (relation huff_smaller) (auto intro: long_code_smaller[OF sym] simp del: in_measures)

declare IfTree_loop.simps [simp del]

definition DecodeWithIfTreeAndStruct :: "HuffmanBitBuffer \<Rightarrow> bytes \<Rightarrow> bytes \<Rightarrow> bool \<times> HuffmanBitBuffer \<times> bytes" where
  "DecodeWithIfTreeAndStruct bit_buffer input output =
     (let (n, bit_buffer) = BitBuffer_AppendBytes bit_buffer input
      in IfTree_loop bit_buffer (drop n input) output)"

definition short_loop_step :: "HuffmanBitBuffer \<Rightarrow> bytes \<Rightarrow> bytes \<Rightarrow> loop_result" where
  "short_loop_step bit_buffer input output =
     (if bb_count bit_buffer \<ge> 7 then
        let short_code = ucast (drop_bit (64 - 7) (bb_accumulator bit_buffer)) :: byte
        in if unat short_code < 124 then
             let info = kShortCodeTable ! unat short_code
             in Continue (ConsumeBits bit_buffer (snd info), input, output @ [fst info])
           else long_code bit_buffer input output
      else
        (case BitBuffer_AppendBytes bit_buffer input of
           (byte_count, bit_buffer') \<Rightarrow>
             if byte_count > 0 then Continue (bit_buffer', drop byte_count input, output)
             else long_code bit_buffer' input output))"

lemma short_entry_pos: "i < 124 \<Longrightarrow> short_ok (i, kShortCodeTable ! i)"
  using shorts_all length_tables(3) by (simp add: list_all_length nth_enumerate_eq)

lemma short_length_pos: "i < 124 \<Longrightarrow> 0 < snd (kShortCodeTable ! i)"
proof -
  assume i: "i < 124"
  then have "i * 2 ^ 25 < 2 ^ 32" by simp
  then have "5 \<le> group_len (i * 2 ^ 25)" using group_len_bounds by blast
  then show ?thesis using short_entry_pos[OF i]
    by (auto simp: short_ok_def group_len_def Let_def split: prod.splits)
qed

lemma short_loop_step_smaller: "short_loop_step buf input out = Continue t \<Longrightarrow> (t, buf, input, out) \<in> huff_smaller"
proof (cases "bb_count buf \<ge> 7")
  case True
  assume "short_loop_step buf input out = Continue t"
  then show ?thesis using True long_code_smaller[of buf input out t]
      short_length_pos[of "unat (ucast (drop_bit 57 (bb_accumulator buf)) :: byte)"]
    by (auto simp: short_loop_step_def Let_def ConsumeBits_def split: if_splits)
next
  case False
  assume a: "short_loop_step buf input out = Continue t"
  obtain n buf' where b: "BitBuffer_AppendBytes buf input = (n, buf')" by fastforce
  show ?thesis
  proof (cases "n = 0")
    case True
    then have "buf' = buf" using AppendBytes_none b by blast
    then have "long_code buf input out = Continue t" using True a False b by (simp add: short_loop_step_def)
    then show ?thesis by (rule long_code_smaller)
  next
    case n: False
    with a False b show ?thesis using AppendBytes_progress[OF b n] by (auto simp: short_loop_step_def)
  qed
qed

function ShortCodes_loop :: "HuffmanBitBuffer \<Rightarrow> bytes \<Rightarrow> bytes \<Rightarrow> bool \<times> HuffmanBitBuffer \<times> bytes" where
  "ShortCodes_loop bit_buffer input output =
     (case short_loop_step bit_buffer input output of
        Return r \<Rightarrow> r
      | Continue (bit_buffer, input, output) \<Rightarrow> ShortCodes_loop bit_buffer input output)"
  by pat_completeness auto
termination by (relation huff_smaller) (auto intro: short_loop_step_smaller[OF sym] simp del: in_measures)

declare ShortCodes_loop.simps [simp del]

definition DecodeShortCodesFirst :: "HuffmanBitBuffer \<Rightarrow> bytes \<Rightarrow> bytes \<Rightarrow> bool \<times> HuffmanBitBuffer \<times> bytes" where
  "DecodeShortCodesFirst bit_buffer input output =
     (let (n, bit_buffer) = BitBuffer_AppendBytes bit_buffer input
      in ShortCodes_loop bit_buffer (drop n input) output)"

definition HuffmanDecoder_Decode :: "HuffmanBitBuffer \<Rightarrow> bytes \<Rightarrow> bytes \<Rightarrow> bool \<times> HuffmanBitBuffer \<times> bytes" where
  "HuffmanDecoder_Decode = DecodeShortCodesFirst"

section \<open>Repeated matching\<close>

text \<open>
  The reference: match codes until the bits do not start with a code any more, or until they start
  with the code of EOS. The result tells whether it is the former, the bits left, and the output.
\<close>

function huff_run :: "bool list \<Rightarrow> bytes \<Rightarrow> bool \<times> bool list \<times> bytes" where
  "huff_run bs output =
     (case huff_match bs of
        None \<Rightarrow> (True, bs, output)
      | Some y \<Rightarrow>
          if y < 256 then huff_run (drop (length (huff_code y)) bs) (output @ [of_nat y])
          else (False, bs, output))"
  by pat_completeness auto
termination
proof (relation "measure (\<lambda>(bs, out). length bs)")
  fix bs out y assume "huff_match bs = Some y" "y < 256"
  then show "((drop (length (huff_code y)) bs, out @ [of_nat y]), bs, out) \<in> measure (\<lambda>(bs, out). length bs)"
    using length_huff_code[of y] prefix_length_le[of "huff_code y" bs] by (auto simp: huff_match_Some)
qed simp

declare huff_run.simps [simp del]

abbreviation huff_bits :: "bytes \<Rightarrow> bool list" where
  "huff_bits s \<equiv> concat (map (\<lambda>b. huff_code (unat b)) s)"

lemma huff_run_sound:
  assumes "huff_run bs out = (ok, r, out')"
  shows "\<exists>s. out' = out @ s \<and> bs = huff_bits s @ r \<and>
    huff_match r = (if ok then None else Some 256)"
  using assms
proof (induction bs out rule: huff_run.induct)
  case (1 bs out)
  note step = trans[OF huff_run.simps[of bs out, symmetric] "1.prems"]
  show ?case
  proof (cases "\<exists>y<256. huff_match bs = Some y")
    case True
    then obtain y where y: "y < 256" "huff_match bs = Some y" by blast
    obtain s where s: "out' = (out @ [of_nat y]) @ s"
      "drop (length (huff_code y)) bs = huff_bits s @ r"
      "huff_match r = (if ok then None else Some 256)"
      using "1.IH"[OF y(2,1)] step y by auto
    have "bs = huff_code y @ drop (length (huff_code y)) bs"
      using y(2) by (auto simp: huff_match_Some prefix_def)
    then show ?thesis using s y(1) by (intro exI[of _ "of_nat y # s"]) (simp add: unat_of_nat)
  next
    case False
    then have "huff_match bs = None \<or> huff_match bs = Some 256"
      by (cases "huff_match bs") (auto simp: huff_match_Some not_less le_antisym dest: huff_matchD)
    then show ?thesis using step by auto
  qed
qed

lemma huff_run_codes: "huff_run (huff_bits s @ r) out = huff_run r (out @ s)"
proof (induction s arbitrary: out)
  case (Cons y s)
  have y: "unat y < 256" using unsigned_less[of y, where 'a = nat] by simp
  show ?case
    using y by (subst huff_run.simps) (simp add: huff_match_code Cons.IH)
qed simp

lemma huff_run_append:
  assumes "huff_run bs out = (ok, r, out')"
  shows "huff_run (bs @ tl_bits) out = (if ok then huff_run (r @ tl_bits) out' else (False, r @ tl_bits, out'))"
proof -
  obtain s where s: "out' = out @ s" "bs = huff_bits s @ r"
    "huff_match r = (if ok then None else Some 256)" using huff_run_sound[OF assms] by blast
  have "huff_run (bs @ tl_bits) out = huff_run (r @ tl_bits) out'"
    using huff_run_codes[of s "r @ tl_bits" out] s by simp
  moreover have "\<not> ok \<Longrightarrow> huff_run (r @ tl_bits) out' = (False, r @ tl_bits, out')"
    using huff_match_append[of r 256 tl_bits] s(3) by (subst huff_run.simps) simp
  ultimately show ?thesis by simp
qed

section \<open>The loops match repeatedly\<close>

definition step_ok :: "HuffmanBitBuffer \<Rightarrow> bytes \<Rightarrow> bytes \<Rightarrow> loop_result \<Rightarrow> bool" where
  "step_ok buf input out res = (case res of
     Return (ok, buf', out') \<Rightarrow> buf' = buf \<and> out' = out \<and>
       (if ok then input = [] \<and> huff_match (hbits buf) = None else huff_match (hbits buf) = Some 256)
   | Continue (buf', input', out') \<Rightarrow> bb_ok buf' \<and>
       huff_run (hbits buf' @ bytes_bits input') out' = huff_run (hbits buf @ bytes_bits input) out)"

lemma take_symbol:
  assumes "bb_ok buf" "huff_match (hbits buf) = Some y" "y < 256" "n = length (huff_code y)"
  shows "n \<le> bb_count buf \<and> step_ok buf input out (Continue (ConsumeBits buf n, input, out @ [of_nat y]))"
proof -
  have p: "prefix (huff_code y) (hbits buf)" using assms(2) by (simp add: huff_match_Some)
  have n: "n \<le> bb_count buf" using prefix_length_le[OF p] assms(1,4) by simp
  have "huff_run (hbits buf @ bytes_bits input) out
      = huff_run (drop n (hbits buf @ bytes_bits input)) (out @ [of_nat y])"
    using huff_match_append[OF assms(2), of "bytes_bits input"] assms(3,4)
    by (subst huff_run.simps) simp
  then show ?thesis
    using n Consume_bits[OF assms(1) n] assms(1) by (simp add: step_ok_def)
qed

lemma take_bytes:
  assumes "bb_ok buf" "BitBuffer_AppendBytes buf input = (n, buf')"
  shows "step_ok buf input out (Continue (buf', drop n input, out))"
proof -
  have "bytes_bits input = bytes_bits (take n input) @ bytes_bits (drop n input)"
    by (metis append_take_drop_id concat_append map_append)
  then show ?thesis using AppendBytes_bits[OF assms] by (simp add: step_ok_def)
qed

lemma long_code_step: "bb_ok buf \<Longrightarrow> step_ok buf input out (long_code buf input out)"
proof -
  assume ok: "bb_ok buf"
  let ?v = "ucast (drop_bit 32 (bb_accumulator buf)) :: u32"
  have l: "pi_code_length (PrefixToInfo ?v) = group_len (lead (hbits buf))"
    "unat (DecodeToCanonical (PrefixToInfo ?v) ?v) = canonical (lead (hbits buf))"
    by (simp_all add: PrefixToInfo_eq code_prefix[OF ok])
  show ?thesis
  proof (cases "group_len (lead (hbits buf)) \<le> bb_count buf")
    case True
    show ?thesis
    proof (cases "canonical (lead (hbits buf)) < 256")
      case c: True
      let ?y = "unat (kCanonicalToSymbol ! canonical (lead (hbits buf)))"
      have y: "?y < 256" using unsigned_less[of "kCanonicalToSymbol ! canonical (lead (hbits buf))", where 'a = nat] by simp
      have m: "huff_match (hbits buf) = Some ?y" using True c ok by (simp add: huff_match_eq)
      have "length (huff_code ?y) = group_len (lead (hbits buf))"
        using m canonical_inj(1)[OF code_val_less lead_less] by (auto simp: huff_match_Some prefix_code_iff code_len)
      from take_symbol[OF ok m y this[symmetric]] True c show ?thesis
        by (simp add: long_code_def l word_less_nat_alt)
    next
      case False
      then show ?thesis using True ok by (simp add: long_code_def l word_less_nat_alt step_ok_def huff_match_eq)
    qed
  next
    case False
    obtain n buf' where b: "BitBuffer_AppendBytes buf input = (n, buf')" by fastforce
    have small: "bb_count buf < 30" using False group_len_bounds[OF lead_less[of "hbits buf"]] by simp
    show ?thesis
      using False ok small b AppendBytes_none[of buf input buf'] AppendBytes_bits(4)[OF ok b] take_bytes[OF ok b, of out]
      by (auto simp: long_code_def l step_ok_def huff_match_eq)
  qed
qed

lemma short_match:
  assumes ok: "bb_ok buf" and seven: "7 \<le> bb_count buf" and i: "i = lead (hbits buf) div 2 ^ 25" "i < 124"
  shows "huff_match (hbits buf) = Some (unat (fst (kShortCodeTable ! i)))"
    "snd (kShortCodeTable ! i) = group_len (lead (hbits buf))"
proof -
  obtain y len where e: "kShortCodeTable ! i = (y, len)" by fastforce
  have iv: "i * 2 ^ 25 < 2 ^ 32" using i(2) by simp
  have so: "group_len (i * 2 ^ 25) = len" "len \<le> 7" "canonical (i * 2 ^ 25) < 256"
    "kCanonicalToSymbol ! canonical (i * 2 ^ 25) = y"
    using short_entry_pos[OF i(2)] canon_chunk_nth[of "canonical (i * 2 ^ 25)"]
    by (auto simp: e short_ok_def group_len_def canonical_def Let_def split: prod.splits)
  have p: "2 ^ (32 - len) = (2 ^ 25 * 2 ^ (7 - len) :: nat)" using power_add[of "2 :: nat" 25 "7 - len"] so(2) by simp
  have "lead (hbits buf) div 2 ^ (32 - len) = i * 2 ^ 25 div 2 ^ (32 - len)"
    by (simp only: p div_mult2_eq i(1)[symmetric]) simp
  then have st: "canonical (lead (hbits buf)) = canonical (i * 2 ^ 25)" "group_len (lead (hbits buf)) = len"
    using group_stable[OF iv, of "lead (hbits buf)"] so(1) by simp_all
  show "snd (kShortCodeTable ! i) = group_len (lead (hbits buf))" by (simp add: e st)
  show "huff_match (hbits buf) = Some (unat (fst (kShortCodeTable ! i)))"
    using so seven ok by (simp add: huff_match_eq st e)
qed

lemma match_length: "huff_match bs = Some y \<Longrightarrow> length (huff_code y) = group_len (lead bs)"
  using canonical_inj(1)[OF code_val_less lead_less, of bs y] by (auto simp: huff_match_Some prefix_code_iff code_len)

lemma short_loop_step_ok: "bb_ok buf \<Longrightarrow> step_ok buf input out (short_loop_step buf input out)"
proof (cases "bb_count buf \<ge> 7")
  case True
  assume ok: "bb_ok buf"
  let ?i = "unat (ucast (drop_bit 57 (bb_accumulator buf)) :: byte)"
  show ?thesis
  proof (cases "?i < 124")
    case i: True
    note m = short_match[OF ok True short_prefix[OF ok True] i]
    have y: "unat (fst (kShortCodeTable ! ?i)) < 256"
      using unsigned_less[of "fst (kShortCodeTable ! ?i)", where 'a = nat] by simp
    from take_symbol[OF ok m(1) y, of "snd (kShortCodeTable ! ?i)"] match_length[OF m(1)] m(2)
    show ?thesis using True i by (simp add: short_loop_step_def)
  next
    case False
    then show ?thesis using True long_code_step[OF ok] by (simp add: short_loop_step_def)
  qed
next
  case False
  assume ok: "bb_ok buf"
  obtain n buf' where b: "BitBuffer_AppendBytes buf input = (n, buf')" by fastforce
  show ?thesis
    using False b take_bytes[OF ok b, of out] long_code_step[OF ok, of input out] AppendBytes_none[of buf input buf']
    by (auto simp: short_loop_step_def)
qed

definition decodes :: "HuffmanBitBuffer \<Rightarrow> bytes \<Rightarrow> bytes \<Rightarrow> bool \<times> HuffmanBitBuffer \<times> bytes \<Rightarrow> bool" where
  "decodes buf input out res = (case res of (ok, buf', out') \<Rightarrow>
     bb_ok buf' \<and> (\<exists>r. huff_run (hbits buf @ bytes_bits input) out = (ok, r, out') \<and> (ok \<longrightarrow> r = hbits buf')))"

lemma decodes_Return: "step_ok buf input out (Return res) \<Longrightarrow> bb_ok buf \<Longrightarrow> decodes buf input out res"
proof -
  assume st: "step_ok buf input out (Return res)" and ok: "bb_ok buf"
  obtain good buf' out' where res: "res = (good, buf', out')" by (cases res) auto
  have r: "huff_run (hbits buf) out = (good, hbits buf, out)"
    using st by (cases good) (simp_all add: huff_run.simps[of "hbits buf"] step_ok_def res)
  have s: "buf' = buf" "out' = out" "good \<longrightarrow> input = []" using st by (auto simp: step_ok_def res split: if_splits)
  show ?thesis
  proof (cases good)
    case True
    then show ?thesis using s ok r by (simp add: decodes_def res)
  next
    case False
    then show ?thesis using s ok huff_run_append[OF r, of "bytes_bits input"] by (simp add: decodes_def res)
  qed
qed

lemma decodes_Continue:
  "step_ok buf input out (Continue (buf', input', out')) \<Longrightarrow> decodes buf' input' out' res \<Longrightarrow> decodes buf input out res"
  by (auto simp: step_ok_def decodes_def)

lemma IfTree_decodes: "bb_ok buf \<Longrightarrow> decodes buf input out (IfTree_loop buf input out)"
proof (induction buf input out rule: IfTree_loop.induct)
  case (1 buf input out)
  note st = long_code_step[OF "1.prems", of input out]
  show ?case
  proof (cases "long_code buf input out")
    case (Return r)
    then show ?thesis using decodes_Return[of buf input out r] st "1.prems" by (simp add: IfTree_loop.simps[of buf])
  next
    case (Continue t)
    obtain buf' input' out' where t: "t = (buf', input', out')" by (cases t) auto
    have "decodes buf' input' out' (IfTree_loop buf' input' out')"
      by (rule "1.IH"[OF Continue t[symmetric] refl]) (use st Continue t in \<open>simp add: step_ok_def\<close>)
    then show ?thesis using decodes_Continue[of buf input out buf' input' out'] st Continue t
      by (simp add: IfTree_loop.simps[of buf])
  qed
qed

lemma ShortCodes_decodes: "bb_ok buf \<Longrightarrow> decodes buf input out (ShortCodes_loop buf input out)"
proof (induction buf input out rule: ShortCodes_loop.induct)
  case (1 buf input out)
  note st = short_loop_step_ok[OF "1.prems", of input out]
  show ?case
  proof (cases "short_loop_step buf input out")
    case (Return r)
    then show ?thesis using decodes_Return[of buf input out r] st "1.prems" by (simp add: ShortCodes_loop.simps[of buf])
  next
    case (Continue t)
    obtain buf' input' out' where t: "t = (buf', input', out')" by (cases t) auto
    have "decodes buf' input' out' (ShortCodes_loop buf' input' out')"
      by (rule "1.IH"[OF Continue t[symmetric] refl]) (use st Continue t in \<open>simp add: step_ok_def\<close>)
    then show ?thesis using decodes_Continue[of buf input out buf' input' out'] st Continue t
      by (simp add: ShortCodes_loop.simps[of buf])
  qed
qed

lemma decodes_fill:
  assumes "bb_ok buf" "BitBuffer_AppendBytes buf input = (n, buf')" "decodes buf' (drop n input) out res"
  shows "decodes buf input out res"
  using decodes_Continue[OF take_bytes[OF assms(1,2)] assms(3)] .

lemma Decode_decodes: "bb_ok buf \<Longrightarrow> decodes buf input out (HuffmanDecoder_Decode buf input out)"
proof -
  assume ok: "bb_ok buf"
  obtain n buf' where b: "BitBuffer_AppendBytes buf input = (n, buf')" by fastforce
  from decodes_fill[OF ok b ShortCodes_decodes[OF AppendBytes_bits(1)[OF ok b]]] show ?thesis
    by (simp add: HuffmanDecoder_Decode_def DecodeShortCodesFirst_def b)
qed

lemma IfTreeAndStruct_decodes: "bb_ok buf \<Longrightarrow> decodes buf input out (DecodeWithIfTreeAndStruct buf input out)"
proof -
  assume ok: "bb_ok buf"
  obtain n buf' where b: "BitBuffer_AppendBytes buf input = (n, buf')" by fastforce
  from decodes_fill[OF ok b IfTree_decodes[OF AppendBytes_bits(1)[OF ok b]]] show ?thesis
    by (simp add: DecodeWithIfTreeAndStruct_def b)
qed

lemma terminated_bits:
  assumes "bb_ok buf"
  shows "InputProperlyTerminated buf \<longleftrightarrow> length (hbits buf) < 8 \<and> set (hbits buf) \<subseteq> {True}"
proof -
  let ?c = "bb_count buf" and ?a = "bb_accumulator buf"
  let ?e = "NOT (drop_bit ?c (NOT 0)) :: u64"
  have c: "?c \<le> 64" using assms by (simp add: bb_ok_def)
  have e: "bits_of (unat ?e) 64 = replicate ?c True @ replicate (64 - ?c) False"
    using c by (intro nth_equalityI) (auto simp: bit_unat nth_append bit_simps)
  have "?a = ?e \<longleftrightarrow> bits_of (unat ?a) 64 = bits_of (unat ?e) 64"
    using bits_of_inj[of "unat ?a" 64 "unat ?e"] unsigned_less[of ?a, where 'a = nat] unsigned_less[of ?e, where 'a = nat]
    by (auto simp: word_unat_eq_iff)
  also have "\<dots> \<longleftrightarrow> hbits buf = replicate ?c True" by (simp only: e acc_bits[OF assms] append_same_eq)
  also have "\<dots> \<longleftrightarrow> set (hbits buf) \<subseteq> {True}"
    using replicate_eqI[of "hbits buf" ?c True] assms by (auto simp: set_replicate_conv_if split: if_splits)
  finally have ae: "?a = ?e \<longleftrightarrow> set (hbits buf) \<subseteq> {True}" .
  show ?thesis
  proof (cases "?c = 0")
    case True
    then have "hbits buf = []" using assms by (metis length_0_conv length_hbits)
    then show ?thesis using True by (simp add: InputProperlyTerminated_def)
  next
    case False
    then show ?thesis using assms ae by (simp add: InputProperlyTerminated_def Let_def)
  qed
qed

section \<open>A string in several pieces\<close>

text \<open>The calls a client makes: \<open>Decode\<close> for each piece of the encoded string, until one fails.\<close>

fun huff_feed :: "HuffmanBitBuffer \<Rightarrow> bytes \<Rightarrow> bytes list \<Rightarrow> bool \<times> HuffmanBitBuffer \<times> bytes" where
  "huff_feed buf output [] = (True, buf, output)"
| "huff_feed buf output (c # cs) =
     (case HuffmanDecoder_Decode buf c output of
        (True, buf, output) \<Rightarrow> huff_feed buf output cs
      | (False, buf, output) \<Rightarrow> (False, buf, output))"

lemma huff_feed_run:
  assumes "bb_ok buf" "huff_match (hbits buf) = None" "huff_feed buf out css = (ok, buf', out')"
  shows "bb_ok buf' \<and> (\<exists>r. huff_run (hbits buf @ bytes_bits (concat css)) out = (ok, r, out') \<and> (ok \<longrightarrow> r = hbits buf'))"
  using assms
proof (induction css arbitrary: buf out)
  case Nil
  then show ?case by (auto simp: huff_run.simps[of "hbits buf'"])
next
  case (Cons c css)
  obtain ok1 buf1 out1 where d: "HuffmanDecoder_Decode buf c out = (ok1, buf1, out1)"
    by (cases "HuffmanDecoder_Decode buf c out") auto
  obtain r where r: "bb_ok buf1" "huff_run (hbits buf @ bytes_bits c) out = (ok1, r, out1)" "ok1 \<longrightarrow> r = hbits buf1"
    using Decode_decodes[OF Cons.prems(1), of c out] by (auto simp: d decodes_def)
  have ap: "huff_run (hbits buf @ bytes_bits (concat (c # css))) out =
      (if ok1 then huff_run (r @ bytes_bits (concat css)) out1 else (False, r @ bytes_bits (concat css), out1))"
    using huff_run_append[OF r(2), of "bytes_bits (concat css)"] by simp
  show ?case
  proof (cases ok1)
    case True
    have "huff_match (hbits buf1) = None" using huff_run_sound[OF r(2)] r(3) True by auto
    from Cons.IH[OF r(1) this, of out1] Cons.prems(3) show ?thesis using True r(3) ap by (simp add: d)
  next
    case False
    then show ?thesis using Cons.prems(3) ap r(1) by (simp add: d)
  qed
qed

lemma huff_match_Nil: "huff_match [] = None"
proof (cases "huff_match []")
  case (Some y)
  then have "y \<le> 256" "huff_code y = []" by (simp_all add: huff_match_Some)
  with length_huff_code[of y] show ?thesis by simp
qed

text \<open>
  C19: However an encoded string is cut into pieces, decoding them one after the other, starting from
  an empty bit buffer, gives the text whose Huffman codes the input consists of. It succeeds
  exactly when what is left behind the last code is not the start of the code of EOS; that rest
  stays in the bit buffer, does not begin with any code, and is accepted as padding exactly when it
  is shorter than a byte and all ones.
\<close>

theorem huffman_fragments:
  assumes "huff_feed (BitBuffer_Reset buf) [] css = (ok, buf', out)"
  shows "\<exists>r. bytes_bits (concat css) = huff_bits out @ r \<and>
    (if ok then hbits buf' = r \<and> (\<forall>y \<le> 256. \<not> prefix (huff_code y) r) \<and>
         InputProperlyTerminated buf' = (length r < 8 \<and> set r \<subseteq> {True})
     else prefix (huff_code 256) r)"
proof -
  have *: "bb_ok buf' \<and> (\<exists>r. huff_run (bytes_bits (concat css)) [] = (ok, r, out) \<and> (ok \<longrightarrow> r = hbits buf'))"
    using huff_feed_run[OF Reset_bits(1) _ assms] by (simp add: Reset_bits huff_match_Nil)
  then obtain r where r: "huff_run (bytes_bits (concat css)) [] = (ok, r, out)" "ok \<longrightarrow> r = hbits buf'" by blast
  obtain s where s: "out = [] @ s" "bytes_bits (concat css) = huff_bits s @ r" "huff_match r = (if ok then None else Some 256)"
    using huff_run_sound[OF r(1)] by blast
  have "\<forall>y \<le> 256. \<not> prefix (huff_code y) r" if ok
    using s(3) that huff_match_Some[of r] by auto
  moreover have "prefix (huff_code 256) r" if "\<not> ok" using s(3) that huff_match_Some[of r 256] by simp
  ultimately show ?thesis using s r(2) * terminated_bits by (intro exI[of _ r]) auto
qed

lemmas huff_eval =
  HuffmanDecoder_Decode_def DecodeShortCodesFirst_def DecodeWithIfTreeAndStruct_def BitBuffer_AppendBytes_def
  free_count_def BitBuffer_Reset_def ShortCodes_loop.simps IfTree_loop.simps short_loop_step_def long_code_def
  kShortCodeTable_def ConsumeBits_def PrefixToInfo_def DecodeToCanonical_def kCanonicalToSymbol_def

abbreviation bit_buffer0 :: HuffmanBitBuffer where
  "bit_buffer0 \<equiv> \<lparr>bb_accumulator = 0, bb_count = 0\<rparr>"

theorem huffman_fragments_witness:
  "\<exists>buf'. huff_feed (BitBuffer_Reset bit_buffer0) [] [[0x64], [0x02]] = (True, buf', [0x33, 0x30, 0x32]) \<and>
     (\<exists>r. bytes_bits [0x64, 0x02] = huff_bits [0x33, 0x30, 0x32] @ r \<and> hbits buf' = r \<and>
        \<not> prefix (huff_code 256) r \<and> InputProperlyTerminated buf' = (length r < 8 \<and> set r \<subseteq> {True}))"
proof -
  have "\<exists>buf'. huff_feed (BitBuffer_Reset bit_buffer0) [] [[0x64], [0x02]] = (True, buf', [0x33, 0x30, 0x32])"
    by (simp add: huff_eval)
  then obtain buf' where e: "huff_feed (BitBuffer_Reset bit_buffer0) [] [[0x64], [0x02]] = (True, buf', [0x33, 0x30, 0x32])"
    by (rule exE)
  from huffman_fragments[OF e] obtain r where
    "bytes_bits (concat [[0x64], [0x02]]) = huff_bits [0x33, 0x30, 0x32] @ r" "hbits buf' = r"
    "\<forall>y \<le> 256. \<not> prefix (huff_code y) r" "InputProperlyTerminated buf' = (length r < 8 \<and> set r \<subseteq> {True})"
    by (auto simp only: if_True)
  then show ?thesis using e by (intro exI[of _ buf'] conjI exI[of _ r]) simp_all
qed

text \<open>
  C20: The two decoding loops, the one by the tree of comparisons and the one that tries the table of
  short codes first, agree on every input and every state of the bit buffer: they succeed or fail
  together, produce the same output, and on success leave the same bits in the buffer.
\<close>

theorem huffman_decoders_agree:
  assumes "bb_ok buf"
  shows "case (DecodeWithIfTreeAndStruct buf input out, DecodeShortCodesFirst buf input out) of
    ((ok1, buf1, out1), (ok2, buf2, out2)) \<Rightarrow> ok1 = ok2 \<and> out1 = out2 \<and> (if ok1 then buf1 = buf2 else True)"
  using IfTreeAndStruct_decodes[OF assms, of input out] Decode_decodes[OF assms, of input out] hbits_inj
  by (auto simp: decodes_def HuffmanDecoder_Decode_def split: prod.splits)

theorem huffman_decoders_agree_witness:
  "bb_ok (BitBuffer_Reset bit_buffer0) \<and>
   fst (DecodeWithIfTreeAndStruct (BitBuffer_Reset bit_buffer0) [0x64, 0x02] []) =
   fst (DecodeShortCodesFirst (BitBuffer_Reset bit_buffer0) [0x64, 0x02] []) \<and>
   snd (snd (DecodeShortCodesFirst (BitBuffer_Reset bit_buffer0) [0x64, 0x02] [])) = [0x33, 0x30, 0x32]"
proof -
  have "snd (snd (DecodeShortCodesFirst (BitBuffer_Reset bit_buffer0) [0x64, 0x02] [])) = [0x33, 0x30, 0x32]"
    by (simp add: huff_eval)
  then show ?thesis
    using Reset_bits(1)[of bit_buffer0] huffman_decoders_agree[OF Reset_bits(1)[of bit_buffer0], of "[0x64, 0x02]" "[]"]
    by (auto split: prod.splits)
qed

end
