(* ===== verification/Hpack_Huffman_Encoder.thy ===== *)
theory Hpack_Huffman_Encoder
  imports Hpack_Output_Stream Hpack_Huffman "HOL-Library.Product_Lexorder"
begin

text \<open>
  \<^verbatim>\<open>spdy/hpack/hpack_huffman_table.cc\<close>: the encoding half of \<open>HpackHuffmanTable\<close>. A failed
  \<open>CHECK\<close>, which terminates the program, is \<open>None\<close>. The lemmas give the bits \<open>EncodeString\<close>
  appends: the codes of the text, and ones up to the next byte boundary.
\<close>

record HpackHuffmanTable =
  ht_code_by_id :: "u32 list"
  ht_length_by_id :: "nat list"
  ht_pad_bits :: byte
  ht_failed_symbol_id :: nat

definition HpackHuffmanTable_init :: HpackHuffmanTable where
  "HpackHuffmanTable_init =
     \<lparr>ht_code_by_id = [], ht_length_by_id = [], ht_pad_bits = 0, ht_failed_symbol_id = 0\<rparr>"

text \<open>The \<open>AppendBits\<close> calls for one symbol: the code, shifted to the low bits, octet by octet.\<close>

definition AppendCode :: "u32 \<Rightarrow> nat \<Rightarrow> HpackOutputStream \<Rightarrow> HpackOutputStream" where
  "AppendCode code len out =
     (let (out, len) = (if len > 24 then (AppendBits (ucast (drop_bit 24 code)) (len - 24) out, 24) else (out, len));
          (out, len) = (if len > 16 then (AppendBits (ucast (drop_bit 16 code)) (len - 16) out, 16) else (out, len));
          (out, len) = (if len > 8 then (AppendBits (ucast (drop_bit 8 code)) (len - 8) out, 8) else (out, len))
      in AppendBits (ucast code) len out)"

fun EncodeString_loop :: "HpackHuffmanTable \<Rightarrow> nat \<Rightarrow> bytes \<Rightarrow> HpackOutputStream \<Rightarrow> (nat \<times> HpackOutputStream) option" where
  "EncodeString_loop t bit_remnant [] out = Some (bit_remnant, out)"
| "EncodeString_loop t bit_remnant (c # cs) out =
     (let symbol_id = unat c
      in if length (ht_code_by_id t) \<le> symbol_id then None
         else
           let len = ht_length_by_id t ! symbol_id;
               code = drop_bit (32 - len) (ht_code_by_id t ! symbol_id)
           in EncodeString_loop t ((bit_remnant + len) mod 8) cs (AppendCode code len out))"

definition EncodeString :: "HpackHuffmanTable \<Rightarrow> bytes \<Rightarrow> HpackOutputStream \<Rightarrow> HpackOutputStream option" where
  "EncodeString t s out =
     (case EncodeString_loop t 0 s out of
        None \<Rightarrow> None
      | Some (bit_remnant, out) \<Rightarrow>
          Some (if bit_remnant \<noteq> 0 then AppendBits (drop_bit bit_remnant (ht_pad_bits t)) (8 - bit_remnant) out else out))"

fun EncodedSize_loop :: "HpackHuffmanTable \<Rightarrow> nat \<Rightarrow> bytes \<Rightarrow> nat option" where
  "EncodedSize_loop t bit_count [] = Some bit_count"
| "EncodedSize_loop t bit_count (c # cs) =
     (let symbol_id = unat c
      in if length (ht_code_by_id t) \<le> symbol_id then None
         else EncodedSize_loop t (bit_count + ht_length_by_id t ! symbol_id) cs)"

definition EncodedSize :: "HpackHuffmanTable \<Rightarrow> bytes \<Rightarrow> nat option" where
  "EncodedSize t s =
     (case EncodedSize_loop t 0 s of
        None \<Rightarrow> None
      | Some bit_count \<Rightarrow>
          let bit_count = (if bit_count mod 8 \<noteq> 0 then bit_count + (8 - bit_count mod 8) else bit_count)
          in Some (bit_count div 8))"

text \<open>
  \<open>Initialize\<close>, up to the decode tables of the deprecated generic decoder, which no other method
  reads. \<open>std::sort\<close> is by a strict total order on the rows, so its result is the sorted list.
\<close>

fun FirstBadId :: "nat \<Rightarrow> (u32 \<times> nat \<times> nat) list \<Rightarrow> nat option" where
  "FirstBadId i [] = None"
| "FirstBadId i ((code, len, y) # rows) = (if i \<noteq> y then Some i else FirstBadId (Suc i) rows)"

fun FirstNonCanonical :: "(u32 \<times> nat \<times> nat) list \<Rightarrow> nat option" where
  "FirstNonCanonical ((code0, len0, y0) # (code1, len1, y1) # rows) =
     (let code = code0 + push_bit (32 - len0) 1
      in if code \<noteq> code1 then Some y1
         else if code < code0 then Some y1
         else FirstNonCanonical ((code1, len1, y1) # rows))"
| "FirstNonCanonical rows = None"

definition BuildEncodeTable :: "(u32 \<times> nat \<times> nat) list \<Rightarrow> HpackHuffmanTable \<Rightarrow> HpackHuffmanTable option" where
  "BuildEncodeTable symbols t =
     (if map (snd \<circ> snd) symbols = [0..<length symbols] then
        Some (t\<lparr>ht_code_by_id := ht_code_by_id t @ map fst symbols,
                ht_length_by_id := ht_length_by_id t @ map (fst \<circ> snd) symbols\<rparr>)
      else None)"

definition HuffmanTable_Initialize ::
  "(u32 \<times> nat \<times> nat) list \<Rightarrow> HpackHuffmanTable \<Rightarrow> (bool \<times> HpackHuffmanTable) option" where
  "HuffmanTable_Initialize input_symbols t =
     (if ht_code_by_id t \<noteq> [] then None
      else case FirstBadId 0 input_symbols of
        Some i \<Rightarrow> Some (False, t\<lparr>ht_failed_symbol_id := i\<rparr>)
      | None \<Rightarrow>
          let symbols = sort_key snd input_symbols
          in if fst (symbols ! 0) \<noteq> 0 then Some (False, t\<lparr>ht_failed_symbol_id := 0\<rparr>)
             else case FirstNonCanonical symbols of
               Some y \<Rightarrow> Some (False, t\<lparr>ht_failed_symbol_id := y\<rparr>)
             | None \<Rightarrow>
                 if fst (snd (last symbols)) < 8 then Some (False, t)
                 else
                   let t = t\<lparr>ht_pad_bits := ucast (drop_bit 24 (fst (last symbols)))\<rparr>;
                       symbols = sort_key (snd \<circ> snd) symbols
                   in map_option (\<lambda>t. (True, t)) (BuildEncodeTable symbols t))"

section \<open>What is written\<close>

definition hpack_table :: "HpackHuffmanTable \<Rightarrow> bool" where
  "hpack_table t \<longleftrightarrow> ht_code_by_id t = map fst HpackHuffmanCode \<and>
     ht_length_by_id t = map (fst \<circ> snd) HpackHuffmanCode \<and> ht_pad_bits t = 0xff"

lemma bits_of_split: "k \<le> n \<Longrightarrow> bits_of v n = bits_of (v div 2 ^ k) (n - k) @ bits_of v k"
  by (rule nth_equalityI) (auto simp: nth_append bit_simps simp flip: drop_bit_eq_div)

lemma bits_of_mod: "k \<le> j \<Longrightarrow> bits_of (v mod 2 ^ j) k = bits_of v k"
  by (rule nth_equalityI) (auto simp: bit_take_bit_iff simp flip: take_bit_eq_mod)

lemma AppendBits_octet:
  assumes "stream_ok out" "k < n" "n \<le> k + 8" "n = k + 8 \<or> unat code < 2 ^ n"
  shows "stream_ok (AppendBits (ucast (drop_bit k (code :: u32))) (n - k) out) \<and>
    stream_bits (AppendBits (ucast (drop_bit k code)) (n - k) out) = stream_bits out @ bits_of (unat code div 2 ^ k) (n - k)"
proof -
  let ?b = "ucast (drop_bit k code) :: byte"
  have u: "unat ?b = (unat code div 2 ^ k) mod 2 ^ 8"
    by (simp add: unsigned_ucast_eq unat_drop_bit take_bit_eq_mod)
  have "unat ?b < 2 ^ (n - k)"
  proof (cases "n = k + 8")
    case True
    then show ?thesis using u by simp
  next
    case False
    then have "unat code div 2 ^ k < 2 ^ (n - k)"
      using assms(2,4) by (simp add: div_less_iff_less_mult flip: power_add)
    then show ?thesis using u mod_less_eq_dividend le_less_trans by metis
  qed
  then show ?thesis
    using AppendBits_ok_bits[OF assms(1), of "n - k" ?b] assms(2,3) bits_of_mod[of "n - k" 8 "unat code div 2 ^ k"]
    by (simp add: u)
qed

lemma AppendCode_bits:
  assumes "stream_ok out" "0 < n" "n \<le> 32" "unat code < 2 ^ n"
  shows "stream_ok (AppendCode code n out) \<and> stream_bits (AppendCode code n out) = stream_bits out @ bits_of (unat code) n"
proof -
  define a where "a = (if n > 24 then (AppendBits (ucast (drop_bit 24 code)) (n - 24) out, 24) else (out, n))"
  define b where "b = (if snd a > 16 then (AppendBits (ucast (drop_bit 16 code)) (snd a - 16) (fst a), 16) else a)"
  define c where "c = (if snd b > 8 then (AppendBits (ucast (drop_bit 8 code)) (snd b - 8) (fst b), 8) else b)"
  have e: "AppendCode code n out = AppendBits (ucast code) (snd c) (fst c)"
    by (simp add: AppendCode_def Let_def split_beta c_def b_def a_def)
  have A: "stream_ok (fst a) \<and> 0 < snd a \<and> snd a \<le> 24 \<and> (snd a = 24 \<or> unat code < 2 ^ snd a) \<and>
      stream_bits (fst a) @ bits_of (unat code) (snd a) = stream_bits out @ bits_of (unat code) n"
    using assms AppendBits_octet[of out 24 n code] bits_of_split[of 24 n "unat code"] by (auto simp: a_def)
  have B: "stream_ok (fst b) \<and> 0 < snd b \<and> snd b \<le> 16 \<and> (snd b = 16 \<or> unat code < 2 ^ snd b) \<and>
      stream_bits (fst b) @ bits_of (unat code) (snd b) = stream_bits out @ bits_of (unat code) n"
    using A AppendBits_octet[of "fst a" 16 "snd a" code] bits_of_split[of 16 "snd a" "unat code"]
    by (auto simp: b_def simp flip: append_assoc)
  have C: "stream_ok (fst c) \<and> 0 < snd c \<and> snd c \<le> 8 \<and> (snd c = 8 \<or> unat code < 2 ^ snd c) \<and>
      stream_bits (fst c) @ bits_of (unat code) (snd c) = stream_bits out @ bits_of (unat code) n"
    using B AppendBits_octet[of "fst b" 8 "snd b" code] bits_of_split[of 8 "snd b" "unat code"]
    by (auto simp: c_def simp flip: append_assoc)
  show ?thesis using C AppendBits_octet[of "fst c" 0 "snd c" code] by (auto simp: e)
qed

lemma stream_bits_length: "stream_ok s \<Longrightarrow> length (stream_bits s) mod 8 = os_bit_offset s"
proof -
  assume ok: "stream_ok s"
  have "(8 * n + k) mod 8 = k" if "k < 8" for n k :: nat using that by simp
  then show ?thesis using ok by (auto simp: stream_bits_def stream_ok_def min_def)
qed

lemma table_lookup:
  assumes "hpack_table t"
  shows "\<not> length (ht_code_by_id t) \<le> unat (c :: byte)"
    "ht_length_by_id t ! unat c = length (huff_code (unat c))"
    "bits_of (unat (drop_bit (32 - length (huff_code (unat c))) (ht_code_by_id t ! unat c))) (length (huff_code (unat c)))
      = huff_code (unat c)"
    "unat (drop_bit (32 - length (huff_code (unat c))) (ht_code_by_id t ! unat c)) < 2 ^ length (huff_code (unat c))"
proof -
  have c: "unat c < 256" using unsigned_less[of c, where 'a = nat] by simp
  let ?y = "unat c"
  show "\<not> length (ht_code_by_id t) \<le> ?y" using c assms by (simp add: hpack_table_def length_tables)
  show len: "ht_length_by_id t ! ?y = length (huff_code ?y)"
    using c assms by (simp add: hpack_table_def length_tables row_facts(1) code_len)
  have v: "unat (ht_code_by_id t ! ?y) = code_val ?y" using c assms by (simp add: hpack_table_def length_tables code_val_def)
  have d: "unat (drop_bit (32 - length (huff_code ?y)) (ht_code_by_id t ! ?y)) = val_of (huff_code ?y)"
    using c by (simp add: unat_drop_bit v val_huff_code code_len)
  show "bits_of (unat (drop_bit (32 - length (huff_code ?y)) (ht_code_by_id t ! ?y))) (length (huff_code ?y)) = huff_code ?y"
    by (simp add: d bits_of_val_of)
  show "unat (drop_bit (32 - length (huff_code ?y)) (ht_code_by_id t ! ?y)) < 2 ^ length (huff_code ?y)"
    by (simp add: d val_of_less)
qed

lemma EncodeString_loop_bits:
  assumes "hpack_table t" "stream_ok out" "rem < 8"
  shows "\<exists>out'. EncodeString_loop t rem s out = Some ((rem + length (huff_bits s)) mod 8, out') \<and>
    stream_ok out' \<and> stream_bits out' = stream_bits out @ huff_bits s"
  using assms(2,3)
proof (induction s arbitrary: rem out)
  case (Cons c s)
  let ?l = "length (huff_code (unat c))"
  have "unat c < 256" using unsigned_less[of c, where 'a = nat] by simp
  then have l: "0 < ?l" "?l \<le> 32" using length_huff_code[of "unat c"] by linarith+
  note lk = table_lookup[OF assms(1), of c]
  let ?out = "AppendCode (drop_bit (32 - ?l) (ht_code_by_id t ! unat c)) ?l out"
  have o: "stream_ok ?out" "stream_bits ?out = stream_bits out @ huff_code (unat c)"
    using AppendCode_bits[OF Cons.prems(1) l lk(4)] lk(3) by simp_all
  show ?case
    using Cons.IH[OF o(1), of "(rem + ?l) mod 8"] lk(1,2) by (simp add: Let_def o(2) mod_simps add.assoc)
qed simp

definition pad_len :: "nat \<Rightarrow> nat" where
  "pad_len n = (if n mod 8 = 0 then 0 else 8 - n mod 8)"

lemma pad_bits: "0 < r \<Longrightarrow> r < 8 \<Longrightarrow> unat (drop_bit r (0xff :: byte)) < 2 ^ (8 - r) \<and>
    bits_of (unat (drop_bit r (0xff :: byte))) (8 - r) = replicate (8 - r) True"
proof -
  assume r: "0 < r" "r < 8"
  have m: "unat (drop_bit r (0xff :: byte)) = 2 ^ (8 - r) - 1"
  proof -
    have "r \<in> {1, 2, 3, 4, 5, 6, 7}" using r by auto
    then show ?thesis by (auto simp: unat_drop_bit)
  qed
  have "2 ^ (8 - r) - 1 = (mask (8 - r) :: nat)" by (simp add: mask_eq_exp_minus_1)
  then have "bit (2 ^ (8 - r) - 1 :: nat) i" if "i < 8 - r" for i
    using that by (simp only:) (simp add: bit_mask_iff)
  then show ?thesis using r unfolding m by (auto intro!: nth_equalityI)
qed

lemma EncodeString_bits:
  assumes "hpack_table t" "stream_ok out" "os_bit_offset out = 0"
  shows "\<exists>out'. EncodeString t s out = Some out' \<and> os_bit_offset out' = 0 \<and>
    bytes_bits (os_buffer out') = bytes_bits (os_buffer out) @ huff_bits s @ replicate (pad_len (length (huff_bits s))) True"
proof -
  let ?n = "length (huff_bits s)"
  obtain o1 where o1: "EncodeString_loop t 0 s out = Some (?n mod 8, o1)" "stream_ok o1"
    "stream_bits o1 = stream_bits out @ huff_bits s"
    using EncodeString_loop_bits[OF assms(1,2), of 0 s] by auto
  have b: "stream_bits out = bytes_bits (os_buffer out)" using assms(3) by (simp add: stream_bits_def)
  show ?thesis
  proof (cases "?n mod 8 = 0")
    case True
    have "os_bit_offset o1 = 0" using stream_bits_length[OF o1(2)] True by (simp add: o1(3) b mod_simps)
    then have "stream_bits o1 = bytes_bits (os_buffer o1)" by (simp add: stream_bits_def)
    with \<open>os_bit_offset o1 = 0\<close> show ?thesis using o1 True by (simp add: EncodeString_def pad_len_def b)
  next
    case False
    let ?r = "?n mod 8"
    let ?o = "AppendBits (drop_bit ?r (0xff :: byte)) (8 - ?r) o1"
    have r: "0 < ?r" "?r < 8" using False by simp_all
    have o2: "stream_ok ?o" "stream_bits ?o = stream_bits o1 @ replicate (8 - ?r) True"
      using AppendBits_ok_bits[OF o1(2), of "8 - ?r" "drop_bit ?r 0xff"] pad_bits[OF r] r by simp_all
    have "(?n + (8 - ?r)) mod 8 = 0" by (metis r(2) add.commute le_add_diff_inverse2 less_imp_le mod_add_left_eq mod_self)
    moreover have "length (stream_bits ?o) = 8 * length (os_buffer out) + (?n + (8 - ?r))"
      unfolding o2(2) o1(3) b by simp
    ultimately have "os_bit_offset ?o = 0" using stream_bits_length[OF o2(1)] by (metis mod_mult_self4)
    moreover from this have "stream_bits ?o = bytes_bits (os_buffer ?o)" by (simp add: stream_bits_def)
    ultimately show ?thesis using o1 o2 False assms(1) by (simp add: EncodeString_def pad_len_def hpack_table_def b)
  qed
qed

lemma EncodedSize_loop_eq: "hpack_table t \<Longrightarrow> EncodedSize_loop t n s = Some (n + length (huff_bits s))"
  by (induction s arbitrary: n) (auto simp: Let_def table_lookup add.assoc)

lemma EncodedSize_eq: "hpack_table t \<Longrightarrow> EncodedSize t s = Some ((length (huff_bits s) + pad_len (length (huff_bits s))) div 8)"
  by (auto simp: EncodedSize_def EncodedSize_loop_eq pad_len_def Let_def)

end
