(* ===== verification/Hpack_Huffman_Canonical.thy ===== *)
theory Hpack_Huffman_Canonical
  imports Hpack_Huffman_Encoder "HOL-Library.Multiset"
begin

text \<open>
  \<open>HpackHuffmanTable::Initialize\<close>: every table that passes its validation is a prefix code, and the
  code table of HPACK passes it: sorted by length and symbol, its rows are those of the decoder's
  canonical symbols, and each code is the successor of the one before.
\<close>

section \<open>The table of HPACK is accepted\<close>

text \<open>
  \<open>Initialize\<close> sorts the rows by length and symbol and requires each code to be the previous one
  plus one in its last place. In that order the rows are those of the canonical symbols.
\<close>

definition symbol_at :: "nat \<Rightarrow> nat" where
  "symbol_at c = (if c < 256 then unat (kCanonicalToSymbol ! c) else 256)"

definition step_up :: "nat \<times> byte \<times> byte \<Rightarrow> bool" where
  "step_up r = (case r of (i, a, b) \<Rightarrow> unat a < unat b \<or> Suc i \<in> set (map (\<lambda>(lo, hi, len, fc). fc) prefix_groups))"

abbreviation canon_steps :: "(nat \<times> byte \<times> byte) list" where
  "canon_steps \<equiv> List.enumerate 0 (zip kCanonicalToSymbol (tl kCanonicalToSymbol))"

lemma canon_steps_0: "list_all step_up (take 32 (drop 0 canon_steps))" "list_all step_up (take 32 (drop 32 canon_steps))"
  by (simp_all add: step_up_def kCanonicalToSymbol_def prefix_groups_def)

lemma canon_steps_1: "list_all step_up (take 32 (drop 64 canon_steps))" "list_all step_up (take 32 (drop 96 canon_steps))"
  by (simp_all add: step_up_def kCanonicalToSymbol_def prefix_groups_def)

lemma canon_steps_2: "list_all step_up (take 32 (drop 128 canon_steps))" "list_all step_up (take 32 (drop 160 canon_steps))"
  by (simp_all add: step_up_def kCanonicalToSymbol_def prefix_groups_def)

lemma canon_steps_3: "list_all step_up (take 32 (drop 192 canon_steps))" "list_all step_up (take 32 (drop 224 canon_steps))"
  by (simp_all add: step_up_def kCanonicalToSymbol_def prefix_groups_def)

lemma canon_steps_all: "list_all step_up canon_steps"
proof -
  have "length canon_steps = 255" by (simp add: length_tables)
  then have "length canon_steps \<le> 224 + 32" by simp
  from drop_all[OF this] have "list_all step_up (drop (224 + 32) canon_steps)" by (simp only: list.pred_inject)
  then have "list_all step_up (drop (192 + 32) canon_steps)" using list_all_take_drop[OF canon_steps_3(2)] by simp
  then have "list_all step_up (drop (160 + 32) canon_steps)" using list_all_take_drop[OF canon_steps_3(1)] by simp
  then have "list_all step_up (drop (128 + 32) canon_steps)" using list_all_take_drop[OF canon_steps_2(2)] by simp
  then have "list_all step_up (drop (96 + 32) canon_steps)" using list_all_take_drop[OF canon_steps_2(1)] by simp
  then have "list_all step_up (drop (64 + 32) canon_steps)" using list_all_take_drop[OF canon_steps_1(2)] by simp
  then have "list_all step_up (drop (32 + 32) canon_steps)" using list_all_take_drop[OF canon_steps_1(1)] by simp
  then have "list_all step_up (drop (0 + 32) canon_steps)" using list_all_take_drop[OF canon_steps_0(2)] by simp
  then show ?thesis using list_all_take_drop[OF canon_steps_0(1)] by simp
qed

lemma canon_step:
  assumes "Suc c < 256"
  shows "step_up (c, kCanonicalToSymbol ! c, kCanonicalToSymbol ! Suc c)"
proof -
  have c: "c < length canon_steps" using assms by (simp add: length_tables)
  have e: "canon_steps ! c = (c, kCanonicalToSymbol ! c, kCanonicalToSymbol ! Suc c)"
    using assms by (simp add: nth_enumerate_eq nth_tl length_tables)
  have "step_up (canon_steps ! c)"
    using canon_steps_all nth_mem[OF c] unfolding list_all_iff by (rule bspec)
  then show ?thesis by (simp only: e)
qed

lemma symbol_at:
  assumes "c \<le> 256"
  shows "symbol_at c \<le> 256" "canonical (code_val (symbol_at c)) = c"
proof -
  obtain y where y: "y \<le> 256" "canonical (code_val y) = c" using canonical_code_surj[OF assms] by blast
  have "y = symbol_at c"
  proof (cases "y < 256")
    case True
    then show ?thesis using row_facts(3)[OF y(1)] y(2) by (simp add: symbol_at_def unat_of_nat)
  next
    case False
    then have "y = 256" using y(1) by simp
    then show ?thesis using row_facts(4)[of 0] y(2) by (simp add: symbol_at_def)
  qed
  then show "symbol_at c \<le> 256" "canonical (code_val (symbol_at c)) = c" using y by simp_all
qed

lemma groups_increasing: "sorted_wrt (\<lambda>(lo, hi, len, fc) (lo', hi', len', fc'). lo < lo' \<and> len < len') prefix_groups"
  by (simp add: prefix_groups_def)

lemma group_order:
  assumes "(lo, hi, len, fc) \<in> set prefix_groups" "(lo', hi', len', fc') \<in> set prefix_groups" "lo < lo'"
  shows "len < len'"
proof -
  obtain i where i: "i < length prefix_groups" "prefix_groups ! i = (lo, hi, len, fc)"
    using assms(1) by (auto simp: in_set_conv_nth)
  obtain j where j: "j < length prefix_groups" "prefix_groups ! j = (lo', hi', len', fc')"
    using assms(2) by (auto simp: in_set_conv_nth)
  have "\<not> j < i" "i \<noteq> j" using sorted_wrt_nth_less[OF groups_increasing, of j i] i j assms(3) by auto
  then show ?thesis using sorted_wrt_nth_less[OF groups_increasing, of i j] i j by auto
qed

lemma next_group:
  "chained s c gs \<Longrightarrow> (lo, hi, len, fc) \<in> set gs \<Longrightarrow> hi < 2 ^ 32 \<Longrightarrow>
   \<exists>hi' len'. (hi, hi', len', fc + (hi - lo) div 2 ^ (32 - len)) \<in> set gs"
proof (induction s c gs rule: chained.induct)
  case (2 s c lo0 hi0 len0 fc0 gs)
  have ch: "chained hi0 (c + (hi0 - lo0) div 2 ^ (32 - len0)) gs" and e: "lo0 = s" "fc0 = c"
    using "2.prems"(1) unfolding chained.simps by blast+
  show ?case
  proof (cases "(lo, hi, len, fc) \<in> set gs")
    case True
    from "2.IH"[OF ch True "2.prems"(3)] show ?thesis by auto
  next
    case False
    then have g: "lo = lo0" "hi = hi0" "len = len0" "fc = fc0" using "2.prems"(2) by auto
    show ?thesis
    proof (cases gs)
      case Nil
      then show ?thesis using ch "2.prems"(3) g by simp
    next
      case (Cons h hs)
      obtain lo1 hi1 len1 fc1 where h: "h = (lo1, hi1, len1, fc1)" by (cases h) auto
      have "lo1 = hi0" "fc1 = c + (hi0 - lo0) div 2 ^ (32 - len0)"
        using ch unfolding Cons h chained.simps by blast+
      then show ?thesis using Cons h g e by auto
    qed
  qed
qed simp

lemma last_group: "list_all (\<lambda>(lo, hi, len, fc). hi < 2 ^ 32 \<or> fc + (hi - lo) div 2 ^ (32 - len) = 257) prefix_groups"
  by (simp add: prefix_groups_def)

lemma next_canonical:
  assumes v: "in_group v lo hi len fc" and d: "2 ^ (32 - len) dvd v" and c: "canonical v < 256"
  defines "w \<equiv> v + 2 ^ (32 - len)"
  shows "\<exists>lo' hi' len' fc'. in_group w lo' hi' len' fc' \<and> canonical w = Suc (canonical v) \<and> 2 ^ (32 - len') dvd w \<and>
    (len < len' \<or> len = len' \<and> fc < Suc (canonical v) \<and> (lo', hi', len', fc') = (lo, hi, len, fc))"
proof -
  note g = in_groupD[OF v]
  obtain a b x where abx: "lo = 2 ^ (32 - len) * a" "hi = 2 ^ (32 - len) * b" "v = 2 ^ (32 - len) * x"
    using g(9,10) d by (auto elim!: dvdE)
  have "x < b" using g(3) by (simp add: abx)
  then have le: "w \<le> hi" using mult_le_mono2[of "Suc x" b "2 ^ (32 - len)"] by (simp add: w_def abx)
  have cw: "fc + (w - lo) div 2 ^ (32 - len) = Suc (canonical v)"
  proof -
    have "(w - lo) div 2 ^ (32 - len) = w div 2 ^ (32 - len) - a" "(v - lo) div 2 ^ (32 - len) = v div 2 ^ (32 - len) - a"
      unfolding abx(1) by (rule diff_mult_div, simp)+
    moreover have "w div 2 ^ (32 - len) = Suc x" "v div 2 ^ (32 - len) = x" by (simp_all add: w_def abx)
    moreover have "a \<le> x" using g(2) by (simp add: abx)
    ultimately show ?thesis by (simp add: g(6) Suc_diff_le)
  qed
  show ?thesis
  proof (cases "w < hi")
    case True
    then have i: "in_group w lo hi len fc" using v g(2) by (simp add: in_group_def w_def)
    show ?thesis using i in_groupD(6)[OF i] cw d canonical_range(1)[OF v]
      by (intro exI[of _ lo] exI[of _ hi] exI[of _ len] exI[of _ fc]) (auto simp: w_def)
  next
    case False
    then have w: "w = hi" using le by simp
    have "hi < 2 ^ 32"
    proof -
      have "hi < 2 ^ 32 \<or> fc + (hi - lo) div 2 ^ (32 - len) = 257"
        using bspec[OF last_group[unfolded list_all_iff] g(1)] by (simp only: prod.case)
      then show ?thesis using cw[unfolded w] c by linarith
    qed
    then obtain hi' len' where n: "(hi, hi', len', fc + (hi - lo) div 2 ^ (32 - len)) \<in> set prefix_groups"
      using next_group[OF prefix_groups_chained g(1)] by blast
    have "hi < hi'" using chained_after[OF prefix_groups_chained n] by blast
    then have i: "in_group w hi hi' len' (Suc (canonical v))" using n cw w by (simp add: in_group_def)
    have "len < len'" using group_order[OF g(1) n] g(2,3) by simp
    then show ?thesis using i in_groupD(6,9)[OF i] w
      by (intro exI[of _ hi] exI[of _ hi'] exI[of _ len'] exI[of _ "Suc (canonical v)"]) simp
  qed
qed

lemma group_start_unique:
  assumes "in_group w lo hi len fc" "fc' \<in> set (map (\<lambda>(lo, hi, len, fc). fc) prefix_groups)" "canonical w = fc'"
  shows "fc = fc'"
proof -
  obtain lo' hi' len' where g': "(lo', hi', len', fc') \<in> set prefix_groups" using assms(2) by auto
  have a: "lo' < hi'" "2 ^ (32 - len') dvd lo'" "2 ^ (32 - len') dvd hi'"
    using chained_after[OF prefix_groups_chained g'] by blast+
  then have i: "in_group lo' lo' hi' len' fc'" using g' by (simp add: in_group_def)
  have "canonical lo' = fc'" using in_groupD(6)[OF i] by simp
  then show ?thesis
    using chained_canonical_unique[OF prefix_groups_chained in_groupD(1)[OF assms(1)] g', of "canonical w"]
      canonical_range[OF assms(1)] canonical_range[OF i] assms(3) by simp
qed

lemma next_row:
  assumes c: "c < 256"
  defines "v \<equiv> code_val (symbol_at c)" and "u \<equiv> code_val (symbol_at (Suc c))"
  shows "u = v + 2 ^ (32 - group_len v)" "(group_len v, symbol_at c) < (group_len u, symbol_at (Suc c))"
proof -
  note sc = symbol_at[of c] and su = symbol_at[of "Suc c"]
  have cv: "canonical v = c" and cu: "canonical u = Suc c" using sc su c by (simp_all add: v_def u_def)
  obtain lo hi len fc where i: "in_group v lo hi len fc" unfolding v_def by (rule group_cases[OF code_val_less])
  have len: "group_len v = len" by (rule in_groupD(5)[OF i])
  have d: "2 ^ (32 - len) dvd v" using row_facts(2)[of "symbol_at c"] sc(1) c len by (simp add: v_def)
  have du: "2 ^ (32 - group_len u) dvd u" using row_facts(2)[of "symbol_at (Suc c)"] su(1) c by (simp add: u_def)
  define w where "w = v + 2 ^ (32 - len)"
  obtain lo' hi' len' fc' where w: "in_group w lo' hi' len' fc'" "canonical w = Suc c" "2 ^ (32 - len') dvd w"
    "len < len' \<or> len = len' \<and> fc < Suc c \<and> (lo', hi', len', fc') = (lo, hi, len, fc)"
    using next_canonical[OF i d] c by (auto simp: cv w_def)
  have wl: "w < 2 ^ 32" using in_groupD(3,11)[OF w(1)] by linarith
  have ul: "u < 2 ^ 32" unfolding u_def by (rule code_val_less)
  have lw: "group_len w = len'" by (rule in_groupD(5)[OF w(1)])
  note inj = canonical_inj[OF wl ul, unfolded cu w(2), OF refl]
  have uw: "u = w" using inj du w(3) lw by (metis dvd_div_mult_self)
  then show "u = v + 2 ^ (32 - group_len v)" by (simp add: w_def len)
  show "(group_len v, symbol_at c) < (group_len u, symbol_at (Suc c))"
  proof (cases "len < len'")
    case True
    then show ?thesis using len lw uw by simp
  next
    case False
    then have f: "len = len' \<and> fc < Suc c \<and> (lo', hi', len', fc') = (lo, hi, len, fc)" using w(4) by blast
    then have fc: "fc' = fc" "fc < Suc c" "len = len'" by (blast dest: prod.inject[THEN iffD1])+
    have "Suc c \<notin> set (map (\<lambda>(lo, hi, len, fc). fc) prefix_groups)"
    proof
      assume "Suc c \<in> set (map (\<lambda>(lo, hi, len, fc). fc) prefix_groups)"
      from group_start_unique[OF w(1) this w(2)] fc(1,2) show False by simp
    qed
    then have lt: "unat (kCanonicalToSymbol ! c) < unat (kCanonicalToSymbol ! Suc c)" if "Suc c < 256"
      using canon_step[OF that] unfolding step_up_def prod.case by blast
    have "unat (kCanonicalToSymbol ! c) < 256"
      using unsigned_less[of "kCanonicalToSymbol ! c", where 'a = nat] by simp
    with lt c have "symbol_at c < symbol_at (Suc c)" by (cases "Suc c < 256") (simp_all add: symbol_at_def)
    then show ?thesis using len lw uw fc by simp
  qed
qed

definition canonical_rows :: "(u32 \<times> nat \<times> nat) list" where
  "canonical_rows = map (\<lambda>c. HpackHuffmanCode ! symbol_at c) [0..<257]"

lemma length_canonical_rows: "length canonical_rows = 257"
  by (simp only: canonical_rows_def length_map length_upt)

lemma canonical_row: "c < 257 \<Longrightarrow> canonical_rows ! c =
    (fst (HpackHuffmanCode ! symbol_at c), group_len (code_val (symbol_at c)), symbol_at c)"
proof -
  assume c: "c < 257"
  have "canonical_rows ! c = HpackHuffmanCode ! symbol_at c"
    unfolding canonical_rows_def using c by (simp only: nth_map length_upt diff_zero nth_upt add_0)
  then show ?thesis using row_of[of "symbol_at c"] row_facts(1)[of "symbol_at c"] symbol_at(1)[of c] c by simp
qed

lemma symbol_at_image: "symbol_at ` {..<257} = {..<257}" "inj_on symbol_at {..<257}"
proof -
  have i: "c \<in> {..<257} \<longleftrightarrow> c \<le> 256" for c :: nat unfolding lessThan_iff by linarith
  show inj: "inj_on symbol_at {..<257}"
    by (rule inj_onI) (metis i symbol_at(2))
  show "symbol_at ` {..<257} = {..<257}"
    by (rule endo_inj_surj[OF finite_lessThan _ inj]) (use symbol_at(1) i in blast)
qed

lemma mset_canonical_rows: "mset canonical_rows = mset HpackHuffmanCode"
proof -
  have a: "mset (map f [0..<n]) = image_mset f (mset_set {..<n})" for f :: "nat \<Rightarrow> 'a" and n
    by (metis atLeast_upt mset_map mset_set_set distinct_upt)
  have "mset canonical_rows = image_mset ((!) HpackHuffmanCode) (image_mset symbol_at (mset_set {..<257}))"
    unfolding canonical_rows_def a by (simp only: multiset.map_comp comp_def)
  also have "image_mset symbol_at (mset_set {..<257}) = mset_set {..<257}"
    using image_mset_mset_set[OF symbol_at_image(2)] symbol_at_image(1) by (simp only:)
  also have "image_mset ((!) HpackHuffmanCode) (mset_set {..<257}) = mset (map ((!) HpackHuffmanCode) [0..<257])"
    by (simp only: a)
  also have "map ((!) HpackHuffmanCode) [0..<257] = HpackHuffmanCode"
    using map_nth[of HpackHuffmanCode] by (simp only: length_tables)
  finally show ?thesis .
qed

lemma rows_inj: "inj_on (snd \<circ> snd) (set HpackHuffmanCode)"
proof (rule inj_onI)
  fix r q assume "r \<in> set HpackHuffmanCode" "q \<in> set HpackHuffmanCode" and eq: "(snd \<circ> snd) r = (snd \<circ> snd) q"
  then obtain i j where ij: "i < length HpackHuffmanCode" "r = HpackHuffmanCode ! i" "j < length HpackHuffmanCode" "q = HpackHuffmanCode ! j"
    by (auto simp only: in_set_conv_nth)
  then have "i \<le> 256" "j \<le> 256" unfolding length_tables by linarith+
  from row_of[OF this(1)] row_of[OF this(2)] eq ij(2,4) have "i = j" by (metis comp_apply snd_conv)
  with ij show "r = q" by simp
qed

lemma sort_rows: "sort_key snd HpackHuffmanCode = canonical_rows"
proof (rule sort_key_inj_key_eq)
  show "mset HpackHuffmanCode = mset canonical_rows" by (rule mset_canonical_rows[symmetric])
  show "inj_on snd (set HpackHuffmanCode)" using rows_inj by (rule inj_on_imageI2)
  show "sorted (map snd canonical_rows)"
    unfolding sorted_iff_nth_Suc length_map length_canonical_rows
  proof (intro allI impI)
    fix c assume c: "Suc c < 257"
    then have "map snd canonical_rows ! c = (group_len (code_val (symbol_at c)), symbol_at c)"
      "map snd canonical_rows ! Suc c = (group_len (code_val (symbol_at (Suc c))), symbol_at (Suc c))"
      by (simp_all only: nth_map length_canonical_rows canonical_row Suc_lessD snd_conv)
    moreover have "c < 256" using c by linarith
    ultimately show "map snd canonical_rows ! c \<le> map snd canonical_rows ! Suc c"
      using next_row(2)[of c] by (simp only: less_imp_le)
  qed
qed

lemma sort_rows_back: "sort_key (snd \<circ> snd) canonical_rows = HpackHuffmanCode"
proof (rule sort_key_inj_key_eq)
  show "mset canonical_rows = mset HpackHuffmanCode" by (rule mset_canonical_rows)
  show "inj_on (snd \<circ> snd) (set canonical_rows)"
    using rows_inj mset_eq_setD[OF mset_canonical_rows] by (simp only:)
  show "sorted (map (snd \<circ> snd) HpackHuffmanCode)" by (simp only: symbol_column sorted_upt)
qed

lemma FirstBadId_None: "map (snd \<circ> snd) rows = [i..<i + length rows] \<Longrightarrow> FirstBadId i rows = None"
  by (induction i rows rule: FirstBadId.induct) (auto simp: upt_conv_Cons simp del: upt_Suc)

lemma FirstNonCanonical_None:
  "(\<And>i. Suc i < length rows \<Longrightarrow>
      fst (rows ! Suc i) = fst (rows ! i) + push_bit (32 - fst (snd (rows ! i))) 1 \<and> fst (rows ! i) \<le> fst (rows ! Suc i))
   \<Longrightarrow> FirstNonCanonical rows = None"
proof (induction rows rule: FirstNonCanonical.induct)
  case (1 code0 len0 y0 code1 len1 y1 rows)
  have z: "code1 = code0 + push_bit (32 - len0) 1" "code0 \<le> code1" using "1.prems"[of 0] by auto
  have "FirstNonCanonical ((code1, len1, y1) # rows) = None"
  proof (rule "1.IH"[OF refl])
    show "\<not> code0 + push_bit (32 - len0) 1 \<noteq> code1" "\<not> code0 + push_bit (32 - len0) 1 < code0"
      using z by (simp_all only: not_less simp_thms)
    fix i assume "Suc i < length ((code1, len1, y1) # rows)"
    then have "Suc (Suc i) < length ((code0, len0, y0) # (code1, len1, y1) # rows)" by simp
    from "1.prems"[OF this] show "fst (((code1, len1, y1) # rows) ! Suc i) = fst (((code1, len1, y1) # rows) ! i) +
        push_bit (32 - fst (snd (((code1, len1, y1) # rows) ! i))) 1 \<and>
      fst (((code1, len1, y1) # rows) ! i) \<le> fst (((code1, len1, y1) # rows) ! Suc i)"
      unfolding nth_Cons_Suc .
  qed
  then show ?case using z by (simp add: Let_def not_less)
qed simp_all

lemma canonical_rows_chain:
  assumes "Suc c < 257"
  shows "fst (canonical_rows ! Suc c) = fst (canonical_rows ! c) + push_bit (32 - fst (snd (canonical_rows ! c))) 1 \<and>
    fst (canonical_rows ! c) \<le> fst (canonical_rows ! Suc c)"
proof -
  let ?v = "code_val (symbol_at c)"
  have c: "c < 256" "c < 257" using assms by linarith+
  let ?k = "32 - group_len ?v"
  have k: "?k < 32" using group_len_bounds[OF code_val_less[of "symbol_at c"]] by linarith
  have n: "code_val (symbol_at (Suc c)) = ?v + 2 ^ ?k" by (rule next_row(1)[OF c(1)])
  have less: "?v + 2 ^ ?k < 2 ^ 32" using code_val_less[of "symbol_at (Suc c)"] by (simp only: n)
  have p: "unat (push_bit ?k 1 :: u32) = 2 ^ ?k"
    using k by (simp only: unsigned_push_bit_eq) (simp add: take_bit_nat_eq_self push_bit_eq_mult)
  have u: "unat (fst (HpackHuffmanCode ! y)) = code_val y" for y by (simp only: code_val_def)
  have "unat (fst (HpackHuffmanCode ! symbol_at c) + push_bit ?k 1) = ?v + 2 ^ ?k"
    using less p by (simp add: unat_word_ariths u)
  then show ?thesis
    unfolding canonical_row[OF assms] canonical_row[OF c(2)] fst_conv snd_conv
    by (simp add: word_unat_eq_iff word_le_nat_alt u n)
qed

lemma first_row: "fst (canonical_rows ! 0) = 0"
proof -
  let ?v = "code_val (symbol_at 0)"
  have z: "in_group 0 0 0x50000000 5 0" by (simp add: in_group_def prefix_groups_def)
  have c: "canonical ?v = canonical 0" using symbol_at(2)[of 0] in_groupD(6)[OF z] by simp
  have "group_len ?v = group_len 0" "?v div 2 ^ (32 - group_len 0) = 0 div 2 ^ (32 - group_len 0)"
    using canonical_inj[OF _ code_val_less c] by simp_all
  moreover have "2 ^ (32 - group_len ?v) dvd ?v" using row_facts(2)[of "symbol_at 0"] symbol_at(1)[of 0] by simp
  ultimately have "?v = 0" by (metis div_0 dvd_div_eq_0_iff)
  then show ?thesis using canonical_row[of 0] by (simp add: code_val_def unat_eq_zero)
qed

lemma last_row: "last canonical_rows = (0xfffffffc, 30, 256)"
proof -
  have "last canonical_rows = canonical_rows ! 256"
    using length_canonical_rows by (subst last_conv_nth) auto
  also have "\<dots> = HpackHuffmanCode ! symbol_at 256"
    unfolding canonical_rows_def by (simp only: nth_map length_upt diff_zero nth_upt) simp
  also have "\<dots> = HpackHuffmanCode ! 256" by (simp add: symbol_at_def)
  also have "\<dots> = (0xfffffffc, 30, 256)" by (simp add: table_simps)
  finally show ?thesis .
qed

lemma Initialize_hpack:
  "HuffmanTable_Initialize HpackHuffmanCode HpackHuffmanTable_init =
     Some (True, \<lparr>ht_code_by_id = map fst HpackHuffmanCode, ht_length_by_id = map (fst \<circ> snd) HpackHuffmanCode,
       ht_pad_bits = 0xff, ht_failed_symbol_id = 0\<rparr>)"
proof -
  have ids: "FirstBadId 0 HpackHuffmanCode = None"
    by (rule FirstBadId_None) (simp only: symbol_column length_tables add_0)
  have canon: "FirstNonCanonical canonical_rows = None"
    by (rule FirstNonCanonical_None) (rule canonical_rows_chain, simp only: length_canonical_rows)
  have "BuildEncodeTable HpackHuffmanCode t = Some (t\<lparr>ht_code_by_id := ht_code_by_id t @ map fst HpackHuffmanCode,
      ht_length_by_id := ht_length_by_id t @ map (fst \<circ> snd) HpackHuffmanCode\<rparr>)" for t
    by (simp only: BuildEncodeTable_def symbol_column length_tables simp_thms if_True)
  then show ?thesis
    by (simp add: HuffmanTable_Initialize_def HpackHuffmanTable_init_def ids sort_rows first_row canon last_row
        sort_rows_back Let_def del: sort_key_simps)
qed

section \<open>Every accepted table is a prefix code\<close>

lemma FirstBadId_ids: "FirstBadId i rows = None \<Longrightarrow> map (snd \<circ> snd) rows = [i..<i + length rows]"
  by (induction i rows rule: FirstBadId.induct) (auto simp: upt_conv_Cons simp del: upt_Suc split: if_splits)

lemma FirstNonCanonical_step:
  "FirstNonCanonical rows = None \<Longrightarrow> Suc i < length rows \<Longrightarrow>
   fst (rows ! Suc i) = fst (rows ! i) + push_bit (32 - fst (snd (rows ! i))) 1 \<and> fst (rows ! i) \<le> fst (rows ! Suc i)"
proof (induction rows arbitrary: i rule: FirstNonCanonical.induct)
  case (1 code0 len0 y0 code1 len1 y1 rows)
  then have z: "code1 = code0 + push_bit (32 - len0) 1" "code0 \<le> code1" "FirstNonCanonical ((code1, len1, y1) # rows) = None"
    by (auto simp: Let_def not_less split: if_splits)
  show ?case
  proof (cases i)
    case 0
    then show ?thesis using z by simp
  next
    case (Suc k)
    have "\<not> code0 + push_bit (32 - len0) 1 \<noteq> code1" "\<not> code0 + push_bit (32 - len0) 1 < code0" using z by (auto simp: not_less)
    moreover have "Suc k < length ((code1, len1, y1) # rows)" using "1.prems"(2) by (simp add: Suc)
    ultimately show ?thesis using "1.IH"[OF refl _ _ z(3), of k] unfolding Suc nth_Cons_Suc by blast
  qed
qed simp_all

text \<open>What \<open>Initialize\<close> has checked of the symbols in the order of their lengths.\<close>

definition canonical_code :: "(u32 \<times> nat \<times> nat) list \<Rightarrow> bool" where
  "canonical_code rows \<longleftrightarrow> FirstNonCanonical rows = None \<and> fst (rows ! 0) = 0 \<and>
     list_all (\<lambda>(code, len, y). 1 \<le> len \<and> len \<le> 32) rows \<and> sorted (map (fst \<circ> snd) rows)"

abbreviation code_at :: "(u32 \<times> nat \<times> nat) list \<Rightarrow> nat \<Rightarrow> nat" where
  "code_at rows i \<equiv> unat (fst (rows ! i))"

abbreviation len_at :: "(u32 \<times> nat \<times> nat) list \<Rightarrow> nat \<Rightarrow> nat" where
  "len_at rows i \<equiv> fst (snd (rows ! i))"

lemma canonical_lens:
  assumes "canonical_code rows" "i < length rows"
  shows "1 \<le> len_at rows i" "len_at rows i \<le> 32" "Suc i < length rows \<Longrightarrow> len_at rows i \<le> len_at rows (Suc i)"
proof -
  have "1 \<le> fst (snd (rows ! i)) \<and> fst (snd (rows ! i)) \<le> 32"
    using assms by (cases "rows ! i") (fastforce simp: canonical_code_def list_all_length)
  then show "1 \<le> len_at rows i" "len_at rows i \<le> 32" by auto
  show "Suc i < length rows \<Longrightarrow> len_at rows i \<le> len_at rows (Suc i)"
    using assms(1) sorted_nth_mono[of "map (fst \<circ> snd) rows" i "Suc i"] by (simp add: canonical_code_def)
qed

lemma no_wrap: "(a :: nat) < M \<Longrightarrow> p < M \<Longrightarrow> a \<le> (a + p) mod M \<Longrightarrow> a + p < M"
proof (rule ccontr)
  assume a: "a < M" "p < M" "a \<le> (a + p) mod M" "\<not> a + p < M"
  then have "(a + p) mod M = a + p - M" by (simp add: le_mod_geq)
  with a show False by linarith
qed

lemma canonical_next:
  assumes "canonical_code rows" "Suc i < length rows"
  shows "code_at rows (Suc i) = code_at rows i + 2 ^ (32 - len_at rows i)"
proof -
  let ?k = "32 - len_at rows i"
  have k: "?k < 32" using canonical_lens(1)[OF assms(1), of i] assms(2) by linarith
  have s: "fst (rows ! Suc i) = fst (rows ! i) + push_bit ?k 1" "fst (rows ! i) \<le> fst (rows ! Suc i)"
    using FirstNonCanonical_step[OF _ assms(2)] assms(1) by (auto simp: canonical_code_def)
  have p: "unat (push_bit ?k 1 :: u32) = 2 ^ ?k"
    using k by (simp only: unsigned_push_bit_eq) (simp add: take_bit_nat_eq_self push_bit_eq_mult)
  let ?a = "code_at rows i" and ?M = "2 ^ 32 :: nat"
  have n: "code_at rows (Suc i) = (?a + 2 ^ ?k) mod ?M" unfolding s(1) unat_word_ariths(1) p by simp
  have le: "?a \<le> (?a + 2 ^ ?k) mod ?M" using s(2) unfolding word_le_nat_alt n .
  have b: "?a < ?M" "(2 :: nat) ^ ?k < ?M"
    using unsigned_less[of "fst (rows ! i)", where 'a = nat] power_strict_increasing[OF k, of "2 :: nat"] by simp_all
  from no_wrap[OF b le] have "?a + 2 ^ ?k < ?M" .
  then show ?thesis using n by simp
qed

lemma canonical_aligned: "canonical_code rows \<Longrightarrow> i < length rows \<Longrightarrow> 2 ^ (32 - len_at rows i) dvd code_at rows i"
proof (induction i)
  case 0
  then show ?case by (simp add: canonical_code_def)
next
  case (Suc i)
  have "(2 :: nat) ^ (32 - len_at rows (Suc i)) dvd 2 ^ (32 - len_at rows i)"
    using canonical_lens(3)[OF Suc.prems(1), of i] Suc.prems(2) by (intro le_imp_power_dvd) simp
  with Suc show ?case by (auto simp: canonical_next intro: dvd_trans)
qed

lemma canonical_above:
  "canonical_code rows \<Longrightarrow> i < j \<Longrightarrow> j < length rows \<Longrightarrow> code_at rows i + 2 ^ (32 - len_at rows i) \<le> code_at rows j"
proof (induction j)
  case (Suc j)
  show ?case
  proof (cases "i = j")
    case False
    with Suc have "code_at rows i + 2 ^ (32 - len_at rows i) \<le> code_at rows j" by simp
    with canonical_next[OF Suc.prems(1,3)] show ?thesis by simp
  qed (use canonical_next Suc.prems in simp)
qed simp

text \<open>A word of 32 bits starts with the code of a symbol.\<close>

definition starts_with :: "u32 \<Rightarrow> u32 \<times> nat \<times> nat \<Rightarrow> bool" where
  "starts_with w row \<longleftrightarrow> drop_bit (32 - fst (snd row)) w = drop_bit (32 - fst (snd row)) (fst row)"

lemma starts_range:
  assumes "starts_with w (rows ! i)" "canonical_code rows" "i < length rows"
  shows "code_at rows i \<le> unat w" "unat w < code_at rows i + 2 ^ (32 - len_at rows i)"
proof -
  let ?k = "32 - len_at rows i"
  have "unat w div 2 ^ ?k = code_at rows i div 2 ^ ?k"
    using arg_cong[OF assms(1)[unfolded starts_with_def], of unat]
    unfolding unat_drop_bit_eq by (simp only: drop_bit_eq_div)
  then have "unat w div 2 ^ ?k * 2 ^ ?k = code_at rows i" using canonical_aligned[OF assms(2,3)] by simp
  then show "code_at rows i \<le> unat w" "unat w < code_at rows i + 2 ^ ?k"
    using div_mult_mod_eq[of "unat w" "2 ^ ?k"] mod_less_divisor[of "2 ^ ?k" "unat w", OF zero_less_power[OF zero_less_numeral]]
    by linarith+
qed

lemma starts_unique:
  assumes "canonical_code rows" "r \<in> set rows" "q \<in> set rows" "starts_with w r" "starts_with w q"
  shows "r = q"
proof -
  obtain i j where ij: "i < length rows" "r = rows ! i" "j < length rows" "q = rows ! j"
    using assms(2,3) by (auto simp: in_set_conv_nth)
  note R = starts_range[OF assms(4)[unfolded ij(2)] assms(1) ij(1)] and Q = starts_range[OF assms(5)[unfolded ij(4)] assms(1) ij(3)]
  have "\<not> i < j" using canonical_above[OF assms(1), of i j] ij R Q by linarith
  moreover have "\<not> j < i" using canonical_above[OF assms(1), of j i] ij R Q by linarith
  ultimately show ?thesis using ij by (metis linorder_neqE_nat)
qed

lemma accepted_table:
  assumes "HuffmanTable_Initialize rows HpackHuffmanTable_init = Some (True, t)"
    "list_all (\<lambda>(code, len, y). 1 \<le> len \<and> len \<le> 32) rows"
  shows "canonical_code (sort_key snd rows)" "map (snd \<circ> snd) rows = [0..<length rows]"
    "ht_code_by_id t = map fst rows" "ht_length_by_id t = map (fst \<circ> snd) rows"
    "ht_pad_bits t = ucast (drop_bit 24 (fst (last (sort_key snd rows))))" "8 \<le> fst (snd (last (sort_key snd rows)))"
proof -
  let ?s = "sort_key snd rows"
  have a: "FirstBadId 0 rows = None" "fst (?s ! 0) = 0" "FirstNonCanonical ?s = None" "8 \<le> fst (snd (last ?s))"
    "BuildEncodeTable (sort_key (snd \<circ> snd) ?s) (HpackHuffmanTable_init\<lparr>ht_pad_bits := ucast (drop_bit 24 (fst (last ?s)))\<rparr>) = Some t"
    using assms(1) by (auto simp: HuffmanTable_Initialize_def Let_def not_less HpackHuffmanTable_init_def split: option.splits if_splits)
  show ids: "map (snd \<circ> snd) rows = [0..<length rows]" using FirstBadId_ids[OF a(1)] by simp
  have home: "sort_key (snd \<circ> snd) ?s = rows"
  proof (rule sort_key_inj_key_eq)
    show "inj_on (snd \<circ> snd) (set ?s)" using ids distinct_map[of "snd \<circ> snd" rows] by simp
    show "sorted (map (snd \<circ> snd) rows)" using ids by simp
  qed simp
  have m: "mset ?s = mset rows" "set ?s = set rows" by simp_all
  have "list_all (\<lambda>(code, len, y). 1 \<le> len \<and> len \<le> 32) ?s" using assms(2) by (simp add: list_all_iff)
  moreover have "sorted (map (fst \<circ> snd) ?s)"
    using sorted_sort_key[of snd rows] by (fastforce simp: sorted_iff_nth_mono less_eq_prod_def)
  ultimately show "canonical_code ?s" using a(2,3) by (simp add: canonical_code_def)
  show "ht_code_by_id t = map fst rows" "ht_length_by_id t = map (fst \<circ> snd) rows" "8 \<le> fst (snd (last ?s))"
    "ht_pad_bits t = ucast (drop_bit 24 (fst (last ?s)))"
    using a(4,5) unfolding home by (auto simp: BuildEncodeTable_def HpackHuffmanTable_init_def split: if_splits)
qed

lemma pad_start:
  assumes "k < 8" "1 \<le> k" "drop_bit (8 - k) (ucast (drop_bit 24 c) :: byte) = ucast (drop_bit (32 - k) (d :: u32))"
  shows "drop_bit (32 - k) c = drop_bit (32 - k) d"
proof -
  have u: "unat (ucast x :: byte) = unat x" if "unat x < 256" for x :: u32 using that by (simp add: unsigned_ucast_eq take_bit_nat_eq_self)
  have "unat c div 2 ^ 24 < 256" using unsigned_less[of c, where 'a = nat] by (intro less_mult_imp_div_less) simp
  then have "unat (drop_bit 24 c) < 256" unfolding unat_drop_bit_eq by (simp only: drop_bit_eq_div)
  moreover have "unat (drop_bit (32 - k) d) < 256"
  proof -
    have "(2 :: nat) ^ 32 = 2 ^ k * 2 ^ (32 - k)" using assms(1) by (simp flip: power_add)
    then have "unat d < 2 ^ k * 2 ^ (32 - k)" using unsigned_less[of d, where 'a = nat] by simp
    then have "unat d div 2 ^ (32 - k) < 2 ^ k" by (simp add: less_mult_imp_div_less)
    moreover have "(2 :: nat) ^ k < 2 ^ 8" using assms(1) by (intro power_strict_increasing) simp_all
    ultimately show ?thesis unfolding unat_drop_bit_eq by (simp add: drop_bit_eq_div)
  qed
  ultimately have "drop_bit (8 - k) (unat (drop_bit 24 c)) = unat (drop_bit (32 - k) d)"
    using arg_cong[OF assms(3), of unat] by (simp only: unat_drop_bit_eq[where 'a = 8] u)
  moreover have "8 - k + 24 = 32 - k" using assms(1) by simp
  ultimately show ?thesis unfolding word_unat_eq_iff unat_drop_bit_eq by (simp only: drop_bit_drop_bit)
qed

text \<open>
  C21: \<open>Initialize\<close> accepts prefix codes only. Of any symbols, with codes of 1 to 32 bits, that pass its
  validation, the table gets the codes as they were given; no sequence of 32 bits starts with the
  codes of two symbols, so that what is encoded can be read in one way only; and no beginning of the
  padding of a last byte, which is shorter than 8 bits, is a code.
\<close>

theorem initialize_prefix_code:
  assumes "HuffmanTable_Initialize symbols HpackHuffmanTable_init = Some (True, t)"
    and "list_all (\<lambda>(code, len, y). 1 \<le> len \<and> len \<le> 32) symbols"
  shows "ht_code_by_id t = map fst symbols \<and> ht_length_by_id t = map (fst \<circ> snd) symbols \<and>
    (\<forall>w i j. i < length symbols \<and> j < length symbols \<and> starts_with w (symbols ! i) \<and> starts_with w (symbols ! j) \<longrightarrow> i = j) \<and>
    (\<forall>(code, len, y)\<in>set symbols. len < 8 \<longrightarrow> drop_bit (8 - len) (ht_pad_bits t) \<noteq> ucast (drop_bit (32 - len) code))"
proof -
  note A = accepted_table[OF assms]
  let ?s = "sort_key snd symbols"
  have d: "distinct symbols" using A(2) by (metis distinct_map distinct_upt)
  have one: "r = q" if "r \<in> set symbols" "q \<in> set symbols" "starts_with w r" "starts_with w q" for r q w
    using starts_unique[OF A(1)] that by simp
  then have "\<forall>w i j. i < length symbols \<and> j < length symbols \<and> starts_with w (symbols ! i) \<and> starts_with w (symbols ! j) \<longrightarrow> i = j"
    using d by (metis nth_eq_iff_index_eq nth_mem)
  moreover have "drop_bit (8 - len) (ht_pad_bits t) \<noteq> ucast (drop_bit (32 - len) code)"
    if r: "(code, len, y) \<in> set symbols" "len < 8" for code len y
  proof
    let ?l = "last ?s"
    assume "drop_bit (8 - len) (ht_pad_bits t) = ucast (drop_bit (32 - len) code)"
    moreover have "1 \<le> len" using r(1) assms(2) by (auto simp: list_all_iff)
    ultimately have "starts_with (fst ?l) (code, len, y)"
      using pad_start[OF r(2), of "fst ?l" code] A(5) by (simp add: starts_with_def)
    moreover have "?l \<in> set symbols" using r(1) last_in_set[of ?s] by (metis empty_iff empty_set set_sort)
    ultimately have "?l = (code, len, y)" using one[OF _ r(1), of ?l "fst ?l"] by (simp add: starts_with_def)
    with A(6) r(2) show False by simp
  qed
  ultimately show ?thesis using A(3,4) by auto
qed

text \<open>The table of HPACK is accepted.\<close>

theorem initialize_prefix_code_witness:
  "\<exists>t. HuffmanTable_Initialize HpackHuffmanCode HpackHuffmanTable_init = Some (True, t) \<and> ht_pad_bits t = 0xff \<and>
     (\<forall>w i j. i < length HpackHuffmanCode \<and> j < length HpackHuffmanCode \<and>
        starts_with w (HpackHuffmanCode ! i) \<and> starts_with w (HpackHuffmanCode ! j) \<longrightarrow> i = j)"
proof -
  have "1 \<le> fst (snd r) \<and> fst (snd r) \<le> 32" if r: "r \<in> set HpackHuffmanCode" for r
  proof -
    obtain y where "y < length HpackHuffmanCode" "r = HpackHuffmanCode ! y" using r[unfolded in_set_conv_nth] by blast
    moreover from this(1) have "y \<le> 256" unfolding length_tables by linarith
    ultimately show ?thesis using row_facts(1)[of y] group_len_bounds[OF code_val_less[of y]] by simp
  qed
  then have "list_all (\<lambda>(code, len, y). 1 \<le> len \<and> len \<le> 32) HpackHuffmanCode" by (force simp: list_all_iff)
  note N = initialize_prefix_code[OF Initialize_hpack this]
  show ?thesis
    by (intro exI conjI, rule Initialize_hpack, simp, rule N[THEN conjunct2, THEN conjunct2, THEN conjunct1])
qed

end
