(* ===== verification/Hpack_Huffman_Roundtrip.thy ===== *)
theory Hpack_Huffman_Roundtrip
  imports Hpack_Huffman_Canonical
begin

text \<open>
  What the table of HPACK encodes, the decoder of \<^verbatim>\<open>http2/hpack/huffman\<close> decodes.
\<close>

definition hpack_huffman_table :: HpackHuffmanTable where
  "hpack_huffman_table = snd (the (HuffmanTable_Initialize HpackHuffmanCode HpackHuffmanTable_init))"

lemma hpack_huffman_table_ok: "hpack_table hpack_huffman_table"
  unfolding hpack_huffman_table_def Initialize_hpack hpack_table_def option.sel snd_conv by simp

lemma lead_short: "length bs \<le> 32 \<Longrightarrow> lead bs = val_of bs * 2 ^ (32 - length bs)"
proof -
  assume l: "length bs \<le> 32"
  have z: "val_of (replicate k False) = 0" for k by (induction k) auto
  have "take 32 (bs @ replicate 32 False) = bs @ replicate (32 - length bs) False"
    using l by (simp add: min_def)
  then show ?thesis by (simp only: lead_def val_of_append z length_replicate add_0_right)
qed

lemma val_of_ones: "val_of (replicate n True) = 2 ^ n - 1"
  by (induction n) auto

lemma padding_no_match: "n < 8 \<Longrightarrow> huff_match (replicate n True) = None"
proof -
  assume "n < 8"
  then consider "n = 0" | "n = 1" | "n = 2" | "n = 3" | "n = 4" | "n = 5" | "n = 6" | "n = 7" by linarith
  then have "n < group_len ((2 ^ n - 1) * 2 ^ (32 - n))"
    by cases (simp_all add: group_len_def prefix_groups_def)
  moreover have "lead (replicate n True) = (2 ^ n - 1) * 2 ^ (32 - n)"
    using lead_short[of "replicate n True"] \<open>n < 8\<close> unfolding length_replicate val_of_ones by linarith
  ultimately have "\<not> group_len (lead (replicate n True)) \<le> length (replicate n True)"
    by (simp only: length_replicate not_le)
  then show ?thesis by (simp only: huff_match_eq if_False)
qed

text \<open>
  C22: What the encoder writes, the decoder reads. Encoding a text with the table of HPACK onto an
  empty stream succeeds, takes as many bytes as \<open>EncodedSize\<close> says, and however those bytes are cut
  into pieces, decoding them gives the text back and leaves a proper padding in the bit buffer.
\<close>

theorem huffman_roundtrip:
  "\<exists>out. EncodeString hpack_huffman_table s HpackOutputStream_empty = Some out \<and>
     EncodedSize hpack_huffman_table s = Some (length (fst (TakeString out))) \<and>
     (\<forall>css. concat css = fst (TakeString out) \<longrightarrow>
        (\<exists>buf'. huff_feed (BitBuffer_Reset buf) [] css = (True, buf', s) \<and> InputProperlyTerminated buf'))"
proof -
  let ?n = "length (huff_bits s)" and ?pad = "replicate (pad_len (length (huff_bits s))) True"
  have ok: "stream_ok HpackOutputStream_empty" "os_bit_offset HpackOutputStream_empty = 0"
    by (simp_all add: stream_ok_def HpackOutputStream_empty_def)
  obtain out where out: "EncodeString hpack_huffman_table s HpackOutputStream_empty = Some out"
    "bytes_bits (os_buffer out) = huff_bits s @ ?pad"
    using EncodeString_bits[OF hpack_huffman_table_ok ok] by (auto simp: HpackOutputStream_empty_def)
  have t: "fst (TakeString out) = os_buffer out" by (simp add: TakeString_def)
  have "8 * length (os_buffer out) = ?n + pad_len ?n"
    using arg_cong[OF out(2), of length] by (simp only: length_bytes_bits length_append length_replicate)
  then have sz: "EncodedSize hpack_huffman_table s = Some (length (os_buffer out))"
    by (simp add: EncodedSize_eq[OF hpack_huffman_table_ok] flip: \<open>8 * length (os_buffer out) = ?n + pad_len ?n\<close>)
  have p: "pad_len ?n < 8" by (simp add: pad_len_def)
  have run: "huff_run (huff_bits s @ ?pad) [] = (True, ?pad, s)"
    unfolding huff_run_codes by (simp add: huff_run.simps[of ?pad] padding_no_match[OF p])
  have "\<exists>buf'. huff_feed (BitBuffer_Reset buf) [] css = (True, buf', s) \<and> InputProperlyTerminated buf'"
    if css: "concat css = os_buffer out" for css
  proof -
    obtain good buf' out' where f: "huff_feed (BitBuffer_Reset buf) [] css = (good, buf', out')"
      by (cases "huff_feed (BitBuffer_Reset buf) [] css") auto
    from huff_feed_run[OF Reset_bits(1) _ f] have "bb_ok buf'" "good" "out' = s" "hbits buf' = ?pad"
      using run out(2) by (auto simp: Reset_bits huff_match_Nil css)
    then show ?thesis using f p by (auto simp: terminated_bits)
  qed
  then show ?thesis using out(1) sz t by auto
qed

theorem huffman_roundtrip_witness:
  "\<exists>out buf'. EncodeString hpack_huffman_table [0x33, 0x30, 0x32] HpackOutputStream_empty = Some out \<and>
     fst (TakeString out) = [0x64, 0x02] \<and>
     huff_feed (BitBuffer_Reset bit_buffer0) [] [[0x64], [0x02]] = (True, buf', [0x33, 0x30, 0x32]) \<and>
     InputProperlyTerminated buf'"
proof -
  have r: "HpackHuffmanCode ! 51 = (0x64000000, 6, 51)" "HpackHuffmanCode ! 48 = (0x00000000, 5, 48)"
    "HpackHuffmanCode ! 50 = (0x10000000, 5, 50)"
    by (simp_all add: HpackHuffmanCode_def HpackHuffmanCode_low_def)
  have a: "AppendCode 25 6 HpackOutputStream_empty = \<lparr>os_buffer = [0x64], os_bit_offset = 6\<rparr>"
    "AppendCode 0 5 \<lparr>os_buffer = [0x64], os_bit_offset = 6\<rparr> = \<lparr>os_buffer = [0x64, 0], os_bit_offset = 3\<rparr>"
    "AppendCode 2 5 \<lparr>os_buffer = [0x64, 0], os_bit_offset = 3\<rparr> = \<lparr>os_buffer = [0x64, 2], os_bit_offset = 0\<rparr>"
    by (simp_all add: AppendCode_def AppendBits_def HpackOutputStream_empty_def)
  have e: "EncodeString hpack_huffman_table [0x33, 0x30, 0x32] HpackOutputStream_empty =
      Some \<lparr>os_buffer = [0x64, 0x02], os_bit_offset = 0\<rparr>"
    unfolding hpack_huffman_table_def Initialize_hpack option.sel snd_conv
    by (simp add: EncodeString_def length_tables r a)
  from huffman_roundtrip[of "[0x33, 0x30, 0x32]" bit_buffer0] e
  obtain buf' where "huff_feed (BitBuffer_Reset bit_buffer0) [] [[0x64], [0x02]] = (True, buf', [0x33, 0x30, 0x32])"
    "InputProperlyTerminated buf'"
    by (elim exE conjE) (drule spec[of _ "[[0x64], [0x02]]"], auto simp: TakeString_def)
  with e show ?thesis by (simp add: TakeString_def)
qed

end
