(* ===== verification/Hpack_Encoder.thy ===== *)
theory Hpack_Encoder
  imports Hpack_Header_Table Hpack_Huffman_Roundtrip
begin

text \<open>
  \<^verbatim>\<open>spdy/hpack/hpack_encoder.{h,cc}\<close>: the HPACK encoder of a connection. The header listener is the
  log of the headers it is told of; the indexing policy is a function. A \<open>SpdyHeaderBlock\<close> is the
  list of its headers in iteration order. \<open>None\<close> stands for a failed check or an access out of
  bounds in the tables the encoder uses.
\<close>

section \<open>Prefixes\<close>

definition kStringLiteralIdentityEncoded :: HpackPrefix where
  "kStringLiteralIdentityEncoded = \<lparr>hp_bits = 0x0, hp_bit_size = 1\<rparr>"
definition kStringLiteralHuffmanEncoded :: HpackPrefix where
  "kStringLiteralHuffmanEncoded = \<lparr>hp_bits = 0x1, hp_bit_size = 1\<rparr>"
definition kIndexedOpcode :: HpackPrefix where
  "kIndexedOpcode = \<lparr>hp_bits = 0x1, hp_bit_size = 1\<rparr>"
definition kLiteralIncrementalIndexOpcode :: HpackPrefix where
  "kLiteralIncrementalIndexOpcode = \<lparr>hp_bits = 0x1, hp_bit_size = 2\<rparr>"
definition kLiteralNoIndexOpcode :: HpackPrefix where
  "kLiteralNoIndexOpcode = \<lparr>hp_bits = 0x0, hp_bit_size = 4\<rparr>"
definition kHeaderTableSizeUpdateOpcode :: HpackPrefix where
  "kHeaderTableSizeUpdateOpcode = \<lparr>hp_bits = 0x1, hp_bit_size = 3\<rparr>"
definition kPseudoHeaderPrefix :: byte where "kPseudoHeaderPrefix = 0x3a"

section \<open>State\<close>

type_synonym Representation = "bytes \<times> bytes"

record HpackEncoder =
  en_header_table :: HpackHeaderTable
  en_output_stream :: HpackOutputStream
  en_huffman_table :: HpackHuffmanTable
  en_min_table_size_setting_received :: nat
  en_listener :: "Representation list"
  en_should_index :: "bytes \<Rightarrow> bytes \<Rightarrow> bool"
  en_enable_compression :: bool
  en_should_emit_table_size :: bool

definition size_t_max :: nat where "size_t_max = 2 ^ 64 - 1"

definition DefaultPolicy :: "bytes \<Rightarrow> bytes \<Rightarrow> bool" where
  "DefaultPolicy name val =
     (if name = [] then False
      else if hd name = kPseudoHeaderPrefix then name = ascii '':authority''
      else True)"

definition HpackEncoder_init :: "HpackHuffmanTable \<Rightarrow> HpackEncoder" where
  "HpackEncoder_init table =
     \<lparr>en_header_table = HpackHeaderTable_init, en_output_stream = HpackOutputStream_empty,
      en_huffman_table = table, en_min_table_size_setting_received = size_t_max, en_listener = [],
      en_should_index = DefaultPolicy, en_enable_compression = True, en_should_emit_table_size = False\<rparr>"

definition SetIndexingPolicy :: "(bytes \<Rightarrow> bytes \<Rightarrow> bool) \<Rightarrow> HpackEncoder \<Rightarrow> HpackEncoder" where
  "SetIndexingPolicy policy en = en\<lparr>en_should_index := policy\<rparr>"

definition DisableCompression :: "HpackEncoder \<Rightarrow> HpackEncoder" where
  "DisableCompression en = en\<lparr>en_enable_compression := False\<rparr>"

definition CurrentHeaderTableSizeSetting :: "HpackEncoder \<Rightarrow> nat" where
  "CurrentHeaderTableSizeSetting en = tb_settings_size_bound (en_header_table en)"

definition Encoder_ApplyHeaderTableSizeSetting :: "nat \<Rightarrow> HpackEncoder \<Rightarrow> HpackEncoder option" where
  "Encoder_ApplyHeaderTableSizeSetting size_setting en =
     (if size_setting = tb_settings_size_bound (en_header_table en) then Some en
      else
        let en = (if size_setting < tb_settings_size_bound (en_header_table en)
                  then en\<lparr>en_min_table_size_setting_received :=
                            min size_setting (en_min_table_size_setting_received en)\<rparr> else en)
        in case SetSettingsHeaderTableSize size_setting (en_header_table en) of
             None \<Rightarrow> None
           | Some t \<Rightarrow> Some (en\<lparr>en_header_table := t, en_should_emit_table_size := True\<rparr>))"

section \<open>Emitting\<close>

abbreviation on_stream :: "(HpackOutputStream \<Rightarrow> HpackOutputStream) \<Rightarrow> HpackEncoder \<Rightarrow> HpackEncoder" where
  "on_stream f en \<equiv> en\<lparr>en_output_stream := f (en_output_stream en)\<rparr>"

text \<open>The argument of \<open>AppendUint32\<close> is a \<open>uint32_t\<close>, so sizes are reduced modulo \<open>2 ^ 32\<close>.\<close>

abbreviation emit_uint :: "HpackPrefix \<Rightarrow> nat \<Rightarrow> HpackEncoder \<Rightarrow> HpackEncoder" where
  "emit_uint p n en \<equiv> on_stream (\<lambda>s. AppendUint32 (of_nat n) (AppendPrefix p s)) en"

definition EmitString :: "bytes \<Rightarrow> HpackEncoder \<Rightarrow> HpackEncoder option" where
  "EmitString str en =
     (case (if en_enable_compression en then EncodedSize (en_huffman_table en) str else Some (length str)) of
        None \<Rightarrow> None
      | Some encoded_size \<Rightarrow>
          if encoded_size < length str then
            let en = emit_uint kStringLiteralHuffmanEncoded encoded_size en
            in case EncodeString (en_huffman_table en) str (en_output_stream en) of
                 None \<Rightarrow> None
               | Some out \<Rightarrow> Some (en\<lparr>en_output_stream := out\<rparr>)
          else
            let en = emit_uint kStringLiteralIdentityEncoded (length str) en
            in Some (on_stream (AppendBytes str) en))"

definition EmitIndex :: "HpackEntry \<Rightarrow> HpackEncoder \<Rightarrow> HpackEncoder" where
  "EmitIndex entry en = emit_uint kIndexedOpcode (IndexOf entry (en_header_table en)) en"

definition EmitLiteral :: "Representation \<Rightarrow> HpackEncoder \<Rightarrow> HpackEncoder option" where
  "EmitLiteral representation en =
     (case (case GetByName (fst representation) (en_header_table en) of
              Some name_entry \<Rightarrow>
                Some (on_stream (AppendUint32 (of_nat (IndexOf name_entry (en_header_table en)))) en)
            | None \<Rightarrow> EmitString (fst representation) (on_stream (AppendUint32 0) en)) of
        None \<Rightarrow> None
      | Some en \<Rightarrow> EmitString (snd representation) en)"

definition EmitIndexedLiteral :: "Representation \<Rightarrow> HpackEncoder \<Rightarrow> HpackEncoder option" where
  "EmitIndexedLiteral representation en =
     (case EmitLiteral representation (on_stream (AppendPrefix kLiteralIncrementalIndexOpcode) en) of
        None \<Rightarrow> None
      | Some en \<Rightarrow>
          (case TryAddEntry (fst representation) (snd representation) (en_header_table en) of
             None \<Rightarrow> None
           | Some (_, t) \<Rightarrow> Some (en\<lparr>en_header_table := t\<rparr>)))"

definition EmitNonIndexedLiteral :: "Representation \<Rightarrow> HpackEncoder \<Rightarrow> HpackEncoder option" where
  "EmitNonIndexedLiteral representation en =
     (case EmitString (fst representation) (emit_uint kLiteralNoIndexOpcode 0 en) of
        None \<Rightarrow> None
      | Some en \<Rightarrow> EmitString (snd representation) en)"

definition MaybeEmitTableSize :: "HpackEncoder \<Rightarrow> HpackEncoder" where
  "MaybeEmitTableSize en =
     (if \<not> en_should_emit_table_size en then en
      else
        let current_size = CurrentHeaderTableSizeSetting en;
            en = (if en_min_table_size_setting_received en < current_size
                  then emit_uint kHeaderTableSizeUpdateOpcode (en_min_table_size_setting_received en) en else en);
            en = emit_uint kHeaderTableSizeUpdateOpcode current_size en
        in en\<lparr>en_min_table_size_setting_received := size_t_max, en_should_emit_table_size := False\<rparr>)"

text \<open>One header: the body of the loops of \<open>EncodeRepresentations\<close> and of \<open>Encoderator::Next\<close>.\<close>

definition EncodeRepresentation :: "Representation \<Rightarrow> HpackEncoder \<Rightarrow> HpackEncoder option" where
  "EncodeRepresentation header en =
     (let en = en\<lparr>en_listener := en_listener en @ [header]\<rparr>
      in if en_enable_compression en then
           case GetByNameAndValue (fst header) (snd header) (en_header_table en) of
             Some entry \<Rightarrow> Some (EmitIndex entry en)
           | None \<Rightarrow>
               if en_should_index en (fst header) (snd header) then EmitIndexedLiteral header en
               else EmitNonIndexedLiteral header en
         else EmitNonIndexedLiteral header en)"

fun EncodeRepresentations_loop :: "Representation list \<Rightarrow> HpackEncoder \<Rightarrow> HpackEncoder option" where
  "EncodeRepresentations_loop [] en = Some en"
| "EncodeRepresentations_loop (header # iter) en =
     (case EncodeRepresentation header en of None \<Rightarrow> None | Some en \<Rightarrow> EncodeRepresentations_loop iter en)"

definition EncodeRepresentations :: "Representation list \<Rightarrow> HpackEncoder \<Rightarrow> (bytes \<times> HpackEncoder) option" where
  "EncodeRepresentations iter en =
     (case EncodeRepresentations_loop iter (MaybeEmitTableSize en) of
        None \<Rightarrow> None
      | Some en \<Rightarrow>
          let (output, out) = TakeString (en_output_stream en)
          in Some (output, en\<lparr>en_output_stream := out\<rparr>))"

text \<open>\<open>EncodeHeaderSet\<close> of a vector of representations, in which nothing is split.\<close>

definition EncodeHeaderSet_representations ::
  "Representation list \<Rightarrow> HpackEncoder \<Rightarrow> (bytes \<times> HpackEncoder) option" where
  "EncodeHeaderSet_representations representations en = EncodeRepresentations representations en"

section \<open>Header blocks\<close>

lemma length_dropWhile_tl: "dropWhile P xs \<noteq> [] \<Longrightarrow> length (tl (dropWhile P xs)) < length xs"
  using length_dropWhile_le [of P xs] by (cases "dropWhile P xs") auto

lemma length_tl_less: "length xs < n \<Longrightarrow> length (tl xs) < n"
  by simp

function split_crumbs :: "bytes \<Rightarrow> bytes list" where
  "split_crumbs val =
     (let crumb = takeWhile (\<lambda>c. c \<noteq> 0x3b) val; rest = dropWhile (\<lambda>c. c \<noteq> 0x3b) val
      in if rest = [] then [crumb]
         else
           let rest = tl rest;
               rest = (if rest \<noteq> [] \<and> hd rest = 0x20 then tl rest else rest)
           in crumb # split_crumbs rest)"
  by pat_completeness auto
termination
  by (relation "measure length")
    (auto dest!: length_dropWhile_tl intro: length_tl_less simp del: length_tl dropWhile_eq_Nil_conv split: if_splits)

declare split_crumbs.simps [simp del]

definition CookieToCrumbs :: "Representation \<Rightarrow> Representation list" where
  "CookieToCrumbs cookie =
     (let blank = (\<lambda>c. c = 0x20 \<or> c = 0x09);
          cookie_value = rev (dropWhile blank (rev (dropWhile blank (snd cookie))))
      in map (\<lambda>crumb. (fst cookie, crumb)) (split_crumbs cookie_value))"

function split_nul :: "bytes \<Rightarrow> bytes list" where
  "split_nul val =
     (let part = takeWhile (\<lambda>c. c \<noteq> 0) val; rest = dropWhile (\<lambda>c. c \<noteq> 0) val
      in if rest = [] then [part] else part # split_nul (tl rest))"
  by pat_completeness auto
termination
  by (relation "measure length") (auto dest: length_dropWhile_tl simp del: length_tl dropWhile_eq_Nil_conv)

declare split_nul.simps [simp del]

definition DecomposeRepresentation :: "Representation \<Rightarrow> Representation list" where
  "DecomposeRepresentation header_field = map (\<lambda>part. (fst header_field, part)) (split_nul (snd header_field))"

definition GatherRepresentation :: "Representation \<Rightarrow> Representation list" where
  "GatherRepresentation header_field = [header_field]"

text \<open>The loop over a header set; it collects the pseudo headers and the regular headers.\<close>

fun SeparateHeaders ::
  "(Representation \<Rightarrow> Representation list) \<Rightarrow> bool \<Rightarrow> Representation list \<Rightarrow> Representation list \<times> Representation list" where
  "SeparateHeaders decompose found_cookie [] = ([], [])"
| "SeparateHeaders decompose found_cookie (header # header_set) =
     (if \<not> found_cookie \<and> fst header = ascii ''cookie'' then
        (case SeparateHeaders decompose True header_set of (pseudo, regular) \<Rightarrow> (pseudo, CookieToCrumbs header @ regular))
      else
        (case SeparateHeaders decompose found_cookie header_set of (pseudo, regular) \<Rightarrow>
           if fst header \<noteq> [] \<and> hd (fst header) = kPseudoHeaderPrefix
           then (decompose header @ pseudo, regular) else (pseudo, decompose header @ regular)))"

definition EncodeHeaderSet :: "Representation list \<Rightarrow> HpackEncoder \<Rightarrow> (bytes \<times> HpackEncoder) option" where
  "EncodeHeaderSet header_set en =
     (case SeparateHeaders DecomposeRepresentation False header_set of
        (pseudo_headers, regular_headers) \<Rightarrow> EncodeRepresentations (pseudo_headers @ regular_headers) en)"

section \<open>Progressive encoding\<close>

record Encoderator =
  ea_header_it :: "Representation list"
  ea_has_next :: bool

definition Encoderator_init :: "Representation list \<Rightarrow> HpackEncoder \<Rightarrow> Encoderator \<times> HpackEncoder" where
  "Encoderator_init header_set en =
     (let use_compression = en_enable_compression en
      in case SeparateHeaders (if use_compression then DecomposeRepresentation else GatherRepresentation) False header_set of
           (pseudo_headers, regular_headers) \<Rightarrow>
             (\<lparr>ea_header_it = pseudo_headers @ regular_headers, ea_has_next = True\<rparr>, MaybeEmitTableSize en))"

fun Next_loop :: "nat \<Rightarrow> Representation list \<Rightarrow> HpackEncoder \<Rightarrow> (Representation list \<times> HpackEncoder) option" where
  "Next_loop max_encoded_bytes [] en = Some ([], en)"
| "Next_loop max_encoded_bytes (header # it) en =
     (if length (os_buffer (en_output_stream en)) \<le> max_encoded_bytes then
        case EncodeRepresentation header en of None \<Rightarrow> None | Some en \<Rightarrow> Next_loop max_encoded_bytes it en
      else Some (header # it, en))"

definition Encoderator_Next ::
  "nat \<Rightarrow> Encoderator \<Rightarrow> HpackEncoder \<Rightarrow> (bytes \<times> Encoderator \<times> HpackEncoder) option" where
  "Encoderator_Next max_encoded_bytes ea en =
     (case Next_loop max_encoded_bytes (ea_header_it ea) en of
        None \<Rightarrow> None
      | Some (it, en) \<Rightarrow>
          let has_next = length (os_buffer (en_output_stream en)) > max_encoded_bytes;
              (output, out) = BoundedTakeString max_encoded_bytes (en_output_stream en)
          in Some (output, \<lparr>ea_header_it = it, ea_has_next = has_next\<rparr>, en\<lparr>en_output_stream := out\<rparr>))"

end
