(* ===== verification/Hpack_Encoder_Bytes.thy ===== *)
theory Hpack_Encoder_Bytes
  imports Hpack_Encoder
begin

text \<open>
  What the HPACK encoder writes, as bytes: integers with a prefix, strings and whole header
  representations. Between representations the output stream is at a byte boundary, so every
  operation of the encoder appends whole bytes, which depend on the tables and not on what the
  stream holds.
\<close>

section \<open>Integers and strings\<close>

text \<open>The integer \<open>n\<close> behind the flag bits \<open>l\<close> of a byte with \<open>N\<close> bits to spare (RFC 7541, 5.1).\<close>

definition hpack_int :: "byte \<Rightarrow> nat \<Rightarrow> nat \<Rightarrow> bytes" where
  "hpack_int l N n =
     (l OR of_nat (min n (2 ^ N - 1))) # (if n < 2 ^ N - 1 then [] else ext_encode (n - (2 ^ N - 1)))"

definition huff_octets :: "bytes \<Rightarrow> bytes" where
  "huff_octets s = os_buffer (the (EncodeString hpack_huffman_table s HpackOutputStream_empty))"

definition hpack_string :: "bool \<Rightarrow> bytes \<Rightarrow> bytes" where
  "hpack_string compress s =
     (if compress \<and> length (huff_octets s) < length s then hpack_int 0x80 7 (length (huff_octets s)) @ huff_octets s
      else hpack_int 0 7 (length s) @ s)"

definition aligned :: "HpackEncoder \<Rightarrow> bool" where
  "aligned en \<longleftrightarrow> os_bit_offset (en_output_stream en) = 0"

definition put :: "bytes \<Rightarrow> HpackEncoder \<Rightarrow> HpackEncoder" where
  "put xs en = en\<lparr>en_output_stream := \<lparr>os_buffer = os_buffer (en_output_stream en) @ xs, os_bit_offset = 0\<rparr>\<rparr>"

lemma put_simps [simp]:
  "aligned (put xs en)" "put ys (put xs en) = put (xs @ ys) en"
  "en_header_table (put xs en) = en_header_table en" "en_huffman_table (put xs en) = en_huffman_table en"
  "en_enable_compression (put xs en) = en_enable_compression en" "en_should_index (put xs en) = en_should_index en"
  "os_buffer (en_output_stream (put xs en)) = os_buffer (en_output_stream en) @ xs"
  "en_listener (put xs en) = en_listener en" "en_should_emit_table_size (put xs en) = en_should_emit_table_size en"
  "en_min_table_size_setting_received (put xs en) = en_min_table_size_setting_received en"
  by (simp_all add: put_def aligned_def)

lemma byte_bits_inj: "byte_bits a = byte_bits b \<Longrightarrow> a = b"
proof -
  assume e: "byte_bits a = byte_bits b"
  show "a = b"
  proof (rule bit_word_eqI)
    fix n assume "n < LENGTH(8)"
    then show "bit a n = bit b n"
      using arg_cong[OF e, of "\<lambda>l. l ! (7 - n)"] nth_byte_bits[of "7 - n" a] nth_byte_bits[of "7 - n" b] by simp
  qed
qed

lemma bytes_bits_inj: "bytes_bits xs = bytes_bits ys \<Longrightarrow> xs = ys"
proof (induction xs arbitrary: ys)
  case Nil
  then show ?case using arg_cong[OF Nil, of length] by simp
next
  case (Cons x xs)
  have "length (x # xs) = length ys" using arg_cong[OF Cons.prems, of length] by simp
  then obtain y ys' where ys: "ys = y # ys'" by (cases ys) auto
  then have "byte_bits x = byte_bits y \<and> bytes_bits xs = bytes_bits ys'"
    using Cons.prems append_eq_append_conv[of "byte_bits x" "byte_bits y" "bytes_bits xs" "bytes_bits ys'"] by simp
  then show ?case using Cons.IH[of ys'] byte_bits_inj ys by auto
qed

lemma empty_stream: "stream_ok HpackOutputStream_empty" "os_bit_offset HpackOutputStream_empty = 0"
  "os_buffer HpackOutputStream_empty = []"
  by (simp_all add: stream_ok_def HpackOutputStream_empty_def)

lemma huff_octets_bits:
  "bytes_bits (huff_octets s) = huff_bits s @ replicate (pad_len (length (huff_bits s))) True"
  using EncodeString_bits[OF hpack_huffman_table_ok empty_stream(1,2), of s] empty_stream(3)
  by (auto simp: huff_octets_def)

lemma EncodeString_octets:
  assumes "os_bit_offset s = 0"
  shows "EncodeString hpack_huffman_table str s =
    Some \<lparr>os_buffer = os_buffer s @ huff_octets str, os_bit_offset = 0\<rparr>"
proof -
  have ok: "stream_ok s" using assms by (simp add: stream_ok_def)
  obtain out where o: "EncodeString hpack_huffman_table str s = Some out" "os_bit_offset out = 0"
    "bytes_bits (os_buffer out) = bytes_bits (os_buffer s @ huff_octets str)"
    using EncodeString_bits[OF hpack_huffman_table_ok ok assms, of str] huff_octets_bits[of str] by auto
  then show ?thesis using bytes_bits_inj[OF o(3)] by (cases out) simp
qed

lemma EncodedSize_octets: "EncodedSize hpack_huffman_table s = Some (length (huff_octets s))"
proof -
  have "8 * length (huff_octets s) = length (huff_bits s) + pad_len (length (huff_bits s))"
    using arg_cong[OF huff_octets_bits[of s], of length] by (simp only: length_bytes_bits length_append length_replicate)
  then show ?thesis by (simp add: EncodedSize_eq[OF hpack_huffman_table_ok] flip: \<open>8 * length _ = _\<close>)
qed

text \<open>A prefix followed by an integer, for each of the prefixes.\<close>

lemma AppendPrefix_aligned:
  "os_bit_offset s = 0 \<Longrightarrow> hp_bit_size p < 8 \<Longrightarrow>
   AppendPrefix p s = \<lparr>os_buffer = os_buffer s @ [push_bit (8 - hp_bit_size p) (hp_bits p)], os_bit_offset = hp_bit_size p\<rparr>"
  by (simp add: AppendPrefix_def AppendBits_def)

lemma AppendUint32_prefix:
  assumes "0 < k" "k < 8" "unat c < 2 ^ k" "n < 2 ^ 32"
  shows "AppendUint32 (of_nat n) \<lparr>os_buffer = xs @ [push_bit (8 - k) c], os_bit_offset = k\<rparr> =
    \<lparr>os_buffer = xs @ hpack_int (push_bit (8 - k) c) (8 - k) n, os_bit_offset = 0\<rparr>"
proof -
  have "stream_ok \<lparr>os_buffer = xs @ [push_bit (8 - k) c], os_bit_offset = k\<rparr>"
    using assms by (simp add: stream_ok_def bit_simps)
  moreover have "unat (of_nat n :: u32) = n" using assms(4) by (simp add: unat_of_nat take_bit_nat_eq_self)
  ultimately show ?thesis using AppendUint32_bytes[of _ xs "push_bit (8 - k) c" "8 - k" "of_nat n"] assms
    by (simp add: hpack_int_def)
qed

lemma emit_uint_put:
  assumes "os_bit_offset s = 0" "n < 2 ^ 32" "0 < hp_bit_size p" "hp_bit_size p < 8" "unat (hp_bits p) < 2 ^ hp_bit_size p"
  shows "AppendUint32 (of_nat n) (AppendPrefix p s) =
    \<lparr>os_buffer = os_buffer s @ hpack_int (push_bit (8 - hp_bit_size p) (hp_bits p)) (8 - hp_bit_size p) n, os_bit_offset = 0\<rparr>"
  using assms AppendUint32_prefix[OF assms(3-5) assms(2)] by (simp add: AppendPrefix_aligned)

lemmas prefix_defs = kStringLiteralIdentityEncoded_def kStringLiteralHuffmanEncoded_def kIndexedOpcode_def
  kLiteralIncrementalIndexOpcode_def kLiteralNoIndexOpcode_def kHeaderTableSizeUpdateOpcode_def

lemma emit_uint_kinds:
  assumes "os_bit_offset s = 0" "n < 2 ^ 32"
  defines "app \<equiv> \<lambda>xs. \<lparr>os_buffer = os_buffer s @ xs, os_bit_offset = 0\<rparr>"
  shows "AppendUint32 (of_nat n) (AppendPrefix kStringLiteralIdentityEncoded s) = app (hpack_int 0 7 n)"
    "AppendUint32 (of_nat n) (AppendPrefix kStringLiteralHuffmanEncoded s) = app (hpack_int 0x80 7 n)"
    "AppendUint32 (of_nat n) (AppendPrefix kIndexedOpcode s) = app (hpack_int 0x80 7 n)"
    "AppendUint32 (of_nat n) (AppendPrefix kLiteralNoIndexOpcode s) = app (hpack_int 0 4 n)"
    "AppendUint32 (of_nat n) (AppendPrefix kHeaderTableSizeUpdateOpcode s) = app (hpack_int 0x20 5 n)"
    "AppendUint32 (of_nat n) (AppendPrefix kLiteralIncrementalIndexOpcode s) = app (hpack_int 0x40 6 n)"
  using emit_uint_put[OF assms(1,2), of kStringLiteralIdentityEncoded] emit_uint_put[OF assms(1,2), of kStringLiteralHuffmanEncoded]
    emit_uint_put[OF assms(1,2), of kIndexedOpcode] emit_uint_put[OF assms(1,2), of kLiteralNoIndexOpcode]
    emit_uint_put[OF assms(1,2), of kHeaderTableSizeUpdateOpcode] emit_uint_put[OF assms(1,2), of kLiteralIncrementalIndexOpcode]
  by (simp_all add: prefix_defs app_def)

lemma EmitString_put:
  assumes "aligned en" "en_huffman_table en = hpack_huffman_table" "length s < 2 ^ 32"
  shows "EmitString s en = Some (put (hpack_string (en_enable_compression en) s) en)"
proof (cases "en_enable_compression en \<and> length (huff_octets s) < length s")
  case True
  then have "length (huff_octets s) < 2 ^ 32" using assms(3) by linarith
  then show ?thesis using True assms emit_uint_kinds(2)[of "en_output_stream en"]
    by (simp add: EmitString_def EncodedSize_octets hpack_string_def aligned_def put_def EncodeString_octets)
next
  case False
  then show ?thesis using assms emit_uint_kinds(1)[of "en_output_stream en"]
    by (auto simp: EmitString_def EncodedSize_octets hpack_string_def AppendBytes_def aligned_def put_def)
qed

section \<open>Representations\<close>

text \<open>What the encoder keeps true of itself between representations.\<close>

definition encoder_ok :: "HpackEncoder \<Rightarrow> bool" where
  "encoder_ok en \<longleftrightarrow> aligned en \<and> en_huffman_table en = hpack_huffman_table \<and> header_ok (en_header_table en) \<and>
     tb_settings_size_bound (en_header_table en) < 2 ^ 32"

definition rep_name :: "HpackEncoder \<Rightarrow> bytes \<Rightarrow> bytes" where
  "rep_name en name =
     (case GetByName name (en_header_table en) of
        Some e \<Rightarrow> hpack_int 0x40 6 (IndexOf e (en_header_table en))
      | None \<Rightarrow> hpack_int 0x40 6 0 @ hpack_string (en_enable_compression en) name)"

definition rep_bytes :: "HpackEncoder \<Rightarrow> Representation \<Rightarrow> bytes" where
  "rep_bytes en h =
     (let str = hpack_string (en_enable_compression en);
          plain = hpack_int 0 4 0 @ str (fst h) @ str (snd h)
      in if en_enable_compression en then
           case GetByNameAndValue (fst h) (snd h) (en_header_table en) of
             Some e \<Rightarrow> hpack_int 0x80 7 (IndexOf e (en_header_table en))
           | None \<Rightarrow> if en_should_index en (fst h) (snd h) then rep_name en (fst h) @ str (snd h) else plain
         else plain)"

definition rep_indexed :: "HpackEncoder \<Rightarrow> Representation \<Rightarrow> bool" where
  "rep_indexed en h \<longleftrightarrow> en_enable_compression en \<and>
     GetByNameAndValue (fst h) (snd h) (en_header_table en) = None \<and> en_should_index en (fst h) (snd h)"

definition rep_table :: "HpackEncoder \<Rightarrow> Representation \<Rightarrow> HpackHeaderTable" where
  "rep_table en h =
     (if rep_indexed en h then snd (the (TryAddEntry (fst h) (snd h) (en_header_table en))) else en_header_table en)"

definition rep_step :: "Representation \<Rightarrow> HpackEncoder \<Rightarrow> HpackEncoder" where
  "rep_step h en = put (rep_bytes en h) (en\<lparr>en_listener := en_listener en @ [h], en_header_table := rep_table en h\<rparr>)"

definition rep_fits :: "Representation \<Rightarrow> bool" where
  "rep_fits h \<longleftrightarrow> length (fst h) < 2 ^ 32 \<and> length (snd h) < 2 ^ 32"

lemma table_size_entries: "32 * length es \<le> table_size es"
  by (induction es) (auto simp: HpackStringPair_size_def)

lemma index_bound:
  assumes "encoder_ok en"
  shows "GetByNameAndValue n v (en_header_table en) = Some e \<Longrightarrow> 0 < IndexOf e (en_header_table en) \<and> IndexOf e (en_header_table en) < 2 ^ 28"
    and "GetByName n (en_header_table en) = Some e \<Longrightarrow> 0 < IndexOf e (en_header_table en) \<and> IndexOf e (en_header_table en) < 2 ^ 28"
proof -
  let ?t = "en_header_table en"
  have ok: "header_ok ?t" "tb_settings_size_bound ?t < 2 ^ 32" using assms by (auto simp: encoder_ok_def)
  then have "32 * length (tb_dynamic_entries ?t) < 2 ^ 32"
    using table_size_entries[of "header_pairs ?t"] by (auto simp: header_ok_def header_core_def Let_def)
  then have l: "length (all_entries ?t) < 2 ^ 28" by (simp add: static_tables_agree(2))
  let ?d = "HpackDecoderDynamicTable_init\<lparr>dt_table := header_pairs ?t\<rparr>"
  note L = lookup_index[OF ok(1), of ?d n]
  show "GetByNameAndValue n v ?t = Some e \<Longrightarrow> 0 < IndexOf e ?t \<and> IndexOf e ?t < 2 ^ 28"
    using L(4) l by fastforce
  show "GetByName n ?t = Some e \<Longrightarrow> 0 < IndexOf e ?t \<and> IndexOf e ?t < 2 ^ 28"
    using L(5) l by fastforce
qed

lemma rep_table_ok:
  assumes "header_ok (en_header_table en)"
  shows "header_ok (rep_table en h)" "tb_settings_size_bound (rep_table en h) = tb_settings_size_bound (en_header_table en)"
    "tb_max_size (rep_table en h) = tb_max_size (en_header_table en)"
    "header_pairs (rep_table en h) = (if rep_indexed en h then add_entry (tb_max_size (en_header_table en)) h (header_pairs (en_header_table en))
       else header_pairs (en_header_table en))"
  using assms add_result[OF assms, of "fst h" "snd h"] by (auto simp: rep_table_def)

lemma rep_step_ok: "encoder_ok en \<Longrightarrow> encoder_ok (rep_step h en)"
  using rep_table_ok[of en h] by (simp add: encoder_ok_def rep_step_def)

lemma EmitNonIndexed_put:
  assumes "encoder_ok en" "rep_fits h"
  shows "EmitNonIndexedLiteral h en =
    Some (put (hpack_int 0 4 0 @ hpack_string (en_enable_compression en) (fst h) @ hpack_string (en_enable_compression en) (snd h)) en)"
proof -
  have "emit_uint kLiteralNoIndexOpcode 0 en = put (hpack_int 0 4 0) en"
    using emit_uint_kinds(4)[of "en_output_stream en" 0] assms by (simp add: encoder_ok_def aligned_def put_def)
  then show ?thesis using assms by (simp add: EmitNonIndexedLiteral_def EmitString_put encoder_ok_def rep_fits_def)
qed

lemma EmitIndexed_put:
  assumes "encoder_ok en" "rep_fits h"
  shows "EmitIndexedLiteral h en =
    Some (put (rep_name en (fst h) @ hpack_string (en_enable_compression en) (snd h))
      (en\<lparr>en_header_table := snd (the (TryAddEntry (fst h) (snd h) (en_header_table en)))\<rparr>))"
proof -
  have e: "aligned en" "en_huffman_table en = hpack_huffman_table" "header_ok (en_header_table en)"
    using assms(1) by (auto simp: encoder_ok_def)
  have p: "on_stream (AppendUint32 (of_nat n)) (on_stream (AppendPrefix kLiteralIncrementalIndexOpcode) en) =
      put (hpack_int 0x40 6 n) en" if "n < 2 ^ 32" for n
    using emit_uint_kinds(6)[of "en_output_stream en" n] that e by (simp add: aligned_def put_def)
  have l: "EmitLiteral h (on_stream (AppendPrefix kLiteralIncrementalIndexOpcode) en) =
      Some (put (rep_name en (fst h) @ hpack_string (en_enable_compression en) (snd h)) en)"
  proof (cases "GetByName (fst h) (en_header_table en)")
    case None
    then show ?thesis using p[of 0] e assms(2) by (simp add: EmitLiteral_def rep_name_def EmitString_put rep_fits_def)
  next
    case (Some x)
    then show ?thesis using p[of "IndexOf x (en_header_table en)"] index_bound(2)[OF assms(1) Some] e assms(2)
      by (simp add: EmitLiteral_def rep_name_def EmitString_put rep_fits_def)
  qed
  obtain r t where t: "TryAddEntry (fst h) (snd h) (en_header_table en) = Some (r, t)"
    using add_result[OF e(3), of "fst h" "snd h"] by auto
  show ?thesis using t by (simp add: EmitIndexedLiteral_def l) (simp add: put_def)
qed

lemma EncodeRepresentation_step:
  assumes "encoder_ok en" "rep_fits h"
  shows "EncodeRepresentation h en = Some (rep_step h en)"
proof -
  let ?en = "en\<lparr>en_listener := en_listener en @ [h]\<rparr>"
  have ok: "encoder_ok ?en" using assms by (simp add: encoder_ok_def aligned_def)
  have r: "rep_name ?en = rep_name en" by (auto simp: rep_name_def fun_eq_iff split: option.split)
  note N = EmitNonIndexed_put[OF ok assms(2)] and I = EmitIndexed_put[OF ok assms(2)]
  show ?thesis
  proof (cases "GetByNameAndValue (fst h) (snd h) (en_header_table en)")
    case None
    then show ?thesis using N I r
      by (auto simp: EncodeRepresentation_def Let_def rep_step_def rep_bytes_def rep_table_def rep_indexed_def)
  next
    case (Some e)
    have "EmitIndex e ?en = put (hpack_int 0x80 7 (IndexOf e (en_header_table en))) ?en"
      using emit_uint_kinds(3)[of "en_output_stream en" "IndexOf e (en_header_table en)"] index_bound(1)[OF assms(1) Some] assms(1)
      by (simp add: EmitIndex_def encoder_ok_def aligned_def put_def)
    then show ?thesis using Some N
      by (auto simp: EncodeRepresentation_def Let_def rep_step_def rep_bytes_def rep_table_def rep_indexed_def)
  qed
qed

lemma EncodeRepresentations_loop_steps:
  "encoder_ok en \<Longrightarrow> list_all rep_fits hs \<Longrightarrow> EncodeRepresentations_loop hs en = Some (fold rep_step hs en)"
  by (induction hs arbitrary: en) (simp_all add: EncodeRepresentation_step rep_step_ok)

lemma steps_ok: "encoder_ok en \<Longrightarrow> encoder_ok (fold rep_step hs en)"
  by (induction hs arbitrary: en) (simp_all add: rep_step_ok)

section \<open>Table size updates and whole blocks\<close>

definition size_bytes :: "HpackEncoder \<Rightarrow> bytes" where
  "size_bytes en =
     (let cur = CurrentHeaderTableSizeSetting en; low = en_min_table_size_setting_received en
      in if en_should_emit_table_size en
         then (if low < cur then hpack_int 0x20 5 low else []) @ hpack_int 0x20 5 cur else [])"

definition settled :: "HpackEncoder \<Rightarrow> HpackEncoder" where
  "settled en = (if en_should_emit_table_size en
     then en\<lparr>en_min_table_size_setting_received := size_t_max, en_should_emit_table_size := False\<rparr> else en)"

lemma MaybeEmit_put: "encoder_ok en \<Longrightarrow> MaybeEmitTableSize en = put (size_bytes en) (settled en)"
proof -
  assume ok: "encoder_ok en"
  have c: "CurrentHeaderTableSizeSetting en < 2 ^ 32" using ok by (simp add: encoder_ok_def CurrentHeaderTableSizeSetting_def)
  have a: "os_bit_offset (en_output_stream en) = 0" using ok by (simp add: encoder_ok_def aligned_def)
  show ?thesis
  proof (cases "en_should_emit_table_size en")
    case True
    note K = emit_uint_kinds(5)
    show ?thesis
    proof (cases "en_min_table_size_setting_received en < CurrentHeaderTableSizeSetting en")
      case lt: True
      have m: "en_min_table_size_setting_received en < 2 ^ 32" using lt c by linarith
      show ?thesis using True lt K[OF a m] K[OF _ c]
        by (simp add: MaybeEmitTableSize_def size_bytes_def settled_def put_def Let_def)
    next
      case False
      then show ?thesis using True K[OF a c]
        by (simp add: MaybeEmitTableSize_def size_bytes_def settled_def put_def Let_def)
    qed
  next
    case False
    have "put [] en = en" using a by (cases en, cases "en_output_stream en") (simp add: put_def)
    then show ?thesis using False by (simp add: MaybeEmitTableSize_def size_bytes_def settled_def)
  qed
qed

lemma MaybeEmit_ok: "encoder_ok en \<Longrightarrow> encoder_ok (MaybeEmitTableSize en)"
  by (simp add: MaybeEmit_put) (simp add: encoder_ok_def settled_def)

definition with_buffer :: "bytes \<Rightarrow> HpackEncoder \<Rightarrow> HpackEncoder" where
  "with_buffer b en = en\<lparr>en_output_stream := \<lparr>os_buffer = b, os_bit_offset = 0\<rparr>\<rparr>"

lemma with_buffer_simps [simp]:
  "with_buffer b (with_buffer c en) = with_buffer b en" "os_buffer (en_output_stream (with_buffer b en)) = b"
  "with_buffer b (put xs en) = with_buffer b en" "put xs (with_buffer b en) = with_buffer (b @ xs) en"
  "en_header_table (with_buffer b en) = en_header_table en" "en_enable_compression (with_buffer b en) = en_enable_compression en"
  "encoder_ok en \<Longrightarrow> encoder_ok (with_buffer b en)" "aligned en \<Longrightarrow> with_buffer (os_buffer (en_output_stream en)) en = en"
  by (cases en, cases "en_output_stream en", simp_all add: with_buffer_def put_def encoder_ok_def aligned_def)

lemma EncodeRepresentations_steps:
  assumes "encoder_ok en" "list_all rep_fits hs"
  shows "EncodeRepresentations hs en =
    (let e = fold rep_step hs (MaybeEmitTableSize en) in Some (os_buffer (en_output_stream e), with_buffer [] e))"
  using EncodeRepresentations_loop_steps[OF MaybeEmit_ok[OF assms(1)] assms(2)]
  by (simp add: EncodeRepresentations_def TakeString_def with_buffer_def Let_def)

section \<open>Splitting header values\<close>

lemma split_nul_Cons:
  "split_nul s = takeWhile (\<lambda>c. c \<noteq> 0) s #
     (if dropWhile (\<lambda>c. c \<noteq> 0) s = [] then [] else split_nul (tl (dropWhile (\<lambda>c. c \<noteq> 0) s)))"
  unfolding split_nul.simps[of s] Let_def by (cases "dropWhile (\<lambda>c. c \<noteq> 0) s") (simp_all only: if_True if_False list.distinct simp_thms)

lemma split_crumbs_Cons:
  "split_crumbs s = takeWhile (\<lambda>c. c \<noteq> 0x3b) s #
     (if dropWhile (\<lambda>c. c \<noteq> 0x3b) s = [] then []
      else split_crumbs (case tl (dropWhile (\<lambda>c. c \<noteq> 0x3b) s) of [] \<Rightarrow> [] | c # cs \<Rightarrow> if c = 0x20 then cs else c # cs))"
  unfolding split_crumbs.simps[of s] Let_def
  by (cases "dropWhile (\<lambda>c. c \<noteq> 0x3b) s"; cases "tl (dropWhile (\<lambda>c. c \<noteq> 0x3b) s)")
    (simp_all only: if_True if_False list.distinct simp_thms list.sel list.case split: if_split)

lemma split_nul_fits: "p \<in> set (split_nul s) \<Longrightarrow> length p \<le> length s"
proof (induction "length s" arbitrary: s rule: less_induct)
  case less
  let ?d = "dropWhile (\<lambda>c. c \<noteq> 0) s"
  consider "p = takeWhile (\<lambda>c. c \<noteq> 0) s" | "?d \<noteq> []" "p \<in> set (split_nul (tl ?d))"
    using less.prems by (subst (asm) split_nul_Cons) (auto split: if_splits)
  then show ?case
  proof cases
    case 1
    then show ?thesis by (simp add: length_takeWhile_le)
  next
    case 2
    then show ?thesis using less.hyps[OF length_dropWhile_tl[OF 2(1)] 2(2)] length_dropWhile_tl[OF 2(1)] by linarith
  qed
qed

lemma split_crumbs_fits: "p \<in> set (split_crumbs s) \<Longrightarrow> length p \<le> length s"
proof (induction "length s" arbitrary: s rule: less_induct)
  case less
  let ?d = "dropWhile (\<lambda>c. c \<noteq> 0x3b) s"
  let ?r = "case tl ?d of [] \<Rightarrow> [] | c # cs \<Rightarrow> if c = 0x20 then cs else c # cs"
  consider "p = takeWhile (\<lambda>c. c \<noteq> 0x3b) s" | "?d \<noteq> []" "p \<in> set (split_crumbs ?r)"
    using less.prems by (subst (asm) split_crumbs_Cons) (auto simp del: dropWhile_eq_Nil_conv split: if_splits)
  then show ?case
  proof cases
    case 1
    then show ?thesis by (simp add: length_takeWhile_le)
  next
    case 2
    have "length ?r \<le> length (tl ?d)" by (cases "tl ?d") (simp_all del: length_tl)
    then have l: "length ?r < length s" using length_dropWhile_tl[OF 2(1)] by linarith
    show ?thesis using less.hyps[OF l 2(2)] l by linarith
  qed
qed

lemma rep_fits_parts:
  assumes "rep_fits h"
  shows "list_all rep_fits (CookieToCrumbs h)" "list_all rep_fits (DecomposeRepresentation h)"
    "list_all rep_fits (GatherRepresentation h)"
proof -
  let ?b = "\<lambda>c. c = 0x20 \<or> c = (0x09 :: byte)"
  have "length (dropWhile ?b (rev (dropWhile ?b (snd h)))) \<le> length (snd h)"
    using length_dropWhile_le[of ?b "rev (dropWhile ?b (snd h))"] length_dropWhile_le[of ?b "snd h"] by simp
  then have "length p \<le> length (snd h)" if "p \<in> set (split_crumbs (rev (dropWhile ?b (rev (dropWhile ?b (snd h))))))" for p
    using split_crumbs_fits[OF that] by simp
  then show "list_all rep_fits (CookieToCrumbs h)"
    using assms by (auto simp: CookieToCrumbs_def Let_def list_all_iff rep_fits_def intro: le_less_trans)
  show "list_all rep_fits (DecomposeRepresentation h)"
    using assms split_nul_fits[of _ "snd h"] by (auto simp: DecomposeRepresentation_def list_all_iff rep_fits_def intro: le_less_trans)
qed (use assms in \<open>simp add: GatherRepresentation_def\<close>)

lemma SeparateHeaders_fits:
  assumes "\<And>h. rep_fits h \<Longrightarrow> list_all rep_fits (f h)"
  shows "list_all rep_fits hs \<Longrightarrow> SeparateHeaders f b hs = (p, r) \<Longrightarrow> list_all rep_fits (p @ r)"
proof (induction hs arbitrary: b p r)
  case (Cons h hs)
  have f: "list_all rep_fits (f h)" "list_all rep_fits (CookieToCrumbs h)"
    using Cons.prems(1) assms rep_fits_parts by auto
  obtain b' p' r' where s: "SeparateHeaders f b' hs = (p', r')"
    "(p, r) = (p', CookieToCrumbs h @ r') \<or> (p, r) = (f h @ p', r') \<or> (p, r) = (p', f h @ r')"
    using Cons.prems(2) by (auto split: if_splits prod.splits)
  then show ?case using Cons.IH[OF _ s(1)] Cons.prems(1) f by auto
qed simp

end
