(* ===== verification/Hpack_Encoder_Runs.thy ===== *)
theory Hpack_Encoder_Runs
  imports Hpack_Encoder_Bytes
begin

text \<open>
  Runs of the HPACK encoder: the encoders that calls of its methods can produce, progressive
  encoding against encoding at once, and how header values are split before they are encoded.
\<close>

section \<open>Every encoder that can arise\<close>

inductive encoder_reachable :: "HpackEncoder \<Rightarrow> bool" where
  init: "encoder_reachable (HpackEncoder_init hpack_huffman_table)"
| setting: "encoder_reachable en \<Longrightarrow> n < 2 ^ 32 \<Longrightarrow> Encoder_ApplyHeaderTableSizeSetting n en = Some en' \<Longrightarrow> encoder_reachable en'"
| policy: "encoder_reachable en \<Longrightarrow> encoder_reachable (SetIndexingPolicy f en)"
| no_compression: "encoder_reachable en \<Longrightarrow> encoder_reachable (DisableCompression en)"
| representations: "encoder_reachable en \<Longrightarrow> list_all rep_fits hs \<Longrightarrow>
    EncodeHeaderSet_representations hs en = Some (output, en') \<Longrightarrow> encoder_reachable en'"
| header_set: "encoder_reachable en \<Longrightarrow> list_all rep_fits hs \<Longrightarrow>
    EncodeHeaderSet hs en = Some (output, en') \<Longrightarrow> encoder_reachable en'"

lemma init_encoder_ok: "encoder_ok (HpackEncoder_init hpack_huffman_table)"
  by (simp add: encoder_ok_def HpackEncoder_init_def aligned_def HpackOutputStream_empty_def init_header_ok)
    (simp add: HpackHeaderTable_init_def kDefaultHeaderTableSizeSetting_def)

lemma setting_result:
  assumes "encoder_ok en" "n < 2 ^ 32"
  shows "\<exists>en'. Encoder_ApplyHeaderTableSizeSetting n en = Some en' \<and> encoder_ok en' \<and>
    en_output_stream en' = en_output_stream en \<and> tb_settings_size_bound (en_header_table en') = n \<and>
    (let t = en_header_table en; t' = en_header_table en'; c = tb_settings_size_bound t
     in if n = c then en' = en
        else tb_max_size t' = n \<and> header_pairs t' = fit n (header_pairs t) \<and> en_should_emit_table_size en' \<and>
          en_min_table_size_setting_received en' =
            (if n < c then min n (en_min_table_size_setting_received en) else en_min_table_size_setting_received en)) \<and>
    en_enable_compression en' = en_enable_compression en"
proof (cases "n = tb_settings_size_bound (en_header_table en)")
  case False
  obtain t where "SetSettingsHeaderTableSize n (en_header_table en) = Some t" "header_ok t"
    "header_pairs t = fit n (header_pairs (en_header_table en))" "tb_max_size t = n" "tb_settings_size_bound t = n"
    using resize_result[of "en_header_table en" n] assms(1) by (auto simp: encoder_ok_def)
  then show ?thesis using False assms
    by (auto simp: Encoder_ApplyHeaderTableSizeSetting_def encoder_ok_def aligned_def Let_def)
qed (use assms in \<open>auto simp: Encoder_ApplyHeaderTableSizeSetting_def\<close>)

definition encoder_idle :: "HpackEncoder \<Rightarrow> bool" where
  "encoder_idle en \<longleftrightarrow> encoder_ok en \<and> os_buffer (en_output_stream en) = []"

lemma representations_idle:
  assumes "encoder_idle en" "list_all rep_fits hs" "EncodeRepresentations hs en = Some (output, en')"
  shows "encoder_idle en'"
  using assms by (auto simp: EncodeRepresentations_steps encoder_idle_def steps_ok MaybeEmit_ok Let_def)

lemma header_set_representations:
  assumes "list_all rep_fits hs"
  shows "\<exists>hs'. list_all rep_fits hs' \<and> EncodeHeaderSet hs en = EncodeRepresentations hs' en \<and>
    (en_enable_compression en \<longrightarrow> Encoderator_init hs en = (\<lparr>ea_header_it = hs', ea_has_next = True\<rparr>, MaybeEmitTableSize en))"
proof -
  obtain p r where s: "SeparateHeaders DecomposeRepresentation False hs = (p, r)" by fastforce
  then show ?thesis using SeparateHeaders_fits[OF rep_fits_parts(2) assms s]
    by (intro exI[of _ "p @ r"]) (auto simp: EncodeHeaderSet_def Encoderator_init_def)
qed

lemma reachable_idle: "encoder_reachable en \<Longrightarrow> encoder_idle en"
proof (induction rule: encoder_reachable.induct)
  case init
  show ?case using init_encoder_ok by (simp add: encoder_idle_def HpackEncoder_init_def HpackOutputStream_empty_def)
next
  case (setting en n en')
  then show ?case using setting_result[of en n] by (auto simp: encoder_idle_def)
next
  case (representations en hs out en')
  then show ?case using representations_idle by (auto simp: EncodeHeaderSet_representations_def)
next
  case (header_set en hs out en')
  obtain hs' where "list_all rep_fits hs'" "EncodeRepresentations hs' en = Some (out, en')"
    using header_set_representations[OF header_set.hyps(2), of en] header_set.hyps(3) by force
  then show ?case using representations_idle[OF header_set.IH] by blast
qed (simp_all add: encoder_idle_def encoder_ok_def SetIndexingPolicy_def DisableCompression_def aligned_def)

section \<open>Progressive encoding\<close>

text \<open>A caller that asks for the next bytes as long as there are some, with a bound for each call.\<close>

fun encoderator_run :: "nat list \<Rightarrow> Encoderator \<times> HpackEncoder \<Rightarrow> (bytes \<times> Encoderator \<times> HpackEncoder) option" where
  "encoderator_run [] (ea, en) = Some ([], ea, en)"
| "encoderator_run (m # ms) (ea, en) =
     (if \<not> ea_has_next ea then Some ([], ea, en)
      else case Encoderator_Next m ea en of
             None \<Rightarrow> None
           | Some (out, ea, en) \<Rightarrow>
               (case encoderator_run ms (ea, en) of None \<Rightarrow> None | Some (outs, ea, en) \<Rightarrow> Some (out @ outs, ea, en)))"

lemma rep_step_buffer: "rep_step h (with_buffer b en) = with_buffer (b @ rep_bytes en h) (rep_step h en)"
proof -
  have "rep_bytes (with_buffer b en) h = rep_bytes en h" "rep_table (with_buffer b en) h = rep_table en h"
    by (auto simp: rep_bytes_def rep_table_def rep_name_def rep_indexed_def with_buffer_def Let_def split: option.split)
  then show ?thesis by (simp add: rep_step_def) (simp add: with_buffer_def put_def)
qed

lemma rep_step_prefix:
  assumes "aligned en"
  shows "rep_step h (with_buffer (xs @ os_buffer (en_output_stream en)) en) =
    with_buffer (xs @ os_buffer (en_output_stream (rep_step h en))) (rep_step h en)"
  by (simp add: rep_step_buffer) (simp add: rep_step_def)

lemma steps_prefix:
  "encoder_ok en \<Longrightarrow> fold rep_step hs (with_buffer (xs @ os_buffer (en_output_stream en)) en) =
     with_buffer (xs @ os_buffer (en_output_stream (fold rep_step hs en))) (fold rep_step hs en)"
  by (induction hs arbitrary: en) (simp_all add: rep_step_prefix rep_step_ok encoder_ok_def[THEN iffD1, THEN conjunct1])

lemma steps_grow: "\<exists>ys. os_buffer (en_output_stream (fold rep_step hs en)) = os_buffer (en_output_stream en) @ ys"
proof (induction hs arbitrary: en)
  case (Cons h hs)
  show ?case using Cons.IH[of "rep_step h en"] by (auto simp: rep_step_def)
qed simp

lemma Next_loop_steps:
  "encoder_ok en \<Longrightarrow> list_all rep_fits it \<Longrightarrow>
   \<exists>done it'. it = done @ it' \<and> Next_loop m it en = Some (it', fold rep_step done en) \<and>
     (it' = [] \<or> m < length (os_buffer (en_output_stream (fold rep_step done en))))"
proof (induction it arbitrary: en)
  case (Cons h it)
  show ?case
  proof (cases "length (os_buffer (en_output_stream en)) \<le> m")
    case True
    have "list_all rep_fits it" using Cons.prems(2) by simp
    from Cons.IH[OF rep_step_ok[OF Cons.prems(1), of h] this]
    obtain d it' where d: "it = d @ it'" "Next_loop m it (rep_step h en) = Some (it', fold rep_step d (rep_step h en))"
      "it' = [] \<or> m < length (os_buffer (en_output_stream (fold rep_step d (rep_step h en))))"
      by blast
    have "Next_loop m (h # it) en = Some (it', fold rep_step (h # d) en)"
      using d(2) True Cons.prems by (simp add: EncodeRepresentation_step)
    then show ?thesis using d(1,3) by (intro exI[of _ "h # d"] exI[of _ it']) simp
  next
    case False
    then show ?thesis by (intro exI[of _ "[]"] exI[of _ "h # it"]) simp
  qed
qed simp

text \<open>All the bytes of the block, and the encoder behind it, from a state of the progressive encoder.\<close>

abbreviation finish :: "Representation list \<Rightarrow> HpackEncoder \<Rightarrow> HpackEncoder" where
  "finish it en \<equiv> fold rep_step it en"

abbreviation buf :: "HpackEncoder \<Rightarrow> bytes" where
  "buf en \<equiv> os_buffer (en_output_stream en)"

lemma Next_spec:
  assumes ok: "encoder_ok en" "list_all rep_fits it"
  shows "\<exists>it' en'. Encoderator_Next m \<lparr>ea_header_it = it, ea_has_next = b\<rparr> en =
      Some (take m (buf (finish it en)), \<lparr>ea_header_it = it', ea_has_next = m < length (buf (finish it en))\<rparr>, en') \<and>
    encoder_ok en' \<and> list_all rep_fits it' \<and>
    buf (finish it' en') = drop m (buf (finish it en)) \<and> with_buffer [] (finish it' en') = with_buffer [] (finish it en) \<and>
    (length (buf (finish it en)) \<le> m \<longrightarrow> it' = [] \<and> en' = with_buffer [] (finish it en))"
proof -
  obtain d it' where d: "it = d @ it'" "Next_loop m it en = Some (it', finish d en)" "it' = [] \<or> m < length (buf (finish d en))"
    using Next_loop_steps[OF ok] by metis
  define e where "e = finish d en"
  have e: "encoder_ok e" "aligned e" using steps_ok[OF ok(1)] by (auto simp: e_def encoder_ok_def)
  have f: "finish it en = finish it' e" by (simp add: d(1) e_def)
  obtain ys where ys: "buf (finish it' e) = buf e @ ys" using steps_grow by blast
  show ?thesis
  proof (cases "m < length (buf e)")
    case True
    let ?en = "with_buffer (drop m (buf e)) e"
    have s: "(en_output_stream e)\<lparr>os_buffer := drop m (buf e)\<rparr> = en_output_stream ?en"
      using e(2) by (cases "en_output_stream e") (simp add: with_buffer_def aligned_def)
    have n: "Encoderator_Next m \<lparr>ea_header_it = it, ea_has_next = b\<rparr> en =
        Some (take m (buf e), \<lparr>ea_header_it = it', ea_has_next = True\<rparr>, ?en)"
      using True d(2) s by (simp add: Encoderator_Next_def BoundedTakeString_def flip: e_def) (simp add: with_buffer_def)
    have "with_buffer (take m (buf e) @ buf ?en) ?en = e" using e(2) by simp
    then have w: "finish it' e = with_buffer (take m (buf e) @ buf (finish it' ?en)) (finish it' ?en)"
      using steps_prefix[of ?en it' "take m (buf e)"] e(1) by simp
    have "buf (finish it' e) = take m (buf e) @ buf (finish it' ?en)" by (subst w) simp
    then have "take m (buf (finish it' e)) = take m (buf e)" "drop m (buf (finish it' e)) = buf (finish it' ?en)"
      using True by simp_all
    moreover have "m < length (buf (finish it' e))" using True ys by (simp only: length_append)
    moreover have "with_buffer [] (finish it' e) = with_buffer [] (finish it' ?en)" by (subst w) simp
    ultimately show ?thesis
      using n e(1) ok(2) d(1) f by (intro exI[of _ it'] exI[of _ ?en]) simp
  next
    case False
    then have it: "it' = []" using d(3) by (simp add: e_def)
    have "Encoderator_Next m \<lparr>ea_header_it = it, ea_has_next = b\<rparr> en =
        Some (buf e, \<lparr>ea_header_it = [], ea_has_next = False\<rparr>, with_buffer [] e)"
      using False d(2) it
      by (simp add: Encoderator_Next_def BoundedTakeString_def TakeString_def flip: e_def) (simp add: with_buffer_def)
    then show ?thesis using False it f e by auto
  qed
qed

lemma encoderator_run_spec:
  "encoder_ok en \<Longrightarrow> list_all rep_fits it \<Longrightarrow>
   \<exists>ea en'. encoderator_run ms (\<lparr>ea_header_it = it, ea_has_next = True\<rparr>, en) =
       Some (take (sum_list ms) (buf (finish it en)), ea, en') \<and>
     (ea_has_next ea \<longleftrightarrow> ms = [] \<or> sum_list ms < length (buf (finish it en))) \<and>
     (\<not> ea_has_next ea \<longrightarrow> en' = with_buffer [] (finish it en))"
proof (induction ms arbitrary: it en)
  case (Cons m ms)
  let ?out = "buf (finish it en)"
  obtain it1 en1 where n: "Encoderator_Next m \<lparr>ea_header_it = it, ea_has_next = True\<rparr> en =
      Some (take m ?out, \<lparr>ea_header_it = it1, ea_has_next = m < length ?out\<rparr>, en1)"
    "encoder_ok en1" "list_all rep_fits it1" "buf (finish it1 en1) = drop m ?out"
    "with_buffer [] (finish it1 en1) = with_buffer [] (finish it en)"
    "length ?out \<le> m \<longrightarrow> it1 = [] \<and> en1 = with_buffer [] (finish it en)"
    using Next_spec[OF Cons.prems, of m True] by blast
  show ?case
  proof (cases "m < length ?out")
    case True
    obtain ea en' where r: "encoderator_run ms (\<lparr>ea_header_it = it1, ea_has_next = True\<rparr>, en1) =
        Some (take (sum_list ms) (drop m ?out), ea, en')"
      "ea_has_next ea \<longleftrightarrow> ms = [] \<or> sum_list ms < length (drop m ?out)"
      "\<not> ea_has_next ea \<longrightarrow> en' = with_buffer [] (finish it en)"
      using Cons.IH[OF n(2,3)] unfolding n(4,5) by blast
    have "take m ?out @ take (sum_list ms) (drop m ?out) = take (sum_list (m # ms)) ?out"
      by (simp add: take_add)
    then show ?thesis using n(1) r True by (auto simp: less_diff_conv)
  next
    case False
    then have "encoderator_run (m # ms) (\<lparr>ea_header_it = it, ea_has_next = True\<rparr>, en) =
        Some (?out, \<lparr>ea_header_it = it1, ea_has_next = False\<rparr>, en1)"
      using n(1) by (cases ms) simp_all
    then show ?thesis using n(6) False by simp
  qed
qed simp

text \<open>
  C10: With compression enabled, progressive encoding gives the bytes of encoding at once, and it ends.
  Whatever bounds the caller passes to \<open>Next\<close>, the bytes it has got so far are the first ones of the output of
  \<open>EncodeHeaderSet\<close>, as many as the bounds add up to; \<open>HasNext\<close> turns false as soon as a call
  was made and the bounds add up to the length of the output, and the encoder is then the one that
  \<open>EncodeHeaderSet\<close> leaves.
\<close>

theorem progressive_encoding:
  assumes "encoder_reachable en" "en_enable_compression en" "list_all rep_fits header_set"
  shows "\<exists>output en1 ea en2. EncodeHeaderSet header_set en = Some (output, en1) \<and>
    encoderator_run ms (Encoderator_init header_set en) = Some (take (sum_list ms) output, ea, en2) \<and>
    (ea_has_next ea \<longleftrightarrow> ms = [] \<or> sum_list ms < length output) \<and>
    (\<not> ea_has_next ea \<longrightarrow> en2 = en1)"
proof -
  have ok: "encoder_ok en" using reachable_idle[OF assms(1)] by (simp add: encoder_idle_def)
  obtain hs where h: "list_all rep_fits hs" "EncodeHeaderSet header_set en = EncodeRepresentations hs en"
    "Encoderator_init header_set en = (\<lparr>ea_header_it = hs, ea_has_next = True\<rparr>, MaybeEmitTableSize en)"
    using header_set_representations[OF assms(3)] assms(2) by blast
  show ?thesis
    using encoderator_run_spec[OF MaybeEmit_ok[OF ok] h(1), of ms] EncodeRepresentations_steps[OF ok h(1)] h(2,3)
    by (auto simp: Let_def)
qed

lemma huff_octets_ne: "huff_octets [x] \<noteq> []"
proof
  assume "huff_octets [x] = []"
  then have "huff_bits [x] = []" using huff_octets_bits[of "[x]"] by simp
  then have "huff_run [] [] = huff_run [] [x]" using huff_run_codes[of "[x]" "[]" "[]"] by simp
  then show False by (simp add: huff_run.simps[of "[]"] huff_match_Nil)
qed

lemma hpack_string_one: "hpack_string b [x] = [0x01, x]"
  using huff_octets_ne[of x] by (auto simp: hpack_string_def hpack_int_def)

lemma static_name_miss: "st_static_name_index ObtainHpackStaticTable [0x61] = None"
  by (simp add: static_table_eq Let_def HpackStaticTableVector_def ascii_def)

text \<open>The header \<open>a: b\<close> takes five bytes; with the bounds 2, 2 and 9 they come in three calls.\<close>

theorem progressive_encoding_witness:
  "\<exists>en1 ea. EncodeHeaderSet [([0x61], [0x62])] (HpackEncoder_init hpack_huffman_table) = Some ([0x40, 0x01, 0x61, 0x01, 0x62], en1) \<and>
     encoderator_run [2, 2, 9] (Encoderator_init [([0x61], [0x62])] (HpackEncoder_init hpack_huffman_table)) =
       Some ([0x40, 0x01, 0x61, 0x01, 0x62], ea, en1) \<and> \<not> ea_has_next ea"
proof -
  let ?en = "HpackEncoder_init hpack_huffman_table"
  have f: "list_all rep_fits [([0x61], [0x62])]" by (simp add: rep_fits_def)
  have m: "MaybeEmitTableSize ?en = ?en" by (simp add: MaybeEmitTableSize_def HpackEncoder_init_def)
  have r: "rep_bytes ?en ([0x61], [0x62]) = [0x40, 0x01, 0x61, 0x01, 0x62]"
    using static_miss static_name_miss
    by (simp add: rep_bytes_def rep_name_def HpackEncoder_init_def GetByNameAndValue_def GetByName_def
        HpackHeaderTable_init_def DefaultPolicy_def kPseudoHeaderPrefix_def hpack_string_one hpack_int_def)
  have h: "EncodeHeaderSet [([0x61], [0x62])] ?en = EncodeRepresentations [([0x61], [0x62])] ?en"
    by (simp add: EncodeHeaderSet_def DecomposeRepresentation_def split_nul.simps kPseudoHeaderPrefix_def ascii_def)
  have "\<exists>en1. EncodeHeaderSet [([0x61], [0x62])] ?en = Some ([0x40, 0x01, 0x61, 0x01, 0x62], en1)"
    using EncodeRepresentations_steps[OF init_encoder_ok f] m r h
    by (simp add: Let_def rep_step_def) (simp add: HpackEncoder_init_def HpackOutputStream_empty_def)
  then show ?thesis
    using progressive_encoding[OF encoder_reachable.init _ f, of "[2, 2, 9]"] by (auto simp: HpackEncoder_init_def)
qed

section \<open>Splitting header values\<close>

fun join :: "bytes \<Rightarrow> bytes list \<Rightarrow> bytes" where
  "join sep [] = []"
| "join sep [p] = p"
| "join sep (p # ps) = p @ sep @ join sep ps"

lemma join_Cons: "join sep (p # ps) = (if ps = [] then p else p @ sep @ join sep ps)"
  by (cases ps) auto

lemma split_nul_ne [simp]: "split_nul s \<noteq> []"
  by (subst split_nul_Cons) simp

lemma split_nul_join: "join [0] (split_nul s) = s \<and> 0 \<notin> set (concat (split_nul s))"
proof (induction "length s" arbitrary: s rule: less_induct)
  case less
  let ?d = "dropWhile (\<lambda>c. c \<noteq> 0) s" and ?t = "takeWhile (\<lambda>c. c \<noteq> 0) s"
  have t: "0 \<notin> set ?t" by (auto dest: set_takeWhileD)
  show ?case
  proof (cases "?d = []")
    case True
    have "split_nul s = [?t]" by (subst split_nul_Cons) (simp only: True simp_thms if_True)
    moreover have "?t = s" using takeWhile_dropWhile_id[of "\<lambda>c. c \<noteq> 0" s] True by (simp only: append_Nil2)
    ultimately show ?thesis using t by auto
  next
    case False
    then have "split_nul s = ?t # split_nul (tl ?d)" by (subst split_nul_Cons) (simp only: if_False)
    moreover have "?t @ [0] @ tl ?d = s"
      using hd_dropWhile[OF False] takeWhile_dropWhile_id[of "\<lambda>c. c \<noteq> 0" s] list.collapse[OF False] by simp
    ultimately show ?thesis using less[OF length_dropWhile_tl[OF False]] t by (simp add: join_Cons)
  qed
qed

text \<open>
  A header value is split at the NUL bytes and nothing of it is lost: all parts carry the name
  of the header, none contains a NUL, and joined with NULs they give the value back.
\<close>

lemma decompose_value:
  "map fst (DecomposeRepresentation h) = replicate (length (DecomposeRepresentation h)) (fst h) \<and>
   0 \<notin> set (concat (map snd (DecomposeRepresentation h))) \<and>
   join [0] (map snd (DecomposeRepresentation h)) = snd h"
  using split_nul_join[of "snd h"] by (simp add: DecomposeRepresentation_def comp_def map_replicate_const)

lemma split_crumbs_join:
  "cs \<noteq> [] \<Longrightarrow> list_all (\<lambda>c. 0x3b \<notin> set c) cs \<Longrightarrow> split_crumbs (join [0x3b, 0x20] cs) = cs"
proof (induction cs)
  case (Cons c cs)
  have t: "takeWhile (\<lambda>x. x \<noteq> 0x3b) c = c" "dropWhile (\<lambda>x. x \<noteq> 0x3b) c = []"
    using Cons.prems(2) by (auto simp: takeWhile_eq_all_conv)
  show ?case
  proof (cases cs)
    case Nil
    then show ?thesis using t by (subst split_crumbs_Cons) simp
  next
    case (Cons d ds)
    have "takeWhile (\<lambda>x. x \<noteq> 0x3b) (c @ 0x3b # xs) = c" "dropWhile (\<lambda>x. x \<noteq> 0x3b) (c @ 0x3b # xs) = 0x3b # xs" for xs
      using \<open>list_all _ (c # cs)\<close>
        takeWhile_append2[of c "\<lambda>x. x \<noteq> 0x3b" "0x3b # xs"] dropWhile_append2[of c "\<lambda>x. x \<noteq> 0x3b" "0x3b # xs"]
      by (auto simp del: takeWhile_append2 dropWhile_append2)
    then have "split_crumbs (c @ [0x3b, 0x20] @ xs) = c # split_crumbs xs" for xs
      by (subst split_crumbs_Cons) simp
    then show ?thesis using Cons.IH Cons.prems Cons by (simp add: join_Cons)
  qed
qed simp

lemma join_ends:
  "cs \<noteq> [] \<Longrightarrow> list_all (\<lambda>c. c \<noteq> []) cs \<Longrightarrow>
   join sep cs \<noteq> [] \<and> hd (join sep cs) = hd (hd cs) \<and> last (join sep cs) = last (last cs)"
  by (induction sep cs rule: join.induct) auto

text \<open>
  C31: The cookie header is split into crumbs as HTTP/2 describes: a value of crumbs that are joined by a
  semicolon and a space, none of which contains a semicolon, is empty, or begins or ends with a blank, is
  split into these crumbs, in order.
\<close>

theorem cookie_crumbs:
  assumes "cs \<noteq> []" "list_all (\<lambda>c. c \<noteq> [] \<and> 0x3b \<notin> set c \<and> hd c \<notin> {0x20, 0x09} \<and> last c \<notin> {0x20, 0x09}) cs"
  shows "CookieToCrumbs (name, join [0x3b, 0x20] cs) = map (Pair name) cs"
proof -
  let ?b = "\<lambda>c. c = 0x20 \<or> c = (0x09 :: byte)" and ?s = "join [0x3b, 0x20] cs"
  have s: "?s \<noteq> []" "\<not> ?b (hd ?s)" "\<not> ?b (last ?s)"
    using join_ends[OF assms(1), of "[0x3b, 0x20]"] assms hd_in_set[OF assms(1)] last_in_set[OF assms(1)]
    by (auto simp: list_all_iff)
  have "dropWhile ?b ?s = ?s" using s(1,2) by (cases ?s) auto
  moreover have "dropWhile ?b (rev ?s) = rev ?s" using s(1,3) by (cases ?s rule: rev_cases) auto
  ultimately show ?thesis using split_crumbs_join[OF assms(1)] assms(2)
    by (simp add: CookieToCrumbs_def list_all_iff)
qed

text \<open>\<open>a=b; c\<close>\<close>

theorem cookie_crumbs_witness:
  "CookieToCrumbs (ascii ''cookie'', [0x61, 0x3d, 0x62, 0x3b, 0x20, 0x63]) =
     [(ascii ''cookie'', [0x61, 0x3d, 0x62]), (ascii ''cookie'', [0x63])]"
  using cookie_crumbs[of "[[0x61, 0x3d, 0x62], [0x63]]" "ascii ''cookie''"] by simp

end
