(* ===== verification/Hpack_String_Buffer.thy ===== *)
theory Hpack_String_Buffer
  imports Hpack_Huffman
begin

text \<open>
  \<^verbatim>\<open>http2/hpack/decoder/hpack_decoder_string_buffer.{h,cc}\<close>: the buffer that collects the name or
  the value of a header entry. A string that arrives in one piece and is not Huffman encoded is not
  copied: the buffer keeps a pointer into the transport buffer, and its \<open>backing_\<close> is UNBUFFERED.
  The model keeps the bytes a pointer stands for in \<open>sb_value\<close>; whether they are still there when
  they are read is what \<open>sb_backing\<close> tells.

  The second part maps the buffer to its view: the text collected so far, wherever it is
  stored. On views, \<open>OnData\<close> does not depend on how a string is cut.
\<close>

datatype StringState = S_RESET | S_COLLECTING | S_COMPLETE

datatype StringBacking = B_RESET | B_UNBUFFERED | B_BUFFERED | B_STATIC

text \<open>
  \<open>sb_capacity\<close> is the capacity of the \<open>std::string\<close> \<open>buffer_\<close>, as far as the standard fixes it: \<open>reserve\<close> and
  operations that make the string longer make it at least as large as needed, no operation but a move
  makes it smaller.
\<close>

record HpackDecoderStringBuffer =
  sb_buffer :: bytes
  sb_capacity :: nat
  sb_value :: bytes
  sb_decoder :: HuffmanBitBuffer
  sb_remaining_len :: nat
  sb_is_huffman_encoded :: bool
  sb_state :: StringState
  sb_backing :: StringBacking

definition StringBuffer_init :: HpackDecoderStringBuffer where
  "StringBuffer_init =
     \<lparr>sb_buffer = [], sb_capacity = 0, sb_value = [], sb_decoder = \<lparr>bb_accumulator = 0, bb_count = 0\<rparr>,
      sb_remaining_len = 0, sb_is_huffman_encoded = False, sb_state = S_RESET, sb_backing = B_RESET\<rparr>"

definition set_buffer :: "bytes \<Rightarrow> HpackDecoderStringBuffer \<Rightarrow> HpackDecoderStringBuffer" where
  "set_buffer buffer sb = sb\<lparr>sb_buffer := buffer, sb_capacity := max (sb_capacity sb) (length buffer)\<rparr>"

definition buffer_reserve :: "nat \<Rightarrow> HpackDecoderStringBuffer \<Rightarrow> HpackDecoderStringBuffer" where
  "buffer_reserve n sb = sb\<lparr>sb_capacity := max (sb_capacity sb) n\<rparr>"

definition StringBuffer_Reset :: "HpackDecoderStringBuffer \<Rightarrow> HpackDecoderStringBuffer" where
  "StringBuffer_Reset sb = sb\<lparr>sb_state := S_RESET\<rparr>"

definition StringBuffer_Set :: "bytes \<Rightarrow> bool \<Rightarrow> HpackDecoderStringBuffer \<Rightarrow> HpackDecoderStringBuffer" where
  "StringBuffer_Set value is_static sb =
     sb\<lparr>sb_value := value, sb_state := S_COMPLETE,
        sb_backing := (if is_static then B_STATIC else B_UNBUFFERED),
        sb_remaining_len := 0, sb_is_huffman_encoded := False\<rparr>"

definition StringBuffer_OnStart :: "bool \<Rightarrow> nat \<Rightarrow> HpackDecoderStringBuffer \<Rightarrow> HpackDecoderStringBuffer" where
  "StringBuffer_OnStart huffman_encoded len sb =
     (let sb = sb\<lparr>sb_remaining_len := len, sb_is_huffman_encoded := huffman_encoded,
                  sb_state := S_COLLECTING\<rparr>
      in if huffman_encoded then
           let sb = (set_buffer [] (sb\<lparr>sb_decoder := BitBuffer_Reset (sb_decoder sb)\<rparr>))\<lparr>sb_backing := B_BUFFERED\<rparr>;
               len = len * 8 div 5
           in if sb_capacity sb < len then buffer_reserve len sb else sb
         else
           sb\<lparr>sb_backing := B_RESET, sb_value := []\<rparr>)"

definition StringBuffer_OnData :: "bytes \<Rightarrow> HpackDecoderStringBuffer \<Rightarrow> bool \<times> HpackDecoderStringBuffer" where
  "StringBuffer_OnData data sb =
     (let sb = sb\<lparr>sb_remaining_len := sb_remaining_len sb - length data\<rparr>
      in if sb_is_huffman_encoded sb then
           (case HuffmanDecoder_Decode (sb_decoder sb) data (sb_buffer sb) of
              (ok, decoder, buffer) \<Rightarrow> (ok, set_buffer buffer (sb\<lparr>sb_decoder := decoder\<rparr>)))
         else if sb_backing sb = B_RESET then
           if sb_remaining_len sb = 0 then
             (True, sb\<lparr>sb_value := data, sb_backing := B_UNBUFFERED\<rparr>)
           else
             (True, set_buffer data (buffer_reserve (sb_remaining_len sb + length data) (sb\<lparr>sb_backing := B_BUFFERED\<rparr>)))
         else
           (True, set_buffer (sb_buffer sb @ data) sb))"

definition StringBuffer_OnEnd :: "HpackDecoderStringBuffer \<Rightarrow> bool \<times> HpackDecoderStringBuffer" where
  "StringBuffer_OnEnd sb =
     (if sb_is_huffman_encoded sb then
        if \<not> InputProperlyTerminated (sb_decoder sb) then (False, sb)
        else (True, sb\<lparr>sb_value := sb_buffer sb, sb_state := S_COMPLETE\<rparr>)
      else if sb_backing sb = B_BUFFERED then
        (True, sb\<lparr>sb_value := sb_buffer sb, sb_state := S_COMPLETE\<rparr>)
      else (True, sb\<lparr>sb_state := S_COMPLETE\<rparr>))"

definition BufferStringIfUnbuffered :: "HpackDecoderStringBuffer \<Rightarrow> HpackDecoderStringBuffer" where
  "BufferStringIfUnbuffered sb =
     (if sb_state sb \<noteq> S_RESET \<and> sb_backing sb = B_UNBUFFERED then
        let sb = set_buffer (sb_value sb) sb;
            sb = (if sb_state sb = S_COMPLETE then sb\<lparr>sb_value := sb_buffer sb\<rparr> else sb)
        in sb\<lparr>sb_backing := B_BUFFERED\<rparr>
      else sb)"

definition IsBuffered :: "HpackDecoderStringBuffer \<Rightarrow> bool" where
  "IsBuffered sb \<longleftrightarrow> sb_state sb \<noteq> S_RESET \<and> sb_backing sb = B_BUFFERED"

definition BufferedLength :: "HpackDecoderStringBuffer \<Rightarrow> nat" where
  "BufferedLength sb = (if IsBuffered sb then length (sb_buffer sb) else 0)"

definition StringBuffer_str :: "HpackDecoderStringBuffer \<Rightarrow> bytes" where
  "StringBuffer_str sb = sb_value sb"

text \<open>
  A string that has been moved from is empty and has no memory of its own; every use of \<open>buffer_\<close>
  assigns it first.
\<close>

definition ReleaseString :: "HpackDecoderStringBuffer \<Rightarrow> bytes \<times> HpackDecoderStringBuffer" where
  "ReleaseString sb =
     (if sb_state sb = S_COMPLETE then
        let sb = sb\<lparr>sb_state := S_RESET\<rparr>
        in if sb_backing sb = B_BUFFERED then (sb_buffer sb, sb\<lparr>sb_buffer := [], sb_capacity := 0\<rparr>)
           else (sb_value sb, sb)
      else ([], sb))"

lemmas string_buffer_defs =
  StringBuffer_init_def StringBuffer_Reset_def StringBuffer_Set_def StringBuffer_OnStart_def
  StringBuffer_OnData_def StringBuffer_OnEnd_def BufferStringIfUnbuffered_def IsBuffered_def
  BufferedLength_def StringBuffer_str_def ReleaseString_def set_buffer_def buffer_reserve_def Let_def

lemma set_buffer_simps [simp]:
  "sb_buffer (set_buffer b sb) = b" "sb_capacity (set_buffer b sb) = max (sb_capacity sb) (length b)"
  "sb_value (set_buffer b sb) = sb_value sb" "sb_decoder (set_buffer b sb) = sb_decoder sb"
  "sb_remaining_len (set_buffer b sb) = sb_remaining_len sb" "sb_is_huffman_encoded (set_buffer b sb) = sb_is_huffman_encoded sb"
  "sb_state (set_buffer b sb) = sb_state sb" "sb_backing (set_buffer b sb) = sb_backing sb"
  by (simp_all add: set_buffer_def)

lemma buffer_reserve_simps [simp]:
  "sb_buffer (buffer_reserve n sb) = sb_buffer sb" "sb_capacity (buffer_reserve n sb) = max (sb_capacity sb) n"
  "sb_value (buffer_reserve n sb) = sb_value sb" "sb_decoder (buffer_reserve n sb) = sb_decoder sb"
  "sb_remaining_len (buffer_reserve n sb) = sb_remaining_len sb" "sb_is_huffman_encoded (buffer_reserve n sb) = sb_is_huffman_encoded sb"
  "sb_state (buffer_reserve n sb) = sb_state sb" "sb_backing (buffer_reserve n sb) = sb_backing sb"
  by (simp_all add: buffer_reserve_def)

section \<open>The text in a buffer\<close>

text \<open>
  What a buffer stands for: nothing, a string of which some bytes are still to come (with the bits
  the Huffman decoder has not matched yet), or a whole string.
\<close>

datatype partial_text = Plain bytes | Huff "bool list" bytes

datatype buffer_view = VReset | VCollect nat partial_text | VComplete bytes

definition view_buffer :: "HpackDecoderStringBuffer \<Rightarrow> buffer_view" where
  "view_buffer sb =
     (case sb_state sb of
        S_RESET \<Rightarrow> VReset
      | S_COMPLETE \<Rightarrow> VComplete (sb_value sb)
      | S_COLLECTING \<Rightarrow> VCollect (sb_remaining_len sb)
          (if sb_is_huffman_encoded sb then Huff (hbits (sb_decoder sb)) (sb_buffer sb)
           else Plain (if sb_backing sb = B_BUFFERED then sb_buffer sb else sb_value sb)))"

definition buffer_ok :: "HpackDecoderStringBuffer \<Rightarrow> bool" where
  "buffer_ok sb \<longleftrightarrow>
     (case sb_state sb of
        S_RESET \<Rightarrow> True
      | S_COMPLETE \<Rightarrow> sb_backing sb = B_BUFFERED \<longrightarrow> sb_value sb = sb_buffer sb
      | S_COLLECTING \<Rightarrow>
          if sb_is_huffman_encoded sb then
            sb_backing sb = B_BUFFERED \<and> bb_ok (sb_decoder sb) \<and> huff_match (hbits (sb_decoder sb)) = None
          else (sb_backing sb = B_RESET \<longrightarrow> sb_value sb = []) \<and>
            (sb_backing sb \<in> {B_UNBUFFERED, B_STATIC} \<longrightarrow> sb_remaining_len sb = 0))"

definition view_OnStart :: "bool \<Rightarrow> nat \<Rightarrow> buffer_view" where
  "view_OnStart h n = VCollect n (if h then Huff [] [] else Plain [])"

fun view_OnData :: "bytes \<Rightarrow> buffer_view \<Rightarrow> bool \<times> buffer_view" where
  "view_OnData xs (VCollect n (Plain c)) = (True, VCollect (n - length xs) (Plain (c @ xs)))"
| "view_OnData xs (VCollect n (Huff bs c)) =
     (if xs = [] then (True, VCollect n (Huff bs c))
      else case huff_run (bs @ bytes_bits xs) c of
        (ok, r, c') \<Rightarrow> (ok, VCollect (n - length xs) (Huff r c')))"
| "view_OnData xs v = (True, v)"

fun view_OnEnd :: "buffer_view \<Rightarrow> bool \<times> buffer_view" where
  "view_OnEnd (VCollect n (Plain c)) = (True, VComplete c)"
| "view_OnEnd (VCollect n (Huff bs c)) =
     (if length bs < 8 \<and> set bs \<subseteq> {True} then (True, VComplete c) else (False, VCollect n (Huff bs c)))"
| "view_OnEnd v = (True, v)"

fun remaining :: "buffer_view \<Rightarrow> nat option" where
  "remaining (VCollect n c) = Some n"
| "remaining v = None"

lemma view_OnData_Nil [simp]: "view_OnData [] v = (True, v)"
  by (cases "([] :: bytes, v)" rule: view_OnData.cases) auto

lemma view_OnData_append:
  "view_OnData xs v = (True, v') \<Longrightarrow> view_OnData ys v' = view_OnData (xs @ ys) v"
proof (cases "(xs, v)" rule: view_OnData.cases)
  case (2 zs n bs c)
  assume d: "view_OnData xs v = (True, v')"
  show ?thesis
  proof (cases "xs = [] \<or> ys = []")
    case False
    then obtain r c' where r: "huff_run (bs @ bytes_bits xs) c = (True, r, c')"
      "v' = VCollect (n - length xs) (Huff r c')"
      using d 2 by (auto split: prod.splits)
    from huff_run_append[OF r(1), of "bytes_bits ys"] show ?thesis
      using False 2 r(2) by (simp split: prod.split)
  qed (use d in auto)
qed auto

lemma view_OnData_fail:
  "view_OnData xs v = (False, v') \<Longrightarrow> fst (view_OnData (xs @ ys) v) = False"
proof (cases "(xs, v)" rule: view_OnData.cases)
  case (2 zs n bs c)
  assume d: "view_OnData xs v = (False, v')"
  then obtain r c' where r: "huff_run (bs @ bytes_bits xs) c = (False, r, c')" "xs \<noteq> []"
    using 2 by (auto split: prod.splits if_splits)
  from huff_run_append[OF r(1), of "bytes_bits ys"] show ?thesis using 2 r(2) by simp
qed auto

section \<open>The operations on views\<close>

lemma view_Reset [simp]: "view_buffer (StringBuffer_Reset sb) = VReset" "buffer_ok (StringBuffer_Reset sb)"
  by (simp_all add: string_buffer_defs view_buffer_def buffer_ok_def)

lemma view_init [simp]: "view_buffer StringBuffer_init = VReset" "buffer_ok StringBuffer_init"
  by (simp_all add: string_buffer_defs view_buffer_def buffer_ok_def)

lemma OnStart_view:
  "view_buffer (StringBuffer_OnStart h n sb) = view_OnStart h n" "buffer_ok (StringBuffer_OnStart h n sb)"
  by (simp_all add: string_buffer_defs view_buffer_def buffer_ok_def view_OnStart_def Reset_bits huff_match_Nil)

lemma OnData_view:
  assumes ok: "buffer_ok sb" and v: "view_buffer sb = VCollect n c" and len: "length xs \<le> n"
    and d: "StringBuffer_OnData xs sb = (b, sb')" and e: "view_OnData xs (view_buffer sb) = (b', v')"
  shows "b = b'" "b \<Longrightarrow> buffer_ok sb' \<and> view_buffer sb' = v'" "b \<Longrightarrow> remaining v' = Some (n - length xs)"
proof -
  have st: "sb_state sb = S_COLLECTING" "sb_remaining_len sb = n"
    using v by (auto simp: view_buffer_def split: StringState.splits)
  have "b = b' \<and> (b \<longrightarrow> buffer_ok sb' \<and> view_buffer sb' = v' \<and> remaining v' = Some (n - length xs))"
  proof (cases "sb_is_huffman_encoded sb")
    case True
    then have bb: "bb_ok (sb_decoder sb)" "huff_match (hbits (sb_decoder sb)) = None" "sb_backing sb = B_BUFFERED"
      using ok st by (auto simp: buffer_ok_def)
    obtain ok' dec buf where h: "HuffmanDecoder_Decode (sb_decoder sb) xs (sb_buffer sb) = (ok', dec, buf)"
      by (metis prod.exhaust)
    obtain r where r: "bb_ok dec" "huff_run (hbits (sb_decoder sb) @ bytes_bits xs) (sb_buffer sb) = (ok', r, buf)"
      "ok' \<longrightarrow> r = hbits dec"
      using Decode_decodes[OF bb(1), of xs "sb_buffer sb"] by (auto simp: h decodes_def)
    have m: "ok' \<Longrightarrow> huff_match (hbits dec) = None" using huff_run_sound[OF r(2)] r(3) by auto
    have nil: "xs = [] \<Longrightarrow> ok' \<and> r = hbits (sb_decoder sb) \<and> buf = sb_buffer sb"
      using r(2) bb(2) by (auto simp: huff_run.simps[of "hbits (sb_decoder sb)"])
    show ?thesis using True d e st bb r(1,3) m nil r(2)
      by (auto simp: StringBuffer_OnData_def h view_buffer_def buffer_ok_def split: if_splits)
  next
    case False
    then show ?thesis using d e st ok len
      by (cases "sb_backing sb")
        (auto simp: StringBuffer_OnData_def view_buffer_def buffer_ok_def Let_def split: if_splits)
  qed
  then show "b = b'" "b \<Longrightarrow> buffer_ok sb' \<and> view_buffer sb' = v'" "b \<Longrightarrow> remaining v' = Some (n - length xs)" by auto
qed

lemma OnEnd_view:
  assumes ok: "buffer_ok sb" and v: "view_buffer sb = VCollect n c"
    and d: "StringBuffer_OnEnd sb = (b, sb')" and e: "view_OnEnd (view_buffer sb) = (b', v')"
  shows "b = b'" "b \<Longrightarrow> buffer_ok sb' \<and> view_buffer sb' = v'"
proof -
  have st: "sb_state sb = S_COLLECTING" using v by (auto simp: view_buffer_def split: StringState.splits)
  show "b = b'" "b \<Longrightarrow> buffer_ok sb' \<and> view_buffer sb' = v'"
    using assms st
    by (auto simp: StringBuffer_OnEnd_def view_buffer_def buffer_ok_def terminated_bits split: if_splits)
qed

lemma BufferString_view:
  "buffer_ok sb \<Longrightarrow> view_buffer (BufferStringIfUnbuffered sb) = view_buffer sb"
  "buffer_ok sb \<Longrightarrow> buffer_ok (BufferStringIfUnbuffered sb)"
  by (auto simp: BufferStringIfUnbuffered_def view_buffer_def buffer_ok_def Let_def split: StringState.split)

lemma BufferString_backing:
  "sb_state (BufferStringIfUnbuffered sb) \<noteq> S_RESET \<Longrightarrow> sb_backing (BufferStringIfUnbuffered sb) \<noteq> B_UNBUFFERED"
  by (auto simp: BufferStringIfUnbuffered_def Let_def split: if_splits)

section \<open>Space for the decoded text\<close>

text \<open>The shortest codes have five bits, so a text has at most eight fifths of its encoded length.\<close>

lemma huff_bits_length: "5 * length s \<le> length (huff_bits s)"
proof (induction s)
  case (Cons b s)
  have "unat b < 256" using unsigned_less[of b, where 'a = nat] by simp
  then have "5 \<le> length (huff_code (unat b))" using length_huff_code[of "unat b"] by simp
  then show ?case using Cons.IH by simp
qed simp

fun string_feed :: "HpackDecoderStringBuffer \<Rightarrow> bytes list \<Rightarrow> bool \<times> HpackDecoderStringBuffer" where
  "string_feed sb [] = (True, sb)"
| "string_feed sb (c # cs) =
     (case StringBuffer_OnData c sb of (ok, sb) \<Rightarrow> if ok then string_feed sb cs else (False, sb))"

lemma string_feed_view:
  assumes "buffer_ok sb" "remaining (view_buffer sb) = Some n" "length (concat css) \<le> n"
    and "string_feed sb css = (True, sb')"
  shows "buffer_ok sb' \<and> view_OnData (concat css) (view_buffer sb) = (True, view_buffer sb') \<and>
    remaining (view_buffer sb') = Some (n - length (concat css))"
  using assms
proof (induction css arbitrary: sb n)
  case (Cons c css)
  obtain ok sb1 where d: "StringBuffer_OnData c sb = (ok, sb1)" by fastforce
  obtain ok' v where v: "view_OnData c (view_buffer sb) = (ok', v)" by fastforce
  obtain p where p: "view_buffer sb = VCollect n p" using Cons.prems(2) by (cases "view_buffer sb") auto
  have len: "length c \<le> n" "length (concat css) \<le> n - length c" using Cons.prems(3) by auto
  have ok: "ok" "string_feed sb1 css = (True, sb')" using Cons.prems(4) d by (auto split: if_splits)
  note D = OnData_view[OF Cons.prems(1) p len(1) d v]
  have e: "ok'" "buffer_ok sb1" "view_buffer sb1 = v" "remaining v = Some (n - length c)" using D ok by auto
  from Cons.IH[OF e(2) _ len(2) ok(2)] e
  have "buffer_ok sb' \<and> view_OnData (concat css) v = (True, view_buffer sb') \<and>
    remaining (view_buffer sb') = Some (n - length c - length (concat css))" by auto
  then show ?case using view_OnData_append[of c "view_buffer sb" v "concat css"] v e(1) by simp
qed auto

lemma OnData_capacity:
  assumes "buffer_ok sb" "view_buffer sb = VCollect n (Huff r c)" "StringBuffer_OnData xs sb = (ok, sb')"
  shows "sb_capacity sb' = max (sb_capacity sb) (length (sb_buffer sb'))" "length (sb_buffer sb) \<le> length (sb_buffer sb')"
proof -
  have h: "sb_is_huffman_encoded sb" "bb_ok (sb_decoder sb)"
    using assms(1,2) by (auto simp: view_buffer_def buffer_ok_def split: StringState.splits if_splits)
  obtain ok' dec buf where d: "HuffmanDecoder_Decode (sb_decoder sb) xs (sb_buffer sb) = (ok', dec, buf)" by (metis prod.exhaust)
  obtain q where "huff_run (hbits (sb_decoder sb) @ bytes_bits xs) (sb_buffer sb) = (ok', q, buf)"
    using Decode_decodes[OF h(2), of xs "sb_buffer sb"] by (auto simp: d decodes_def)
  then obtain s where "buf = sb_buffer sb @ s" using huff_run_sound by blast
  then show "sb_capacity sb' = max (sb_capacity sb) (length (sb_buffer sb'))" "length (sb_buffer sb) \<le> length (sb_buffer sb')"
    using assms(3) h(1) by (auto simp: StringBuffer_OnData_def d)
qed

lemma view_OnData_Huff: "view_OnData xs (VCollect n (Huff r c)) = (ok, v) \<Longrightarrow> \<exists>m r' c'. v = VCollect m (Huff r' c')"
  by (auto split: if_splits prod.splits)

lemma feed_capacity:
  assumes "buffer_ok sb" "view_buffer sb = VCollect n (Huff r c)" "length (concat css) \<le> n" "string_feed sb css = (True, sb')"
  shows "sb_capacity sb \<le> sb_capacity sb' \<and> sb_capacity sb' \<le> max (sb_capacity sb) (length (sb_buffer sb')) \<and>
    length (sb_buffer sb) \<le> length (sb_buffer sb')"
  using assms
proof (induction css arbitrary: sb n r c)
  case (Cons x css)
  obtain ok sb1 where d: "StringBuffer_OnData x sb = (ok, sb1)" by fastforce
  obtain ok' v where v: "view_OnData x (view_buffer sb) = (ok', v)" by fastforce
  have len: "length x \<le> n" "length (concat css) \<le> n - length x" using Cons.prems(3) by auto
  have f: "ok" "string_feed sb1 css = (True, sb')" using Cons.prems(4) d by (auto split: if_splits)
  note D = OnData_view[OF Cons.prems(1,2) len(1) d v]
  obtain m r' c' where "v = VCollect m (Huff r' c')" using view_OnData_Huff v unfolding Cons.prems(2) by blast
  then have w: "buffer_ok sb1" "view_buffer sb1 = VCollect (n - length x) (Huff r' c')" using D(2,3) f(1) by auto
  from Cons.IH[OF w len(2) f(2)] OnData_capacity[OF Cons.prems(1,2) d] show ?case by auto
qed auto

text \<open>
  C30: The space that \<open>OnStart\<close> reserves for a Huffman encoded string is enough: as long as no more
  bytes arrive than were announced, whatever they are and however they are cut, the decoded text stays
  within the capacity that \<open>OnStart\<close> has left, so that \<open>buffer_\<close> is not reallocated; and it is at most
  \<open>len * 8 / 5\<close> bytes long.
\<close>

theorem huffman_reserve_enough:
  assumes "string_feed (StringBuffer_OnStart True len sb) css = (True, sb')" "length (concat css) \<le> len"
  shows "BufferedLength sb' \<le> sb_capacity (StringBuffer_OnStart True len sb) \<and>
    sb_capacity sb' = sb_capacity (StringBuffer_OnStart True len sb) \<and> BufferedLength sb' \<le> len * 8 div 5"
proof -
  let ?sb = "StringBuffer_OnStart True len sb"
  define xs where "xs = concat css"
  have v0: "view_buffer ?sb = VCollect len (Huff [] [])" by (simp add: OnStart_view view_OnStart_def)
  have f: "buffer_ok sb'" "view_OnData xs (VCollect len (Huff [] [])) = (True, view_buffer sb')"
    using string_feed_view[OF OnStart_view(2) _ assms(2,1)] v0 by (auto simp: xs_def simp del: view_OnData.simps)
  have "\<exists>r c. view_buffer sb' = VCollect (len - length xs) (Huff r c) \<and> bytes_bits xs = huff_bits c @ r"
  proof (cases "xs = []")
    case False
    obtain ok r c where h: "huff_run (bytes_bits xs) [] = (ok, r, c)" by (metis prod.exhaust)
    then have "view_buffer sb' = VCollect (len - length xs) (Huff r c)" using f(2) False by simp
    moreover obtain s where "c = [] @ s" "bytes_bits xs = huff_bits s @ r" using huff_run_sound[OF h] by blast
    ultimately show ?thesis by auto
  next
    case True
    then show ?thesis using f(2) by (intro exI[of _ "[]"]) auto
  qed
  then obtain r c where c: "view_buffer sb' = VCollect (len - length xs) (Huff r c)" "bytes_bits xs = huff_bits c @ r"
    by blast
  have b: "sb_buffer sb' = c" using c(1) by (auto simp: view_buffer_def split: StringState.splits if_splits)
  have "length (huff_bits c) \<le> 8 * length xs"
    using arg_cong[OF c(2), of length] unfolding length_bytes_bits length_append by linarith
  then have "5 * length c \<le> 8 * len" using huff_bits_length[of c] assms(2) unfolding xs_def by linarith
  then have l: "length c \<le> len * 8 div 5" by presburger
  have "sb_capacity ?sb \<le> sb_capacity sb' \<and> sb_capacity sb' \<le> max (sb_capacity ?sb) (length c)"
    using feed_capacity[OF OnStart_view(2) v0 assms(2,1)] by (simp add: b)
  moreover have "len * 8 div 5 \<le> sb_capacity ?sb" by (simp add: StringBuffer_OnStart_def Let_def)
  ultimately show ?thesis using l by (auto simp: BufferedLength_def b)
qed

text \<open>Two bytes, cut in two, that decode to the three characters \<open>302\<close>.\<close>

theorem huffman_reserve_enough_witness:
  "\<exists>sb'. string_feed (StringBuffer_OnStart True 2 StringBuffer_init) [[0x64], [0x02]] = (True, sb') \<and>
     BufferedLength sb' = 3 \<and> BufferedLength sb' \<le> sb_capacity (StringBuffer_OnStart True 2 StringBuffer_init) \<and> sb_capacity sb' = 3"
proof -
  have "\<exists>sb'. string_feed (StringBuffer_OnStart True 2 StringBuffer_init) [[0x64], [0x02]] = (True, sb') \<and>
     BufferedLength sb' = 3"
    by (simp add: string_buffer_defs huff_eval)
  then obtain sb' where "string_feed (StringBuffer_OnStart True 2 StringBuffer_init) [[0x64], [0x02]] = (True, sb')"
    "BufferedLength sb' = 3" by blast
  then show ?thesis using huffman_reserve_enough[of 2 StringBuffer_init "[[0x64], [0x02]]" sb']
    by (auto simp: StringBuffer_OnStart_def StringBuffer_init_def buffer_reserve_def set_buffer_def Let_def)
qed

end
