(* ===== verification/Hpack_String_Decoder.thy ===== *)
theory Hpack_String_Decoder
  imports Hpack_Varint
begin

text \<open>
  \<^verbatim>\<open>http2/hpack/decoder/hpack_string_decoder.h\<close>: the resumable decoder of one HPACK string, which
  reports what it reads to a listener. The template parameter \<open>Listener\<close> is a record of the three
  callbacks as functions on a listener state.
\<close>

record 'l string_listener =
  sl_OnStringStart :: "bool \<Rightarrow> nat \<Rightarrow> 'l \<Rightarrow> 'l"
  sl_OnStringData :: "bytes \<Rightarrow> 'l \<Rightarrow> 'l"
  sl_OnStringEnd :: "'l \<Rightarrow> 'l"

datatype StringDecoderState = kStartDecodingLength | kDecodingString | kResumeDecodingLength

record HpackStringDecoder =
  hs_length_decoder :: HpackVarintDecoder
  hs_remaining :: nat
  hs_state :: StringDecoderState
  hs_huffman_encoded :: bool

definition HpackStringDecoder_init :: HpackStringDecoder where
  "HpackStringDecoder_init =
     \<lparr>hs_length_decoder = \<lparr>vd_value = 0, vd_offset = 0\<rparr>, hs_remaining = 0,
      hs_state = kStartDecodingLength, hs_huffman_encoded = False\<rparr>"

definition OnStringStart ::
  "'l string_listener \<Rightarrow> HpackStringDecoder \<Rightarrow> 'l \<Rightarrow> HpackStringDecoder \<times> 'l" where
  "OnStringStart cb s l =
     (let s = s\<lparr>hs_remaining := unat (vd_value (hs_length_decoder s))\<rparr>
      in (s, sl_OnStringStart cb (hs_huffman_encoded s) (hs_remaining s) l))"

definition StartDecodingLength ::
  "'l string_listener \<Rightarrow> HpackStringDecoder \<Rightarrow> 'l \<Rightarrow> DecodeBuffer \<Rightarrow>
   bool \<times> DecodeStatus \<times> HpackStringDecoder \<times> 'l \<times> DecodeBuffer" where
  "StartDecodingLength cb s l db =
     (if Empty db then (False, kDecodeInProgress, s\<lparr>hs_state := kStartDecodingLength\<rparr>, l, db)
      else
        let (h_and_prefix, db) = DecodeUInt8 db;
            s = s\<lparr>hs_huffman_encoded := (h_and_prefix AND 0x80 = 0x80)\<rparr>;
            (status, ld, db) = VarintDecoder_Start (hs_length_decoder s) h_and_prefix 0x7f db;
            s = s\<lparr>hs_length_decoder := ld\<rparr>
        in if status = kDecodeDone then
             let (s, l) = OnStringStart cb s l in (True, status, s, l, db)
           else (False, status, s\<lparr>hs_state := kResumeDecodingLength\<rparr>, l, db))"

definition ResumeDecodingLength ::
  "'l string_listener \<Rightarrow> HpackStringDecoder \<Rightarrow> 'l \<Rightarrow> DecodeBuffer \<Rightarrow>
   bool \<times> DecodeStatus \<times> HpackStringDecoder \<times> 'l \<times> DecodeBuffer" where
  "ResumeDecodingLength cb s l db =
     (let (status, ld, db) = VarintDecoder_Resume (hs_length_decoder s) db;
          s = s\<lparr>hs_length_decoder := ld\<rparr>
      in if status = kDecodeDone then
           let (s, l) = OnStringStart cb (s\<lparr>hs_state := kDecodingString\<rparr>) l in (True, status, s, l, db)
         else (False, status, s, l, db))"

definition DecodeString ::
  "'l string_listener \<Rightarrow> HpackStringDecoder \<Rightarrow> 'l \<Rightarrow> DecodeBuffer \<Rightarrow>
   DecodeStatus \<times> (HpackStringDecoder \<times> 'l) \<times> DecodeBuffer" where
  "DecodeString cb s l db =
     (let len = min (hs_remaining s) (Remaining db);
          (s, l, db) =
            (if len > 0 then
               (s\<lparr>hs_remaining := hs_remaining s - len\<rparr>, sl_OnStringData cb (cursor_bytes db len) l,
                AdvanceCursor db len)
             else (s, l, db))
      in if hs_remaining s = 0 then (kDecodeDone, (s, sl_OnStringEnd cb l), db)
         else (kDecodeInProgress, (s\<lparr>hs_state := kDecodingString\<rparr>, l), db))"

lemma ResumeDecodingLength_state:
  "ResumeDecodingLength cb s l db = (True, st, s', l', db') \<Longrightarrow> hs_state s' = kDecodingString"
  by (auto simp: ResumeDecodingLength_def OnStringStart_def Let_def split: prod.splits if_splits)

function StringDecoder_Resume ::
  "'l string_listener \<Rightarrow> HpackStringDecoder \<Rightarrow> 'l \<Rightarrow> DecodeBuffer \<Rightarrow>
   DecodeStatus \<times> (HpackStringDecoder \<times> 'l) \<times> DecodeBuffer" where
  "StringDecoder_Resume cb s l db =
     (case hs_state s of
        kStartDecodingLength \<Rightarrow>
          (case StartDecodingLength cb s l db of
             (False, status, s, l, db) \<Rightarrow> (status, (s, l), db)
           | (True, status, s, l, db) \<Rightarrow> DecodeString cb s l db)
      | kDecodingString \<Rightarrow> DecodeString cb s l db
      | kResumeDecodingLength \<Rightarrow>
          (case ResumeDecodingLength cb s l db of
             (False, status, s, l, db) \<Rightarrow> (status, (s, l), db)
           | (True, status, s, l, db) \<Rightarrow> StringDecoder_Resume cb s l db))"
  by pat_completeness auto
termination
  by (relation "measure (\<lambda>(cb, s, l, db). if hs_state s = kResumeDecodingLength then 1 else 0)")
    (auto dest: ResumeDecodingLength_state[OF sym])

definition StartOnly ::
  "'l string_listener \<Rightarrow> HpackStringDecoder \<Rightarrow> 'l \<Rightarrow> DecodeBuffer \<Rightarrow>
   DecodeStatus \<times> (HpackStringDecoder \<times> 'l) \<times> DecodeBuffer" where
  "StartOnly cb s l db = StringDecoder_Resume cb (s\<lparr>hs_state := kStartDecodingLength\<rparr>) l db"

definition StartAndDecodeLength ::
  "'l string_listener \<Rightarrow> HpackStringDecoder \<Rightarrow> 'l \<Rightarrow> DecodeBuffer \<Rightarrow>
   DecodeStatus \<times> (HpackStringDecoder \<times> 'l) \<times> DecodeBuffer" where
  "StartAndDecodeLength cb s l db =
     (case StartDecodingLength cb s l db of
        (True, status, s, l, db) \<Rightarrow> DecodeString cb (s\<lparr>hs_state := kDecodingString\<rparr>) l db
      | (False, status, s, l, db) \<Rightarrow> (status, (s, l), db))"

definition StartSpecialCaseShort ::
  "'l string_listener \<Rightarrow> HpackStringDecoder \<Rightarrow> 'l \<Rightarrow> DecodeBuffer \<Rightarrow>
   DecodeStatus \<times> (HpackStringDecoder \<times> 'l) \<times> DecodeBuffer" where
  "StartSpecialCaseShort cb s l db =
     (if HasData db \<and> (db_buffer db ! db_cursor db) AND 0x7f \<noteq> 0x7f then
        let (h_and_prefix, db) = DecodeUInt8 db;
            len = unat (h_and_prefix AND 0x7f);
            huffman_encoded = (h_and_prefix AND 0x80 = 0x80);
            l = sl_OnStringStart cb huffman_encoded len l
        in if len \<le> Remaining db then
             (kDecodeDone, (s, sl_OnStringEnd cb (sl_OnStringData cb (cursor_bytes db len) l)),
              AdvanceCursor db len)
           else
             StringDecoder_Resume cb
               (s\<lparr>hs_huffman_encoded := huffman_encoded, hs_remaining := len, hs_state := kDecodingString\<rparr>) l db
      else StringDecoder_Resume cb (s\<lparr>hs_state := kStartDecodingLength\<rparr>) l db)"

definition StringDecoder_Start ::
  "'l string_listener \<Rightarrow> HpackStringDecoder \<Rightarrow> 'l \<Rightarrow> DecodeBuffer \<Rightarrow>
   DecodeStatus \<times> (HpackStringDecoder \<times> 'l) \<times> DecodeBuffer" where
  "StringDecoder_Start cb s l db = StartSpecialCaseShort cb s l db"

declare StringDecoder_Resume.simps [simp del]

section \<open>The cursor only moves forward\<close>

lemma DecodeString_advances: "DecodeString cb s l db = (st, sl, db') \<Longrightarrow> advances db db'"
  by (auto simp: DecodeString_def Let_def split: if_splits)

lemma StartDecodingLength_advances: "StartDecodingLength cb s l db = (b, st, s', l', db') \<Longrightarrow> advances db db'"
  by (auto simp: StartDecodingLength_def Let_def dest!: DecodeUInt8_advance VarintDecoder_Start_advances
      intro: advances_trans split: if_splits prod.splits)

lemma ResumeDecodingLength_advances: "ResumeDecodingLength cb s l db = (b, st, s', l', db') \<Longrightarrow> advances db db'"
  by (auto simp: ResumeDecodingLength_def Let_def dest!: VarintDecoder_Resume_advances split: if_splits prod.splits)

lemma StringDecoder_Resume_advances: "StringDecoder_Resume cb s l db = (st, sl, db') \<Longrightarrow> advances db db'"
proof (induction cb s l db rule: StringDecoder_Resume.induct)
  case (1 cb s l db)
  from 1(2) show ?case
    by (subst (asm) StringDecoder_Resume.simps)
      (auto dest!: DecodeString_advances StartDecodingLength_advances 1(1)
        dest: ResumeDecodingLength_advances intro: advances_trans
        split: StringDecoderState.splits prod.splits bool.splits)
qed

lemma StringDecoder_Start_advances: "StringDecoder_Start cb s l db = (st, sl, db') \<Longrightarrow> advances db db'"
  by (auto simp: StringDecoder_Start_def StartSpecialCaseShort_def Let_def
      dest!: StringDecoder_Resume_advances DecodeUInt8_advance intro: advances_trans
      split: if_splits prod.splits)

section \<open>Specification\<close>

text \<open>
  What a string decoder promises, on the unread bytes: read the length, then pass on that many
  bytes. Between buffers only the \<open>string_view\<close> of its members matters; once it is done, none
  of them does.
\<close>

datatype string_view = AtLength | InLength bool HpackVarintDecoder | InString nat

definition view_string :: "HpackStringDecoder \<Rightarrow> string_view" where
  "view_string s =
     (case hs_state s of
        kStartDecodingLength \<Rightarrow> AtLength
      | kResumeDecodingLength \<Rightarrow> InLength (hs_huffman_encoded s) (hs_length_decoder s)
      | kDecodingString \<Rightarrow> InString (hs_remaining s))"

definition string_body :: "'l string_listener \<Rightarrow> nat \<Rightarrow> 'l \<Rightarrow> bytes \<Rightarrow>
    DecodeStatus \<times> (string_view \<times> 'l) \<times> bytes" where
  "string_body cb n l xs =
     (if n \<le> length xs then
        (kDecodeDone, (AtLength, sl_OnStringEnd cb (sl_OnStringData cb (take n xs) l)), drop n xs)
      else (kDecodeInProgress, (InString (n - length xs), sl_OnStringData cb xs l), []))"

definition string_start_body :: "'l string_listener \<Rightarrow> bool \<Rightarrow> nat \<Rightarrow> 'l \<Rightarrow> bytes \<Rightarrow>
    DecodeStatus \<times> (string_view \<times> 'l) \<times> bytes" where
  "string_start_body cb h n l xs = string_body cb n (sl_OnStringStart cb h n l) xs"

fun string_spec :: "'l string_listener \<Rightarrow> string_view \<Rightarrow> 'l \<Rightarrow> bytes \<Rightarrow>
    DecodeStatus \<times> (string_view \<times> 'l) \<times> bytes" where
  "string_spec cb AtLength l [] = (kDecodeInProgress, (AtLength, l), [])"
| "string_spec cb AtLength l (b # bs) =
     (if b AND 0x7f \<noteq> 0x7f then string_start_body cb (b AND 0x80 = 0x80) (unat (b AND 0x7f)) l bs
      else string_spec cb (InLength (b AND 0x80 = 0x80) \<lparr>vd_value = 0x7f, vd_offset = 0\<rparr>) l bs)"
| "string_spec cb (InLength h v) l xs =
     (case varint_ext v xs of
        (kDecodeDone, t, n) \<Rightarrow> string_start_body cb h (unat (vd_value t)) l (drop n xs)
      | (kDecodeInProgress, t, n) \<Rightarrow> (kDecodeInProgress, (InLength h t, l), [])
      | (kDecodeError, t, n) \<Rightarrow> (kDecodeError, (AtLength, l), drop n xs))"
| "string_spec cb (InString n) l xs = string_body cb n l xs"

fun view_string_res :: "('l \<Rightarrow> 'a) \<Rightarrow> DecodeStatus \<times> (HpackStringDecoder \<times> 'l) \<times> DecodeBuffer \<Rightarrow>
    DecodeStatus \<times> (string_view \<times> 'a) \<times> bytes" where
  "view_string_res al (st, (s, l), db) =
     (st, (if st = kDecodeInProgress then view_string s else AtLength, al l), rest db)"

text \<open>In which states of the listener a decoder may be resumed, and what holds when it returns.\<close>

fun in_step :: "('l \<Rightarrow> bool) \<Rightarrow> (nat \<Rightarrow> 'l \<Rightarrow> bool) \<Rightarrow> string_view \<Rightarrow> 'l \<Rightarrow> bool" where
  "in_step ready pend (InString n) l \<longleftrightarrow> pend n l"
| "in_step ready pend v l \<longleftrightarrow> ready l"

fun string_post :: "('l \<Rightarrow> bool) \<Rightarrow> (nat \<Rightarrow> 'l \<Rightarrow> bool) \<Rightarrow> ('l \<Rightarrow> bool) \<Rightarrow>
    DecodeStatus \<times> (HpackStringDecoder \<times> 'l) \<times> 'b \<Rightarrow> bool" where
  "string_post ready pend complete (st, (s, l), r) \<longleftrightarrow>
     (case st of kDecodeInProgress \<Rightarrow> in_step ready pend (view_string s) l
      | kDecodeDone \<Rightarrow> complete l
      | kDecodeError \<Rightarrow> ready l)"

lemma DecodeString_whole:
  "hs_remaining s \<le> length (rest db) \<Longrightarrow> DecodeString cb s l db =
     (kDecodeDone,
      (s\<lparr>hs_remaining := 0\<rparr>,
       sl_OnStringEnd cb (if hs_remaining s > 0 then sl_OnStringData cb (take (hs_remaining s) (rest db)) l else l)),
      AdvanceCursor db (hs_remaining s))"
  by (auto simp: DecodeString_def rest_simps Let_def min_absorb1)

lemma DecodeString_part:
  "length (rest db) < hs_remaining s \<Longrightarrow> DecodeString cb s l db =
     (kDecodeInProgress,
      (s\<lparr>hs_remaining := hs_remaining s - length (rest db), hs_state := kDecodingString\<rparr>,
       if rest db \<noteq> [] then sl_OnStringData cb (rest db) l else l),
      AdvanceCursor db (length (rest db)))"
  by (auto simp: DecodeString_def rest_simps Let_def min_absorb2)

lemma prefix_7f: "(ucast ((b :: byte) AND 0x7f) :: u32) < 0x7f \<longleftrightarrow> b AND 0x7f \<noteq> 0x7f"
  using unat_and_7f[of b] by (auto simp: word_less_nat_alt word_unat_eq_iff)

lemma VarintDecoder_Start_7f:
  "VarintDecoder_Start s b 0x7f db =
     (if b AND 0x7f \<noteq> 0x7f then (kDecodeDone, s\<lparr>vd_value := ucast (b AND 0x7f)\<rparr>, db)
      else VarintDecoder_Resume \<lparr>vd_value = 0x7f, vd_offset = 0\<rparr> db)"
proof -
  have "(ucast (0x7f :: byte) :: u32) = 0x7f" by simp
  then show ?thesis using prefix_7f[of b]
    by (cases s; cases "b AND 0x7f = 0x7f") (simp_all add: VarintDecoder_Start_def)
qed

text \<open>
  The contract between the decoder and its listener: the callbacks act on what matters of the
  listener's state (\<open>al\<close>) the way an abstract listener does, for which a data callback with no data
  is a no-op; \<open>ready\<close> and \<open>pend n\<close> say in which states the decoder makes a callback.
\<close>

locale string_client =
  fixes cb :: "'l string_listener"
    and acb :: "'a string_listener"
    and al :: "'l \<Rightarrow> 'a"
    and ready :: "'l \<Rightarrow> bool"
    and pend :: "nat \<Rightarrow> 'l \<Rightarrow> bool"
    and complete :: "'l \<Rightarrow> bool"
  assumes start: "ready l \<Longrightarrow> al (sl_OnStringStart cb h n l) = sl_OnStringStart acb h n (al l)"
    and start_pend: "ready l \<Longrightarrow> pend n (sl_OnStringStart cb h n l)"
    and data: "pend n l \<Longrightarrow> length xs \<le> n \<Longrightarrow> al (sl_OnStringData cb xs l) = sl_OnStringData acb xs (al l)"
    and data_pend: "pend n l \<Longrightarrow> length xs \<le> n \<Longrightarrow> pend (n - length xs) (sl_OnStringData cb xs l)"
    and fin: "pend 0 l \<Longrightarrow> al (sl_OnStringEnd cb l) = sl_OnStringEnd acb (al l)"
    and fin_complete: "pend 0 l \<Longrightarrow> complete (sl_OnStringEnd cb l)"
    and data_nil: "sl_OnStringData acb [] a = a"
begin

lemma DecodeString_refines:
  assumes "pend (hs_remaining s) l"
  shows "view_string_res al (DecodeString cb s l db) = string_body acb (hs_remaining s) (al l) (rest db)
    \<and> string_post ready pend complete (DecodeString cb s l db)"
proof (cases "hs_remaining s \<le> length (rest db)")
  case True
  then have len: "length (take (hs_remaining s) (rest db)) = hs_remaining s" by simp
  with True assms show ?thesis
    using data[OF assms, of "take (hs_remaining s) (rest db)"] data_pend[OF assms, of "take (hs_remaining s) (rest db)"]
    by (auto simp: DecodeString_whole string_body_def rest_simps fin fin_complete data_nil simp del: length_take)
next
  case False
  with assms show ?thesis
    using data[OF assms, of "rest db"] data_pend[OF assms, of "rest db"]
    by (auto simp: DecodeString_part string_body_def rest_simps data_nil view_string_def)
qed

lemma StartBody_refines:
  assumes "ready l" "hs_remaining s = n"
  shows "view_string_res al (DecodeString cb s (sl_OnStringStart cb h n l) db)
      = string_start_body acb h n (al l) (rest db)
    \<and> string_post ready pend complete (DecodeString cb s (sl_OnStringStart cb h n l) db)"
  using DecodeString_refines[of s "sl_OnStringStart cb h n l" db] assms
  by (simp add: start start_pend string_start_body_def)

lemma ResumeLength_refines:
  assumes "ready l" "hs_state s = kResumeDecodingLength"
  shows "view_string_res al (StringDecoder_Resume cb s l db) = string_spec acb (view_string s) (al l) (rest db)
    \<and> string_post ready pend complete (StringDecoder_Resume cb s l db)"
proof -
  obtain st t n where v: "varint_ext (hs_length_decoder s) (rest db) = (st, t, n)"
    by (cases "varint_ext (hs_length_decoder s) (rest db)") auto
  note ld = v VarintDecoder_Resume_at[of "hs_length_decoder s" db] varint_ext_pause[of "hs_length_decoder s" "rest db" t n]
  show ?thesis
  proof (cases st)
    case kDecodeDone
    let ?n = "unat (vd_value t)" and ?h = "hs_huffman_encoded s"
    let ?s = "s\<lparr>hs_length_decoder := t, hs_state := kDecodingString, hs_remaining := ?n\<rparr>"
    have "StringDecoder_Resume cb s l db =
        StringDecoder_Resume cb ?s (sl_OnStringStart cb ?h ?n l) (AdvanceCursor db n)"
      using assms(2) ld kDecodeDone
      by (simp add: StringDecoder_Resume.simps[of cb s] ResumeDecodingLength_def OnStringStart_def)
    then have "StringDecoder_Resume cb s l db =
        DecodeString cb ?s (sl_OnStringStart cb ?h ?n l) (AdvanceCursor db n)"
      by (simp add: StringDecoder_Resume.simps[of cb ?s])
    then show ?thesis
      using StartBody_refines[OF assms(1), of ?s ?n ?h "AdvanceCursor db n"] assms(2) ld kDecodeDone
      by (simp add: view_string_def rest_simps)
  next
    case kDecodeInProgress
    then show ?thesis using assms ld
      by (simp add: StringDecoder_Resume.simps[of cb s] ResumeDecodingLength_def view_string_def rest_simps)
  next
    case kDecodeError
    then show ?thesis using assms ld
      by (simp add: StringDecoder_Resume.simps[of cb s] ResumeDecodingLength_def view_string_def rest_simps)
  qed
qed

lemma StartDecodingLength_short:
  "rest db = b # bs \<Longrightarrow> b AND 0x7f \<noteq> 0x7f \<Longrightarrow> n = unat (b AND 0x7f) \<Longrightarrow>
   \<exists>s'. StartDecodingLength cb s l db =
     (True, kDecodeDone, s', sl_OnStringStart cb (b AND 0x80 = 0x80) n l, AdvanceCursor db 1) \<and> hs_remaining s' = n"
  by (simp add: StartDecodingLength_def OnStringStart_def VarintDecoder_Start_7f rest_simps)

lemma StartDecodingLength_long:
  assumes "rest db = b # bs" "b AND 0x7f = 0x7f" "ready l"
    "varint_ext \<lparr>vd_value = 0x7f, vd_offset = 0\<rparr> bs = (st, t, n)"
  shows "\<exists>s'. StartDecodingLength cb s l db =
      (if st = kDecodeDone
       then (True, st, s', sl_OnStringStart cb (b AND 0x80 = 0x80) (unat (vd_value t)) l, AdvanceCursor db (Suc n))
       else (False, st, s', l, AdvanceCursor db (Suc n))) \<and>
    (st = kDecodeDone \<longrightarrow> hs_remaining s' = unat (vd_value t)) \<and>
    (st \<noteq> kDecodeDone \<longrightarrow> view_string s' = InLength (b AND 0x80 = 0x80) t)"
  using assms
  by (cases "st = kDecodeDone")
    (simp_all add: StartDecodingLength_def OnStringStart_def VarintDecoder_Start_7f VarintDecoder_Resume_at
      rest_simps view_string_def)

text \<open>All ways to continue after the length lead to the specified outcome.\<close>

lemma StartLength_refines:
  assumes "ready l"
    and body: "\<And>s l db. \<exists>s'. hs_remaining s' = hs_remaining s \<and> f s l db = DecodeString cb s' l db"
  shows "let r = (case StartDecodingLength cb s l db of
        (False, status, s, l, db) \<Rightarrow> (status, (s, l), db)
      | (True, status, s, l, db) \<Rightarrow> f s l db)
    in view_string_res al r = string_spec acb AtLength (al l) (rest db) \<and> string_post ready pend complete r"
proof (cases "rest db")
  case Nil
  then show ?thesis using assms(1) by (simp add: StartDecodingLength_def rest_simps view_string_def)
next
  case (Cons b bs)
  have r1: "rest (AdvanceCursor db (Suc n)) = drop n bs" for n using Cons by (simp add: rest_simps)
  show ?thesis
  proof (cases "b AND 0x7f = 0x7f")
    case False
    obtain s' where s': "StartDecodingLength cb s l db = (True, kDecodeDone, s',
        sl_OnStringStart cb (b AND 0x80 = 0x80) (unat (b AND 0x7f)) l, AdvanceCursor db 1)"
      "hs_remaining s' = unat (b AND 0x7f)"
      using StartDecodingLength_short[OF Cons False refl] by blast
    obtain s2 where s2: "hs_remaining s2 = hs_remaining s'" "f s' (sl_OnStringStart cb (b AND 0x80 = 0x80)
        (unat (b AND 0x7f)) l) (AdvanceCursor db 1) = DecodeString cb s2 (sl_OnStringStart cb (b AND 0x80 = 0x80)
        (unat (b AND 0x7f)) l) (AdvanceCursor db 1)"
      using body by blast
    show ?thesis
      using StartBody_refines[OF assms(1), of s2 "unat (b AND 0x7f)" "b AND 0x80 = 0x80" "AdvanceCursor db 1"]
        s' s2 False r1[of 0] by (simp add: Cons)
  next
    case True
    obtain st t n where v: "varint_ext \<lparr>vd_value = 0x7f, vd_offset = 0\<rparr> bs = (st, t, n)"
      by (cases "varint_ext \<lparr>vd_value = 0x7f, vd_offset = 0\<rparr> bs") auto
    let ?l = "sl_OnStringStart cb (b AND 0x80 = 0x80) (unat (vd_value t)) l"
    obtain s' where s': "StartDecodingLength cb s l db =
        (if st = kDecodeDone then (True, st, s', ?l, AdvanceCursor db (Suc n)) else (False, st, s', l, AdvanceCursor db (Suc n)))"
      "st = kDecodeDone \<longrightarrow> hs_remaining s' = unat (vd_value t)"
      "st \<noteq> kDecodeDone \<longrightarrow> view_string s' = InLength (b AND 0x80 = 0x80) t"
      using StartDecodingLength_long[OF Cons True assms(1) v] by blast
    obtain s2 where s2: "hs_remaining s2 = hs_remaining s'"
      "f s' ?l (AdvanceCursor db (Suc n)) = DecodeString cb s2 ?l (AdvanceCursor db (Suc n))"
      using body by blast
    show ?thesis
      using StartBody_refines[OF assms(1), of s2 "unat (vd_value t)" "b AND 0x80 = 0x80" "AdvanceCursor db (Suc n)"]
        s' s2 True r1 v varint_ext_pause[of _ bs t n] assms(1)
      by (cases st) (auto simp: Cons)
  qed
qed

theorem Resume_refines:
  assumes "in_step ready pend (view_string s) l"
  shows "view_string_res al (StringDecoder_Resume cb s l db) = string_spec acb (view_string s) (al l) (rest db)
    \<and> string_post ready pend complete (StringDecoder_Resume cb s l db)"
proof (cases "hs_state s")
  case kStartDecodingLength
  then show ?thesis
    using StartLength_refines[of l "DecodeString cb" s db] assms
    by (auto simp: view_string_def StringDecoder_Resume.simps[of cb s] Let_def)
next
  case kDecodingString
  then show ?thesis using DecodeString_refines[of s l db] assms
    by (simp add: StringDecoder_Resume.simps[of cb s] view_string_def)
next
  case kResumeDecodingLength
  then show ?thesis using ResumeLength_refines[of l s db] assms by (simp add: view_string_def)
qed

theorem Start_refines:
  assumes "ready l"
  shows "view_string_res al (StringDecoder_Start cb s l db) = string_spec acb AtLength (al l) (rest db)
    \<and> string_post ready pend complete (StringDecoder_Start cb s l db)"
proof -
  have slow: "view_string_res al (StringDecoder_Resume cb (s\<lparr>hs_state := kStartDecodingLength\<rparr>) l db)
      = string_spec acb AtLength (al l) (rest db)
    \<and> string_post ready pend complete (StringDecoder_Resume cb (s\<lparr>hs_state := kStartDecodingLength\<rparr>) l db)"
    using Resume_refines[of "s\<lparr>hs_state := kStartDecodingLength\<rparr>" l db] assms by (simp add: view_string_def)
  show ?thesis
  proof (cases "rest db")
    case Nil
    then show ?thesis using slow by (simp add: StringDecoder_Start_def StartSpecialCaseShort_def HasData_rest)
  next
    case (Cons b bs)
    have nth: "db_buffer db ! db_cursor db = b"
      using Cons by (auto simp: rest_def dest!: drop_eq_Cons_nth)
    show ?thesis
    proof (cases "b AND 0x7f = 0x7f")
      case True
      then show ?thesis using slow by (simp add: StringDecoder_Start_def StartSpecialCaseShort_def nth)
    next
      case False
      let ?n = "unat (b AND 0x7f)" and ?h = "b AND 0x80 = 0x80"
      let ?s = "s\<lparr>hs_huffman_encoded := ?h, hs_remaining := ?n, hs_state := kDecodingString\<rparr>"
      let ?l = "sl_OnStringStart cb ?h ?n l"
      note b = StartBody_refines[OF assms, of ?s ?n ?h "AdvanceCursor db 1"]
      have r1: "rest (AdvanceCursor db (Suc 0)) = bs" using Cons by (simp add: rest_simps)
      show ?thesis
      proof (cases "?n \<le> length bs")
        case True
        have p0: "pend 0 (sl_OnStringData cb (take ?n bs) ?l)"
          using data_pend[OF start_pend[OF assms], of "take ?n bs" ?n ?h] True by (simp add: min_absorb2)
        show ?thesis
          using True False nth Cons r1 p0 data[OF start_pend[OF assms], of "take ?n bs" ?n ?h] start[OF assms]
          by (simp add: StringDecoder_Start_def StartSpecialCaseShort_def Let_def rest_simps string_start_body_def
              string_body_def fin fin_complete)
      next
        case long: False
        then show ?thesis using b False nth Cons r1
          by (simp add: StringDecoder_Start_def StartSpecialCaseShort_def Let_def rest_simps
              StringDecoder_Resume.simps[of cb ?s])
      qed
    qed
  qed
qed

lemma StartAndDecodeLength_refines:
  assumes "ready l"
  shows "view_string_res al (StartAndDecodeLength cb s l db) = string_spec acb AtLength (al l) (rest db)"
proof -
  have e: "StartAndDecodeLength cb s l db = (case StartDecodingLength cb s l db of
        (False, status, s, l, db) \<Rightarrow> (status, (s, l), db)
      | (True, status, s, l, db) \<Rightarrow> DecodeString cb (s\<lparr>hs_state := kDecodingString\<rparr>) l db)"
    by (simp add: StartAndDecodeLength_def split: prod.split bool.split)
  have "\<exists>s'. hs_remaining s' = hs_remaining s \<and>
      DecodeString cb (s\<lparr>hs_state := kDecodingString\<rparr>) l db = DecodeString cb s' l db" for s l db
    by (rule exI[of _ "s\<lparr>hs_state := kDecodingString\<rparr>"]) simp
  from StartLength_refines[OF assms this, of s db] show ?thesis unfolding e Let_def by blast
qed

end

section \<open>Cuts\<close>

text \<open>A listener that does not care how the data is cut.\<close>

locale additive_listener =
  fixes cb :: "'l string_listener"
  assumes data_append: "sl_OnStringData cb ys (sl_OnStringData cb xs l) = sl_OnStringData cb (xs @ ys) l"
    and data_empty: "sl_OnStringData cb [] l = l"
begin

lemma string_body_resume:
  "length xs < n \<Longrightarrow> string_body cb n l (xs @ ys) = string_body cb (n - length xs) (sl_OnStringData cb xs l) ys"
  by (auto simp: string_body_def data_append)

lemma string_body_stop: "n \<le> length xs \<Longrightarrow> string_body cb n l (xs @ ys) =
   (kDecodeDone, (AtLength, sl_OnStringEnd cb (sl_OnStringData cb (take n xs) l)), drop n xs @ ys)"
  by (simp add: string_body_def)

lemma string_spec_pause: "string_spec cb v l xs = (kDecodeInProgress, s', r) \<Longrightarrow> r = []"
  by (cases "(cb, v, l, xs)" rule: string_spec.cases)
    (auto simp: string_start_body_def string_body_def split: if_splits prod.splits DecodeStatus.splits)

lemma string_body_cut:
  "string_body cb n l xs = (st, (v, l'), r) \<Longrightarrow>
   string_body cb n l (xs @ ys) =
     (if st = kDecodeInProgress then string_spec cb v l' ys else (st, (v, l'), r @ ys))"
  by (auto simp: string_body_def data_append split: if_splits)

lemma string_len_cut:
  assumes "string_spec cb (InLength h w) l xs = (st, (v, l'), r)"
  shows "string_spec cb (InLength h w) l (xs @ ys) =
     (if st = kDecodeInProgress then string_spec cb v l' ys else (st, (v, l'), r @ ys))"
proof -
  obtain st1 t n where e: "varint_ext w xs = (st1, t, n)" by (cases "varint_ext w xs") auto
  show ?thesis
  proof (cases "st1 = kDecodeInProgress")
    case True
    then show ?thesis using assms e varint_ext_resume[of w xs t n ys] varint_ext_pause[of w xs t n]
      by (auto split: prod.splits DecodeStatus.splits)
  next
    case False
    note e2 = varint_ext_stop[OF e False, of ys] varint_ext_len[OF e]
    show ?thesis
      using assms e e2 False string_body_cut[of "unat (vd_value t)" "sl_OnStringStart cb h (unat (vd_value t)) l" "drop n xs"]
      by (cases st1) (auto simp: string_start_body_def)
  qed
qed

lemma string_spec_cut:
  "string_spec cb v0 l xs = (st, (v, l'), r) \<Longrightarrow>
   string_spec cb v0 l (xs @ ys) =
     (if st = kDecodeInProgress then string_spec cb v l' ys else (st, (v, l'), r @ ys))"
proof (cases v0)
  case AtLength
  assume a: "string_spec cb v0 l xs = (st, (v, l'), r)"
  show ?thesis
  proof (cases xs)
    case (Cons b bs)
    show ?thesis using a AtLength Cons
        string_body_cut[of "unat (b AND 0x7f)" "sl_OnStringStart cb (b AND 0x80 = 0x80) (unat (b AND 0x7f)) l" bs st v l' r ys]
        string_len_cut[of "b AND 0x80 = 0x80" "\<lparr>vd_value = 0x7f, vd_offset = 0\<rparr>" l bs st v l' r ys]
      by (auto simp: string_start_body_def simp del: string_spec.simps(3) split: if_splits)
  qed (use a AtLength in auto)
qed (auto dest: string_body_cut string_len_cut simp del: string_spec.simps(3))

end

sublocale additive_listener \<subseteq> str: resumable "\<lambda>(v, l). string_spec cb v l" "\<lambda>_. True"
  by unfold_locales (auto dest: string_spec_pause string_spec_cut)

section \<open>The three ways to start\<close>

text \<open>
  C17: The three variants of \<open>Start\<close> in the class are interchangeable for a listener to which an
  empty data callback means nothing: they return the same status, leave the same bytes unread,
  bring the listener to the same state, and when they need more input, are resumed alike.
\<close>

theorem string_start_variants:
  assumes "\<And>l. sl_OnStringData cb [] l = l"
  shows "view_string_res id (StartOnly cb s l db) = view_string_res id (StringDecoder_Start cb s l db) \<and>
    view_string_res id (StartAndDecodeLength cb s l db) = view_string_res id (StringDecoder_Start cb s l db)"
proof -
  have c: "string_client cb cb id (\<lambda>_. True) (\<lambda>_ _. True) (\<lambda>_. True)"
    by unfold_locales (simp_all add: assms)
  show ?thesis
    using string_client.Start_refines[OF c, where l = l and s = s and db = db]
      string_client.StartAndDecodeLength_refines[OF c, where l = l and s = s and db = db]
      string_client.Resume_refines[OF c, where l = l and s = "s\<lparr>hs_state := kStartDecodingLength\<rparr>" and db = db]
    by (simp add: StartOnly_def view_string_def)
qed

text \<open>A listener that records what it is told, as an instance.\<close>

definition text_listener :: "(bool \<times> nat \<times> bytes) string_listener" where
  "text_listener = \<lparr>sl_OnStringStart = (\<lambda>h n _. (h, n, [])), sl_OnStringData = (\<lambda>xs (h, n, t). (h, n, t @ xs)),
     sl_OnStringEnd = (\<lambda>l. l)\<rparr>"

theorem string_start_variants_witness:
  "view_string_res id (StartOnly text_listener HpackStringDecoder_init (False, 0, []) (mkDecodeBuffer [2, 0x61, 0x62, 0x63])) =
     view_string_res id (StringDecoder_Start text_listener HpackStringDecoder_init (False, 0, []) (mkDecodeBuffer [2, 0x61, 0x62, 0x63])) \<and>
   view_string_res id (StartAndDecodeLength text_listener HpackStringDecoder_init (False, 0, []) (mkDecodeBuffer [2, 0x61, 0x62, 0x63])) =
     view_string_res id (StringDecoder_Start text_listener HpackStringDecoder_init (False, 0, []) (mkDecodeBuffer [2, 0x61, 0x62, 0x63]))"
  by (rule string_start_variants) (simp add: text_listener_def split: prod.split)

end
