(* ===== verification/Hpack_Entry_Decoder.thy ===== *)
theory Hpack_Entry_Decoder
  imports Hpack_String_Decoder
begin

text \<open>
  \<^verbatim>\<open>http2/hpack/decoder/hpack_entry_type_decoder.cc\<close>, \<^verbatim>\<open>hpack_entry_decoder.h\<close>, \<^verbatim>\<open>.cc\<close> and
  \<^verbatim>\<open>hpack_block_decoder.h\<close>, \<^verbatim>\<open>.cc\<close>: the decoder of one entry of an HPACK block, and the decoder of
  a whole block. They report to an \<open>HpackEntryDecoderListener\<close>, here a record of callbacks.
\<close>

section \<open>Entry types\<close>

datatype HpackEntryType =
  kIndexedHeader | kIndexedLiteralHeader | kUnindexedLiteralHeader | kNeverIndexedLiteralHeader
| kDynamicTableSizeUpdate

record HpackEntryTypeDecoder =
  et_varint_decoder :: HpackVarintDecoder
  et_entry_type :: HpackEntryType

definition HpackEntryTypeDecoder_init :: HpackEntryTypeDecoder where
  "HpackEntryTypeDecoder_init =
     \<lparr>et_varint_decoder = \<lparr>vd_value = 0, vd_offset = 0\<rparr>, et_entry_type = kIndexedHeader\<rparr>"

definition EntryTypeDecoder_Start ::
  "HpackEntryTypeDecoder \<Rightarrow> DecodeBuffer \<Rightarrow> DecodeStatus \<times> HpackEntryTypeDecoder \<times> DecodeBuffer" where
  "EntryTypeDecoder_Start d db =
     (let (b, db) = DecodeUInt8 db;
          short = (\<lambda>ty v. (kDecodeDone,
             d\<lparr>et_entry_type := ty, et_varint_decoder := VarintDecoder_set_value (et_varint_decoder d) (ucast v)\<rparr>, db));
          extended = (\<lambda>ty mask.
             let (status, vd, db) = VarintDecoder_StartExtended (et_varint_decoder d) mask db
             in (status, d\<lparr>et_entry_type := ty, et_varint_decoder := vd\<rparr>, db))
      in if b \<le> 0b00001110 then short kUnindexedLiteralHeader b
         else if b = 0b00001111 then extended kUnindexedLiteralHeader 0x0f
         else if b \<le> 0b00011110 then short kNeverIndexedLiteralHeader (b AND 0x0f)
         else if b = 0b00011111 then extended kNeverIndexedLiteralHeader 0x0f
         else if b \<le> 0b00111110 then short kDynamicTableSizeUpdate (b AND 0x1f)
         else if b = 0b00111111 then extended kDynamicTableSizeUpdate 0x1f
         else if b \<le> 0b01111110 then short kIndexedLiteralHeader (b AND 0x3f)
         else if b = 0b01111111 then extended kIndexedLiteralHeader 0x3f
         else if b \<le> 0b11111110 then short kIndexedHeader (b AND 0x7f)
         else extended kIndexedHeader 0x7f)"

definition EntryTypeDecoder_Resume ::
  "HpackEntryTypeDecoder \<Rightarrow> DecodeBuffer \<Rightarrow> DecodeStatus \<times> HpackEntryTypeDecoder \<times> DecodeBuffer" where
  "EntryTypeDecoder_Resume d db =
     (let (status, vd, db) = VarintDecoder_Resume (et_varint_decoder d) db
      in (status, d\<lparr>et_varint_decoder := vd\<rparr>, db))"

text \<open>
  The representation RFC 7541 gives: the leading bits of the first byte are the opcode, the others
  the prefix of an integer.
\<close>

definition entry_type_ref :: "byte \<Rightarrow> HpackEntryType \<times> byte" where
  "entry_type_ref b =
     (if bit b 7 then (kIndexedHeader, 0x7f)
      else if bit b 6 then (kIndexedLiteralHeader, 0x3f)
      else if bit b 5 then (kDynamicTableSizeUpdate, 0x1f)
      else if bit b 4 then (kNeverIndexedLiteralHeader, 0x0f)
      else (kUnindexedLiteralHeader, 0x0f))"

lemma unat_and_mask: "unat ((b :: byte) AND mask k) = unat b mod 2 ^ k"
  by (simp only: take_bit_eq_mask[symmetric] unsigned_take_bit_eq) (simp add: take_bit_eq_mod)

lemma bit_byte_top: "unat (b :: byte) < 2 ^ Suc k \<Longrightarrow> bit b k \<longleftrightarrow> 2 ^ k \<le> unat b"
proof -
  assume "unat b < 2 ^ Suc k"
  then have "unat b div 2 ^ k < 2" by (simp add: div_less_iff_less_mult)
  then have "odd (unat b div 2 ^ k) \<longleftrightarrow> unat b div 2 ^ k \<noteq> 0" by (auto simp: less_2_cases_iff)
  moreover have "bit b k \<longleftrightarrow> odd (unat b div 2 ^ k)"
    by (cases "k < 8") (auto simp: bit_iff_odd[symmetric, where 'a = nat] bit_unsigned_iff dest: bit_imp_le_length)
  ultimately show ?thesis by (simp add: div_eq_0_iff not_less)
qed

lemma entry_type_bits:
  "entry_type_ref b =
     (if 128 \<le> unat b then (kIndexedHeader, 0x7f)
      else if 64 \<le> unat b then (kIndexedLiteralHeader, 0x3f)
      else if 32 \<le> unat b then (kDynamicTableSizeUpdate, 0x1f)
      else if 16 \<le> unat b then (kNeverIndexedLiteralHeader, 0x0f)
      else (kUnindexedLiteralHeader, 0x0f))"
  using bit_byte_top[of b 7] bit_byte_top[of b 6] bit_byte_top[of b 5] bit_byte_top[of b 4]
    unsigned_less[of b, where 'a = nat]
  by (auto simp: entry_type_ref_def)

lemma low_bits:
  "unat (b AND 0x0f :: byte) = unat b mod 16" "unat (b AND 0x1f) = unat b mod 32"
  "unat (b AND 0x3f) = unat b mod 64" "unat (b AND 0x7f) = unat b mod 128"
  using unat_and_mask[of b 4] unat_and_mask[of b 5] unat_and_mask[of b 6] unat_and_mask[of b 7]
  by (simp_all add: mask_eq_exp_minus_1)

lemma entry_type_Start_ref:
  assumes "rest db = b # bs"
  shows "EntryTypeDecoder_Start d db =
    (let (ty, m) = entry_type_ref b;
         (st, vd, db1) = VarintDecoder_Start (et_varint_decoder d) b m (AdvanceCursor db 1)
     in (st, d\<lparr>et_entry_type := ty, et_varint_decoder := vd\<rparr>, db1))"
proof -
  have d: "DecodeUInt8 db = (b, AdvanceCursor db 1)" by (rule DecodeUInt8_rest[OF assms])
  define n where "n = unat b"
  have n: "n < 256" using unsigned_less[of b, where 'a = nat] by (simp add: n_def)
  have s: "VarintDecoder_Start v b m db' =
      (if unat (b AND m) < unat m then (kDecodeDone, VarintDecoder_set_value v (ucast (b AND m)), db')
       else VarintDecoder_Resume (v\<lparr>vd_value := ucast (b AND m), vd_offset := 0\<rparr>) db')" for v m db'
    by (simp add: VarintDecoder_Start_def VarintDecoder_set_value_def word_less_nat_alt)
  have low: "n < 16 \<Longrightarrow> b AND 0x0f = b" using low_bits(1)[of b] by (simp add: word_unat_eq_iff n_def)
  have md: "k \<le> n \<Longrightarrow> n < 2 * k - 1 \<Longrightarrow> n mod k < k - 1" for k
    using le_mod_geq[of k n] mod_less[of "n - k" k] by simp
  have full: "n = k \<Longrightarrow> k < 256 \<Longrightarrow> b = of_nat k" for k by (simp add: n_def word_unat_eq_iff unat_of_nat)
  have e: "n = 15 \<Longrightarrow> (ucast b :: u32) = 15" "n = 31 \<Longrightarrow> (ucast (b AND 15) :: u32) = 15"
      "n = 63 \<Longrightarrow> (ucast (b AND 31) :: u32) = 31" "n = 127 \<Longrightarrow> (ucast (b AND 63) :: u32) = 63"
      "n = 255 \<Longrightarrow> (ucast (b AND 127) :: u32) = 127"
    using full[of 15] full[of 31] full[of 63] full[of 127] full[of 255] by simp_all
  consider "n < 15" | "n = 15" | "16 \<le> n" "n < 31" | "n = 31" | "32 \<le> n" "n < 63" | "n = 63"
    | "64 \<le> n" "n < 127" | "n = 127" | "128 \<le> n" "n < 255" | "n = 255" using n by linarith
  then show ?thesis
    using md[of 16] md[of 32] md[of 64] md[of 128]
    by cases (simp_all add: EntryTypeDecoder_Start_def e d entry_type_bits s low_bits low word_le_nat_alt
        word_unat_eq_iff[of b] VarintDecoder_StartExtended_def flip: n_def)
qed

section \<open>Entries\<close>

record 'l entry_listener =
  el_OnIndexedHeader :: "nat \<Rightarrow> 'l \<Rightarrow> 'l"
  el_OnStartLiteralHeader :: "HpackEntryType \<Rightarrow> nat \<Rightarrow> 'l \<Rightarrow> 'l"
  el_OnNameStart :: "bool \<Rightarrow> nat \<Rightarrow> 'l \<Rightarrow> 'l"
  el_OnNameData :: "bytes \<Rightarrow> 'l \<Rightarrow> 'l"
  el_OnNameEnd :: "'l \<Rightarrow> 'l"
  el_OnValueStart :: "bool \<Rightarrow> nat \<Rightarrow> 'l \<Rightarrow> 'l"
  el_OnValueData :: "bytes \<Rightarrow> 'l \<Rightarrow> 'l"
  el_OnValueEnd :: "'l \<Rightarrow> 'l"
  el_OnDynamicTableSizeUpdate :: "nat \<Rightarrow> 'l \<Rightarrow> 'l"

definition NameDecoderListener :: "'l entry_listener \<Rightarrow> 'l string_listener" where
  "NameDecoderListener listener =
     \<lparr>sl_OnStringStart = el_OnNameStart listener, sl_OnStringData = el_OnNameData listener,
      sl_OnStringEnd = el_OnNameEnd listener\<rparr>"

definition ValueDecoderListener :: "'l entry_listener \<Rightarrow> 'l string_listener" where
  "ValueDecoderListener listener =
     \<lparr>sl_OnStringStart = el_OnValueStart listener, sl_OnStringData = el_OnValueData listener,
      sl_OnStringEnd = el_OnValueEnd listener\<rparr>"

datatype EntryDecoderState =
  kResumeDecodingType | kDecodedType | kStartDecodingName | kResumeDecodingName
| kStartDecodingValue | kResumeDecodingValue

record HpackEntryDecoder =
  ed_entry_type_decoder :: HpackEntryTypeDecoder
  ed_string_decoder :: HpackStringDecoder
  ed_state :: EntryDecoderState

definition HpackEntryDecoder_init :: HpackEntryDecoder where
  "HpackEntryDecoder_init =
     \<lparr>ed_entry_type_decoder = HpackEntryTypeDecoder_init, ed_string_decoder = HpackStringDecoder_init,
      ed_state = kResumeDecodingType\<rparr>"

definition DispatchOnType :: "'l entry_listener \<Rightarrow> HpackEntryDecoder \<Rightarrow> 'l \<Rightarrow> bool \<times> HpackEntryDecoder \<times> 'l" where
  "DispatchOnType listener s l =
     (let entry_type = et_entry_type (ed_entry_type_decoder s);
          varint = unat (vd_value (et_varint_decoder (ed_entry_type_decoder s)));
          literal =
            (False,
             if varint = 0 then s\<lparr>ed_state := kStartDecodingName\<rparr> else s\<lparr>ed_state := kStartDecodingValue\<rparr>,
             el_OnStartLiteralHeader listener entry_type varint l)
      in case entry_type of
           kIndexedHeader \<Rightarrow> (True, s, el_OnIndexedHeader listener varint l)
         | kIndexedLiteralHeader \<Rightarrow> literal
         | kUnindexedLiteralHeader \<Rightarrow> literal
         | kNeverIndexedLiteralHeader \<Rightarrow> literal
         | kDynamicTableSizeUpdate \<Rightarrow> (True, s, el_OnDynamicTableSizeUpdate listener varint l))"

fun entry_rank :: "EntryDecoderState \<Rightarrow> nat" where
  "entry_rank kResumeDecodingType = 4"
| "entry_rank kDecodedType = 3"
| "entry_rank kStartDecodingName = 2"
| "entry_rank kResumeDecodingName = 2"
| "entry_rank kStartDecodingValue = 1"
| "entry_rank kResumeDecodingValue = 1"

lemma DispatchOnType_rank: "DispatchOnType cb s l = (False, s', l') \<Longrightarrow> entry_rank (ed_state s') < 3"
  by (auto simp: DispatchOnType_def Let_def split: HpackEntryType.splits if_splits)

function EntryDecoder_Resume ::
  "'l entry_listener \<Rightarrow> HpackEntryDecoder \<Rightarrow> 'l \<Rightarrow> DecodeBuffer \<Rightarrow>
   DecodeStatus \<times> (HpackEntryDecoder \<times> 'l) \<times> DecodeBuffer" where
  "EntryDecoder_Resume listener s l db =
     (case ed_state s of
        kResumeDecodingType \<Rightarrow>
          (case EntryTypeDecoder_Resume (ed_entry_type_decoder s) db of
             (status, td, db) \<Rightarrow>
               if status \<noteq> kDecodeDone then (status, (s\<lparr>ed_entry_type_decoder := td\<rparr>, l), db)
               else EntryDecoder_Resume listener (s\<lparr>ed_entry_type_decoder := td, ed_state := kDecodedType\<rparr>) l db)
      | kDecodedType \<Rightarrow>
          (case DispatchOnType listener s l of
             (True, s, l) \<Rightarrow> (kDecodeDone, (s, l), db)
           | (False, s, l) \<Rightarrow> EntryDecoder_Resume listener s l db)
      | kStartDecodingName \<Rightarrow>
          (case StringDecoder_Start (NameDecoderListener listener) (ed_string_decoder s) l db of
             (status, (sd, l), db) \<Rightarrow>
               if status \<noteq> kDecodeDone then
                 (status, (s\<lparr>ed_string_decoder := sd, ed_state := kResumeDecodingName\<rparr>, l), db)
               else EntryDecoder_Resume listener (s\<lparr>ed_string_decoder := sd, ed_state := kStartDecodingValue\<rparr>) l db)
      | kStartDecodingValue \<Rightarrow>
          (case StringDecoder_Start (ValueDecoderListener listener) (ed_string_decoder s) l db of
             (status, (sd, l), db) \<Rightarrow>
               if status = kDecodeDone then (status, (s\<lparr>ed_string_decoder := sd\<rparr>, l), db)
               else (status, (s\<lparr>ed_string_decoder := sd, ed_state := kResumeDecodingValue\<rparr>, l), db))
      | kResumeDecodingName \<Rightarrow>
          (case StringDecoder_Resume (NameDecoderListener listener) (ed_string_decoder s) l db of
             (status, (sd, l), db) \<Rightarrow>
               if status \<noteq> kDecodeDone then
                 (status, (s\<lparr>ed_string_decoder := sd, ed_state := kResumeDecodingName\<rparr>, l), db)
               else EntryDecoder_Resume listener (s\<lparr>ed_string_decoder := sd, ed_state := kStartDecodingValue\<rparr>) l db)
      | kResumeDecodingValue \<Rightarrow>
          (case StringDecoder_Resume (ValueDecoderListener listener) (ed_string_decoder s) l db of
             (status, (sd, l), db) \<Rightarrow>
               if status = kDecodeDone then (status, (s\<lparr>ed_string_decoder := sd\<rparr>, l), db)
               else (status, (s\<lparr>ed_string_decoder := sd, ed_state := kResumeDecodingValue\<rparr>, l), db)))"
  by pat_completeness auto
termination
  by (relation "measure (\<lambda>(cb, s, l, db). entry_rank (ed_state s))")
    (auto dest: DispatchOnType_rank[OF sym])

declare EntryDecoder_Resume.simps [simp del]

definition EntryDecoder_Start ::
  "'l entry_listener \<Rightarrow> HpackEntryDecoder \<Rightarrow> 'l \<Rightarrow> DecodeBuffer \<Rightarrow>
   DecodeStatus \<times> (HpackEntryDecoder \<times> 'l) \<times> DecodeBuffer" where
  "EntryDecoder_Start listener s l db =
     (case EntryTypeDecoder_Start (ed_entry_type_decoder s) db of
        (status, td, db) \<Rightarrow>
          let s = s\<lparr>ed_entry_type_decoder := td\<rparr>
          in case status of
               kDecodeDone \<Rightarrow>
                 if et_entry_type td = kIndexedHeader then
                   (kDecodeDone, (s, el_OnIndexedHeader listener (unat (vd_value (et_varint_decoder td))) l), db)
                 else EntryDecoder_Resume listener (s\<lparr>ed_state := kDecodedType\<rparr>) l db
             | kDecodeInProgress \<Rightarrow> (status, (s\<lparr>ed_state := kResumeDecodingType\<rparr>, l), db)
             | kDecodeError \<Rightarrow> (status, (s, l), db))"

section \<open>Blocks\<close>

lemma EntryTypeDecoder_Start_advances:
  "EntryTypeDecoder_Start d db = (st, d', db') \<Longrightarrow> advances (AdvanceCursor db 1) db'"
  by (cases "DecodeUInt8 db")
    (auto simp: EntryTypeDecoder_Start_def VarintDecoder_StartExtended_def Let_def
      dest!: DecodeUInt8_advance VarintDecoder_Resume_advances split: if_splits prod.splits)

lemma EntryTypeDecoder_Resume_advances: "EntryTypeDecoder_Resume d db = (st, d', db') \<Longrightarrow> advances db db'"
  by (auto simp: EntryTypeDecoder_Resume_def dest: VarintDecoder_Resume_advances split: prod.splits)

lemma EntryDecoder_Resume_advances: "EntryDecoder_Resume cb s l db = (st, sl, db') \<Longrightarrow> advances db db'"
proof (induction cb s l db rule: EntryDecoder_Resume.induct)
  case (1 cb s l db)
  note step = trans[OF EntryDecoder_Resume.simps[of cb s l db, symmetric] "1.prems"]
  show ?case
  proof (cases "ed_state s")
    case kResumeDecodingType
    obtain status td db1 where r: "EntryTypeDecoder_Resume (ed_entry_type_decoder s) db = (status, td, db1)"
      by (cases "EntryTypeDecoder_Resume (ed_entry_type_decoder s) db") auto
    have "advances db1 db'"
    proof (cases "status = kDecodeDone")
      case True
      show ?thesis
        by (rule 1(1)[OF kResumeDecodingType r[symmetric] refl]) (use True step kResumeDecodingType r in auto)
    next
      case False
      then show ?thesis using step kResumeDecodingType r by auto
    qed
    then show ?thesis using EntryTypeDecoder_Resume_advances[OF r] by (rule advances_trans[rotated])
  next
    case kDecodedType
    then show ?thesis using step 1(2) by (auto split: prod.splits bool.splits)
  next
    case kStartDecodingName
    then show ?thesis using step 1
      by (auto dest: StringDecoder_Start_advances intro: advances_trans split: prod.splits if_splits)
  next
    case kResumeDecodingName
    then show ?thesis using step 1
      by (auto dest: StringDecoder_Resume_advances intro: advances_trans split: prod.splits if_splits)
  next
    case kStartDecodingValue
    then show ?thesis using step
      by (auto dest: StringDecoder_Start_advances split: prod.splits if_splits)
  next
    case kResumeDecodingValue
    then show ?thesis using step
      by (auto dest: StringDecoder_Resume_advances split: prod.splits if_splits)
  qed
qed

lemma EntryDecoder_Start_advances:
  "EntryDecoder_Start cb s l db = (st, sl, db') \<Longrightarrow> advances (AdvanceCursor db 1) db'"
  by (auto simp: EntryDecoder_Start_def Let_def dest!: EntryTypeDecoder_Start_advances
      dest: EntryDecoder_Resume_advances intro: advances_trans split: prod.splits DecodeStatus.splits if_splits)

record HpackBlockDecoder =
  bd_entry_decoder :: HpackEntryDecoder
  bd_before_entry :: bool

definition HpackBlockDecoder_init :: HpackBlockDecoder where
  "HpackBlockDecoder_init = \<lparr>bd_entry_decoder = HpackEntryDecoder_init, bd_before_entry = True\<rparr>"

definition BlockDecoder_Reset :: "HpackBlockDecoder \<Rightarrow> HpackBlockDecoder" where
  "BlockDecoder_Reset s = s\<lparr>bd_before_entry := True\<rparr>"

function BlockDecoder_entries ::
  "'l entry_listener \<Rightarrow> HpackBlockDecoder \<Rightarrow> 'l \<Rightarrow> DecodeBuffer \<Rightarrow>
   DecodeStatus \<times> (HpackBlockDecoder \<times> 'l) \<times> DecodeBuffer" where
  "BlockDecoder_entries listener s l db =
     (if HasData db then
        (case EntryDecoder_Start listener (bd_entry_decoder s) l db of
           (status, (ed, l), db) \<Rightarrow>
             let s = s\<lparr>bd_entry_decoder := ed\<rparr>
             in case status of
                  kDecodeDone \<Rightarrow> BlockDecoder_entries listener s l db
                | kDecodeInProgress \<Rightarrow> (kDecodeInProgress, (s\<lparr>bd_before_entry := False\<rparr>, l), db)
                | kDecodeError \<Rightarrow> (kDecodeError, (s, l), db))
      else (kDecodeDone, (s, l), db))"
  by pat_completeness auto
termination
  by (relation "measure (\<lambda>(cb, s, l, db). Remaining db)")
    (auto intro: Remaining_advance1 dest: EntryDecoder_Start_advances[OF sym])

declare BlockDecoder_entries.simps [simp del]

definition BlockDecoder_Decode ::
  "'l entry_listener \<Rightarrow> HpackBlockDecoder \<Rightarrow> 'l \<Rightarrow> DecodeBuffer \<Rightarrow>
   DecodeStatus \<times> (HpackBlockDecoder \<times> 'l) \<times> DecodeBuffer" where
  "BlockDecoder_Decode listener s l db =
     (if \<not> bd_before_entry s then
        (case EntryDecoder_Resume listener (bd_entry_decoder s) l db of
           (status, (ed, l), db) \<Rightarrow>
             let s = s\<lparr>bd_entry_decoder := ed\<rparr>
             in case status of
                  kDecodeDone \<Rightarrow> BlockDecoder_entries listener (s\<lparr>bd_before_entry := True\<rparr>) l db
                | kDecodeInProgress \<Rightarrow> (kDecodeInProgress, (s, l), db)
                | kDecodeError \<Rightarrow> (kDecodeError, (s, l), db))
      else BlockDecoder_entries listener s l db)"

end
