(* ===== verification/Hpack_Decoder_State.thy ===== *)
theory Hpack_Decoder_State
  imports Hpack_String_Buffer Hpack_Decoder_Tables Hpack_Entry_Decoder
begin

text \<open>
  \<^verbatim>\<open>http2/hpack/decoder/hpack_decoder_state.{h,cc}\<close>: resolves the indices of whole entries, keeps
  the dynamic table and the rules on its size, and reports headers. The \<open>HpackDecoderListener\<close> it
  reports to is the log of the calls it gets, in order.
\<close>

datatype header_event =
    OnHeaderListStart
  | OnHeader HpackEntryType bytes bytes
  | OnHeaderListEnd
  | OnHeaderErrorDetected string

record HpackDecoderState =
  ds_decoder_tables :: HpackDecoderDynamicTable
  ds_listener :: "header_event list"
  ds_final_header_table_size :: u32
  ds_lowest_header_table_size :: u32
  ds_require_dynamic_table_size_update :: bool
  ds_allow_dynamic_table_size_update :: bool
  ds_saw_dynamic_table_size_update :: bool
  ds_error_detected :: bool

definition HpackDecoderState_init :: HpackDecoderState where
  "HpackDecoderState_init =
     \<lparr>ds_decoder_tables = HpackDecoderDynamicTable_init, ds_listener = [],
      ds_final_header_table_size = DefaultHeaderTableSize,
      ds_lowest_header_table_size = DefaultHeaderTableSize,
      ds_require_dynamic_table_size_update = False, ds_allow_dynamic_table_size_update = True,
      ds_saw_dynamic_table_size_update = False, ds_error_detected = False\<rparr>"

text \<open>A call of the listener.\<close>

abbreviation notify :: "header_event \<Rightarrow> HpackDecoderState \<Rightarrow> HpackDecoderState" where
  "notify e ds \<equiv> ds\<lparr>ds_listener := ds_listener ds @ [e]\<rparr>"

definition State_ReportError :: "string \<Rightarrow> HpackDecoderState \<Rightarrow> HpackDecoderState" where
  "State_ReportError msg ds =
     (if \<not> ds_error_detected ds then
        (notify (OnHeaderErrorDetected msg) ds)\<lparr>ds_error_detected := True\<rparr>
      else ds)"

definition ExtractHpackString :: "HpackDecoderStringBuffer \<Rightarrow> bytes \<times> HpackDecoderStringBuffer" where
  "ExtractHpackString sb =
     (if IsBuffered sb then ReleaseString sb
      else (StringBuffer_str sb, StringBuffer_Reset sb))"

definition State_set_tables_debug_listener :: "table_debug_event list option \<Rightarrow> HpackDecoderState \<Rightarrow> HpackDecoderState" where
  "State_set_tables_debug_listener l ds =
     ds\<lparr>ds_decoder_tables := (ds_decoder_tables ds)\<lparr>dt_debug_listener := l\<rparr>\<rparr>"

definition State_ApplyHeaderTableSizeSetting :: "u32 \<Rightarrow> HpackDecoderState \<Rightarrow> HpackDecoderState" where
  "State_ApplyHeaderTableSizeSetting header_table_size ds =
     (let ds = (if header_table_size < ds_lowest_header_table_size ds
                then ds\<lparr>ds_lowest_header_table_size := header_table_size\<rparr> else ds)
      in ds\<lparr>ds_final_header_table_size := header_table_size\<rparr>)"

definition State_OnHeaderBlockStart :: "HpackDecoderState \<Rightarrow> HpackDecoderState" where
  "State_OnHeaderBlockStart ds =
     notify OnHeaderListStart
       (ds\<lparr>ds_allow_dynamic_table_size_update := True, ds_saw_dynamic_table_size_update := False,
           ds_require_dynamic_table_size_update :=
             unat (ds_lowest_header_table_size ds) < dt_current_size (ds_decoder_tables ds) \<or>
             unat (ds_final_header_table_size ds) < dt_size_limit (ds_decoder_tables ds)\<rparr>)"

definition State_OnIndexedHeader :: "nat \<Rightarrow> HpackDecoderState \<Rightarrow> HpackDecoderState" where
  "State_OnIndexedHeader index ds =
     (if ds_error_detected ds then ds
      else if ds_require_dynamic_table_size_update ds then
        State_ReportError ''Missing dynamic table size update.'' ds
      else
        let ds = ds\<lparr>ds_allow_dynamic_table_size_update := False\<rparr>;
            (entry, tables) = Tables_Lookup index (ds_decoder_tables ds);
            ds = ds\<lparr>ds_decoder_tables := tables\<rparr>
        in case entry of
             Some (name, value) \<Rightarrow> notify (OnHeader kIndexedHeader name value) ds
           | None \<Rightarrow> State_ReportError ''Invalid index.'' ds)"

definition State_Insert :: "bytes \<Rightarrow> bytes \<Rightarrow> HpackDecoderState \<Rightarrow> HpackDecoderState" where
  "State_Insert name value ds =
     ds\<lparr>ds_decoder_tables := snd (DynamicTable_Insert name value (ds_decoder_tables ds))\<rparr>"

definition State_OnNameIndexAndLiteralValue ::
  "HpackEntryType \<Rightarrow> nat \<Rightarrow> HpackDecoderStringBuffer \<Rightarrow> HpackDecoderState \<Rightarrow>
   HpackDecoderStringBuffer \<times> HpackDecoderState" where
  "State_OnNameIndexAndLiteralValue entry_type name_index value_buffer ds =
     (if ds_error_detected ds then (value_buffer, ds)
      else if ds_require_dynamic_table_size_update ds then
        (value_buffer, State_ReportError ''Missing dynamic table size update.'' ds)
      else
        let ds = ds\<lparr>ds_allow_dynamic_table_size_update := False\<rparr>;
            (entry, tables) = Tables_Lookup name_index (ds_decoder_tables ds);
            ds = ds\<lparr>ds_decoder_tables := tables\<rparr>
        in case entry of
             Some (name, _) \<Rightarrow>
               let (value, value_buffer) = ExtractHpackString value_buffer;
                   ds = notify (OnHeader entry_type name value) ds
               in (value_buffer, if entry_type = kIndexedLiteralHeader then State_Insert name value ds else ds)
           | None \<Rightarrow> (value_buffer, State_ReportError ''Invalid name index.'' ds))"

definition State_OnLiteralNameAndValue ::
  "HpackEntryType \<Rightarrow> HpackDecoderStringBuffer \<Rightarrow> HpackDecoderStringBuffer \<Rightarrow> HpackDecoderState \<Rightarrow>
   HpackDecoderStringBuffer \<times> HpackDecoderStringBuffer \<times> HpackDecoderState" where
  "State_OnLiteralNameAndValue entry_type name_buffer value_buffer ds =
     (if ds_error_detected ds then (name_buffer, value_buffer, ds)
      else if ds_require_dynamic_table_size_update ds then
        (name_buffer, value_buffer, State_ReportError ''Missing dynamic table size update.'' ds)
      else
        let ds = ds\<lparr>ds_allow_dynamic_table_size_update := False\<rparr>;
            (name, name_buffer) = ExtractHpackString name_buffer;
            (value, value_buffer) = ExtractHpackString value_buffer;
            ds = notify (OnHeader entry_type name value) ds
        in (name_buffer, value_buffer,
            if entry_type = kIndexedLiteralHeader then State_Insert name value ds else ds))"

definition State_OnDynamicTableSizeUpdate :: "nat \<Rightarrow> HpackDecoderState \<Rightarrow> HpackDecoderState" where
  "State_OnDynamicTableSizeUpdate size_limit ds =
     (if ds_error_detected ds then ds
      else if \<not> ds_allow_dynamic_table_size_update ds then
        State_ReportError ''Dynamic table size update not allowed.'' ds
      else if ds_require_dynamic_table_size_update ds \<and> size_limit > unat (ds_lowest_header_table_size ds) then
        State_ReportError ''Initial dynamic table size update is above low water mark.'' ds
      else if \<not> ds_require_dynamic_table_size_update ds \<and> size_limit > unat (ds_final_header_table_size ds) then
        State_ReportError ''Dynamic table size update is above acknowledged setting.'' ds
      else
        let ds = ds\<lparr>ds_require_dynamic_table_size_update := False\<rparr>;
            ds = ds\<lparr>ds_decoder_tables := DynamicTableSizeUpdate size_limit (ds_decoder_tables ds)\<rparr>;
            ds = (if ds_saw_dynamic_table_size_update ds
                  then ds\<lparr>ds_allow_dynamic_table_size_update := False\<rparr>
                  else ds\<lparr>ds_saw_dynamic_table_size_update := True\<rparr>)
        in ds\<lparr>ds_lowest_header_table_size := ds_final_header_table_size ds\<rparr>)"

definition State_OnHpackDecodeError :: "string \<Rightarrow> HpackDecoderState \<Rightarrow> HpackDecoderState" where
  "State_OnHpackDecodeError msg ds = (if \<not> ds_error_detected ds then State_ReportError msg ds else ds)"

definition State_OnHeaderBlockEnd :: "HpackDecoderState \<Rightarrow> HpackDecoderState" where
  "State_OnHeaderBlockEnd ds =
     (if ds_error_detected ds then ds
      else if ds_require_dynamic_table_size_update ds then
        State_ReportError ''Missing dynamic table size update.'' ds
      else notify OnHeaderListEnd ds)"

section \<open>Entries with their strings\<close>

text \<open>What the two operations that take string buffers do, given the strings in the buffers.\<close>

definition State_literal :: "HpackEntryType \<Rightarrow> bytes \<Rightarrow> bytes \<Rightarrow> HpackDecoderState \<Rightarrow> HpackDecoderState" where
  "State_literal ty name value ds =
     (let ds = notify (OnHeader ty name value) ds
      in if ty = kIndexedLiteralHeader then State_Insert name value ds else ds)"

definition State_entry ::
  "HpackEntryType \<Rightarrow> (nat + bytes) \<Rightarrow> bytes \<Rightarrow> HpackDecoderState \<Rightarrow> HpackDecoderState" where
  "State_entry ty name value ds =
     (if ds_error_detected ds then ds
      else if ds_require_dynamic_table_size_update ds then
        State_ReportError ''Missing dynamic table size update.'' ds
      else
        let ds = ds\<lparr>ds_allow_dynamic_table_size_update := False\<rparr>
        in case name of
             Inr n \<Rightarrow> State_literal ty n value ds
           | Inl i \<Rightarrow>
               let (entry, tables) = Tables_Lookup i (ds_decoder_tables ds);
                   ds = ds\<lparr>ds_decoder_tables := tables\<rparr>
               in case entry of
                    Some (n, _) \<Rightarrow> State_literal ty n value ds
                  | None \<Rightarrow> State_ReportError ''Invalid name index.'' ds)"

lemma Extract_text: "buffer_ok sb \<Longrightarrow> view_buffer sb = VComplete s \<Longrightarrow> fst (ExtractHpackString sb) = s"
  by (auto simp: ExtractHpackString_def string_buffer_defs buffer_ok_def view_buffer_def split: StringState.splits)

lemma OnNameIndex_entry:
  "buffer_ok v \<Longrightarrow> view_buffer v = VComplete s \<Longrightarrow>
   snd (State_OnNameIndexAndLiteralValue ty i v ds) = State_entry ty (Inl i) s ds"
  using Extract_text[of v s]
  by (auto simp: State_OnNameIndexAndLiteralValue_def State_entry_def State_literal_def Let_def
      split: prod.split option.split)

lemma OnLiteral_entry:
  "buffer_ok n \<Longrightarrow> view_buffer n = VComplete r \<Longrightarrow> buffer_ok v \<Longrightarrow> view_buffer v = VComplete s \<Longrightarrow>
   snd (snd (State_OnLiteralNameAndValue ty n v ds)) = State_entry ty (Inr r) s ds"
  using Extract_text[of v s] Extract_text[of n r]
  by (auto simp: State_OnLiteralNameAndValue_def State_entry_def State_literal_def Let_def split: prod.split)

section \<open>Invariants\<close>

text \<open>
  The table is within its limit, the low water mark is below the last setting, and an error that
  was detected has been reported. \<open>B\<close> bounds every size the endpoint has ever allowed.
\<close>

definition has_error :: "header_event list \<Rightarrow> bool" where
  "has_error es \<longleftrightarrow> (\<exists>m. OnHeaderErrorDetected m \<in> set es)"

definition state_ok :: "nat \<Rightarrow> HpackDecoderState \<Rightarrow> bool" where
  "state_ok B ds \<longleftrightarrow> table_ok (ds_decoder_tables ds) \<and>
     dt_size_limit (ds_decoder_tables ds) \<le> B \<and>
     ds_lowest_header_table_size ds \<le> ds_final_header_table_size ds \<and>
     unat (ds_final_header_table_size ds) \<le> B \<and>
     (ds_error_detected ds \<longrightarrow> has_error (ds_listener ds))"

lemma has_error_append [simp]: "has_error (es @ fs) \<longleftrightarrow> has_error es \<or> has_error fs"
  by (auto simp: has_error_def)

lemma state_ok_init: "4096 \<le> B \<Longrightarrow> state_ok B HpackDecoderState_init"
  by (simp add: state_ok_def HpackDecoderState_init_def table_ok_init)
    (simp add: HpackDecoderDynamicTable_init_def DefaultHeaderTableSize_def)

lemma ReportError_ok: "state_ok B ds \<Longrightarrow> state_ok B (State_ReportError msg ds)"
  by (auto simp: state_ok_def State_ReportError_def has_error_def)

lemma ReportError_simps [simp]:
  "ds_error_detected (State_ReportError msg ds)"
  "ds_error_detected ds \<Longrightarrow> State_ReportError msg ds = ds"
  by (simp_all add: State_ReportError_def)

lemma literal_ok: "state_ok B ds \<Longrightarrow> state_ok B (State_literal ty n v ds)"
  by (auto simp: state_ok_def State_literal_def State_Insert_def Let_def Insert_entries)

lemma state_ok_update [simp]:
  "state_ok B (ds\<lparr>ds_allow_dynamic_table_size_update := b\<rparr>) = state_ok B ds"
  "state_ok B (ds\<lparr>ds_allow_dynamic_table_size_update := b,
     ds_decoder_tables := snd (Tables_Lookup i (ds_decoder_tables ds))\<rparr>) = state_ok B ds"
  by (auto simp: state_ok_def)

lemma entry_ok: "state_ok B ds \<Longrightarrow> state_ok B (State_entry ty n v ds)"
  by (auto simp: State_entry_def Let_def literal_ok ReportError_ok prod.case_eq_if split: sum.split option.split)

lemma OnIndexedHeader_ok: "state_ok B ds \<Longrightarrow> state_ok B (State_OnIndexedHeader n ds)"
  by (auto simp: State_OnIndexedHeader_def Let_def ReportError_ok prod.case_eq_if split: option.split)
    (auto simp: state_ok_def)

lemma size_update_ok: "state_ok B ds \<Longrightarrow> state_ok B (State_OnDynamicTableSizeUpdate n ds)"
  by (auto simp: State_OnDynamicTableSizeUpdate_def Let_def ReportError_ok)
    (auto simp: state_ok_def dt.resize_invar dt.resize_limit word_le_nat_alt)

lemma setting_ok: "state_ok B ds \<Longrightarrow> unat n \<le> B \<Longrightarrow> state_ok B (State_ApplyHeaderTableSizeSetting n ds)"
  by (auto simp: State_ApplyHeaderTableSizeSetting_def state_ok_def Let_def)

lemma block_start_ok: "state_ok B ds \<Longrightarrow> state_ok B (State_OnHeaderBlockStart ds)"
  by (auto simp: State_OnHeaderBlockStart_def state_ok_def)

lemma block_end_ok: "state_ok B ds \<Longrightarrow> state_ok B (State_OnHeaderBlockEnd ds)"
  by (auto simp: State_OnHeaderBlockEnd_def ReportError_ok) (auto simp: state_ok_def)

lemma decode_error_ok: "state_ok B ds \<Longrightarrow> state_ok B (State_OnHpackDecodeError msg ds)"
  by (simp add: State_OnHpackDecodeError_def ReportError_ok)

text \<open>After an error nothing changes.\<close>

lemma frozen [simp]:
  assumes "ds_error_detected ds"
  shows "State_OnIndexedHeader n ds = ds" "State_entry ty nm v ds = ds"
    "State_OnDynamicTableSizeUpdate n ds = ds" "State_OnHpackDecodeError msg ds = ds"
    "State_OnHeaderBlockEnd ds = ds"
  using assms by (simp_all add: State_OnIndexedHeader_def State_entry_def State_OnDynamicTableSizeUpdate_def
      State_OnHpackDecodeError_def State_OnHeaderBlockEnd_def)

end
