(* ===== verification/Hpack_Entry_Spec.thy ===== *)
theory Hpack_Entry_Spec
  imports Hpack_Entry_Decoder
begin

text \<open>
  What the entry and block decoders promise, on the unread bytes, and that they keep it: the
  refinement lemmas hold for every listener that meets the contract \<open>entry_client\<close>, and a block is
  decoded the same however it is cut when the listener is insensitive to cuts of the string data.
\<close>

section \<open>Specification\<close>

datatype entry_view = AtEntry | InType HpackEntryType HpackVarintDecoder | InName string_view | InValue string_view

definition view_entry :: "HpackEntryDecoder \<Rightarrow> entry_view" where
  "view_entry s =
     (case ed_state s of
        kResumeDecodingType \<Rightarrow>
          InType (et_entry_type (ed_entry_type_decoder s)) (et_varint_decoder (ed_entry_type_decoder s))
      | kResumeDecodingName \<Rightarrow> InName (view_string (ed_string_decoder s))
      | kResumeDecodingValue \<Rightarrow> InValue (view_string (ed_string_decoder s))
      | _ \<Rightarrow> AtEntry)"

type_synonym 'l entry_result = "DecodeStatus \<times> (entry_view \<times> 'l) \<times> bytes"

definition entry_value :: "'l entry_listener \<Rightarrow> string_view \<Rightarrow> 'l \<Rightarrow> bytes \<Rightarrow> 'l entry_result" where
  "entry_value cb v l xs =
     (case string_spec (ValueDecoderListener cb) v l xs of
        (kDecodeInProgress, (v, l), r) \<Rightarrow> (kDecodeInProgress, (InValue v, l), r)
      | (st, (v, l), r) \<Rightarrow> (st, (AtEntry, l), r))"

definition entry_name :: "'l entry_listener \<Rightarrow> string_view \<Rightarrow> 'l \<Rightarrow> bytes \<Rightarrow> 'l entry_result" where
  "entry_name cb v l xs =
     (case string_spec (NameDecoderListener cb) v l xs of
        (kDecodeDone, (v, l), r) \<Rightarrow> entry_value cb AtLength l r
      | (kDecodeInProgress, (v, l), r) \<Rightarrow> (kDecodeInProgress, (InName v, l), r)
      | (kDecodeError, (v, l), r) \<Rightarrow> (kDecodeError, (AtEntry, l), r))"

definition entry_dispatch :: "'l entry_listener \<Rightarrow> HpackEntryType \<Rightarrow> nat \<Rightarrow> 'l \<Rightarrow> bytes \<Rightarrow> 'l entry_result" where
  "entry_dispatch cb ty n l xs =
     (if ty = kIndexedHeader then (kDecodeDone, (AtEntry, el_OnIndexedHeader cb n l), xs)
      else if ty = kDynamicTableSizeUpdate then (kDecodeDone, (AtEntry, el_OnDynamicTableSizeUpdate cb n l), xs)
      else if n = 0 then entry_name cb AtLength (el_OnStartLiteralHeader cb ty n l) xs
      else entry_value cb AtLength (el_OnStartLiteralHeader cb ty n l) xs)"

definition entry_type_spec ::
  "'l entry_listener \<Rightarrow> HpackEntryType \<Rightarrow> HpackVarintDecoder \<Rightarrow> 'l \<Rightarrow> bytes \<Rightarrow> 'l entry_result" where
  "entry_type_spec cb ty w l xs =
     (case varint_ext w xs of
        (kDecodeDone, t, n) \<Rightarrow> entry_dispatch cb ty (unat (vd_value t)) l (drop n xs)
      | (kDecodeInProgress, t, n) \<Rightarrow> (kDecodeInProgress, (InType ty t, l), [])
      | (kDecodeError, t, n) \<Rightarrow> (kDecodeError, (AtEntry, l), drop n xs))"

fun entry_spec :: "'l entry_listener \<Rightarrow> entry_view \<Rightarrow> 'l \<Rightarrow> bytes \<Rightarrow> 'l entry_result" where
  "entry_spec cb AtEntry l [] = (kDecodeInProgress, (AtEntry, l), [])"
| "entry_spec cb AtEntry l (b # bs) =
     (let (ty, m) = entry_type_ref b
      in if unat (b AND m) < unat m then entry_dispatch cb ty (unat (b AND m)) l bs
         else entry_type_spec cb ty \<lparr>vd_value = ucast (b AND m), vd_offset = 0\<rparr> l bs)"
| "entry_spec cb (InType ty w) l xs = entry_type_spec cb ty w l xs"
| "entry_spec cb (InName v) l xs = entry_name cb v l xs"
| "entry_spec cb (InValue v) l xs = entry_value cb v l xs"

section \<open>Entries consume input\<close>

lemma string_body_len: "string_body cb n l xs = (st, vl, r) \<Longrightarrow> length r \<le> length xs"
  by (auto simp: string_body_def split: if_splits)

lemma string_spec_len: "string_spec cb v l xs = (st, vl, r) \<Longrightarrow> length r \<le> length xs"
proof (induction cb v l xs rule: string_spec.induct)
  case (2 cb l b bs)
  then show ?case by (auto simp: string_start_body_def dest: string_body_len split: if_splits)
next
  case (3 cb h w l xs)
  then show ?case
    by (force simp: string_start_body_def dest: string_body_len split: prod.splits DecodeStatus.splits)
qed (auto dest: string_body_len)

lemma entry_value_len: "entry_value cb v l xs = (st, vl, r) \<Longrightarrow> length r \<le> length xs"
  by (auto simp: entry_value_def dest: string_spec_len split: prod.splits DecodeStatus.splits)

lemma entry_name_len: "entry_name cb v l xs = (st, vl, r) \<Longrightarrow> length r \<le> length xs"
  by (fastforce simp: entry_name_def dest: string_spec_len entry_value_len split: prod.splits DecodeStatus.splits)

lemma entry_dispatch_len: "entry_dispatch cb ty n l xs = (st, vl, r) \<Longrightarrow> length r \<le> length xs"
  by (auto simp: entry_dispatch_def dest: entry_value_len entry_name_len split: if_splits)

lemma entry_type_spec_len: "entry_type_spec cb ty w l xs = (st, vl, r) \<Longrightarrow> length r \<le> length xs"
  by (force simp: entry_type_spec_def dest: entry_dispatch_len split: prod.splits DecodeStatus.splits)

lemma entry_spec_len:
  "entry_spec cb v l xs = (st, vl, r) \<Longrightarrow> length r \<le> length xs"
  "entry_spec cb AtEntry l (b # bs) = (st, vl, r) \<Longrightarrow> length r \<le> length bs"
proof -
  show *: "entry_spec cb AtEntry l (b # bs) = (st, vl, r) \<Longrightarrow> length r \<le> length bs"
    by (auto simp: Let_def dest: entry_dispatch_len entry_type_spec_len split: prod.splits if_splits)
  show "entry_spec cb v l xs = (st, vl, r) \<Longrightarrow> length r \<le> length xs"
    by (cases "(cb, v, l, xs)" rule: entry_spec.cases)
      (auto simp: Let_def dest: entry_dispatch_len entry_type_spec_len entry_name_len entry_value_len
        split: prod.splits if_splits)
qed

lemma entry_spec_decreases:
  assumes "entry_spec cb v l xs = (st, vl, r)" "\<not> (v = AtEntry \<and> xs = [])"
  shows "length r < length xs \<or> v \<noteq> AtEntry \<and> length r = length xs"
proof (cases xs)
  case Nil
  then show ?thesis using assms entry_spec_len(1)[OF assms(1)] by auto
next
  case (Cons b bs)
  then show ?thesis using assms entry_spec_len(1)[OF assms(1)] entry_spec_len(2)[of cb l b bs st vl r]
    by (cases "v = AtEntry") auto
qed

function block_spec :: "'l entry_listener \<Rightarrow> entry_view \<Rightarrow> 'l \<Rightarrow> bytes \<Rightarrow> 'l entry_result" where
  "block_spec cb v l xs =
     (if v = AtEntry \<and> xs = [] then (kDecodeDone, (AtEntry, l), [])
      else case entry_spec cb v l xs of
             (kDecodeDone, (v', l'), r) \<Rightarrow> block_spec cb AtEntry l' r
           | (kDecodeInProgress, (v', l'), r) \<Rightarrow> (kDecodeInProgress, (v', l'), r)
           | (kDecodeError, (v', l'), r) \<Rightarrow> (kDecodeError, (v', l'), r))"
  by pat_completeness auto
termination
  by (relation "measures [\<lambda>(cb, v, l, xs). length xs, \<lambda>(cb, v, l, xs). if v = AtEntry then 0 else 1]")
    (auto dest: entry_spec_decreases[OF sym])

declare block_spec.simps [simp del]

section \<open>Refinement\<close>

fun entry_in_step :: "('l \<Rightarrow> bool) \<Rightarrow> ('l \<Rightarrow> bool) \<Rightarrow> (nat \<Rightarrow> 'l \<Rightarrow> bool) \<Rightarrow> ('l \<Rightarrow> bool) \<Rightarrow> (nat \<Rightarrow> 'l \<Rightarrow> bool) \<Rightarrow>
    entry_view \<Rightarrow> 'l \<Rightarrow> bool" where
  "entry_in_step idle name_ready name_pend value_ready value_pend (InName v) l \<longleftrightarrow> in_step name_ready name_pend v l"
| "entry_in_step idle name_ready name_pend value_ready value_pend (InValue v) l \<longleftrightarrow> in_step value_ready value_pend v l"
| "entry_in_step idle name_ready name_pend value_ready value_pend v l \<longleftrightarrow> idle l"

fun view_entry_res :: "('l \<Rightarrow> 'a) \<Rightarrow> DecodeStatus \<times> (HpackEntryDecoder \<times> 'l) \<times> DecodeBuffer \<Rightarrow> 'a entry_result" where
  "view_entry_res al (st, (s, l), db) =
     (st, (if st = kDecodeInProgress then view_entry s else AtEntry, al l), rest db)"

text \<open>
  The contract with an entry listener. It is \<open>idle\<close> between entries; a literal header makes it
  ready for a name or a value; the name and value callbacks form string listeners.
\<close>

locale entry_client =
  name: string_client "NameDecoderListener cb" "NameDecoderListener acb" al name_ready name_pend value_ready +
  val: string_client "ValueDecoderListener cb" "ValueDecoderListener acb" al value_ready value_pend idle
  for cb :: "'l entry_listener" and acb :: "'a entry_listener" and al :: "'l \<Rightarrow> 'a"
    and idle name_ready value_ready :: "'l \<Rightarrow> bool" and name_pend value_pend :: "nat \<Rightarrow> 'l \<Rightarrow> bool" +
  assumes indexed: "idle l \<Longrightarrow> al (el_OnIndexedHeader cb n l) = el_OnIndexedHeader acb n (al l)"
    and indexed_idle: "idle l \<Longrightarrow> idle (el_OnIndexedHeader cb n l)"
    and size_update: "idle l \<Longrightarrow> al (el_OnDynamicTableSizeUpdate cb n l) = el_OnDynamicTableSizeUpdate acb n (al l)"
    and size_update_idle: "idle l \<Longrightarrow> idle (el_OnDynamicTableSizeUpdate cb n l)"
    and literal: "idle l \<Longrightarrow> al (el_OnStartLiteralHeader cb ty n l) = el_OnStartLiteralHeader acb ty n (al l)"
    and literal_name: "idle l \<Longrightarrow> name_ready (el_OnStartLiteralHeader cb ty 0 l)"
    and literal_value: "idle l \<Longrightarrow> n \<noteq> 0 \<Longrightarrow> value_ready (el_OnStartLiteralHeader cb ty n l)"
begin

abbreviation step_ok :: "entry_view \<Rightarrow> 'l \<Rightarrow> bool" where
  "step_ok \<equiv> entry_in_step idle name_ready name_pend value_ready value_pend"

abbreviation post_ok :: "DecodeStatus \<times> (HpackEntryDecoder \<times> 'l) \<times> DecodeBuffer \<Rightarrow> bool" where
  "post_ok r \<equiv> (case r of (st, (s, l), db) \<Rightarrow>
     (st = kDecodeInProgress \<longrightarrow> step_ok (view_entry s) l) \<and> (st = kDecodeDone \<longrightarrow> idle l))"

lemma value_refines:
  assumes "ed_state s = kStartDecodingValue \<and> value_ready l \<and> v = AtLength \<or>
     ed_state s = kResumeDecodingValue \<and> v = view_string (ed_string_decoder s) \<and> in_step value_ready value_pend v l"
  shows "view_entry_res al (EntryDecoder_Resume cb s l db) = entry_value acb v (al l) (rest db) \<and>
    post_ok (EntryDecoder_Resume cb s l db)"
proof -
  let ?f = "if ed_state s = kStartDecodingValue then StringDecoder_Start else StringDecoder_Resume"
  obtain st sd l' db' where r: "?f (ValueDecoderListener cb) (ed_string_decoder s) l db = (st, (sd, l'), db')"
    by (metis prod.exhaust)
  have "string_spec (ValueDecoderListener acb) v (al l) (rest db) =
      (st, (if st = kDecodeInProgress then view_string sd else AtLength, al l'), rest db')"
    "string_post value_ready value_pend idle (st, (sd, l'), db')"
    using assms val.Start_refines[of l "ed_string_decoder s" db] val.Resume_refines[of "ed_string_decoder s" l db] r
    by auto
  then show ?thesis using assms r
    by (cases st) (auto simp: EntryDecoder_Resume.simps[of cb s] entry_value_def view_entry_def split: if_splits)
qed

lemma name_refines:
  assumes "ed_state s = kStartDecodingName \<and> name_ready l \<and> v = AtLength \<or>
     ed_state s = kResumeDecodingName \<and> v = view_string (ed_string_decoder s) \<and> in_step name_ready name_pend v l"
  shows "view_entry_res al (EntryDecoder_Resume cb s l db) = entry_name acb v (al l) (rest db) \<and>
    post_ok (EntryDecoder_Resume cb s l db)"
proof -
  let ?f = "if ed_state s = kStartDecodingName then StringDecoder_Start else StringDecoder_Resume"
  obtain st sd l' db' where r: "?f (NameDecoderListener cb) (ed_string_decoder s) l db = (st, (sd, l'), db')"
    by (metis prod.exhaust)
  have v: "string_spec (NameDecoderListener acb) v (al l) (rest db) =
      (st, (if st = kDecodeInProgress then view_string sd else AtLength, al l'), rest db')"
    "string_post name_ready name_pend value_ready (st, (sd, l'), db')"
    using assms name.Start_refines[of l "ed_string_decoder s" db] name.Resume_refines[of "ed_string_decoder s" l db] r
    by auto
  show ?thesis
  proof (cases "st = kDecodeDone")
    case True
    let ?s = "s\<lparr>ed_string_decoder := sd, ed_state := kStartDecodingValue\<rparr>"
    have e: "EntryDecoder_Resume cb s l db = EntryDecoder_Resume cb ?s l' db'"
      using assms r True by (auto simp: EntryDecoder_Resume.simps[of cb s] split: if_splits)
    show ?thesis using value_refines[of ?s l' AtLength db'] v True
      unfolding e by (simp add: entry_name_def)
  next
    case False
    then show ?thesis using assms r v
      by (cases st) (auto simp: EntryDecoder_Resume.simps[of cb s] entry_name_def view_entry_def split: if_splits)
  qed
qed

lemma dispatch_refines:
  assumes "ed_state s = kDecodedType" "idle l"
  shows "view_entry_res al (EntryDecoder_Resume cb s l db) =
      entry_dispatch acb (et_entry_type (ed_entry_type_decoder s))
        (unat (vd_value (et_varint_decoder (ed_entry_type_decoder s)))) (al l) (rest db) \<and>
    post_ok (EntryDecoder_Resume cb s l db)"
proof -
  let ?ty = "et_entry_type (ed_entry_type_decoder s)"
    and ?n = "unat (vd_value (et_varint_decoder (ed_entry_type_decoder s)))"
  note e = EntryDecoder_Resume.simps[of cb s l db]
  consider "?ty = kIndexedHeader" | "?ty = kDynamicTableSizeUpdate"
    | "?ty \<noteq> kIndexedHeader" "?ty \<noteq> kDynamicTableSizeUpdate" by blast
  then show ?thesis
  proof cases
    case 3
    let ?l = "el_OnStartLiteralHeader cb ?ty ?n l"
    let ?s = "if ?n = 0 then s\<lparr>ed_state := kStartDecodingName\<rparr> else s\<lparr>ed_state := kStartDecodingValue\<rparr>"
    have "DispatchOnType cb s l = (False, ?s, ?l)"
      using 3 by (cases ?ty) (simp_all add: DispatchOnType_def Let_def)
    then have "EntryDecoder_Resume cb s l db = EntryDecoder_Resume cb ?s ?l db"
      using assms(1) by (simp add: e)
    then show ?thesis
      using 3 assms literal[OF assms(2), of ?ty ?n] literal_name[OF assms(2), of ?ty] literal_value[OF assms(2), of ?n ?ty]
        name_refines[of ?s ?l AtLength db] value_refines[of ?s ?l AtLength db]
      by (cases "?n = 0") (auto simp: entry_dispatch_def)
  qed (use assms in \<open>auto simp: e DispatchOnType_def Let_def entry_dispatch_def indexed indexed_idle
      size_update size_update_idle\<close>)
qed

lemma type_refines:
  assumes "ed_state s = kResumeDecodingType" "idle l"
  shows "view_entry_res al (EntryDecoder_Resume cb s l db) =
      entry_type_spec acb (et_entry_type (ed_entry_type_decoder s)) (et_varint_decoder (ed_entry_type_decoder s))
        (al l) (rest db) \<and>
    post_ok (EntryDecoder_Resume cb s l db)"
proof -
  let ?td = "ed_entry_type_decoder s"
  obtain st t n where v: "varint_ext (et_varint_decoder ?td) (rest db) = (st, t, n)"
    by (cases "varint_ext (et_varint_decoder ?td) (rest db)") auto
  have r: "EntryTypeDecoder_Resume ?td db = (st, ?td\<lparr>et_varint_decoder := t\<rparr>, AdvanceCursor db n)"
    by (simp add: EntryTypeDecoder_Resume_def VarintDecoder_Resume_at v)
  show ?thesis
  proof (cases "st = kDecodeDone")
    case True
    let ?s = "s\<lparr>ed_entry_type_decoder := ?td\<lparr>et_varint_decoder := t\<rparr>, ed_state := kDecodedType\<rparr>"
    have "EntryDecoder_Resume cb s l db = EntryDecoder_Resume cb ?s l (AdvanceCursor db n)"
      using assms(1) r True by (simp add: EntryDecoder_Resume.simps[of cb s])
    then show ?thesis
      using dispatch_refines[of ?s l "AdvanceCursor db n"] assms(2) True v
      by (simp add: entry_type_spec_def rest_simps)
  next
    case False
    then show ?thesis
      using assms r v varint_ext_pause[of "et_varint_decoder ?td" "rest db" t n]
      by (cases st) (simp_all add: EntryDecoder_Resume.simps[of cb s] entry_type_spec_def view_entry_def rest_simps)
  qed
qed

lemma entry_Resume_refines:
  assumes "step_ok (view_entry s) l" "view_entry s \<noteq> AtEntry"
  shows "view_entry_res al (EntryDecoder_Resume cb s l db) = entry_spec acb (view_entry s) (al l) (rest db) \<and>
    post_ok (EntryDecoder_Resume cb s l db)"
proof (cases "ed_state s")
  case kResumeDecodingType
  then show ?thesis using type_refines[of s l db] assms by (simp add: view_entry_def)
next
  case kResumeDecodingName
  then show ?thesis using name_refines[of s l _ db] assms by (simp add: view_entry_def)
next
  case kResumeDecodingValue
  then show ?thesis using value_refines[of s l _ db] assms by (simp add: view_entry_def)
qed (use assms in \<open>simp_all add: view_entry_def\<close>)

lemma entry_Start_refines:
  assumes "idle l" "rest db = b # bs"
  shows "view_entry_res al (EntryDecoder_Start cb s l db) = entry_spec acb AtEntry (al l) (rest db) \<and>
    post_ok (EntryDecoder_Start cb s l db)"
proof -
  let ?td = "ed_entry_type_decoder s" and ?db = "AdvanceCursor db 1"
  obtain ty m where tm: "entry_type_ref b = (ty, m)" by (cases "entry_type_ref b") auto
  have r1: "rest ?db = bs" using assms(2) by (simp add: rest_simps)
  let ?w = "\<lparr>vd_value = ucast (b AND m), vd_offset = 0\<rparr>"
  show ?thesis
  proof (cases "unat (b AND m) < unat m")
    case True
    let ?td' = "?td\<lparr>et_entry_type := ty, et_varint_decoder := (et_varint_decoder ?td)\<lparr>vd_value := ucast (b AND m)\<rparr>\<rparr>"
    let ?s = "s\<lparr>ed_entry_type_decoder := ?td', ed_state := kDecodedType\<rparr>"
    have "EntryTypeDecoder_Start ?td db = (kDecodeDone, ?td', ?db)"
      using True by (simp add: entry_type_Start_ref[OF assms(2)] tm VarintDecoder_Start_def word_less_nat_alt)
    then show ?thesis
      using dispatch_refines[of ?s l ?db] assms True tm r1
      by (auto simp: EntryDecoder_Start_def entry_dispatch_def indexed indexed_idle)
  next
    case False
    obtain st t n where v: "varint_ext ?w bs = (st, t, n)" by (cases "varint_ext ?w bs") auto
    let ?td' = "?td\<lparr>et_entry_type := ty, et_varint_decoder := t\<rparr>"
    let ?s = "s\<lparr>ed_entry_type_decoder := ?td', ed_state := kDecodedType\<rparr>"
    have w: "(et_varint_decoder ?td)\<lparr>vd_value := ucast (b AND m), vd_offset := 0\<rparr> = ?w"
      by (cases "et_varint_decoder ?td") simp
    have "EntryTypeDecoder_Start ?td db = (st, ?td', AdvanceCursor ?db n)"
      using False v r1 by (simp add: entry_type_Start_ref[OF assms(2)] tm VarintDecoder_Start_def
          word_less_nat_alt VarintDecoder_Resume_at w)
    then show ?thesis
      using dispatch_refines[of ?s l "AdvanceCursor ?db n"] assms False tm r1 v varint_ext_pause[of ?w bs t n]
      by (cases st) (auto simp: EntryDecoder_Start_def entry_dispatch_def entry_type_spec_def view_entry_def
          rest_simps indexed indexed_idle)
  qed
qed

end

text \<open>A whole block.\<close>

definition view_block :: "HpackBlockDecoder \<Rightarrow> entry_view" where
  "view_block s = (if bd_before_entry s then AtEntry else view_entry (bd_entry_decoder s))"

fun view_block_res :: "('l \<Rightarrow> 'a) \<Rightarrow> DecodeStatus \<times> (HpackBlockDecoder \<times> 'l) \<times> DecodeBuffer \<Rightarrow> 'a entry_result" where
  "view_block_res al (st, (s, l), db) =
     (st, (if st = kDecodeInProgress then view_block s else AtEntry, al l), rest db)"

context entry_client
begin

abbreviation block_ok :: "HpackBlockDecoder \<Rightarrow> 'l \<Rightarrow> bool" where
  "block_ok s l \<equiv> step_ok (view_block s) l \<and> (\<not> bd_before_entry s \<longrightarrow> view_block s \<noteq> AtEntry)"

abbreviation block_post :: "DecodeStatus \<times> (HpackBlockDecoder \<times> 'l) \<times> DecodeBuffer \<Rightarrow> bool" where
  "block_post r \<equiv> (case r of (st, (s, l), db) \<Rightarrow> st \<noteq> kDecodeError \<longrightarrow>
     block_ok s l \<and> (st = kDecodeDone \<longleftrightarrow> bd_before_entry s))"

lemma entry_spec_view: "entry_spec acb v a xs = (kDecodeInProgress, (v', a'), r) \<Longrightarrow> v = AtEntry \<and> xs = [] \<or> v' \<noteq> AtEntry"
  by (cases "(acb, v, a, xs)" rule: entry_spec.cases)
    (auto simp: entry_type_spec_def entry_dispatch_def entry_name_def entry_value_def Let_def
      split: prod.splits DecodeStatus.splits if_splits)

lemma entries_refines:
  "idle l \<Longrightarrow> bd_before_entry s \<Longrightarrow>
   view_block_res al (BlockDecoder_entries cb s l db) = block_spec acb AtEntry (al l) (rest db) \<and>
   block_post (BlockDecoder_entries cb s l db)"
proof (induction "length (rest db)" arbitrary: s l db rule: less_induct)
  case less
  show ?case
  proof (cases "rest db")
    case Nil
    then show ?thesis using less.prems
      by (simp add: BlockDecoder_entries.simps[of cb s] block_spec.simps[of acb] HasData_rest view_block_def)
  next
    case (Cons b bs)
    obtain st ed l' db' where r: "EntryDecoder_Start cb (bd_entry_decoder s) l db = (st, (ed, l'), db')"
      by (metis prod.exhaust)
    from entry_Start_refines[OF less.prems(1) Cons, of "bd_entry_decoder s"]
    have e: "entry_spec acb AtEntry (al l) (b # bs) = (st, (if st = kDecodeInProgress then view_entry ed else AtEntry, al l'), rest db')"
      and post: "(st = kDecodeInProgress \<longrightarrow> step_ok (view_entry ed) l') \<and> (st = kDecodeDone \<longrightarrow> idle l')"
      by (auto simp: r Cons)
    note unf = BlockDecoder_entries.simps[of cb s l db] block_spec.simps[of acb AtEntry "al l" "b # bs"]
    show ?thesis
    proof (cases st)
      case kDecodeDone
      have "length (rest db') < length (rest db)" using entry_spec_len(2)[OF e] Cons by simp
      from less.hyps[OF this, of l' "s\<lparr>bd_entry_decoder := ed\<rparr>"] show ?thesis
        using e post less.prems(2) r kDecodeDone by (simp add: unf HasData_rest Cons del: entry_spec.simps)
    next
      case kDecodeInProgress
      then show ?thesis using e post r entry_spec_view[of AtEntry "al l" "b # bs" "view_entry ed" "al l'" "rest db'"]
        by (simp add: unf HasData_rest Cons view_block_def del: entry_spec.simps)
    next
      case kDecodeError
      then show ?thesis using e r by (simp add: unf HasData_rest Cons del: entry_spec.simps)
    qed
  qed
qed

lemma block_Decode_refines:
  assumes "block_ok s l"
  shows "view_block_res al (BlockDecoder_Decode cb s l db) = block_spec acb (view_block s) (al l) (rest db) \<and>
   block_post (BlockDecoder_Decode cb s l db)"
proof (cases "bd_before_entry s")
  case True
  then show ?thesis using entries_refines[of l s db] assms by (simp add: BlockDecoder_Decode_def view_block_def)
next
  case False
  let ?v = "view_entry (bd_entry_decoder s)"
  have ok: "step_ok ?v l" "?v \<noteq> AtEntry" using assms False by (auto simp: view_block_def)
  obtain st ed l' db' where r: "EntryDecoder_Resume cb (bd_entry_decoder s) l db = (st, (ed, l'), db')"
    by (metis prod.exhaust)
  from entry_Resume_refines[OF ok, of db]
  have e: "entry_spec acb ?v (al l) (rest db) = (st, (if st = kDecodeInProgress then view_entry ed else AtEntry, al l'), rest db')"
    and post: "(st = kDecodeInProgress \<longrightarrow> step_ok (view_entry ed) l') \<and> (st = kDecodeDone \<longrightarrow> idle l')"
    by (auto simp: r)
  note unf = BlockDecoder_Decode_def[of cb s l db] block_spec.simps[of acb ?v "al l" "rest db"]
  have v: "view_block s = ?v" using False by (simp add: view_block_def)
  show ?thesis
  proof (cases st)
    case kDecodeDone
    then show ?thesis unfolding v
      using e post r False ok(2) entries_refines[of l' "s\<lparr>bd_entry_decoder := ed, bd_before_entry := True\<rparr>" db']
      by (simp add: unf)
  next
    case kDecodeInProgress
    then show ?thesis unfolding v
      using e post r False ok(2) entry_spec_view[of ?v "al l" "rest db" "view_entry ed" "al l'" "rest db'"]
      by (simp add: unf view_block_def)
  next
    case kDecodeError
    then show ?thesis unfolding v using e r False ok(2) by (simp add: unf)
  qed
qed

end

section \<open>Cuts\<close>

locale additive_entry_listener =
  name: additive_listener "NameDecoderListener cb" + val: additive_listener "ValueDecoderListener cb"
  for cb :: "'l entry_listener"
begin

abbreviation cut_of :: "'l entry_result \<Rightarrow> bytes \<Rightarrow> 'l entry_result" where
  "cut_of r ys \<equiv> (case r of (st, (v, l), xs) \<Rightarrow>
     if st = kDecodeInProgress then entry_spec cb v l ys else (st, (v, l), xs @ ys))"

lemma entry_value_cut: "entry_value cb v l (xs @ ys) = cut_of (entry_value cb v l xs) ys"
proof -
  obtain st v' l' r where e: "string_spec (ValueDecoderListener cb) v l xs = (st, (v', l'), r)"
    by (metis prod.exhaust)
  then show ?thesis using val.string_spec_cut[OF e, of ys]
    by (cases st) (simp_all add: entry_value_def)
qed

lemma entry_name_cut: "entry_name cb v l (xs @ ys) = cut_of (entry_name cb v l xs) ys"
proof -
  obtain st v' l' r where e: "string_spec (NameDecoderListener cb) v l xs = (st, (v', l'), r)"
    by (metis prod.exhaust)
  then show ?thesis using name.string_spec_cut[OF e, of ys] entry_value_cut[of AtLength l' r ys]
    by (cases st) (simp_all add: entry_name_def)
qed

lemma entry_dispatch_cut: "entry_dispatch cb ty n l (xs @ ys) = cut_of (entry_dispatch cb ty n l xs) ys"
  by (simp add: entry_dispatch_def entry_name_cut entry_value_cut)

lemma entry_type_cut: "entry_type_spec cb ty w l (xs @ ys) = cut_of (entry_type_spec cb ty w l xs) ys"
proof -
  obtain st t n where e: "varint_ext w xs = (st, t, n)" by (cases "varint_ext w xs") auto
  show ?thesis
  proof (cases "st = kDecodeInProgress")
    case True
    then show ?thesis using e varint_ext_resume[of w xs t n ys] varint_ext_pause[of w xs t n]
      by (simp add: entry_type_spec_def split: prod.split DecodeStatus.split)
  next
    case False
    have "drop n (xs @ ys) = drop n xs @ ys" using varint_ext_len[OF e] by simp
    then show ?thesis using False e varint_ext_stop[OF e False, of ys]
      by (cases st) (simp_all add: entry_type_spec_def entry_dispatch_cut del: drop_append)
  qed
qed

lemma entry_spec_cut: "entry_spec cb v l (xs @ ys) = cut_of (entry_spec cb v l xs) ys"
  by (cases "(cb, v, l, xs)" rule: entry_spec.cases)
    (auto simp: entry_value_cut entry_name_cut entry_dispatch_cut entry_type_cut Let_def split: prod.split)

lemma entry_spec_pause: "entry_spec cb v l xs = (kDecodeInProgress, vl, r) \<Longrightarrow> r = []"
  by (cases "(cb, v, l, xs)" rule: entry_spec.cases)
    (auto simp: entry_type_spec_def entry_dispatch_def entry_name_def entry_value_def Let_def
      dest: name.string_spec_pause val.string_spec_pause
      split: prod.splits DecodeStatus.splits if_splits)

lemma entry_spec_open: "entry_spec cb v l xs = (kDecodeInProgress, (v', l'), r) \<Longrightarrow> v = AtEntry \<and> xs = [] \<or> v' \<noteq> AtEntry"
  by (cases "(cb, v, l, xs)" rule: entry_spec.cases)
    (auto simp: entry_type_spec_def entry_dispatch_def entry_name_def entry_value_def Let_def
      split: prod.splits DecodeStatus.splits if_splits)

lemma block_spec_cut:
  "block_spec cb v l xs = (st, (v', l'), r) \<Longrightarrow>
   (st \<noteq> kDecodeError \<longrightarrow> r = []) \<and>
   block_spec cb v l (xs @ ys) = (if st = kDecodeError then (st, (v', l'), r @ ys) else block_spec cb v' l' ys)"
proof (induction "2 * length xs + (if v = AtEntry then 0 else 1)" arbitrary: v l xs rule: less_induct)
  case less
  show ?case
  proof (cases "v = AtEntry \<and> xs = []")
    case True
    then show ?thesis using less.prems by (simp add: block_spec.simps[of cb AtEntry l "[]"])
  next
    case False
    obtain st1 v1 l1 r1 where e: "entry_spec cb v l xs = (st1, (v1, l1), r1)" by (metis prod.exhaust)
    note unf = block_spec.simps[of cb v l xs] block_spec.simps[of cb v l "xs @ ys"]
    have c: "entry_spec cb v l (xs @ ys) = (if st1 = kDecodeInProgress then entry_spec cb v1 l1 ys else (st1, (v1, l1), r1 @ ys))"
      by (simp add: entry_spec_cut e)
    have ne: "\<not> (v = AtEntry \<and> xs @ ys = [])" using False by auto
    show ?thesis
    proof (cases st1)
      case kDecodeDone
      have "2 * length r1 + (if AtEntry = AtEntry then 0 else 1) < 2 * length xs + (if v = AtEntry then 0 else 1)"
        using entry_spec_decreases[OF e False] by auto
      note IH = less.hyps[OF this, of l1]
      have "block_spec cb v l xs = block_spec cb AtEntry l1 r1"
        using e False kDecodeDone by (simp only: unf(1)) simp
      moreover have "block_spec cb v l (xs @ ys) = block_spec cb AtEntry l1 (r1 @ ys)"
        using c ne kDecodeDone by (simp only: unf(2)) simp
      ultimately show ?thesis using IH less.prems by simp
    next
      case kDecodeInProgress
      have "v1 \<noteq> AtEntry" using entry_spec_open[of v l xs v1 l1 r1] e False kDecodeInProgress by auto
      moreover have "block_spec cb v l xs = (kDecodeInProgress, (v1, l1), r1)"
        using e False kDecodeInProgress by (simp only: unf(1)) simp
      moreover have "r1 = []" using e kDecodeInProgress entry_spec_pause by blast
      moreover have "block_spec cb v l (xs @ ys) = block_spec cb v1 l1 ys" if "v1 \<noteq> AtEntry"
        using c ne kDecodeInProgress that by (simp only: unf(2) block_spec.simps[of cb v1 l1 ys]) simp
      ultimately show ?thesis using less.prems by simp
    next
      case kDecodeError
      then show ?thesis using less.prems e c False ne by (auto simp: unf)
    qed
  qed
qed

end

end
