(* ===== verification/Hpack_Whole_Entry_Buffer.thy ===== *)
theory Hpack_Whole_Entry_Buffer
  imports Hpack_Decoder_State Hpack_Entry_Spec
begin

text \<open>
  \<^verbatim>\<open>http2/hpack/decoder/hpack_whole_entry_buffer.{h,cc}\<close>: collects the parts of an entry and hands
  whole entries to the decoder state. It is the listener of the entry decoder, so this theory shows
  that it meets the contract \<open>entry_client\<close>: its abstraction forgets where strings are stored, and
  everything but the decoder state once an error has been detected.
\<close>

section \<open>The code\<close>

text \<open>The listener is the decoder state until an error makes it the one that ignores all calls.\<close>

datatype HpackWholeEntryListener = DecoderState | NoOpListener

record HpackWholeEntryBuffer =
  we_listener :: HpackWholeEntryListener
  we_name :: HpackDecoderStringBuffer
  we_value :: HpackDecoderStringBuffer
  we_max_string_size_bytes :: nat
  we_maybe_name_index :: nat
  we_entry_type :: HpackEntryType
  we_error_detected :: bool

text \<open>The constructor leaves the name index and the type unset; \<open>OnStartLiteralHeader\<close> sets them.\<close>

definition HpackWholeEntryBuffer_init :: "nat \<Rightarrow> HpackWholeEntryBuffer" where
  "HpackWholeEntryBuffer_init max_string_size =
     \<lparr>we_listener = DecoderState, we_name = StringBuffer_init, we_value = StringBuffer_init,
      we_max_string_size_bytes = max_string_size, we_maybe_name_index = 0,
      we_entry_type = kIndexedHeader, we_error_detected = False\<rparr>"

definition set_max_string_size_bytes :: "nat \<Rightarrow> HpackWholeEntryBuffer \<Rightarrow> HpackWholeEntryBuffer" where
  "set_max_string_size_bytes n w = w\<lparr>we_max_string_size_bytes := n\<rparr>"

definition BufferStringsIfUnbuffered :: "HpackWholeEntryBuffer \<Rightarrow> HpackWholeEntryBuffer" where
  "BufferStringsIfUnbuffered w =
     w\<lparr>we_name := BufferStringIfUnbuffered (we_name w), we_value := BufferStringIfUnbuffered (we_value w)\<rparr>"

type_synonym entry_sink = "HpackWholeEntryBuffer \<times> HpackDecoderState"

definition WholeEntry_ReportError :: "string \<Rightarrow> entry_sink \<Rightarrow> entry_sink" where
  "WholeEntry_ReportError msg = (\<lambda>(w, ds).
     if \<not> we_error_detected w then
       (w\<lparr>we_error_detected := True, we_listener := NoOpListener\<rparr>,
        case we_listener w of DecoderState \<Rightarrow> State_OnHpackDecodeError msg ds | NoOpListener \<Rightarrow> ds)
     else (w, ds))"

definition WholeEntry_OnIndexedHeader :: "nat \<Rightarrow> entry_sink \<Rightarrow> entry_sink" where
  "WholeEntry_OnIndexedHeader index = (\<lambda>(w, ds).
     (w, case we_listener w of DecoderState \<Rightarrow> State_OnIndexedHeader index ds | NoOpListener \<Rightarrow> ds))"

definition WholeEntry_OnStartLiteralHeader :: "HpackEntryType \<Rightarrow> nat \<Rightarrow> entry_sink \<Rightarrow> entry_sink" where
  "WholeEntry_OnStartLiteralHeader entry_type maybe_name_index = (\<lambda>(w, ds).
     (w\<lparr>we_entry_type := entry_type, we_maybe_name_index := maybe_name_index\<rparr>, ds))"

definition WholeEntry_OnNameStart :: "bool \<Rightarrow> nat \<Rightarrow> entry_sink \<Rightarrow> entry_sink" where
  "WholeEntry_OnNameStart huffman_encoded len = (\<lambda>(w, ds).
     if \<not> we_error_detected w then
       if len > we_max_string_size_bytes w then
         WholeEntry_ReportError ''HPACK entry name size is too long.'' (w, ds)
       else (w\<lparr>we_name := StringBuffer_OnStart huffman_encoded len (we_name w)\<rparr>, ds)
     else (w, ds))"

definition WholeEntry_OnNameData :: "bytes \<Rightarrow> entry_sink \<Rightarrow> entry_sink" where
  "WholeEntry_OnNameData data = (\<lambda>(w, ds).
     if \<not> we_error_detected w then
       let (ok, name) = StringBuffer_OnData data (we_name w); w = w\<lparr>we_name := name\<rparr>
       in if \<not> ok then WholeEntry_ReportError ''Error decoding HPACK entry name.'' (w, ds) else (w, ds)
     else (w, ds))"

definition WholeEntry_OnNameEnd :: "entry_sink \<Rightarrow> entry_sink" where
  "WholeEntry_OnNameEnd = (\<lambda>(w, ds).
     if \<not> we_error_detected w then
       let (ok, name) = StringBuffer_OnEnd (we_name w); w = w\<lparr>we_name := name\<rparr>
       in if \<not> ok then WholeEntry_ReportError ''Error decoding HPACK entry name.'' (w, ds) else (w, ds)
     else (w, ds))"

definition WholeEntry_OnValueStart :: "bool \<Rightarrow> nat \<Rightarrow> entry_sink \<Rightarrow> entry_sink" where
  "WholeEntry_OnValueStart huffman_encoded len = (\<lambda>(w, ds).
     if \<not> we_error_detected w then
       if len > we_max_string_size_bytes w then
         WholeEntry_ReportError ''HPACK entry value size is too long.'' (w, ds)
       else (w\<lparr>we_value := StringBuffer_OnStart huffman_encoded len (we_value w)\<rparr>, ds)
     else (w, ds))"

definition WholeEntry_OnValueData :: "bytes \<Rightarrow> entry_sink \<Rightarrow> entry_sink" where
  "WholeEntry_OnValueData data = (\<lambda>(w, ds).
     if \<not> we_error_detected w then
       let (ok, value) = StringBuffer_OnData data (we_value w); w = w\<lparr>we_value := value\<rparr>
       in if \<not> ok then WholeEntry_ReportError ''Error decoding HPACK entry value.'' (w, ds) else (w, ds)
     else (w, ds))"

definition WholeEntry_OnValueEnd :: "entry_sink \<Rightarrow> entry_sink" where
  "WholeEntry_OnValueEnd = (\<lambda>(w, ds).
     if we_error_detected w then (w, ds)
     else
       let (ok, value) = StringBuffer_OnEnd (we_value w); w = w\<lparr>we_value := value\<rparr>
       in if \<not> ok then WholeEntry_ReportError ''Error decoding HPACK entry value.'' (w, ds)
          else if we_maybe_name_index w = 0 then
            let (name, value, ds) =
                  (case we_listener w of
                     DecoderState \<Rightarrow> State_OnLiteralNameAndValue (we_entry_type w) (we_name w) (we_value w) ds
                   | NoOpListener \<Rightarrow> (we_name w, we_value w, ds))
            in (w\<lparr>we_name := StringBuffer_Reset name, we_value := StringBuffer_Reset value\<rparr>, ds)
          else
            let (value, ds) =
                  (case we_listener w of
                     DecoderState \<Rightarrow>
                       State_OnNameIndexAndLiteralValue (we_entry_type w) (we_maybe_name_index w) (we_value w) ds
                   | NoOpListener \<Rightarrow> (we_value w, ds))
            in (w\<lparr>we_value := StringBuffer_Reset value\<rparr>, ds))"

definition WholeEntry_OnDynamicTableSizeUpdate :: "nat \<Rightarrow> entry_sink \<Rightarrow> entry_sink" where
  "WholeEntry_OnDynamicTableSizeUpdate size_limit = (\<lambda>(w, ds).
     (w, case we_listener w of DecoderState \<Rightarrow> State_OnDynamicTableSizeUpdate size_limit ds | NoOpListener \<Rightarrow> ds))"

definition whole_entry_listener :: "entry_sink entry_listener" where
  "whole_entry_listener =
     \<lparr>el_OnIndexedHeader = WholeEntry_OnIndexedHeader,
      el_OnStartLiteralHeader = WholeEntry_OnStartLiteralHeader,
      el_OnNameStart = WholeEntry_OnNameStart, el_OnNameData = WholeEntry_OnNameData,
      el_OnNameEnd = WholeEntry_OnNameEnd, el_OnValueStart = WholeEntry_OnValueStart,
      el_OnValueData = WholeEntry_OnValueData, el_OnValueEnd = WholeEntry_OnValueEnd,
      el_OnDynamicTableSizeUpdate = WholeEntry_OnDynamicTableSizeUpdate\<rparr>"

lemmas whole_entry_defs =
  whole_entry_listener_def WholeEntry_ReportError_def WholeEntry_OnIndexedHeader_def
  WholeEntry_OnStartLiteralHeader_def WholeEntry_OnNameStart_def WholeEntry_OnNameData_def
  WholeEntry_OnNameEnd_def WholeEntry_OnValueStart_def WholeEntry_OnValueData_def
  WholeEntry_OnValueEnd_def WholeEntry_OnDynamicTableSizeUpdate_def

section \<open>The abstract sink\<close>

text \<open>
  The parts of the current entry, with the views of its strings; none of it is left after an error.
\<close>

record entry_parts =
  ep_type :: HpackEntryType
  ep_index :: nat
  ep_max :: nat
  ep_name :: buffer_view
  ep_value :: buffer_view

type_synonym abs_sink = "entry_parts option \<times> HpackDecoderState"

abbreviation sink_fail :: "string \<Rightarrow> HpackDecoderState \<Rightarrow> abs_sink" where
  "sink_fail msg ds \<equiv> (None, State_OnHpackDecodeError msg ds)"

fun view_text :: "buffer_view \<Rightarrow> bytes" where
  "view_text (VComplete s) = s"
| "view_text v = []"

abbreviation on_parts :: "(entry_parts \<Rightarrow> HpackDecoderState \<Rightarrow> abs_sink) \<Rightarrow> abs_sink \<Rightarrow> abs_sink" where
  "on_parts f \<equiv> (\<lambda>(p, ds). case p of None \<Rightarrow> (None, ds) | Some e \<Rightarrow> f e ds)"

definition abs_listener :: "abs_sink entry_listener" where
  "abs_listener =
     \<lparr>el_OnIndexedHeader = (\<lambda>n. on_parts (\<lambda>e ds. (Some e, State_OnIndexedHeader n ds))),
      el_OnStartLiteralHeader = (\<lambda>ty n. on_parts (\<lambda>e ds. (Some (e\<lparr>ep_type := ty, ep_index := n\<rparr>), ds))),
      el_OnNameStart = (\<lambda>h n. on_parts (\<lambda>e ds.
        if n > ep_max e then sink_fail ''HPACK entry name size is too long.'' ds
        else (Some (e\<lparr>ep_name := view_OnStart h n\<rparr>), ds))),
      el_OnNameData = (\<lambda>xs. on_parts (\<lambda>e ds. case view_OnData xs (ep_name e) of (ok, v) \<Rightarrow>
        if ok then (Some (e\<lparr>ep_name := v\<rparr>), ds) else sink_fail ''Error decoding HPACK entry name.'' ds)),
      el_OnNameEnd = on_parts (\<lambda>e ds. case view_OnEnd (ep_name e) of (ok, v) \<Rightarrow>
        if ok then (Some (e\<lparr>ep_name := v\<rparr>), ds) else sink_fail ''Error decoding HPACK entry name.'' ds),
      el_OnValueStart = (\<lambda>h n. on_parts (\<lambda>e ds.
        if n > ep_max e then sink_fail ''HPACK entry value size is too long.'' ds
        else (Some (e\<lparr>ep_value := view_OnStart h n\<rparr>), ds))),
      el_OnValueData = (\<lambda>xs. on_parts (\<lambda>e ds. case view_OnData xs (ep_value e) of (ok, v) \<Rightarrow>
        if ok then (Some (e\<lparr>ep_value := v\<rparr>), ds) else sink_fail ''Error decoding HPACK entry value.'' ds)),
      el_OnValueEnd = on_parts (\<lambda>e ds. case view_OnEnd (ep_value e) of (ok, v) \<Rightarrow>
        if ok then
          (Some (e\<lparr>ep_name := (if ep_index e = 0 then VReset else ep_name e), ep_value := VReset\<rparr>),
           State_entry (ep_type e) (if ep_index e = 0 then Inr (view_text (ep_name e)) else Inl (ep_index e))
             (view_text v) ds)
        else sink_fail ''Error decoding HPACK entry value.'' ds),
      el_OnDynamicTableSizeUpdate = (\<lambda>n. on_parts (\<lambda>e ds. (Some e, State_OnDynamicTableSizeUpdate n ds)))\<rparr>"

definition abs_sink :: "entry_sink \<Rightarrow> abs_sink" where
  "abs_sink = (\<lambda>(w, ds).
     (if we_error_detected w then None
      else Some \<lparr>ep_type = we_entry_type w, ep_index = we_maybe_name_index w,
             ep_max = we_max_string_size_bytes w,
             ep_name = view_buffer (we_name w), ep_value = view_buffer (we_value w)\<rparr>, ds))"

lemmas listener_defs = NameDecoderListener_def ValueDecoderListener_def

lemma data_cases:
  assumes "view_OnData xs v = (ok, v') \<Longrightarrow> ok \<Longrightarrow> view_OnData (xs @ ys) v = view_OnData ys v' \<Longrightarrow> P"
    and "view_OnData xs v = (ok, v') \<Longrightarrow> \<not> ok \<Longrightarrow> \<not> fst (view_OnData (xs @ ys) v) \<Longrightarrow> P"
    and "view_OnData xs v = (ok, v')"
  shows P
  using assms view_OnData_append[of xs v v' ys] view_OnData_fail[of xs v v' ys] by (cases ok) auto

interpretation sink: additive_entry_listener abs_listener
proof unfold_locales
  show "sl_OnStringData (NameDecoderListener abs_listener) ys (sl_OnStringData (NameDecoderListener abs_listener) xs l) =
      sl_OnStringData (NameDecoderListener abs_listener) (xs @ ys) l" for xs ys l
  proof (cases l)
    case (Pair p ds)
    show ?thesis
    proof (cases p)
      case (Some e)
      show ?thesis
        by (rule data_cases[of xs "ep_name e" _ _ ys, OF _ _ surjective_pairing])
          (simp_all add: Pair Some listener_defs abs_listener_def case_prod_beta)
    qed (simp add: Pair listener_defs abs_listener_def)
  qed
  show "sl_OnStringData (ValueDecoderListener abs_listener) ys (sl_OnStringData (ValueDecoderListener abs_listener) xs l) =
      sl_OnStringData (ValueDecoderListener abs_listener) (xs @ ys) l" for xs ys l
  proof (cases l)
    case (Pair p ds)
    show ?thesis
    proof (cases p)
      case (Some e)
      show ?thesis
        by (rule data_cases[of xs "ep_value e" _ _ ys, OF _ _ surjective_pairing])
          (simp_all add: Pair Some listener_defs abs_listener_def case_prod_beta)
    qed (simp add: Pair listener_defs abs_listener_def)
  qed
qed (auto simp: listener_defs abs_listener_def split: option.split)

section \<open>The contract is met\<close>

text \<open>
  The states of the buffer between the calls of the entry decoder. A string buffer is \<open>detached\<close>
  when it does not point into the transport buffer. The buffers are detached between entries,
  and during an entry as long as they do not hold the string of that entry.
\<close>

definition detached :: "HpackDecoderStringBuffer \<Rightarrow> bool" where
  "detached sb \<longleftrightarrow> sb_state sb = S_RESET \<or> sb_backing sb \<noteq> B_UNBUFFERED"

definition name_done :: "HpackWholeEntryBuffer \<Rightarrow> bool" where
  "name_done w \<longleftrightarrow>
     (if we_maybe_name_index w = 0 then buffer_ok (we_name w) \<and> (\<exists>s. view_buffer (we_name w) = VComplete s)
      else detached (we_name w))"

definition sink_good :: "(HpackWholeEntryBuffer \<Rightarrow> bool) \<Rightarrow> entry_sink \<Rightarrow> bool" where
  "sink_good P = (\<lambda>(w, ds).
     if we_error_detected w then we_listener w = NoOpListener else we_listener w = DecoderState \<and> P w)"

definition sink_idle :: "entry_sink \<Rightarrow> bool" where
  "sink_idle = sink_good (\<lambda>w. detached (we_name w) \<and> detached (we_value w))"

definition sink_name_ready :: "entry_sink \<Rightarrow> bool" where
  "sink_name_ready = sink_good (\<lambda>w. we_maybe_name_index w = 0 \<and> detached (we_name w) \<and> detached (we_value w))"

definition sink_name_pend :: "nat \<Rightarrow> entry_sink \<Rightarrow> bool" where
  "sink_name_pend n = sink_good (\<lambda>w. we_maybe_name_index w = 0 \<and> detached (we_value w) \<and>
     buffer_ok (we_name w) \<and> remaining (view_buffer (we_name w)) = Some n)"

definition sink_value_ready :: "entry_sink \<Rightarrow> bool" where
  "sink_value_ready = sink_good (\<lambda>w. name_done w \<and> detached (we_value w))"

definition sink_value_pend :: "nat \<Rightarrow> entry_sink \<Rightarrow> bool" where
  "sink_value_pend n = sink_good (\<lambda>w. name_done w \<and>
     buffer_ok (we_value w) \<and> remaining (view_buffer (we_value w)) = Some n)"

lemmas sink_defs = sink_good_def sink_idle_def sink_name_ready_def sink_name_pend_def
  sink_value_ready_def sink_value_pend_def name_done_def

lemma remaining_iff: "remaining v = Some n \<longleftrightarrow> (\<exists>c. v = VCollect n c)"
  by (cases v) auto

lemma detached_simps [simp]:
  "detached (StringBuffer_Reset sb)" "detached StringBuffer_init" "detached (BufferStringIfUnbuffered sb)"
  using BufferString_backing[of sb] by (auto simp: detached_def string_buffer_defs)

lemma OnEnd_complete: "view_OnEnd (VCollect n c) = (True, v) \<Longrightarrow> \<exists>s. v = VComplete s"
  by (cases c) (auto split: if_splits)

lemma name_data:
  assumes "sink_name_pend n l" "length xs \<le> n"
  shows "abs_sink (WholeEntry_OnNameData xs l) = el_OnNameData abs_listener xs (abs_sink l)"
    and "sink_name_pend (n - length xs) (WholeEntry_OnNameData xs l)"
proof -
  obtain w ds where l: "l = (w, ds)" by (cases l)
  obtain b sb where d: "StringBuffer_OnData xs (we_name w) = (b, sb)" by fastforce
  obtain b' v where v: "view_OnData xs (view_buffer (we_name w)) = (b', v)" by fastforce
  note D = OnData_view[of "we_name w" n _ xs b sb b' v, OF _ _ _ d v]
  show "abs_sink (WholeEntry_OnNameData xs l) = el_OnNameData abs_listener xs (abs_sink l)"
    using assms D
    by (cases "we_error_detected w")
      (auto simp: l abs_sink_def WholeEntry_OnNameData_def WholeEntry_ReportError_def abs_listener_def d v sink_defs remaining_iff)
  show "sink_name_pend (n - length xs) (WholeEntry_OnNameData xs l)"
    using assms D
    by (cases "we_error_detected w")
      (auto simp: l WholeEntry_OnNameData_def WholeEntry_ReportError_def d sink_defs remaining_iff)
qed

lemma value_data:
  assumes "sink_value_pend n l" "length xs \<le> n"
  shows "abs_sink (WholeEntry_OnValueData xs l) = el_OnValueData abs_listener xs (abs_sink l)"
    and "sink_value_pend (n - length xs) (WholeEntry_OnValueData xs l)"
proof -
  obtain w ds where l: "l = (w, ds)" by (cases l)
  obtain b sb where d: "StringBuffer_OnData xs (we_value w) = (b, sb)" by fastforce
  obtain b' v where v: "view_OnData xs (view_buffer (we_value w)) = (b', v)" by fastforce
  note D = OnData_view[of "we_value w" n _ xs b sb b' v, OF _ _ _ d v]
  show "abs_sink (WholeEntry_OnValueData xs l) = el_OnValueData abs_listener xs (abs_sink l)"
    using assms D
    by (cases "we_error_detected w")
      (auto simp: l abs_sink_def WholeEntry_OnValueData_def WholeEntry_ReportError_def abs_listener_def d v sink_defs remaining_iff)
  show "sink_value_pend (n - length xs) (WholeEntry_OnValueData xs l)"
    using assms D
    by (cases "we_error_detected w")
      (auto simp: l WholeEntry_OnValueData_def WholeEntry_ReportError_def d sink_defs remaining_iff)
qed

lemma name_end:
  assumes "sink_name_pend 0 l"
  shows "abs_sink (WholeEntry_OnNameEnd l) = el_OnNameEnd abs_listener (abs_sink l)"
    and "sink_value_ready (WholeEntry_OnNameEnd l)"
proof -
  obtain w ds where l: "l = (w, ds)" by (cases l)
  obtain b sb where d: "StringBuffer_OnEnd (we_name w) = (b, sb)" by fastforce
  obtain b' v where v: "view_OnEnd (view_buffer (we_name w)) = (b', v)" by fastforce
  note D = OnEnd_view[of "we_name w" 0 _ b sb b' v, OF _ _ d v]
  show "abs_sink (WholeEntry_OnNameEnd l) = el_OnNameEnd abs_listener (abs_sink l)"
    using assms D
    by (cases "we_error_detected w")
      (auto simp: l abs_sink_def WholeEntry_OnNameEnd_def WholeEntry_ReportError_def abs_listener_def d v sink_defs remaining_iff)
  show "sink_value_ready (WholeEntry_OnNameEnd l)"
    using assms D v OnEnd_complete
    by (cases "we_error_detected w")
      (auto simp: l WholeEntry_OnNameEnd_def WholeEntry_ReportError_def d sink_defs remaining_iff)
qed

lemma value_end:
  assumes "sink_value_pend 0 l"
  shows "abs_sink (WholeEntry_OnValueEnd l) = el_OnValueEnd abs_listener (abs_sink l)"
    and "sink_idle (WholeEntry_OnValueEnd l)"
proof -
  obtain w ds where l: "l = (w, ds)" by (cases l)
  obtain b sb where d: "StringBuffer_OnEnd (we_value w) = (b, sb)" by fastforce
  obtain b' v where v: "view_OnEnd (view_buffer (we_value w)) = (b', v)" by fastforce
  have "abs_sink (WholeEntry_OnValueEnd l) = el_OnValueEnd abs_listener (abs_sink l) \<and>
    sink_idle (WholeEntry_OnValueEnd l)"
  proof (cases "we_error_detected w")
    case True
    then show ?thesis using assms by (simp add: l WholeEntry_OnValueEnd_def abs_sink_def abs_listener_def sink_defs)
  next
    case False
    have w: "we_listener w = DecoderState" "name_done w" "buffer_ok (we_value w)"
      using assms False by (auto simp: l sink_value_pend_def sink_good_def)
    obtain c where c: "view_buffer (we_value w) = VCollect 0 c"
      using assms False by (auto simp: l sink_defs remaining_iff)
    note D = OnEnd_view[OF w(3) c d v]
    show ?thesis
    proof (cases b)
      case bF: False
      then show ?thesis using D False w
        by (simp add: l WholeEntry_OnValueEnd_def WholeEntry_ReportError_def abs_sink_def abs_listener_def d v sink_defs)
    next
      case True
      obtain s where s: "v = VComplete s" using OnEnd_complete[of 0 c v] v c D(1) True by auto
      have sb: "buffer_ok sb" "view_buffer sb = VComplete s" using D(2)[OF True] s by auto
      show ?thesis
      proof (cases "we_maybe_name_index w = 0")
        case i: True
        obtain r where r: "buffer_ok (we_name w)" "view_buffer (we_name w) = VComplete r"
          using w(2) i by (auto simp: name_done_def)
        obtain n' v' ds' where q: "State_OnLiteralNameAndValue (we_entry_type w) (we_name w) sb ds = (n', v', ds')"
          by (metis prod.exhaust)
        have "ds' = State_entry (we_entry_type w) (Inr r) s ds"
          using OnLiteral_entry[OF r sb, of "we_entry_type w" ds] by (simp add: q)
        then show ?thesis using True False i w(1) D(1) v d r s
          by (simp add: l WholeEntry_OnValueEnd_def abs_sink_def abs_listener_def q sink_defs)
      next
        case i: False
        obtain v' ds' where q: "State_OnNameIndexAndLiteralValue (we_entry_type w) (we_maybe_name_index w) sb ds = (v', ds')"
          by (metis prod.exhaust)
        have "ds' = State_entry (we_entry_type w) (Inl (we_maybe_name_index w)) s ds"
          using OnNameIndex_entry[OF sb, of "we_entry_type w" "we_maybe_name_index w" ds] by (simp add: q)
        then show ?thesis using True False i w(1,2) D(1) v d s
          by (simp add: l WholeEntry_OnValueEnd_def abs_sink_def abs_listener_def q sink_defs)
      qed
    qed
  qed
  then show "abs_sink (WholeEntry_OnValueEnd l) = el_OnValueEnd abs_listener (abs_sink l)"
    "sink_idle (WholeEntry_OnValueEnd l)" by auto
qed

lemma remaining_OnStart [simp]: "remaining (view_OnStart h n) = Some n"
  by (simp add: view_OnStart_def)

lemma strings_start:
  "sink_name_ready (w, ds) \<Longrightarrow>
     abs_sink (WholeEntry_OnNameStart h n (w, ds)) = el_OnNameStart abs_listener h n (abs_sink (w, ds))"
  "sink_name_ready (w, ds) \<Longrightarrow> sink_name_pend n (WholeEntry_OnNameStart h n (w, ds))"
  "sink_value_ready (w, ds) \<Longrightarrow>
     abs_sink (WholeEntry_OnValueStart h n (w, ds)) = el_OnValueStart abs_listener h n (abs_sink (w, ds))"
  "sink_value_ready (w, ds) \<Longrightarrow> sink_value_pend n (WholeEntry_OnValueStart h n (w, ds))"
  by (simp_all add: WholeEntry_OnNameStart_def WholeEntry_OnValueStart_def WholeEntry_ReportError_def
        abs_sink_def abs_listener_def sink_defs OnStart_view split: if_splits)

lemma entry_events:
  "sink_idle (w, ds) \<Longrightarrow>
     abs_sink (WholeEntry_OnIndexedHeader n (w, ds)) = el_OnIndexedHeader abs_listener n (abs_sink (w, ds))"
  "sink_idle (w, ds) \<Longrightarrow> sink_idle (WholeEntry_OnIndexedHeader n (w, ds))"
  "sink_idle (w, ds) \<Longrightarrow>
     abs_sink (WholeEntry_OnDynamicTableSizeUpdate n (w, ds)) = el_OnDynamicTableSizeUpdate abs_listener n (abs_sink (w, ds))"
  "sink_idle (w, ds) \<Longrightarrow> sink_idle (WholeEntry_OnDynamicTableSizeUpdate n (w, ds))"
  "sink_idle (w, ds) \<Longrightarrow>
     abs_sink (WholeEntry_OnStartLiteralHeader ty n (w, ds)) = el_OnStartLiteralHeader abs_listener ty n (abs_sink (w, ds))"
  "sink_idle (w, ds) \<Longrightarrow> sink_name_ready (WholeEntry_OnStartLiteralHeader ty 0 (w, ds))"
  "sink_idle (w, ds) \<Longrightarrow> n \<noteq> 0 \<Longrightarrow> sink_value_ready (WholeEntry_OnStartLiteralHeader ty n (w, ds))"
  by (simp_all add: WholeEntry_OnIndexedHeader_def WholeEntry_OnDynamicTableSizeUpdate_def
        WholeEntry_OnStartLiteralHeader_def abs_sink_def abs_listener_def sink_defs split: if_splits)

lemma whole_entry_fields [simp]:
  "el_OnIndexedHeader whole_entry_listener = WholeEntry_OnIndexedHeader"
  "el_OnStartLiteralHeader whole_entry_listener = WholeEntry_OnStartLiteralHeader"
  "el_OnNameStart whole_entry_listener = WholeEntry_OnNameStart"
  "el_OnNameData whole_entry_listener = WholeEntry_OnNameData"
  "el_OnNameEnd whole_entry_listener = WholeEntry_OnNameEnd"
  "el_OnValueStart whole_entry_listener = WholeEntry_OnValueStart"
  "el_OnValueData whole_entry_listener = WholeEntry_OnValueData"
  "el_OnValueEnd whole_entry_listener = WholeEntry_OnValueEnd"
  "el_OnDynamicTableSizeUpdate whole_entry_listener = WholeEntry_OnDynamicTableSizeUpdate"
  by (simp_all add: whole_entry_listener_def)

lemma listener_fields [simp]:
  "sl_OnStringStart (NameDecoderListener cb) = el_OnNameStart cb"
  "sl_OnStringData (NameDecoderListener cb) = el_OnNameData cb"
  "sl_OnStringEnd (NameDecoderListener cb) = el_OnNameEnd cb"
  "sl_OnStringStart (ValueDecoderListener cb) = el_OnValueStart cb"
  "sl_OnStringData (ValueDecoderListener cb) = el_OnValueData cb"
  "sl_OnStringEnd (ValueDecoderListener cb) = el_OnValueEnd cb"
  by (simp_all add: listener_defs)

interpretation web: entry_client whole_entry_listener abs_listener abs_sink
  sink_idle sink_name_ready sink_value_ready sink_name_pend sink_value_pend
  by unfold_locales
    (simp_all add: name_data value_data name_end value_end strings_start entry_events split_paired_all
      sink.name.data_empty[simplified] sink.val.data_empty[simplified])

end
