(* ===== verification/Hpack_Entry_Invariant.thy ===== *)
theory Hpack_Entry_Invariant
  imports Hpack_Entry_Spec
begin

text \<open>
  Invariants of a listener: a property that every callback keeps is kept by decoding a block,
  whatever its bytes are and wherever the decoding stops.
\<close>

locale entry_invariant =
  fixes cb :: "'l entry_listener" and P :: "'l \<Rightarrow> bool"
  assumes keeps_indexed: "P l \<Longrightarrow> P (el_OnIndexedHeader cb n l)"
    and keeps_literal: "P l \<Longrightarrow> P (el_OnStartLiteralHeader cb ty n l)"
    and keeps_name_start: "P l \<Longrightarrow> P (el_OnNameStart cb h n l)"
    and keeps_name_data: "P l \<Longrightarrow> P (el_OnNameData cb xs l)"
    and keeps_name_end: "P l \<Longrightarrow> P (el_OnNameEnd cb l)"
    and keeps_value_start: "P l \<Longrightarrow> P (el_OnValueStart cb h n l)"
    and keeps_value_data: "P l \<Longrightarrow> P (el_OnValueData cb xs l)"
    and keeps_value_end: "P l \<Longrightarrow> P (el_OnValueEnd cb l)"
    and keeps_size_update: "P l \<Longrightarrow> P (el_OnDynamicTableSizeUpdate cb n l)"
begin

lemma keeps_string:
  assumes s: "\<And>h n l. P l \<Longrightarrow> P (sl_OnStringStart sl h n l)" and d: "\<And>xs l. P l \<Longrightarrow> P (sl_OnStringData sl xs l)"
    and e: "\<And>l. P l \<Longrightarrow> P (sl_OnStringEnd sl l)"
  shows "P l \<Longrightarrow> string_spec sl v l xs = (st, (v', l'), r) \<Longrightarrow> P l'"
proof -
  have b: "P l \<Longrightarrow> string_body sl n l xs = (st, (v', l'), r) \<Longrightarrow> P l'" for n l xs st v' l' r
    by (auto simp: string_body_def s d e split: if_splits)
  show "P l \<Longrightarrow> string_spec sl v l xs = (st, (v', l'), r) \<Longrightarrow> P l'"
    by (cases "(sl, v, l, xs)" rule: string_spec.cases)
      (auto simp: string_start_body_def s dest!: b[rotated] split: if_splits prod.splits DecodeStatus.splits)
qed

lemma keeps_name: "P l \<Longrightarrow> string_spec (NameDecoderListener cb) v l xs = (st, (v', l'), r) \<Longrightarrow> P l'"
  by (rule keeps_string) (auto simp: NameDecoderListener_def keeps_name_start keeps_name_data keeps_name_end)

lemma keeps_value: "P l \<Longrightarrow> string_spec (ValueDecoderListener cb) v l xs = (st, (v', l'), r) \<Longrightarrow> P l'"
  by (rule keeps_string) (auto simp: ValueDecoderListener_def keeps_value_start keeps_value_data keeps_value_end)

lemma keeps_entry_value: "P l \<Longrightarrow> entry_value cb v l xs = (st, (v', l'), r) \<Longrightarrow> P l'"
  by (auto simp: entry_value_def dest: keeps_value split: prod.splits DecodeStatus.splits)

lemma keeps_entry_name: "P l \<Longrightarrow> entry_name cb v l xs = (st, (v', l'), r) \<Longrightarrow> P l'"
  by (auto simp: entry_name_def dest: keeps_name keeps_entry_value split: prod.splits DecodeStatus.splits)

lemma keeps_dispatch: "P l \<Longrightarrow> entry_dispatch cb ty n l xs = (st, (v', l'), r) \<Longrightarrow> P l'"
  by (auto simp: entry_dispatch_def keeps_indexed keeps_size_update
      dest: keeps_entry_name[rotated] keeps_entry_value[rotated] intro: keeps_literal split: if_splits)

lemma keeps_type: "P l \<Longrightarrow> entry_type_spec cb ty w l xs = (st, (v', l'), r) \<Longrightarrow> P l'"
  by (auto simp: entry_type_spec_def dest: keeps_dispatch split: prod.splits DecodeStatus.splits)

lemma keeps_entry: "P l \<Longrightarrow> entry_spec cb v l xs = (st, (v', l'), r) \<Longrightarrow> P l'"
  by (cases "(cb, v, l, xs)" rule: entry_spec.cases)
    (auto simp: Let_def dest: keeps_dispatch keeps_type keeps_entry_name keeps_entry_value
      split: prod.splits if_splits)

lemma keeps_block: "P l \<Longrightarrow> block_spec cb v l xs = (st, (v', l'), r) \<Longrightarrow> P l'"
proof (induction "2 * length xs + (if v = AtEntry then 0 else 1)" arbitrary: v l xs rule: less_induct)
  case less
  show ?case
  proof (cases "v = AtEntry \<and> xs = []")
    case True
    then show ?thesis using less.prems by (simp add: block_spec.simps[of cb AtEntry l "[]"])
  next
    case False
    obtain st1 v1 l1 r1 where e: "entry_spec cb v l xs = (st1, (v1, l1), r1)" by (metis prod.exhaust)
    have P1: "P l1" using keeps_entry[OF less.prems(1) e] .
    note b = less.prems(2)[unfolded block_spec.simps[of cb v l xs]]
    show ?thesis
    proof (cases st1)
      case kDecodeDone
      have "2 * length r1 + (if AtEntry = AtEntry then 0 else 1) < 2 * length xs + (if v = AtEntry then 0 else 1)"
        using entry_spec_decreases[OF e False] by auto
      from less.hyps[OF this P1] show ?thesis using b e False kDecodeDone by simp
    qed (use b e False P1 in auto)
  qed
qed

end

end
