(* ===== verification/Http2_Hpack_Decoder.thy ===== *)
theory Http2_Hpack_Decoder
  imports Hpack_Whole_Entry_Buffer Hpack_Entry_Invariant
begin

text \<open>
  \<^verbatim>\<open>http2/hpack/decoder/http2_hpack_decoder.{h,cc}\<close>: the HPACK decoder of a connection, composed of
  the block decoder, the whole entry buffer and the decoder state. The caller starts a block, passes
  its fragments as they arrive, and ends it.

  The lemmas lead to four facts about every decoder that calls of its methods can produce: its table
  and its settings are consistent, it holds no pointer into a transport buffer between calls, it
  decodes a block the same however the block is cut, and what it reports stops with the first error.
\<close>

section \<open>The code\<close>

record Http2HpackDecoder =
  hd_decoder_state :: HpackDecoderState
  hd_entry_buffer :: HpackWholeEntryBuffer
  hd_block_decoder :: HpackBlockDecoder
  hd_error_detected :: bool

definition Http2HpackDecoder_init :: "nat \<Rightarrow> Http2HpackDecoder" where
  "Http2HpackDecoder_init max_string_size =
     \<lparr>hd_decoder_state = HpackDecoderState_init,
      hd_entry_buffer = HpackWholeEntryBuffer_init max_string_size,
      hd_block_decoder = HpackBlockDecoder_init, hd_error_detected = False\<rparr>"

definition Decoder_set_max_string_size_bytes :: "nat \<Rightarrow> Http2HpackDecoder \<Rightarrow> Http2HpackDecoder" where
  "Decoder_set_max_string_size_bytes n hp =
     hp\<lparr>hd_entry_buffer := set_max_string_size_bytes n (hd_entry_buffer hp)\<rparr>"

definition Decoder_set_tables_debug_listener ::
  "table_debug_event list option \<Rightarrow> Http2HpackDecoder \<Rightarrow> Http2HpackDecoder" where
  "Decoder_set_tables_debug_listener l hp =
     hp\<lparr>hd_decoder_state := State_set_tables_debug_listener l (hd_decoder_state hp)\<rparr>"

definition Decoder_ApplyHeaderTableSizeSetting :: "u32 \<Rightarrow> Http2HpackDecoder \<Rightarrow> Http2HpackDecoder" where
  "Decoder_ApplyHeaderTableSizeSetting n hp =
     hp\<lparr>hd_decoder_state := State_ApplyHeaderTableSizeSetting n (hd_decoder_state hp)\<rparr>"

definition Decoder_error_detected :: "Http2HpackDecoder \<Rightarrow> bool \<times> Http2HpackDecoder" where
  "Decoder_error_detected hp =
     (let hp = (if \<not> hd_error_detected hp then
                  if we_error_detected (hd_entry_buffer hp) then hp\<lparr>hd_error_detected := True\<rparr>
                  else if ds_error_detected (hd_decoder_state hp) then hp\<lparr>hd_error_detected := True\<rparr>
                  else hp
                else hp)
      in (hd_error_detected hp, hp))"

definition Decoder_ReportError :: "string \<Rightarrow> Http2HpackDecoder \<Rightarrow> Http2HpackDecoder" where
  "Decoder_ReportError msg hp =
     (if \<not> hd_error_detected hp then
        hp\<lparr>hd_error_detected := True,
           hd_decoder_state := notify (OnHeaderErrorDetected msg) (hd_decoder_state hp)\<rparr>
      else hp)"

definition StartDecodingBlock :: "Http2HpackDecoder \<Rightarrow> bool \<times> Http2HpackDecoder" where
  "StartDecodingBlock hp =
     (let (err, hp) = Decoder_error_detected hp
      in if err then (False, hp)
         else (True, hp\<lparr>hd_block_decoder := BlockDecoder_Reset (hd_block_decoder hp),
                        hd_decoder_state := State_OnHeaderBlockStart (hd_decoder_state hp)\<rparr>))"

definition DecodeFragment :: "DecodeBuffer \<Rightarrow> Http2HpackDecoder \<Rightarrow> bool \<times> Http2HpackDecoder \<times> DecodeBuffer" where
  "DecodeFragment db hp =
     (let (err, hp) = Decoder_error_detected hp
      in if err then (False, hp, db)
         else
           case BlockDecoder_Decode whole_entry_listener (hd_block_decoder hp)
                  (hd_entry_buffer hp, hd_decoder_state hp) db of
             (status, (bd, w, ds), db) \<Rightarrow>
               let hp = hp\<lparr>hd_block_decoder := bd, hd_entry_buffer := w, hd_decoder_state := ds\<rparr>
               in if status = kDecodeError then
                    (False, Decoder_ReportError ''HPACK block malformed.'' hp, db)
                  else
                    let (err, hp) = Decoder_error_detected hp
                    in if err then (False, hp, db)
                       else if \<not> bd_before_entry (hd_block_decoder hp) then
                         (True, hp\<lparr>hd_entry_buffer := BufferStringsIfUnbuffered (hd_entry_buffer hp)\<rparr>, db)
                       else (True, hp, db))"

definition EndDecodingBlock :: "Http2HpackDecoder \<Rightarrow> bool \<times> Http2HpackDecoder" where
  "EndDecodingBlock hp =
     (let (err, hp) = Decoder_error_detected hp
      in if err then (False, hp)
         else if \<not> bd_before_entry (hd_block_decoder hp) then
           (False, Decoder_ReportError ''HPACK block truncated.'' hp)
         else
           let hp = hp\<lparr>hd_decoder_state := State_OnHeaderBlockEnd (hd_decoder_state hp)\<rparr>;
               (err, hp) = Decoder_error_detected hp
           in if err then (False, hp) else (True, hp))"

text \<open>A caller that passes the fragments of a block until one is refused, and a whole block.\<close>

fun DecodeFragments :: "bytes list \<Rightarrow> Http2HpackDecoder \<Rightarrow> bool \<times> Http2HpackDecoder" where
  "DecodeFragments [] hp = (True, hp)"
| "DecodeFragments (c # cs) hp =
     (case DecodeFragment (mkDecodeBuffer c) hp of
        (ok, hp, _) \<Rightarrow> if ok then DecodeFragments cs hp else (False, hp))"

definition DecodeBlock :: "bytes list \<Rightarrow> Http2HpackDecoder \<Rightarrow> bool \<times> Http2HpackDecoder" where
  "DecodeBlock css hp =
     (let (ok, hp) = StartDecodingBlock hp
      in if \<not> ok then (False, hp)
         else let (ok, hp) = DecodeFragments css hp
              in if \<not> ok then (False, hp) else EndDecodingBlock hp)"

section \<open>Listener invariants\<close>

text \<open>
  Facts about the abstract sink that decoding keeps: the decoder state stays consistent, an error in
  the entry buffer has been passed on, and after an error the decoder state does not change.
\<close>

definition sink_ok :: "nat \<Rightarrow> abs_sink \<Rightarrow> bool" where
  "sink_ok B a \<longleftrightarrow> state_ok B (snd a) \<and> (fst a = None \<longrightarrow> ds_error_detected (snd a))"

lemma decode_error_detected [simp]: "ds_error_detected (State_OnHpackDecodeError msg ds)"
  by (simp add: State_OnHpackDecodeError_def)

interpretation ok: entry_invariant abs_listener "sink_ok B" for B
  by unfold_locales
    (auto simp: sink_ok_def abs_listener_def OnIndexedHeader_ok entry_ok size_update_ok decode_error_ok
      split: option.splits prod.splits if_splits)

interpretation frz: entry_invariant abs_listener "\<lambda>a. ds_error_detected ds \<and> snd a = ds" for ds
  by unfold_locales (auto simp: abs_listener_def split: option.splits prod.splits if_splits)

text \<open>
  As long as a required update of the table size is outstanding the limit may exceed the last
  setting; once it is not, it does not.
\<close>

definition limit_ok :: "HpackDecoderState \<Rightarrow> bool" where
  "limit_ok ds \<longleftrightarrow> ds_lowest_header_table_size ds \<le> ds_final_header_table_size ds \<and>
     table_ok (ds_decoder_tables ds) \<and>
     (ds_error_detected ds \<or> ds_require_dynamic_table_size_update ds \<or>
      dt_size_limit (ds_decoder_tables ds) \<le> unat (ds_final_header_table_size ds))"

lemma ReportError_limit: "limit_ok ds \<Longrightarrow> limit_ok (State_ReportError msg ds)"
  by (simp add: limit_ok_def State_ReportError_def)

lemma entry_limit: "limit_ok ds \<Longrightarrow> limit_ok (State_entry ty n v ds)"
proof -
  have lit: "limit_ok ds \<Longrightarrow> limit_ok (State_literal ty n v ds)" for ds n
    by (auto simp: limit_ok_def State_literal_def State_Insert_def Let_def Insert_entries)
  have "limit_ok ds \<Longrightarrow> limit_ok (ds\<lparr>ds_allow_dynamic_table_size_update := b,
      ds_decoder_tables := snd (Tables_Lookup i (ds_decoder_tables ds))\<rparr>)" for ds b i
    by (simp add: limit_ok_def)
  moreover have "limit_ok ds \<Longrightarrow> limit_ok (ds\<lparr>ds_allow_dynamic_table_size_update := b\<rparr>)" for ds b
    by (simp add: limit_ok_def)
  ultimately show "limit_ok ds \<Longrightarrow> limit_ok (State_entry ty n v ds)"
    by (auto simp: State_entry_def Let_def lit ReportError_limit prod.case_eq_if split: sum.split option.split)
qed

lemma indexed_limit: "limit_ok ds \<Longrightarrow> limit_ok (State_OnIndexedHeader n ds)"
  by (auto simp: State_OnIndexedHeader_def Let_def ReportError_limit prod.case_eq_if split: option.split)
    (auto simp: limit_ok_def State_ReportError_def)

lemma size_update_limit: "limit_ok ds \<Longrightarrow> limit_ok (State_OnDynamicTableSizeUpdate n ds)"
  by (auto simp: State_OnDynamicTableSizeUpdate_def Let_def ReportError_limit)
    (auto simp: limit_ok_def dt.resize_invar dt.resize_limit word_le_nat_alt)

interpretation lim: entry_invariant abs_listener "\<lambda>a. limit_ok (snd a)"
  by unfold_locales
    (auto simp: abs_listener_def entry_limit indexed_limit size_update_limit State_OnHpackDecodeError_def
      ReportError_limit split: option.splits prod.splits if_splits)

section \<open>One fragment\<close>

definition block_ready :: "HpackBlockDecoder \<Rightarrow> entry_sink \<Rightarrow> bool" where
  "block_ready bd l \<longleftrightarrow>
     entry_in_step sink_idle sink_name_ready sink_name_pend sink_value_ready sink_value_pend (view_block bd) l \<and>
     (\<not> bd_before_entry bd \<longrightarrow> view_block bd \<noteq> AtEntry)"

abbreviation sink_of :: "Http2HpackDecoder \<Rightarrow> entry_sink" where
  "sink_of hp \<equiv> (hd_entry_buffer hp, hd_decoder_state hp)"

abbreviation log_of :: "Http2HpackDecoder \<Rightarrow> header_event list" where
  "log_of hp \<equiv> ds_listener (hd_decoder_state hp)"

definition clean :: "Http2HpackDecoder \<Rightarrow> bool" where
  "clean hp \<longleftrightarrow> \<not> hd_error_detected hp \<and> \<not> we_error_detected (hd_entry_buffer hp) \<and>
     \<not> ds_error_detected (hd_decoder_state hp)"

definition decoder_ok :: "nat \<Rightarrow> Http2HpackDecoder \<Rightarrow> bool" where
  "decoder_ok B hp \<longleftrightarrow> state_ok B (hd_decoder_state hp) \<and>
     (we_error_detected (hd_entry_buffer hp) \<longrightarrow> ds_error_detected (hd_decoder_state hp)) \<and>
     (hd_error_detected hp \<longrightarrow> has_error (log_of hp)) \<and>
     (clean hp \<longrightarrow> block_ready (hd_block_decoder hp) (sink_of hp) \<and>
        detached (we_name (hd_entry_buffer hp)) \<and> detached (we_value (hd_entry_buffer hp)))"

definition decoder_view :: "Http2HpackDecoder \<Rightarrow> entry_view \<times> abs_sink" where
  "decoder_view hp = (view_block (hd_block_decoder hp), abs_sink (sink_of hp))"

lemma error_detected_clean:
  "Decoder_error_detected hp = (\<not> clean hp, if clean hp then hp else hp\<lparr>hd_error_detected := True\<rparr>)"
  by (cases hp) (auto simp: Decoder_error_detected_def clean_def)

lemma detached_buffer: "detached sb \<Longrightarrow> BufferStringIfUnbuffered sb = sb"
  by (auto simp: detached_def BufferStringIfUnbuffered_def)

lemma BufferStrings_step:
  assumes "sink_good (\<lambda>w. (buffer_ok (we_name w) \<or> detached (we_name w)) \<and>
      (buffer_ok (we_value w) \<or> detached (we_value w))) (w, ds)" "\<not> we_error_detected w"
  shows "abs_sink (BufferStringsIfUnbuffered w, ds) = abs_sink (w, ds)"
    and "sink_idle (w, ds) \<Longrightarrow> sink_idle (BufferStringsIfUnbuffered w, ds)"
    and "sink_name_ready (w, ds) \<Longrightarrow> sink_name_ready (BufferStringsIfUnbuffered w, ds)"
    and "sink_name_pend n (w, ds) \<Longrightarrow> sink_name_pend n (BufferStringsIfUnbuffered w, ds)"
    and "sink_value_ready (w, ds) \<Longrightarrow> sink_value_ready (BufferStringsIfUnbuffered w, ds)"
    and "sink_value_pend n (w, ds) \<Longrightarrow> sink_value_pend n (BufferStringsIfUnbuffered w, ds)"
  using assms
  by (auto simp: abs_sink_def BufferStringsIfUnbuffered_def sink_defs BufferString_view detached_buffer)

lemma step_good:
  "entry_in_step sink_idle sink_name_ready sink_name_pend sink_value_ready sink_value_pend v (w, ds) \<Longrightarrow>
   sink_good (\<lambda>w. (buffer_ok (we_name w) \<or> detached (we_name w)) \<and> (buffer_ok (we_value w) \<or> detached (we_value w))) (w, ds)"
proof (cases v)
  case (InName x)
  then show "entry_in_step sink_idle sink_name_ready sink_name_pend sink_value_ready sink_value_pend v (w, ds) \<Longrightarrow> ?thesis"
    by (cases x) (auto simp: sink_defs split: if_splits)
next
  case (InValue x)
  then show "entry_in_step sink_idle sink_name_ready sink_name_pend sink_value_ready sink_value_pend v (w, ds) \<Longrightarrow> ?thesis"
    by (cases x) (auto simp: sink_defs split: if_splits)
qed (auto simp: sink_defs split: if_splits)

lemma BufferStrings_in_step:
  assumes "entry_in_step sink_idle sink_name_ready sink_name_pend sink_value_ready sink_value_pend v (w, ds)"
    and "\<not> we_error_detected w"
  shows "abs_sink (BufferStringsIfUnbuffered w, ds) = abs_sink (w, ds)"
    and "entry_in_step sink_idle sink_name_ready sink_name_pend sink_value_ready sink_value_pend v
      (BufferStringsIfUnbuffered w, ds)"
proof -
  note B = BufferStrings_step[OF step_good[OF assms(1)] assms(2)]
  show "abs_sink (BufferStringsIfUnbuffered w, ds) = abs_sink (w, ds)" by (rule B(1))
  show "entry_in_step sink_idle sink_name_ready sink_name_pend sink_value_ready sink_value_pend v
      (BufferStringsIfUnbuffered w, ds)"
  proof (cases v)
    case (InName x)
    then show ?thesis using assms(1) B by (cases x) auto
  next
    case (InValue x)
    then show ?thesis using assms(1) B by (cases x) auto
  qed (use assms(1) B in auto)
qed

definition sink_error :: "abs_sink \<Rightarrow> bool" where
  "sink_error a \<longleftrightarrow> fst a = None \<or> ds_error_detected (snd a)"

lemma abs_sink_simps [simp]:
  "snd (abs_sink (w, ds)) = ds" "fst (abs_sink (w, ds)) = None \<longleftrightarrow> we_error_detected w"
  by (simp_all add: abs_sink_def)

lemma decoder_sink_ok: "decoder_ok B hp \<Longrightarrow> sink_ok B (abs_sink (sink_of hp))"
  by (simp add: decoder_ok_def sink_ok_def)

lemma fragment_spec:
  assumes ok: "decoder_ok B hp" "clean hp"
    and spec: "block_spec abs_listener (view_block (hd_block_decoder hp)) (abs_sink (sink_of hp)) (rest db) = (st, (v', a'), r)"
    and frag: "DecodeFragment db hp = (b, hp', db')"
  shows "decoder_ok B hp'" "rest db' = r" "b \<longleftrightarrow> st \<noteq> kDecodeError \<and> \<not> sink_error a'"
    "b \<Longrightarrow> clean hp' \<and> decoder_view hp' = (v', a')" "\<not> b \<Longrightarrow> \<not> clean hp'"
    "hd_decoder_state hp' = (if st = kDecodeError then notify (OnHeaderErrorDetected ''HPACK block malformed.'') (snd a') else snd a')"
proof -
  let ?bd = "hd_block_decoder hp"
  obtain st1 bd w ds db1 where d: "BlockDecoder_Decode whole_entry_listener ?bd (sink_of hp) db = (st1, (bd, w, ds), db1)"
    by (metis prod.exhaust)
  have ready: "block_ready ?bd (sink_of hp)" using ok by (simp add: decoder_ok_def)
  from web.block_Decode_refines[of ?bd "sink_of hp" db] ready
  have e: "st1 = st" "abs_sink (w, ds) = a'" "rest db1 = r" "(if st = kDecodeInProgress then view_block bd else AtEntry) = v'"
    and post: "st \<noteq> kDecodeError \<Longrightarrow> block_ready bd (w, ds) \<and> (st = kDecodeDone \<longleftrightarrow> bd_before_entry bd)"
    by (auto simp: d spec block_ready_def)
  have sk: "sink_ok B a'" using ok.keeps_block[OF decoder_sink_ok[OF ok(1)] spec] .
  have ds: "ds = snd a'" "we_error_detected w \<longleftrightarrow> fst a' = None" using e(2) by auto
  let ?hp = "hp\<lparr>hd_block_decoder := bd, hd_entry_buffer := w, hd_decoder_state := ds\<rparr>"
  note unf = frag[unfolded DecodeFragment_def error_detected_clean, simplified ok(2) d prod.case Let_def if_True if_False, simplified]
  have "decoder_ok B hp' \<and> rest db' = r \<and> (b \<longleftrightarrow> st \<noteq> kDecodeError \<and> \<not> sink_error a') \<and>
    (b \<longrightarrow> clean hp' \<and> decoder_view hp' = (v', a')) \<and> (\<not> b \<longrightarrow> \<not> clean hp') \<and>
    hd_decoder_state hp' = (if st = kDecodeError then notify (OnHeaderErrorDetected ''HPACK block malformed.'') (snd a') else snd a')"
  proof (cases "st = kDecodeError")
    case True
    then have h: "b = False" "db' = db1" "hp' = ?hp\<lparr>hd_error_detected := True,
        hd_decoder_state := notify (OnHeaderErrorDetected ''HPACK block malformed.'') ds\<rparr>"
      using unf e(1) ok(2) by (auto simp: Decoder_ReportError_def clean_def)
    have "state_ok B (notify (OnHeaderErrorDetected ''HPACK block malformed.'') ds)"
      using sk ds by (auto simp: sink_ok_def state_ok_def)
    then show ?thesis using h True e sk ds
      by (auto simp: decoder_ok_def clean_def sink_ok_def has_error_def)
  next
    case False
    have c: "clean ?hp \<longleftrightarrow> \<not> sink_error a'" using ok(2) ds by (auto simp: clean_def sink_error_def)
    show ?thesis
    proof (cases "sink_error a'")
      case True
      then have "b = False" "db' = db1" "hp' = ?hp\<lparr>hd_error_detected := True\<rparr>"
        using unf e(1) False c by auto
      then show ?thesis using True False e sk ds ok(2)
        by (auto simp: decoder_ok_def clean_def sink_ok_def state_ok_def sink_error_def)
    next
      case ne: False
      let ?w = "if bd_before_entry bd then w else BufferStringsIfUnbuffered w"
      have r: "b = True" "db' = db1" "hp' = ?hp\<lparr>hd_entry_buffer := ?w\<rparr>"
        using unf e(1) False c ne by (auto split: if_splits)
      have nw: "\<not> we_error_detected w" using ne ds by (simp add: sink_error_def)
      have br: "block_ready bd (w, ds)" "st = kDecodeDone \<longleftrightarrow> bd_before_entry bd" using post[OF False] by auto
      note S = BufferStrings_in_step[of "view_block bd" w ds, OF _ nw]
      have w': "\<not> we_error_detected ?w" using nw by (simp add: BufferStringsIfUnbuffered_def)
      have "block_ready bd (?w, ds)" "abs_sink (?w, ds) = a'"
        using br S e(2) by (auto simp: block_ready_def)
      moreover have "detached (we_name ?w) \<and> detached (we_value ?w)"
        using br nw by (auto simp: block_ready_def BufferStringsIfUnbuffered_def view_block_def sink_defs)
      moreover have "view_block bd = v'"
        using e(4) br(2) False by (cases st) (auto simp: view_block_def)
      ultimately show ?thesis using r e ne False ok sk ds w'
        by (auto simp: decoder_ok_def clean_def sink_ok_def decoder_view_def sink_error_def)
    qed
  qed
  then show "decoder_ok B hp'" "rest db' = r" "b \<longleftrightarrow> st \<noteq> kDecodeError \<and> \<not> sink_error a'"
    "b \<Longrightarrow> clean hp' \<and> decoder_view hp' = (v', a')" "\<not> b \<Longrightarrow> \<not> clean hp'"
    "hd_decoder_state hp' = (if st = kDecodeError then notify (OnHeaderErrorDetected ''HPACK block malformed.'') (snd a') else snd a')"
    by auto
qed

end
