(* ===== verification/Hpack_Decoder_Runs.thy ===== *)
theory Hpack_Decoder_Runs
  imports Http2_Hpack_Decoder
begin

text \<open>
  Runs of the HPACK decoder: all the fragments of a block, and all the calls of a connection. Every
  decoder that calls can produce keeps the invariant of \<open>Http2_Hpack_Decoder\<close>, and from it follow the
  properties of the decoder as a whole.
\<close>

section \<open>Any number of fragments\<close>

text \<open>
  What a caller sees of a block: the state it can continue from, or the calls its listener got up to
  the first report of an error.
\<close>

fun upto_error :: "header_event list \<Rightarrow> header_event list" where
  "upto_error [] = []"
| "upto_error (OnHeaderErrorDetected m # es) = [OnHeaderErrorDetected m]"
| "upto_error (e # es) = e # upto_error es"

definition outcome :: "bool \<times> Http2HpackDecoder \<Rightarrow> header_event list + (entry_view \<times> abs_sink)" where
  "outcome = (\<lambda>(ok, hp). if ok then Inr (decoder_view hp) else Inl (upto_error (log_of hp)))"

definition fragment_outcome :: "entry_view \<times> abs_sink \<Rightarrow> bytes \<Rightarrow> header_event list + (entry_view \<times> abs_sink)" where
  "fragment_outcome va xs =
     (case block_spec abs_listener (fst va) (snd va) xs of (st, (v, a), r) \<Rightarrow>
        if st = kDecodeError then
          Inl (upto_error (ds_listener (snd a) @ [OnHeaderErrorDetected ''HPACK block malformed.'']))
        else if sink_error a then Inl (upto_error (ds_listener (snd a)))
        else Inr (v, a))"

lemma upto_error_append: "upto_error (es @ fs) = (if has_error es then upto_error es else es @ upto_error fs)"
  by (induction es rule: upto_error.induct) (auto simp: has_error_def)

lemma fragment_outcome_append:
  assumes "sink_ok B a"
  shows "fragment_outcome (v, a) (xs @ ys) =
    (case fragment_outcome (v, a) xs of Inl e \<Rightarrow> Inl e | Inr va \<Rightarrow> fragment_outcome va ys)"
proof -
  obtain st v1 a1 r where b: "block_spec abs_listener v a xs = (st, (v1, a1), r)" by (metis prod.exhaust)
  note cut = sink.block_spec_cut[OF b, of ys]
  show ?thesis
  proof (cases "st = kDecodeError")
    case True
    then show ?thesis using b cut by (simp add: fragment_outcome_def)
  next
    case False
    obtain st2 v2 a2 r2 where c: "block_spec abs_listener v1 a1 ys = (st2, (v2, a2), r2)" by (metis prod.exhaust)
    then have d: "block_spec abs_listener v a (xs @ ys) = (st2, (v2, a2), r2)" using cut False by simp
    show ?thesis
    proof (cases "sink_error a1")
      case True
      have k: "sink_ok B a1" using ok.keeps_block[OF assms b] .
      then have e: "ds_error_detected (snd a1)" using True by (auto simp: sink_ok_def sink_error_def)
      have "snd a2 = snd a1" using frz.keeps_block[OF _ c, of "snd a1"] e by blast
      moreover have "has_error (ds_listener (snd a1))" using k e by (simp add: sink_ok_def state_ok_def)
      moreover have "sink_error a2" using e calculation(1) by (simp add: sink_error_def)
      ultimately show ?thesis using b d True False by (simp add: fragment_outcome_def upto_error_append)
    next
      case ne: False
      then show ?thesis using b c d False by (simp add: fragment_outcome_def)
    qed
  qed
qed

lemma DecodeFragment_outcome:
  assumes "decoder_ok B hp" "clean hp" "DecodeFragment (mkDecodeBuffer xs) hp = (b, hp', db')"
  shows "outcome (b, hp') = fragment_outcome (decoder_view hp) xs"
proof -
  obtain st v a r where s: "block_spec abs_listener (view_block (hd_block_decoder hp)) (abs_sink (sink_of hp)) xs = (st, (v, a), r)"
    by (metis prod.exhaust)
  note F = fragment_spec[OF assms(1,2), of "mkDecodeBuffer xs" st v a r b hp' db', OF _ assms(3)]
  show ?thesis using s F(3,4,6) by (auto simp: outcome_def fragment_outcome_def decoder_view_def rest_simps)
qed

lemma DecodeFragments_outcome:
  "decoder_ok B hp \<Longrightarrow> clean hp \<Longrightarrow> css \<noteq> [] \<Longrightarrow>
   outcome (DecodeFragments css hp) = fragment_outcome (decoder_view hp) (concat css)"
proof (induction css arbitrary: hp)
  case (Cons c cs)
  obtain b hp' db' where d: "DecodeFragment (mkDecodeBuffer c) hp = (b, hp', db')" by (metis prod.exhaust)
  obtain st v a r where s: "block_spec abs_listener (view_block (hd_block_decoder hp)) (abs_sink (sink_of hp)) c = (st, (v, a), r)"
    by (metis prod.exhaust)
  note F = fragment_spec[OF Cons.prems(1,2), of "mkDecodeBuffer c" st v a r b hp' db', OF _ d]
  note O = DecodeFragment_outcome[OF Cons.prems(1,2) d]
  have A: "fragment_outcome (decoder_view hp) (c @ concat cs) =
    (case outcome (b, hp') of Inl e \<Rightarrow> Inl e | Inr va \<Rightarrow> fragment_outcome va (concat cs))"
    using fragment_outcome_append[OF decoder_sink_ok[OF Cons.prems(1)], of "view_block (hd_block_decoder hp)" c "concat cs"] O
    by (simp add: decoder_view_def)
  show ?case
  proof (cases b)
    case True
    then have hp': "decoder_ok B hp'" "clean hp'" using F s by (auto simp: rest_simps)
    show ?thesis
    proof (cases cs)
      case Nil
      then show ?thesis using d True O by simp
    next
      case (Cons c' cs')
      then show ?thesis using Cons.IH[OF hp'] d True A by (simp add: outcome_def)
    qed
  next
    case False
    then show ?thesis using d A by (simp add: outcome_def)
  qed
qed simp

lemma DecodeFragments_ok: "decoder_ok B hp \<Longrightarrow> clean hp \<Longrightarrow> DecodeFragments css hp = (b, hp') \<Longrightarrow>
   decoder_ok B hp' \<and> (b \<longrightarrow> clean hp')"
proof (induction css arbitrary: hp)
  case (Cons c cs)
  obtain b1 hp1 db1 where d: "DecodeFragment (mkDecodeBuffer c) hp = (b1, hp1, db1)" by (metis prod.exhaust)
  obtain st v a r where s: "block_spec abs_listener (view_block (hd_block_decoder hp)) (abs_sink (sink_of hp)) c = (st, (v, a), r)"
    by (metis prod.exhaust)
  note F = fragment_spec[OF Cons.prems(1,2), of "mkDecodeBuffer c" st v a r b1 hp1 db1, OF _ d]
  show ?case using Cons.IH[of hp1] F s Cons.prems(3) d by (auto simp: rest_simps split: if_splits)
qed simp

lemma DecodeFragments_keeps:
  assumes Q: "entry_invariant abs_listener (\<lambda>a. Q (snd a))"
  shows "decoder_ok B hp \<Longrightarrow> clean hp \<Longrightarrow> Q (hd_decoder_state hp) \<Longrightarrow> DecodeFragments css hp = (True, hp') \<Longrightarrow>
    Q (hd_decoder_state hp')"
proof (induction css arbitrary: hp)
  case (Cons c cs)
  obtain b1 hp1 db1 where d: "DecodeFragment (mkDecodeBuffer c) hp = (b1, hp1, db1)" by (metis prod.exhaust)
  obtain st v a r where s: "block_spec abs_listener (view_block (hd_block_decoder hp)) (abs_sink (sink_of hp)) c = (st, (v, a), r)"
    by (metis prod.exhaust)
  note F = fragment_spec[OF Cons.prems(1,2), of "mkDecodeBuffer c" st v a r b1 hp1 db1, OF _ d]
  have b1: "b1" "DecodeFragments cs hp1 = (True, hp')" using Cons.prems(4) d by (auto split: if_splits)
  have "Q (snd a)" using entry_invariant.keeps_block[OF Q _ s] Cons.prems(3) by simp
  then have "Q (hd_decoder_state hp1)" using F(3,6) s b1(1) by (simp add: rest_simps split: if_splits)
  then show ?case using Cons.IH[of hp1] F s b1 by (simp add: rest_simps)
qed simp

lemma decoder_view_state: "decoder_view hp = decoder_view hp' \<Longrightarrow> hd_decoder_state hp = hd_decoder_state hp'"
  by (simp add: decoder_view_def abs_sink_def)

section \<open>Every decoder that can arise\<close>

text \<open>
  The decoders of a connection: made by the constructor and changed by any sequence of calls. \<open>B\<close>
  bounds the table size settings that are ever acknowledged.
\<close>

inductive hpack_reachable :: "nat \<Rightarrow> Http2HpackDecoder \<Rightarrow> bool" for B where
  init: "4096 \<le> B \<Longrightarrow> hpack_reachable B (Http2HpackDecoder_init max_string_size)"
| start: "hpack_reachable B hp \<Longrightarrow> hpack_reachable B (snd (StartDecodingBlock hp))"
| fragment: "hpack_reachable B hp \<Longrightarrow> hpack_reachable B (fst (snd (DecodeFragment db hp)))"
| finish: "hpack_reachable B hp \<Longrightarrow> hpack_reachable B (snd (EndDecodingBlock hp))"
| setting: "hpack_reachable B hp \<Longrightarrow> unat n \<le> B \<Longrightarrow> hpack_reachable B (Decoder_ApplyHeaderTableSizeSetting n hp)"
| max_string: "hpack_reachable B hp \<Longrightarrow> hpack_reachable B (Decoder_set_max_string_size_bytes m hp)"
| debug: "hpack_reachable B hp \<Longrightarrow> hpack_reachable B (Decoder_set_tables_debug_listener l hp)"

lemma in_step_state:
  "entry_in_step sink_idle sink_name_ready sink_name_pend sink_value_ready sink_value_pend v (w, ds) =
   entry_in_step sink_idle sink_name_ready sink_name_pend sink_value_ready sink_value_pend v (w, ds')"
proof (cases v)
  case (InName x)
  then show ?thesis by (cases x) (simp_all add: sink_defs)
next
  case (InValue x)
  then show ?thesis by (cases x) (simp_all add: sink_defs)
qed (simp_all add: sink_defs)

lemma in_step_max:
  "entry_in_step sink_idle sink_name_ready sink_name_pend sink_value_ready sink_value_pend v
     (w\<lparr>we_max_string_size_bytes := m\<rparr>, ds) =
   entry_in_step sink_idle sink_name_ready sink_name_pend sink_value_ready sink_value_pend v (w, ds)"
proof (cases v)
  case (InName x)
  then show ?thesis by (cases x) (simp_all add: sink_defs)
next
  case (InValue x)
  then show ?thesis by (cases x) (simp_all add: sink_defs)
qed (simp_all add: sink_defs)

lemma block_ready_state: "block_ready bd (w, ds) = block_ready bd (w, ds')"
  using in_step_state[of "view_block bd" w ds ds'] by (simp add: block_ready_def)

lemma start_ok:
  assumes "decoder_ok B hp" "StartDecodingBlock hp = (b, hp')"
  shows "decoder_ok B hp'" "b \<longleftrightarrow> clean hp" "b \<Longrightarrow> clean hp'"
    "b \<Longrightarrow> decoder_view hp' = (AtEntry, fst (abs_sink (sink_of hp)), State_OnHeaderBlockStart (hd_decoder_state hp))"
proof -
  have "decoder_ok B hp' \<and> (b \<longleftrightarrow> clean hp) \<and> (b \<longrightarrow> clean hp' \<and>
     decoder_view hp' = (AtEntry, fst (abs_sink (sink_of hp)), State_OnHeaderBlockStart (hd_decoder_state hp)))"
  proof (cases "clean hp")
    case True
    then have h: "b = True" "hp' = hp\<lparr>hd_block_decoder := BlockDecoder_Reset (hd_block_decoder hp),
                        hd_decoder_state := State_OnHeaderBlockStart (hd_decoder_state hp)\<rparr>"
      using assms(2) by (auto simp: StartDecodingBlock_def error_detected_clean)
    have det: "detached (we_name (hd_entry_buffer hp)) \<and> detached (we_value (hd_entry_buffer hp))"
      "we_listener (hd_entry_buffer hp) = DecoderState"
      using assms(1) True step_good[of "view_block (hd_block_decoder hp)" "hd_entry_buffer hp" "hd_decoder_state hp"]
      by (auto simp: decoder_ok_def block_ready_def sink_good_def clean_def)
    then have "block_ready (hd_block_decoder hp') (sink_of hp')"
      using True by (simp add: h block_ready_def view_block_def BlockDecoder_Reset_def sink_idle_def sink_good_def clean_def)
    moreover have "state_ok B (hd_decoder_state hp')"
      using assms(1) by (simp add: h block_start_ok decoder_ok_def)
    moreover have c: "clean hp'" using True by (simp add: h clean_def State_OnHeaderBlockStart_def)
    moreover have "decoder_view hp' = (AtEntry, fst (abs_sink (sink_of hp)), State_OnHeaderBlockStart (hd_decoder_state hp))"
      by (simp add: h decoder_view_def view_block_def BlockDecoder_Reset_def abs_sink_def)
    ultimately show ?thesis using True det h(1) by (auto simp: decoder_ok_def h(2)) (auto simp: clean_def)
  next
    case False
    then have "b = False" "hp' = hp\<lparr>hd_error_detected := True\<rparr>"
      using assms(2) by (auto simp: StartDecodingBlock_def error_detected_clean)
    then show ?thesis using assms(1) False
      by (auto simp: decoder_ok_def clean_def state_ok_def)
  qed
  then show "decoder_ok B hp'" "b \<longleftrightarrow> clean hp" "b \<Longrightarrow> clean hp'"
    "b \<Longrightarrow> decoder_view hp' = (AtEntry, fst (abs_sink (sink_of hp)), State_OnHeaderBlockStart (hd_decoder_state hp))" by auto
qed

lemma fragment_ok:
  assumes "decoder_ok B hp" "DecodeFragment db hp = (b, hp', db')"
  shows "decoder_ok B hp'"
proof (cases "clean hp")
  case True
  obtain st v a r where s: "block_spec abs_listener (view_block (hd_block_decoder hp)) (abs_sink (sink_of hp)) (rest db) = (st, (v, a), r)"
    by (metis prod.exhaust)
  show ?thesis using fragment_spec(1)[OF assms(1) True s assms(2)] .
next
  case False
  then have "hp' = hp\<lparr>hd_error_detected := True\<rparr>"
    using assms(2) by (auto simp: DecodeFragment_def error_detected_clean)
  then show ?thesis using assms(1) False by (auto simp: decoder_ok_def clean_def state_ok_def)
qed

lemma end_ok:
  assumes "decoder_ok B hp" "EndDecodingBlock hp = (b, hp')"
  shows "decoder_ok B hp'"
    and "b \<Longrightarrow> clean hp \<and> \<not> ds_require_dynamic_table_size_update (hd_decoder_state hp) \<and>
      hd_decoder_state hp' = notify OnHeaderListEnd (hd_decoder_state hp)"
proof -
  have "decoder_ok B hp' \<and> (b \<longrightarrow> clean hp \<and> \<not> ds_require_dynamic_table_size_update (hd_decoder_state hp) \<and>
      hd_decoder_state hp' = notify OnHeaderListEnd (hd_decoder_state hp))"
  proof (cases "clean hp \<and> bd_before_entry (hd_block_decoder hp)")
    case True
    let ?hp = "hp\<lparr>hd_decoder_state := State_OnHeaderBlockEnd (hd_decoder_state hp)\<rparr>"
    have h: "b = clean ?hp" "hp' = (if clean ?hp then ?hp else ?hp\<lparr>hd_error_detected := True\<rparr>)"
      using assms(2) True by (auto simp: EndDecodingBlock_def error_detected_clean Let_def split: if_splits)
    have c: "clean ?hp \<longleftrightarrow> \<not> ds_require_dynamic_table_size_update (hd_decoder_state hp)"
      using True by (auto simp: clean_def State_OnHeaderBlockEnd_def)
    have k: "state_ok B (hd_decoder_state ?hp)" using assms(1) by (simp add: block_end_ok decoder_ok_def)
    have r: "block_ready (hd_block_decoder ?hp) (sink_of ?hp)"
      using assms(1) True block_ready_state by (auto simp: decoder_ok_def)
    show ?thesis
    proof (cases "clean ?hp")
      case cl: True
      then have "decoder_ok B ?hp" using k r assms(1) True by (simp add: decoder_ok_def clean_def)
      then show ?thesis using h c cl True by (simp add: State_OnHeaderBlockEnd_def clean_def)
    next
      case cl: False
      then have "ds_error_detected (hd_decoder_state ?hp)" using True by (simp add: clean_def)
      then show ?thesis using h cl k by (simp add: decoder_ok_def clean_def state_ok_def)
    qed
  next
    case False
    show ?thesis
    proof (cases "clean hp")
      case True
      then have "b = False" "hp' = hp\<lparr>hd_error_detected := True,
          hd_decoder_state := notify (OnHeaderErrorDetected ''HPACK block truncated.'') (hd_decoder_state hp)\<rparr>"
        using assms(2) False by (auto simp: EndDecodingBlock_def error_detected_clean Decoder_ReportError_def clean_def)
      moreover have "has_error [OnHeaderErrorDetected ''HPACK block truncated.'']" by (simp add: has_error_def)
      ultimately show ?thesis using assms(1) by (simp add: decoder_ok_def clean_def state_ok_def)
    next
      case ncl: False
      then have "b = False" "hp' = hp\<lparr>hd_error_detected := True\<rparr>"
        using assms(2) by (auto simp: EndDecodingBlock_def error_detected_clean)
      then show ?thesis using assms(1) ncl by (auto simp: decoder_ok_def clean_def state_ok_def)
    qed
  qed
  then show "decoder_ok B hp'" "b \<Longrightarrow> clean hp \<and> \<not> ds_require_dynamic_table_size_update (hd_decoder_state hp) \<and>
      hd_decoder_state hp' = notify OnHeaderListEnd (hd_decoder_state hp)" by auto
qed

lemma DecodeBlock_keeps:
  assumes "entry_invariant abs_listener (\<lambda>a. Q (snd a))" "decoder_ok B hp" "DecodeBlock css hp = (True, hp')"
    and "Q (State_OnHeaderBlockStart (hd_decoder_state hp))"
  obtains ds where "Q ds" "\<not> ds_error_detected ds" "\<not> ds_require_dynamic_table_size_update ds"
    "hd_decoder_state hp' = notify OnHeaderListEnd ds" "decoder_ok B hp'"
proof -
  obtain b1 hp1 where s: "StartDecodingBlock hp = (b1, hp1)" by fastforce
  obtain b2 hp2 where f: "DecodeFragments css hp1 = (b2, hp2)" by fastforce
  have e: "b1" "b2" "EndDecodingBlock hp2 = (True, hp')"
    using assms(3) s f by (auto simp: DecodeBlock_def split: if_splits)
  note ok1 = start_ok[OF assms(2) s]
  have ok2: "decoder_ok B hp2" using DecodeFragments_ok[OF ok1(1) ok1(3)[OF e(1)] f] by simp
  have "Q (hd_decoder_state hp1)" using ok1(4)[OF e(1)] assms(4) by (simp add: decoder_view_def abs_sink_def)
  then have "Q (hd_decoder_state hp2)"
    using DecodeFragments_keeps[OF assms(1) ok1(1) ok1(3)[OF e(1)]] f e(2) by simp
  then show ?thesis using that end_ok[OF ok2 e(3)] by (auto simp: clean_def)
qed

lemma init_ok: "4096 \<le> B \<Longrightarrow> decoder_ok B (Http2HpackDecoder_init m)"
  by (simp add: decoder_ok_def Http2HpackDecoder_init_def state_ok_init HpackWholeEntryBuffer_init_def clean_def
      HpackDecoderState_init_def[THEN arg_cong, of ds_error_detected] block_ready_def HpackBlockDecoder_init_def
      view_block_def sink_idle_def sink_good_def)

lemma reachable_ok: "hpack_reachable B hp \<Longrightarrow> decoder_ok B hp"
proof (induction rule: hpack_reachable.induct)
  case (init m)
  then show ?case by (rule init_ok)
next
  case (start hp)
  then show ?case using start_ok(1)[OF start.IH] by (metis prod.collapse)
next
  case (fragment hp db)
  then show ?case using fragment_ok[OF fragment.IH] by (metis prod.collapse)
next
  case (finish hp)
  then show ?case using end_ok(1)[OF finish.IH] by (metis prod.collapse)
next
  case (setting hp n)
  have "ds_error_detected (State_ApplyHeaderTableSizeSetting n ds) = ds_error_detected ds"
    "ds_listener (State_ApplyHeaderTableSizeSetting n ds) = ds_listener ds" for ds
    by (simp_all add: State_ApplyHeaderTableSizeSetting_def Let_def)
  then show ?case using setting setting_ok[of B "hd_decoder_state hp" n]
    by (auto simp: decoder_ok_def Decoder_ApplyHeaderTableSizeSetting_def clean_def intro: block_ready_state[THEN iffD1])
next
  case (max_string hp m)
  then show ?case
    by (auto simp: decoder_ok_def Decoder_set_max_string_size_bytes_def set_max_string_size_bytes_def clean_def
        block_ready_def in_step_max)
next
  case (debug hp l)
  have "state_ok B (State_set_tables_debug_listener l ds) = state_ok B ds"
    "ds_error_detected (State_set_tables_debug_listener l ds) = ds_error_detected ds"
    "ds_listener (State_set_tables_debug_listener l ds) = ds_listener ds" for ds
    by (simp_all add: State_set_tables_debug_listener_def state_ok_def table_ok_def)
  then show ?case using debug
    by (auto simp: decoder_ok_def Decoder_set_tables_debug_listener_def clean_def intro: block_ready_state[THEN iffD1])
qed

section \<open>Properties\<close>

text \<open>Equations that evaluate the decoder on concrete bytes.\<close>

lemmas init_eval = Http2HpackDecoder_init_def HpackDecoderState_init_def HpackWholeEntryBuffer_init_def
  HpackBlockDecoder_init_def HpackEntryDecoder_init_def HpackEntryTypeDecoder_init_def
  HpackStringDecoder_init_def StringBuffer_init_def HpackDecoderDynamicTable_init_def DefaultHeaderTableSize_def

lemmas decode_eval = Decoder_error_detected_def DecodeFragment_def StartDecodingBlock_def EndDecodingBlock_def
  DecodeBlock_def Decoder_ReportError_def BlockDecoder_Reset_def BlockDecoder_Decode_def BlockDecoder_entries.simps
  EntryDecoder_Start_def EntryDecoder_Resume.simps DispatchOnType_def EntryTypeDecoder_Start_def
  EntryTypeDecoder_Resume_def VarintDecoder_StartExtended_def VarintDecoder_Resume.simps
  VarintDecoder_set_value_def StringDecoder_Start_def StartSpecialCaseShort_def StringDecoder_Resume.simps
  StartDecodingLength_def OnStringStart_def DecodeString_def DecodeUInt8_def HasData_def Remaining_def
  mkDecodeBuffer_def AdvanceCursor_def Empty_def cursor_bytes_def MinLengthRemaining_def MaxOffset_def

lemmas sink_eval = WholeEntry_OnIndexedHeader_def WholeEntry_OnStartLiteralHeader_def WholeEntry_OnNameStart_def
  WholeEntry_OnNameData_def WholeEntry_OnNameEnd_def WholeEntry_OnValueStart_def WholeEntry_OnValueData_def
  WholeEntry_OnValueEnd_def WholeEntry_OnDynamicTableSizeUpdate_def WholeEntry_ReportError_def
  BufferStringsIfUnbuffered_def string_buffer_defs ExtractHpackString_def

lemmas state_eval = State_ReportError_def State_OnHeaderBlockStart_def State_OnHeaderBlockEnd_def
  State_ApplyHeaderTableSizeSetting_def Decoder_ApplyHeaderTableSizeSetting_def
  State_OnIndexedHeader_def State_OnLiteralNameAndValue_def State_OnNameIndexAndLiteralValue_def
  State_OnDynamicTableSizeUpdate_def State_OnHpackDecodeError_def State_Insert_def Tables_Lookup_def
  StaticTable_Lookup_def DynamicTable_Lookup_def DynamicTable_Insert_def DynamicTableSizeUpdate_def
  EnsureSizeNoMoreThan_def EnsureSize_loop.simps RemoveLastEntry_def HpackStringPair_size_def
  kFirstDynamicTableIndex_def

lemmas hpack_eval = init_eval decode_eval sink_eval state_eval Let_def

abbreviation started :: "nat \<Rightarrow> Http2HpackDecoder" where
  "started m \<equiv> snd (StartDecodingBlock (Http2HpackDecoder_init m))"

lemma started_reachable: "4096 \<le> B \<Longrightarrow> hpack_reachable B (started m)"
  by (intro hpack_reachable.start hpack_reachable.init)

text \<open>
  C26: In every decoder of a connection the size that the dynamic table accounts for is the sum of the
  sizes of its entries, it is within the limit the peer has set, and neither that limit nor the
  settings exceed what the endpoint has ever acknowledged; the low water mark is not above
  the last setting.
\<close>

theorem hpack_table_invariant:
  assumes "hpack_reachable B hp"
  shows "let ds = hd_decoder_state hp; t = ds_decoder_tables ds in
    dt_current_size t = (\<Sum>(name, value) \<leftarrow> dt_table t. length name + length value + 32) \<and>
    dt_current_size t \<le> dt_size_limit t \<and> dt_size_limit t \<le> B \<and>
    ds_lowest_header_table_size ds \<le> ds_final_header_table_size ds \<and> unat (ds_final_header_table_size ds) \<le> B"
proof -
  have "(\<lambda>(name, value). length name + length value + 32) = HpackStringPair_size"
    by (auto simp: fun_eq_iff HpackStringPair_size_def)
  then show ?thesis using reachable_ok[OF assms] by (simp add: decoder_ok_def state_ok_def table_ok_def Let_def)
qed

text \<open>A literal header \<open>a: b\<close> with indexing: one entry of size 34.\<close>

theorem hpack_table_invariant_witness:
  "dt_current_size (ds_decoder_tables (hd_decoder_state
     (fst (snd (DecodeFragment (mkDecodeBuffer [0x40, 0x01, 0x61, 0x01, 0x62]) (started 100)))))) = 34 \<and>
   (34 :: nat) = (\<Sum>(name, value) \<leftarrow> [([0x61], [0x62]) :: bytes \<times> bytes]. length name + length value + 32)"
  using hpack_table_invariant[OF hpack_reachable.fragment[OF started_reachable[of 4096 100]],
      of "mkDecodeBuffer [0x40, 0x01, 0x61, 0x01, 0x62]"]
  by (simp add: hpack_eval)

text \<open>
  C25: Between calls, a decoder that has not detected an error holds no pointer into a transport buffer:
  a string that is not yet consumed has been copied, so the caller may free or reuse its buffers.
\<close>

theorem hpack_no_dangling:
  assumes "hpack_reachable B hp" "\<not> fst (Decoder_error_detected hp)" "sb \<in> {we_name (hd_entry_buffer hp), we_value (hd_entry_buffer hp)}"
  shows "sb_state sb = S_RESET \<or> sb_backing sb \<noteq> B_UNBUFFERED"
  using reachable_ok[OF assms(1)] assms(2,3)
  by (auto simp: decoder_ok_def error_detected_clean detached_def)

text \<open>The name \<open>a\<close> has arrived, of the value only the length: the name has been copied.\<close>

theorem hpack_no_dangling_witness:
  "let hp = fst (snd (DecodeFragment (mkDecodeBuffer [0x40, 0x01, 0x61, 0x03]) (started 100)));
       sb = we_name (hd_entry_buffer hp)
   in sb_state sb = S_COMPLETE \<and> sb_value sb = [0x61] \<and> (sb_state sb = S_RESET \<or> sb_backing sb \<noteq> B_UNBUFFERED)"
  using hpack_no_dangling[OF hpack_reachable.fragment[OF started_reachable[of 4096 100]],
      of "mkDecodeBuffer [0x40, 0x01, 0x61, 0x03]", OF _ _ insertI1]
  by (simp add: hpack_eval)

text \<open>
  C24: A block is decoded the same however its bytes are cut into fragments: passing the fragments one
  after the other gives the result of passing all bytes at once. When it succeeds, the two decoders
  agree on everything but where strings are stored, that is on the tables, the calls of the listener
  and the entry in progress; when it fails, the listener got the same calls up to and including the
  first error. Nothing is said of the calls after that error or of the tables of a decoder that failed.
\<close>

theorem hpack_fragments:
  assumes "hpack_reachable B hp" "css \<noteq> []"
    and "DecodeFragments css hp = (ok1, hp1)" "DecodeFragment (mkDecodeBuffer (concat css)) hp = (ok2, hp2, db)"
  shows "ok1 = ok2 \<and> upto_error (log_of hp1) = upto_error (log_of hp2) \<and>
    (ok1 \<longrightarrow> decoder_view hp1 = decoder_view hp2)"
proof (cases "clean hp")
  case True
  note ok = reachable_ok[OF assms(1)]
  have "outcome (ok1, hp1) = outcome (ok2, hp2)"
    using DecodeFragments_outcome[OF ok True assms(2)] DecodeFragment_outcome[OF ok True assms(4)] assms(3) by simp
  then show ?thesis using decoder_view_state[of hp1 hp2] by (auto simp: outcome_def split: if_splits)
next
  case False
  obtain c cs where "css = c # cs" using assms(2) by (cases css) auto
  then show ?thesis using assms(3,4) False by (auto simp: DecodeFragment_def error_detected_clean)
qed

theorem hpack_fragments_witness:
  "let hp1 = snd (DecodeFragments [[0x40, 0x01], [0x61, 0x01], [0x62, 0x80]] (started 100));
       hp2 = fst (snd (DecodeFragment (mkDecodeBuffer [0x40, 0x01, 0x61, 0x01, 0x62, 0x80]) (started 100)))
   in upto_error (log_of hp1) = upto_error (log_of hp2) \<and>
      upto_error (log_of hp1) =
        [OnHeaderListStart, OnHeader kIndexedLiteralHeader [0x61] [0x62], OnHeaderErrorDetected ''Invalid index.'']"
  using hpack_fragments[OF started_reachable[of 4096 100], of "[[0x40, 0x01], [0x61, 0x01], [0x62, 0x80]]"]
  by (simp add: hpack_eval)

text \<open>
  C27: The decoder enforces its settings: whenever a block has been decoded to its end without an error,
  the limit of the dynamic table is within the last acknowledged setting.
\<close>

theorem hpack_settings_enforced:
  assumes "hpack_reachable B hp" "DecodeBlock css hp = (True, hp')"
  shows "dt_size_limit (ds_decoder_tables (hd_decoder_state hp')) \<le> unat (ds_final_header_table_size (hd_decoder_state hp'))"
proof -
  note ok = reachable_ok[OF assms(1)]
  have "limit_ok (State_OnHeaderBlockStart (hd_decoder_state hp))"
    using ok by (auto simp: limit_ok_def State_OnHeaderBlockStart_def state_ok_def table_ok_def decoder_ok_def)
  then obtain ds where "limit_ok ds" "\<not> ds_error_detected ds" "\<not> ds_require_dynamic_table_size_update ds"
    "hd_decoder_state hp' = notify OnHeaderListEnd ds"
    by (rule DecodeBlock_keeps[OF lim.entry_invariant_axioms ok assms(2)])
  then show ?thesis by (auto simp: limit_ok_def)
qed

text \<open>After the setting 64, a block that updates the table size to 30 is accepted.\<close>

theorem hpack_settings_enforced_witness:
  "let hp = Decoder_ApplyHeaderTableSizeSetting 64 (Http2HpackDecoder_init 100)
   in fst (DecodeBlock [[0x3e]] hp) \<and>
      dt_size_limit (ds_decoder_tables (hd_decoder_state (snd (DecodeBlock [[0x3e]] hp)))) = 30 \<and> (30 :: nat) \<le> unat (64 :: u32)"
  using hpack_settings_enforced[OF hpack_reachable.setting[OF hpack_reachable.init[of 4096 100], of 64], of "[[0x3e]]"]
  by (simp add: hpack_eval)

text \<open>What the block decoder says of bytes that follow what has been decoded.\<close>

definition decode_status :: "Http2HpackDecoder \<Rightarrow> bytes \<Rightarrow> DecodeStatus" where
  "decode_status hp xs =
     fst (BlockDecoder_Decode whole_entry_listener (hd_block_decoder hp) (sink_of hp) (mkDecodeBuffer xs))"

lemma decode_status_spec:
  assumes "decoder_ok B hp" "clean hp"
  shows "decode_status hp xs = fst (block_spec abs_listener (view_block (hd_block_decoder hp)) (abs_sink (sink_of hp)) xs)"
proof -
  obtain st bd w ds db where d: "BlockDecoder_Decode whole_entry_listener (hd_block_decoder hp) (sink_of hp) (mkDecodeBuffer xs) =
      (st, (bd, w, ds), db)" by (metis prod.exhaust)
  have "block_ready (hd_block_decoder hp) (sink_of hp)" using assms by (simp add: decoder_ok_def)
  then have "block_spec abs_listener (view_block (hd_block_decoder hp)) (abs_sink (sink_of hp)) xs =
      (st, ((if st = kDecodeInProgress then view_block bd else AtEntry), abs_sink (w, ds)), rest db)"
    using web.block_Decode_refines[of "hd_block_decoder hp" "sink_of hp" "mkDecodeBuffer xs"]
    by (auto simp: d block_ready_def rest_simps)
  then show ?thesis by (simp add: decode_status_def d)
qed

text \<open>
  C37: An error can be reported twice in one fragment. When well-formed
  entries \<open>xs\<close> make the decoder state report an error, the bytes \<open>ys\<close> behind them in the same
  fragment are decoded nevertheless. They change neither the tables nor the calls of the listener,
  except that the listener is told of a second error when they are malformed, because the decoder's
  own flag is only brought up to date by \<open>error_detected\<close>. Had \<open>ys\<close> come in a fragment of its own it
  would have been refused, and there would be the one report only.
\<close>

theorem hpack_error_reported_twice:
  assumes "hpack_reachable B hp" "\<not> fst (Decoder_error_detected hp)"
    and "decode_status hp xs \<noteq> kDecodeError" "DecodeFragment (mkDecodeBuffer xs) hp = (False, hp1, db1)"
    and "DecodeFragment (mkDecodeBuffer (xs @ ys)) hp = (b, hp2, db2)"
  shows "\<not> b \<and> has_error (log_of hp1) \<and>
    ds_decoder_tables (hd_decoder_state hp2) = ds_decoder_tables (hd_decoder_state hp1) \<and>
    log_of hp2 = log_of hp1 @ (if decode_status hp (xs @ ys) = kDecodeError
      then [OnHeaderErrorDetected ''HPACK block malformed.''] else []) \<and>
    DecodeFragments [xs, ys] hp = (False, hp1)"
proof -
  have c: "decoder_ok B hp" "clean hp" using reachable_ok[OF assms(1)] assms(2) by (auto simp: error_detected_clean)
  let ?spec = "block_spec abs_listener (view_block (hd_block_decoder hp)) (abs_sink (sink_of hp))"
  obtain st v a r where s: "?spec xs = (st, (v, a), r)" by (metis prod.exhaust)
  have st: "st \<noteq> kDecodeError" using assms(3) s by (simp add: decode_status_spec[OF c])
  obtain st2 v2 a2 r2 where t: "block_spec abs_listener v a ys = (st2, (v2, a2), r2)" by (metis prod.exhaust)
  have u: "?spec (xs @ ys) = (st2, (v2, a2), r2)" using sink.block_spec_cut[OF s, of ys] st t by simp
  note F1 = fragment_spec[OF c, of "mkDecodeBuffer xs" st v a r, OF _ assms(4)]
    and F2 = fragment_spec[OF c, of "mkDecodeBuffer (xs @ ys)" st2 v2 a2 r2, OF _ assms(5)]
  have "sink_error a" using F1(3) s st by (simp add: rest_simps)
  moreover have ok: "sink_ok B a" using ok.keeps_block[OF decoder_sink_ok[OF c(1)] s] .
  ultimately have e: "ds_error_detected (snd a)" "has_error (ds_listener (snd a))"
    by (auto simp: sink_error_def sink_ok_def state_ok_def)
  have f: "snd a2 = snd a" using frz.keeps_block[OF _ t, of "snd a"] e by blast
  have h1: "hd_decoder_state hp1 = snd a" using F1(6) s st by (simp add: rest_simps)
  have h2: "hd_decoder_state hp2 = (if st2 = kDecodeError then notify (OnHeaderErrorDetected ''HPACK block malformed.'') (snd a) else snd a)"
    using F2(6) u by (simp add: rest_simps f)
  have "\<not> b" using F2(3) u e(1) f by (simp add: rest_simps sink_error_def)
  then show ?thesis using h1 h2 e assms(4) by (simp add: decode_status_spec[OF c] u)
qed

text \<open>An index that is not in the tables, and behind it an integer that is too long.\<close>

theorem hpack_error_reported_twice_witness:
  "log_of (fst (snd (DecodeFragment (mkDecodeBuffer ([0x80] @ [0xff, 0xff, 0xff, 0xff, 0xff, 0xff, 0xff])) (started 100)))) =
     [OnHeaderListStart, OnHeaderErrorDetected ''Invalid index.''] @ [OnHeaderErrorDetected ''HPACK block malformed.'']"
proof -
  let ?xs = "[0x80]" and ?ys = "[0xff, 0xff, 0xff, 0xff, 0xff, 0xff, 0xff]"
  obtain hp1 db1 where x: "DecodeFragment (mkDecodeBuffer ?xs) (started 100) = (False, hp1, db1)"
      "log_of hp1 = [OnHeaderListStart, OnHeaderErrorDetected ''Invalid index.'']"
    by (simp add: hpack_eval)
  obtain b hp2 db2 where y: "DecodeFragment (mkDecodeBuffer (?xs @ ?ys)) (started 100) = (b, hp2, db2)" by (metis prod.exhaust)
  have "\<not> fst (Decoder_error_detected (started 100))" "decode_status (started 100) ?xs \<noteq> kDecodeError"
    "decode_status (started 100) (?xs @ ?ys) = kDecodeError"
    by (simp_all add: hpack_eval decode_status_def)
  then have "log_of hp2 = log_of hp1 @ [OnHeaderErrorDetected ''HPACK block malformed.'']"
    using hpack_error_reported_twice[OF started_reachable[of 4096 100] _ _ x(1) y] by simp
  then show ?thesis unfolding y x(2) by simp
qed

text \<open>
  The low water mark changes with an update of the table size only, and a required update stays
  required until there is one.
\<close>

definition marks_kept :: "u32 \<Rightarrow> u32 \<Rightarrow> HpackDecoderState \<Rightarrow> bool" where
  "marks_kept low final ds \<longleftrightarrow> ds_final_header_table_size ds = final \<and>
     (ds_saw_dynamic_table_size_update ds \<or> ds_lowest_header_table_size ds = low)"

definition update_due :: "HpackDecoderState \<Rightarrow> bool" where
  "update_due ds \<longleftrightarrow> ds_error_detected ds \<or> ds_require_dynamic_table_size_update ds \<or> ds_saw_dynamic_table_size_update ds"

lemma marks_entry: "marks_kept low final (State_entry ty m w ds) \<longleftrightarrow> marks_kept low final ds"
  by (auto simp: marks_kept_def State_entry_def State_literal_def State_Insert_def State_ReportError_def Let_def prod.case_eq_if
      split: option.split sum.split)

lemma marks_ops:
  "marks_kept low final (State_OnIndexedHeader n ds) \<longleftrightarrow> marks_kept low final ds"
  "marks_kept low final (State_OnHpackDecodeError msg ds) \<longleftrightarrow> marks_kept low final ds"
  "marks_kept low final ds \<Longrightarrow> marks_kept low final (State_OnDynamicTableSizeUpdate n ds)"
  by (auto simp: marks_kept_def State_OnIndexedHeader_def State_OnHpackDecodeError_def State_OnDynamicTableSizeUpdate_def
      State_ReportError_def Let_def prod.case_eq_if split: option.split)

lemma due_entry: "update_due ds \<Longrightarrow> update_due (State_entry ty m w ds)"
  by (auto simp: update_due_def State_entry_def State_literal_def State_Insert_def State_ReportError_def Let_def prod.case_eq_if
      split: option.split sum.split)

lemma due_ops:
  "update_due ds \<Longrightarrow> update_due (State_OnIndexedHeader n ds)"
  "update_due (State_OnHpackDecodeError msg ds)"
  "update_due ds \<Longrightarrow> update_due (State_OnDynamicTableSizeUpdate n ds)"
  by (auto simp: update_due_def State_OnIndexedHeader_def State_OnDynamicTableSizeUpdate_def
      State_ReportError_def Let_def prod.case_eq_if split: option.split)

interpretation mk: entry_invariant abs_listener "\<lambda>a. marks_kept low final (snd a)" for low final
  by unfold_locales
    (auto simp: abs_listener_def marks_entry marks_ops split: option.splits prod.splits if_splits)

interpretation due: entry_invariant abs_listener "\<lambda>a. update_due (snd a)"
  by unfold_locales
    (auto simp: abs_listener_def due_entry due_ops split: option.splits prod.splits if_splits)

text \<open>
  C38: The low water mark outlives the block that follows the settings. When a block is accepted that has
  no update of the table size, the mark and the last setting are as before. If the block has filled
  the table above the mark, every next block without an update is refused, although no setting has
  changed since the block was accepted.
\<close>

theorem hpack_low_water_mark_survives:
  assumes "hpack_reachable B hp" "DecodeBlock css hp = (True, hp1)"
    and "\<not> ds_saw_dynamic_table_size_update (hd_decoder_state hp1)"
    and "unat (ds_lowest_header_table_size (hd_decoder_state hp)) < dt_current_size (ds_decoder_tables (hd_decoder_state hp1))"
    and "DecodeBlock css2 hp1 = (ok, hp2)" "\<not> ds_saw_dynamic_table_size_update (hd_decoder_state hp2)"
  shows "ds_lowest_header_table_size (hd_decoder_state hp1) = ds_lowest_header_table_size (hd_decoder_state hp) \<and>
    ds_final_header_table_size (hd_decoder_state hp1) = ds_final_header_table_size (hd_decoder_state hp) \<and> \<not> ok"
proof -
  let ?ds = "hd_decoder_state hp" and ?ds1 = "hd_decoder_state hp1"
  have "marks_kept (ds_lowest_header_table_size ?ds) (ds_final_header_table_size ?ds) (State_OnHeaderBlockStart ?ds)"
    by (simp add: marks_kept_def State_OnHeaderBlockStart_def)
  then obtain ds where "marks_kept (ds_lowest_header_table_size ?ds) (ds_final_header_table_size ?ds) ds" "?ds1 = notify OnHeaderListEnd ds"
    and ok1: "decoder_ok B hp1"
    by (rule DecodeBlock_keeps[OF mk.entry_invariant_axioms reachable_ok[OF assms(1)] assms(2)])
  then have m: "ds_lowest_header_table_size ?ds1 = ds_lowest_header_table_size ?ds" "ds_final_header_table_size ?ds1 = ds_final_header_table_size ?ds"
    using assms(3) by (auto simp: marks_kept_def)
  have "\<not> ok"
  proof
    assume "ok"
    have "update_due (State_OnHeaderBlockStart ?ds1)" using assms(4) m by (simp add: update_due_def State_OnHeaderBlockStart_def)
    then obtain ds where "update_due ds" "\<not> ds_error_detected ds" "\<not> ds_require_dynamic_table_size_update ds"
      "hd_decoder_state hp2 = notify OnHeaderListEnd ds"
      by (rule DecodeBlock_keeps[OF due.entry_invariant_axioms ok1 assms(5)[unfolded \<open>ok\<close>[THEN eqTrueI]]])
    then show False using assms(6) by (simp add: update_due_def)
  qed
  then show ?thesis using m by simp
qed

text \<open>
  After the settings 64 and 4096 a block without an update is accepted; it adds an entry of size 67. The
  next block, an indexed header, is refused.
\<close>

theorem hpack_low_water_mark_survives_witness:
  "let hp = Decoder_ApplyHeaderTableSizeSetting 4096 (Decoder_ApplyHeaderTableSizeSetting 64 (Http2HpackDecoder_init 100));
       (ok1, hp1) = DecodeBlock [[0x40, 0x01, 0x61, 0x22] @ replicate 34 0x62] hp;
       (ok2, hp2) = DecodeBlock [[0xbe]] hp1
   in ok1 \<and> \<not> ok2 \<and> last (log_of hp2) = OnHeaderErrorDetected ''Missing dynamic table size update.''"
proof -
  let ?hp = "Decoder_ApplyHeaderTableSizeSetting 4096 (Decoder_ApplyHeaderTableSizeSetting 64 (Http2HpackDecoder_init 100))"
  have r: "hpack_reachable 4096 ?hp" by (intro hpack_reachable.setting hpack_reachable.init) simp_all
  obtain hp1 where h1: "DecodeBlock [[0x40, 0x01, 0x61, 0x22] @ replicate 34 0x62] ?hp = (True, hp1)"
    "\<not> ds_saw_dynamic_table_size_update (hd_decoder_state hp1)"
    "unat (ds_lowest_header_table_size (hd_decoder_state ?hp)) < dt_current_size (ds_decoder_tables (hd_decoder_state hp1))"
    "\<not> ds_saw_dynamic_table_size_update (hd_decoder_state (snd (DecodeBlock [[0xbe]] hp1)))"
    "last (log_of (snd (DecodeBlock [[0xbe]] hp1))) = OnHeaderErrorDetected ''Missing dynamic table size update.''"
    by (simp add: hpack_eval)
  obtain ok2 hp2 where h2: "DecodeBlock [[0xbe]] hp1 = (ok2, hp2)" by fastforce
  have "\<not> ok2" using hpack_low_water_mark_survives[OF r h1(1-3) h2] h1(4) h2 by simp
  then show ?thesis using h1(5) h2 unfolding Let_def h1(1) by simp
qed

end
