(* ===== verification/Hpack_Roundtrip.thy ===== *)
theory Hpack_Roundtrip
  imports Hpack_Encoder_Runs Hpack_Decoder_Runs
begin

text \<open>
  The HPACK encoder and the HPACK decoder of a connection together: whatever header lists the
  encoder is given, whatever its indexing policy and whatever table sizes are negotiated in between,
  the decoder reports these lists, and the dynamic tables of the two endpoints stay equal.
\<close>

section \<open>Reading integers and strings\<close>

lemma varint_read:
  assumes "2 ^ N - 1 \<le> n" "n < 2 ^ 28" "N < 8" "v = 2 ^ N - 1"
  shows "\<exists>t. varint_ext \<lparr>vd_value = of_nat v, vd_offset = 0\<rparr> (ext_encode (n - (2 ^ N - 1)) @ r) =
      (kDecodeDone, t, length (ext_encode (n - (2 ^ N - 1)))) \<and> unat (vd_value t) = n"
proof -
  let ?e = "ext_encode (n - (2 ^ N - 1))"
  have "v < 2 ^ 7" using assms(3,4) power_increasing[of N 7 "2 :: nat"] by auto
  then have v: "unat (of_nat v :: u32) = v" "v \<le> 127" by (simp_all add: unat_of_nat take_bit_nat_eq_self)
  have acc: "ext_accepted ?e" using assms(2) ext_encode_accepted[of "n - (2 ^ N - 1)"] by linarith
  have e: "ext_bytes ?e" "ext_value ?e = n - (2 ^ N - 1)" using ext_encode_ok by auto
  show ?thesis
    using varint_ext_correct[OF e(1), of "\<lparr>vd_value = of_nat v, vd_offset = 0\<rparr>" 0 r] v acc e(2) assms(1,4)
    by (auto simp: ext_accepted_def)
qed

lemma varint_read_7:
  assumes "\<not> n < 127" "n < 2 ^ 28"
  shows "\<exists>t. varint_ext \<lparr>vd_value = 0x7f, vd_offset = 0\<rparr> (ext_encode (n - 127) @ r) =
    (kDecodeDone, t, length (ext_encode (n - 127))) \<and> unat (vd_value t) = n"
proof -
  have "2 ^ 7 - 1 \<le> n" using assms(1) by simp
  from varint_read[OF this assms(2), of 127 r] show ?thesis by simp
qed

lemma ucast_small: "k < 256 \<Longrightarrow> (ucast (of_nat k :: byte) :: u32) = of_nat k"
  by (simp add: word_unat_eq_iff unat_of_nat take_bit_nat_eq_self)

lemma first_byte:
  fixes l :: byte
  assumes "\<And>i. i < N \<Longrightarrow> \<not> bit l i" "N < 8"
  shows "(l OR of_nat (min n (2 ^ N - 1))) AND (2 ^ N - 1) = of_nat (min n (2 ^ N - 1))"
    and "unat (of_nat (min n (2 ^ N - 1)) :: byte) = min n (2 ^ N - 1)"
    and "(l OR of_nat (min n (2 ^ N - 1))) AND NOT (2 ^ N - 1) = l"
    and "N \<le> i \<Longrightarrow> bit (l OR of_nat (min n (2 ^ N - 1))) i = bit l i"
proof -
  have "(2 :: nat) ^ N \<le> 2 ^ 7" using assms(2) by (intro power_increasing) auto
  then have lt: "min n (2 ^ N - 1) < 256" by auto
  show u: "unat (of_nat (min n (2 ^ N - 1)) :: byte) = min n (2 ^ N - 1)" using unat_byte_of_nat[OF lt] .
  then have b: "unat (of_nat (min n (2 ^ N - 1)) :: byte) < 2 ^ N" by (simp add: min_less_iff_disj)
  show "(l OR of_nat (min n (2 ^ N - 1))) AND (2 ^ N - 1) = of_nat (min n (2 ^ N - 1))"
    using flag_or_value(1)[OF assms(1) b assms(2)] .
  show "(l OR of_nat (min n (2 ^ N - 1))) AND NOT (2 ^ N - 1) = l"
    using flag_or_value(2)[OF assms(1) b assms(2)] .
  show "N \<le> i \<Longrightarrow> bit (l OR of_nat (min n (2 ^ N - 1))) i = bit l i"
    using small_not_bit[OF b] by (simp add: bit_or_iff)
qed

lemma low_flag_bits: "i < 7 \<Longrightarrow> \<not> bit (0x80 :: byte) i" "i < 6 \<Longrightarrow> \<not> bit (0x40 :: byte) i" "i < 5 \<Longrightarrow> \<not> bit (0x20 :: byte) i"
  using bit_exp_iff[where 'a = byte, of 7 i] bit_exp_iff[where 'a = byte, of 6 i] bit_exp_iff[where 'a = byte, of 5 i] by auto

definition entry_flag :: "HpackEntryType \<Rightarrow> byte \<times> nat" where
  "entry_flag ty =
     (case ty of kIndexedHeader \<Rightarrow> (0x80, 7) | kIndexedLiteralHeader \<Rightarrow> (0x40, 6)
      | kDynamicTableSizeUpdate \<Rightarrow> (0x20, 5) | kUnindexedLiteralHeader \<Rightarrow> (0, 4) | kNeverIndexedLiteralHeader \<Rightarrow> (0x10, 4))"

lemma entry_flag_bits:
  assumes "ty \<noteq> kNeverIndexedLiteralHeader" "entry_flag ty = (l, N)"
  shows "\<And>i. i < N \<Longrightarrow> \<not> bit l i" "N < 8"
    "(\<And>i. N \<le> i \<Longrightarrow> bit b i = bit l i) \<Longrightarrow> entry_type_ref b = (ty, 2 ^ N - 1)"
  using assms low_flag_bits
  by (cases ty; auto simp: entry_flag_def entry_type_ref_def)+

lemma entry_int:
  assumes "ty \<noteq> kNeverIndexedLiteralHeader" "entry_flag ty = (l, N)" "n < 2 ^ 28"
  shows "entry_spec cb AtEntry a (hpack_int l N n @ r) = entry_dispatch cb ty n a r"
proof -
  note fb = entry_flag_bits[OF assms(1,2)]
  note F = first_byte[of N l, OF fb(1) fb(2)]
  let ?b = "l OR of_nat (min n (2 ^ N - 1)) :: byte"
  have ty: "entry_type_ref ?b = (ty, 2 ^ N - 1)" using fb(3)[of ?b] F(4) by blast
  have m: "unat (2 ^ N - 1 :: byte) = 2 ^ N - 1"
    using F(2)[of "2 ^ N - 1"] by simp
  show ?thesis
  proof (cases "n < 2 ^ N - 1")
    case True
    then show ?thesis using F(1,2)[of n] m ty by (simp add: hpack_int_def)
  next
    case False
    then have n: "min n (2 ^ N - 1) = 2 ^ N - 1" by simp
    have u: "(ucast (of_nat (2 ^ N - 1) :: byte) :: u32) = of_nat (2 ^ N - 1)"
      using power_increasing[of N 7 "2 :: nat"] fb(2) by (intro ucast_small) simp
    obtain t where "varint_ext \<lparr>vd_value = of_nat (2 ^ N - 1), vd_offset = 0\<rparr> (ext_encode (n - (2 ^ N - 1)) @ r) =
      (kDecodeDone, t, length (ext_encode (n - (2 ^ N - 1))))" "unat (vd_value t) = n"
      using varint_read[of N n "2 ^ N - 1" r] False assms(3) fb(2) by auto
    then show ?thesis using False F(1,2)[of n] m n ty u by (simp add: hpack_int_def entry_type_spec_def)
  qed
qed

lemma minus_128: "(- 128 :: byte) = 0x80"
  by simp

lemma string_int:
  assumes "f \<in> {0, 0x80}" "n < 2 ^ 28"
  shows "string_spec cb AtLength a (hpack_int f 7 n @ r) = string_start_body cb (f = 0x80) n a r"
proof -
  have lo: "\<And>i. i < 7 \<Longrightarrow> \<not> bit f i" using assms(1) low_flag_bits(1) by auto
  note F = first_byte[of 7 f, OF lo, simplified]
  define b where "b = f OR of_nat (min n 127)"
  have h: "b AND 0x80 = f" using F(3)[of n] minus_128 by (simp add: b_def)
  have u: "unat (b AND 0x7f) = min n 127" using F(1,2)[of n] by (simp add: b_def)
  have i: "hpack_int f 7 n = b # (if n < 127 then [] else ext_encode (n - 127))" by (simp add: hpack_int_def b_def)
  show ?thesis
  proof (cases "n < 127")
    case True
    then have "unat (b AND 0x7f) \<noteq> unat (0x7f :: byte)" unfolding u by simp
    then have "b AND 0x7f \<noteq> 0x7f" by metis
    then show ?thesis using True u h unfolding i by simp
  next
    case False
    then have "unat (b AND 0x7f) = unat (0x7f :: byte)" unfolding u by simp
    then have "b AND 0x7f = 0x7f" by (rule unsigned_word_eqI)
    then have "string_spec cb AtLength a (b # ext_encode (n - 127) @ r) =
        string_spec cb (InLength (f = 0x80) \<lparr>vd_value = 0x7f, vd_offset = 0\<rparr>) a (ext_encode (n - 127) @ r)"
      by (simp only: string_spec.simps simp_thms if_False h)
    also have "\<dots> = string_start_body cb (f = 0x80) n a r"
      using varint_read_7[OF False assms(2), of r] by (elim exE) simp
    finally show ?thesis using False by (simp add: i)
  qed
qed

lemma huff_octets_nonempty: "s \<noteq> [] \<Longrightarrow> huff_octets s \<noteq> []"
proof
  assume "s \<noteq> []" "huff_octets s = []"
  then have "huff_bits s = []" using huff_octets_bits[of s] by simp
  then have "huff_run [] [] = huff_run [] s" using huff_run_codes[of s "[]" "[]"] by (simp only: append_Nil append_Nil2)
  then show False using \<open>s \<noteq> []\<close> by (simp add: huff_run.simps[of "[]"] huff_match_Nil)
qed

lemma string_text:
  assumes "length s < 2 ^ 28"
  shows "\<exists>h xs. hpack_string c s = hpack_int (if h then 0x80 else 0) 7 (length xs) @ xs \<and> length xs \<le> length s \<and>
    (\<exists>v. view_OnData xs (view_OnStart h (length xs)) = (True, v) \<and> view_OnEnd v = (True, VComplete s))"
proof (cases "c \<and> length (huff_octets s) < length s")
  case True
  let ?pad = "replicate (pad_len (length (huff_bits s))) True"
  have p: "pad_len (length (huff_bits s)) < 8" by (simp add: pad_len_def)
  have "huff_run (huff_bits s @ ?pad) [] = (True, ?pad, s)"
    unfolding huff_run_codes by (simp add: huff_run.simps[of ?pad] padding_no_match[OF p])
  then have "view_OnData (huff_octets s) (view_OnStart True (length (huff_octets s))) = (True, VCollect 0 (Huff ?pad s))"
    if "huff_octets s \<noteq> []" using that huff_octets_bits[of s] by (simp add: view_OnStart_def)
  moreover have "huff_octets s \<noteq> []" using huff_octets_nonempty[of s] True by auto
  ultimately show ?thesis using True p
    by (intro exI[of _ True] exI[of _ "huff_octets s"]) (auto simp: hpack_string_def)
next
  case False
  then show ?thesis
    by (intro exI[of _ False] exI[of _ s]) (auto simp: hpack_string_def view_OnStart_def)
qed

lemma string_read:
  fixes c :: bool
  assumes "length s < 2 ^ 28"
  shows "\<exists>h xs v. length xs \<le> length s \<and> view_OnData xs (view_OnStart h (length xs)) = (True, v) \<and> view_OnEnd v = (True, VComplete s) \<and>
    (\<forall>(cb :: abs_sink string_listener) a r. string_spec cb AtLength a (hpack_string c s @ r) =
      (kDecodeDone, (AtLength, sl_OnStringEnd cb (sl_OnStringData cb xs (sl_OnStringStart cb h (length xs) a))), r))"
proof -
  obtain h xs v where x: "hpack_string c s = hpack_int (if h then 0x80 else 0) 7 (length xs) @ xs" "length xs \<le> length s"
    "view_OnData xs (view_OnStart h (length xs)) = (True, v)" "view_OnEnd v = (True, VComplete s)"
    using string_text[OF assms] by blast
  have "length xs < 2 ^ 28" using x(2) assms by linarith
  then have "string_spec cb AtLength a (hpack_string c s @ r) =
      (kDecodeDone, (AtLength, sl_OnStringEnd cb (sl_OnStringData cb xs (sl_OnStringStart cb h (length xs) a))), r)"
    for cb :: "abs_sink string_listener" and a r
    using string_int[of "if h then 0x80 else 0" "length xs" cb a "xs @ r"] x(1)
    by (cases h) (simp_all add: string_start_body_def string_body_def)
  then show ?thesis using x(2-4) by blast
qed

text \<open>A string of the encoder, read as a name or as a value.\<close>

lemma read_name:
  assumes "length s < 2 ^ 28" "length s \<le> ep_max e"
  shows "entry_name abs_listener AtLength (Some e, ds) (hpack_string c s @ r) =
    entry_value abs_listener AtLength (Some (e\<lparr>ep_name := VComplete s\<rparr>), ds) r"
proof -
  obtain h xs v where x: "length xs \<le> length s" "view_OnData xs (view_OnStart h (length xs)) = (True, v)" "view_OnEnd v = (True, VComplete s)"
    "\<And>(cb :: abs_sink string_listener) a r. string_spec cb AtLength a (hpack_string c s @ r) =
      (kDecodeDone, (AtLength, sl_OnStringEnd cb (sl_OnStringData cb xs (sl_OnStringStart cb h (length xs) a))), r)"
    using string_read[OF assms(1), of c] by blast
  have "\<not> ep_max e < length xs" using x(1) assms by linarith
  then show ?thesis using x(2,3) by (simp add: entry_name_def x(4)) (simp add: abs_listener_def)
qed

lemma read_value:
  assumes "length s < 2 ^ 28" "length s \<le> ep_max e"
  shows "entry_value abs_listener AtLength (Some e, ds) (hpack_string c s @ r) =
    (kDecodeDone, (AtEntry,
      Some (e\<lparr>ep_name := (if ep_index e = 0 then VReset else ep_name e), ep_value := VReset\<rparr>),
      State_entry (ep_type e) (if ep_index e = 0 then Inr (view_text (ep_name e)) else Inl (ep_index e)) s ds), r)"
proof -
  obtain h xs v where x: "length xs \<le> length s" "view_OnData xs (view_OnStart h (length xs)) = (True, v)" "view_OnEnd v = (True, VComplete s)"
    "\<And>(cb :: abs_sink string_listener) a r. string_spec cb AtLength a (hpack_string c s @ r) =
      (kDecodeDone, (AtLength, sl_OnStringEnd cb (sl_OnStringData cb xs (sl_OnStringStart cb h (length xs) a))), r)"
    using string_read[OF assms(1), of c] by blast
  have "\<not> ep_max e < length xs" using x(1) assms by linarith
  then show ?thesis using x(2,3) by (simp add: entry_value_def x(4)) (simp add: abs_listener_def)
qed

section \<open>Representations\<close>

text \<open>
  The decoder state in the middle of a block whose headers it is reading: no error, no update of the
  table size outstanding, and the table of the encoder. \<open>reads_on\<close> relates the state before and after
  a header.
\<close>

definition mid_block :: "HpackEncoder \<Rightarrow> HpackDecoderState \<Rightarrow> bool" where
  "mid_block en ds \<longleftrightarrow> \<not> ds_error_detected ds \<and> \<not> ds_require_dynamic_table_size_update ds \<and>
     table_ok (ds_decoder_tables ds) \<and> dt_table (ds_decoder_tables ds) = header_pairs (en_header_table en) \<and>
     dt_size_limit (ds_decoder_tables ds) = tb_max_size (en_header_table en)"

definition reads_on :: "HpackEntryType \<Rightarrow> Representation \<Rightarrow> HpackDecoderState \<Rightarrow> HpackDecoderState \<Rightarrow> bool" where
  "reads_on ty h ds ds' \<longleftrightarrow> ds_listener ds' = ds_listener ds @ [OnHeader ty (fst h) (snd h)] \<and>
     ds_final_header_table_size ds' = ds_final_header_table_size ds \<and>
     ds_lowest_header_table_size ds' = ds_lowest_header_table_size ds"

definition rep_small :: "nat \<Rightarrow> Representation \<Rightarrow> bool" where
  "rep_small m h \<longleftrightarrow> length (fst h) < 2 ^ 28 \<and> length (snd h) < 2 ^ 28 \<and> length (fst h) \<le> m \<and> length (snd h) \<le> m"

lemma rep_small_fits: "rep_small m h \<Longrightarrow> rep_fits h"
  by (simp add: rep_small_def rep_fits_def)

lemma indexed_reads:
  assumes "mid_block en ds" "fst (Tables_Lookup i (ds_decoder_tables ds)) = Some h"
  shows "mid_block en (State_OnIndexedHeader i ds)" "reads_on kIndexedHeader h ds (State_OnIndexedHeader i ds)"
  using assms by (cases h; auto simp: mid_block_def reads_on_def State_OnIndexedHeader_def Let_def case_prod_beta)+

lemma literal_reads:
  assumes "mid_block en ds" "header_ok (en_header_table en)"
    "case name of Inr n \<Rightarrow> n = fst h | Inl i \<Rightarrow> \<exists>w. fst (Tables_Lookup i (ds_decoder_tables ds)) = Some (fst h, w)"
    "rep_indexed en h \<longleftrightarrow> ty = kIndexedLiteralHeader"
  shows "mid_block (en\<lparr>en_header_table := rep_table en h\<rparr>) (State_entry ty name (snd h) ds) \<and>
    reads_on ty h ds (State_entry ty name (snd h) ds)"
proof -
  obtain tab where tab: "State_entry ty name (snd h) ds = State_literal ty (fst h) (snd h)
      (ds\<lparr>ds_allow_dynamic_table_size_update := False, ds_decoder_tables := tab\<rparr>)"
    "dt_table tab = dt_table (ds_decoder_tables ds)" "dt_size_limit tab = dt_size_limit (ds_decoder_tables ds)" "table_ok tab"
  proof (cases name)
    case (Inl i)
    then show ?thesis using assms(1,3) by (intro that) (auto simp: State_entry_def mid_block_def Let_def case_prod_beta)
  next
    case (Inr n)
    then show ?thesis using assms(1,3) that[of "ds_decoder_tables ds"]
      by (auto simp: State_entry_def mid_block_def Let_def)
  qed
  show ?thesis unfolding tab(1)
    using tab(2-) assms(1,4) rep_table_ok[OF assms(2), of h] Insert_entries[OF tab(4), of "fst h" "snd h"]
    by (auto simp: State_literal_def State_Insert_def mid_block_def reads_on_def Let_def)
qed

lemma mid_block_step: "mid_block (rep_step h en) ds = mid_block (en\<lparr>en_header_table := rep_table en h\<rparr>) ds"
  by (simp add: mid_block_def rep_step_def)

lemma entry_literal:
  assumes "ty \<in> {kIndexedLiteralHeader, kUnindexedLiteralHeader}"
  shows "entry_dispatch abs_listener ty n (Some e, ds) xs =
    (if n = 0 then entry_name abs_listener AtLength (Some (e\<lparr>ep_type := ty, ep_index := n\<rparr>), ds) xs
     else entry_value abs_listener AtLength (Some (e\<lparr>ep_type := ty, ep_index := n\<rparr>), ds) xs)"
  using assms by (auto simp: entry_dispatch_def abs_listener_def)

lemma rep_bytes_plain:
  assumes "\<not> rep_indexed en h" "\<not> (en_enable_compression en \<and> GetByNameAndValue (fst h) (snd h) (en_header_table en) \<noteq> None)"
  shows "rep_bytes en h =
    hpack_int 0 4 0 @ hpack_string (en_enable_compression en) (fst h) @ hpack_string (en_enable_compression en) (snd h)"
  using assms by (auto simp: rep_bytes_def rep_indexed_def Let_def)

lemma rep_decodes:
  assumes ok: "encoder_ok en" and mid: "mid_block en ds" and small: "rep_small (ep_max e) h"
  shows "\<exists>e' ds' ty. (\<forall>r. entry_spec abs_listener AtEntry (Some e, ds) (rep_bytes en h @ r) = (kDecodeDone, (AtEntry, Some e', ds'), r)) \<and>
    ep_max e' = ep_max e \<and> mid_block (rep_step h en) ds' \<and> reads_on ty h ds ds'"
proof -
  let ?t = "en_header_table en" and ?c = "en_enable_compression en"
  have hok: "header_ok ?t" "dt_table (ds_decoder_tables ds) = header_pairs ?t"
    using ok mid by (auto simp: encoder_ok_def mid_block_def)
  note L = lookup_index[OF hok]
  note rs = small[unfolded rep_small_def]
  consider (index) x where "?c" "GetByNameAndValue (fst h) (snd h) ?t = Some x"
    | (indexed) "rep_indexed en h" | (plain) "\<not> rep_indexed en h" "rep_bytes en h = hpack_int 0 4 0 @ hpack_string ?c (fst h) @ hpack_string ?c (snd h)"
    using rep_bytes_plain[of en h] by blast
  then show ?thesis
  proof cases
    case index
    have n: "IndexOf x ?t < 2 ^ 28" using index_bound(1)[OF ok index(2)] by simp
    have b: "rep_bytes en h = hpack_int 0x80 7 (IndexOf x ?t)" "\<not> rep_indexed en h"
      using index by (simp_all add: rep_bytes_def rep_indexed_def)
    have "entry_spec abs_listener AtEntry (Some e, ds) (rep_bytes en h @ r) =
        (kDecodeDone, (AtEntry, Some e, State_OnIndexedHeader (IndexOf x ?t) ds), r)" for r
      unfolding b(1) using entry_int[of kIndexedHeader "0x80" 7 "IndexOf x ?t" abs_listener "(Some e, ds)" r] n
      by (simp add: entry_flag_def entry_dispatch_def abs_listener_def)
    moreover have "mid_block (rep_step h en) (State_OnIndexedHeader (IndexOf x ?t) ds)"
      "reads_on kIndexedHeader h ds (State_OnIndexedHeader (IndexOf x ?t) ds)"
      using indexed_reads[OF mid, of "IndexOf x ?t" h] L(1)[OF index(2)] b(2)
      by (auto simp: mid_block_step rep_table_def)
    ultimately show ?thesis by blast
  next
    case indexed
    define i where "i = (case GetByName (fst h) ?t of Some x \<Rightarrow> IndexOf x ?t | None \<Rightarrow> 0)"
    define nm where "nm = (case GetByName (fst h) ?t of Some x \<Rightarrow> Inl (IndexOf x ?t) | None \<Rightarrow> Inr (fst h))"
    have n: "i < 2 ^ 28" "i = 0 \<longleftrightarrow> GetByName (fst h) ?t = None"
      using index_bound(2)[OF ok, of "fst h"] by (auto simp: i_def split: option.split)
    have b: "rep_bytes en h = hpack_int 0x40 6 i @ (if i = 0 then hpack_string ?c (fst h) else []) @ hpack_string ?c (snd h)"
      using indexed n(2) by (auto simp: rep_bytes_def rep_indexed_def rep_name_def i_def Let_def split: option.splits)
    have nm: "nm = (if i = 0 then Inr (fst h) else Inl i)" using n(2) by (auto simp: nm_def i_def split: option.splits)
    let ?e = "e\<lparr>ep_type := kIndexedLiteralHeader, ep_index := i\<rparr>"
    have "\<exists>e'. ep_max e' = ep_max e \<and> (\<forall>r. entry_spec abs_listener AtEntry (Some e, ds) (rep_bytes en h @ r) =
        (kDecodeDone, (AtEntry, Some e', State_entry kIndexedLiteralHeader nm (snd h) ds), r))"
      unfolding b using entry_int[of kIndexedLiteralHeader "0x40" 6 i abs_listener "(Some e, ds)"] n(1) rs
      by (cases "i = 0") (simp_all add: entry_flag_def entry_literal read_name read_value nm)
    moreover have "case nm of Inr n \<Rightarrow> n = fst h | Inl i \<Rightarrow> \<exists>w. fst (Tables_Lookup i (ds_decoder_tables ds)) = Some (fst h, w)"
      using L(3)[of "fst h"] by (auto simp: nm_def split: option.splits)
    ultimately show ?thesis using literal_reads[OF mid hok(1), where name = nm and h = h and ty = kIndexedLiteralHeader] indexed
      unfolding mid_block_step by blast
  next
    case plain
    have "\<exists>e'. ep_max e' = ep_max e \<and> (\<forall>r. entry_spec abs_listener AtEntry (Some e, ds) (rep_bytes en h @ r) =
        (kDecodeDone, (AtEntry, Some e', State_entry kUnindexedLiteralHeader (Inr (fst h)) (snd h) ds), r))"
      unfolding plain(2) using entry_int[of kUnindexedLiteralHeader 0 4 0 abs_listener "(Some e, ds)"] rs
      by (simp add: entry_flag_def entry_literal read_name read_value)
    then show ?thesis using literal_reads[OF mid hok(1), where name = "Inr (fst h)" and h = h and ty = kUnindexedLiteralHeader] plain(1)
      unfolding mid_block_step by auto
  qed
qed

section \<open>Header lists\<close>

fun steps_bytes :: "Representation list \<Rightarrow> HpackEncoder \<Rightarrow> bytes" where
  "steps_bytes [] en = []"
| "steps_bytes (h # hs) en = rep_bytes en h @ steps_bytes hs (rep_step h en)"

lemma steps_buffer: "buf (fold rep_step hs en) = buf en @ steps_bytes hs en"
proof (induction hs arbitrary: en)
  case (Cons h hs)
  have "buf (rep_step h en) = buf en @ rep_bytes en h" by (simp add: rep_step_def)
  then show ?case using Cons.IH[of "rep_step h en"] by simp
qed simp

text \<open>What the listener is told, without the way each header was represented.\<close>

fun untyped :: "header_event \<Rightarrow> header_event" where
  "untyped (OnHeader ty name val) = OnHeader kIndexedHeader name val"
| "untyped ev = ev"

abbreviation header_events :: "Representation list \<Rightarrow> header_event list" where
  "header_events hs \<equiv> map (\<lambda>(name, val). OnHeader kIndexedHeader name val) hs"

lemma block_entry:
  assumes "entry_spec cb AtEntry l xs = (kDecodeDone, (AtEntry, l'), r)"
  shows "block_spec cb AtEntry l xs = block_spec cb AtEntry l' r"
proof -
  have "xs \<noteq> []" using assms by (cases xs) auto
  then show ?thesis using assms by (simp add: block_spec.simps[of cb AtEntry l xs])
qed

lemma steps_decode:
  "encoder_ok en \<Longrightarrow> mid_block en ds \<Longrightarrow> list_all (rep_small (ep_max e)) hs \<Longrightarrow>
   \<exists>e' ds'. block_spec abs_listener AtEntry (Some e, ds) (steps_bytes hs en) = (kDecodeDone, (AtEntry, Some e', ds'), []) \<and>
     mid_block (fold rep_step hs en) ds' \<and> map untyped (ds_listener ds') = map untyped (ds_listener ds) @ header_events hs \<and>
     ep_max e' = ep_max e \<and>
     ds_final_header_table_size ds' = ds_final_header_table_size ds \<and>
     ds_lowest_header_table_size ds' = ds_lowest_header_table_size ds"
proof (induction hs arbitrary: en e ds)
  case Nil
  then show ?case by (simp add: block_spec.simps)
next
  case (Cons h hs)
  obtain e1 ds1 ty where r: "entry_spec abs_listener AtEntry (Some e, ds) (rep_bytes en h @ r) = (kDecodeDone, (AtEntry, Some e1, ds1), r)"
    "ep_max e1 = ep_max e" "mid_block (rep_step h en) ds1" "reads_on ty h ds ds1" for r
    using rep_decodes[OF Cons.prems(1,2), of e h] Cons.prems(3) by auto
  have "list_all (rep_small (ep_max e1)) hs" using Cons.prems(3) r(2) by simp
  from Cons.IH[OF rep_step_ok[OF Cons.prems(1), of h] r(3) this] show ?case
    using block_entry[OF r(1)[of "steps_bytes hs (rep_step h en)"]] r(2,4)
    by (auto simp: reads_on_def case_prod_beta)
qed

section \<open>Table size settings\<close>

text \<open>
  The two endpoints between blocks. \<open>c\<close> is the table size at the end of the last block. Since then both
  have applied the same settings: the encoder has already cut its table down to the lowest of them,
  and knows the lowest that made it shrink; the decoder knows the lowest and waits for the
  updates that the next block starts with.
\<close>

definition pending :: "nat \<Rightarrow> HpackEncoder \<Rightarrow> HpackDecoderState \<Rightarrow> bool" where
  "pending c en ds \<longleftrightarrow>
     (let t = ds_decoder_tables ds; low = unat (ds_lowest_header_table_size ds);
          cur = tb_settings_size_bound (en_header_table en); m = en_min_table_size_setting_received en
      in \<not> ds_error_detected ds \<and> table_ok t \<and> dt_size_limit t = c \<and>
         tb_max_size (en_header_table en) = cur \<and> unat (ds_final_header_table_size ds) = cur \<and> cur < 2 ^ 28 \<and>
         low \<le> cur \<and> low \<le> c \<and> header_pairs (en_header_table en) = fit low (dt_table t) \<and>
         (if low < c then m = low else c \<le> m) \<and> (m \<le> cur \<or> m = size_t_max) \<and>
         (\<not> en_should_emit_table_size en \<longrightarrow> cur = c \<and> low = c \<and> m = size_t_max))"

lemma setting_pending:
  assumes "encoder_ok en" "pending c en ds" "n < 2 ^ 28"
  shows "\<exists>en'. Encoder_ApplyHeaderTableSizeSetting n en = Some en' \<and> encoder_ok en' \<and> buf en' = buf en \<and>
    pending c en' (State_ApplyHeaderTableSizeSetting (of_nat n) ds)"
proof -
  have n32: "n < 2 ^ 32" using assms(3) by simp
  have u: "unat (of_nat n :: u32) = n" using n32 by (simp add: unat_of_nat take_bit_nat_eq_self)
  have c: "c \<le> size_t_max" if "\<not> unat (ds_lowest_header_table_size ds) < c" "unat (ds_lowest_header_table_size ds) \<le> c"
    using that assms(2) by (auto simp: pending_def Let_def size_t_max_def)
  define low where "low = unat (ds_lowest_header_table_size ds)"
  define cur where "cur = tb_settings_size_bound (en_header_table en)"
  have p: "low \<le> cur" "low \<le> c" "unat (ds_final_header_table_size ds) = cur" "header_pairs (en_header_table en) = fit low (dt_table (ds_decoder_tables ds))"
    "if low < c then en_min_table_size_setting_received en = low else c \<le> en_min_table_size_setting_received en"
    "en_min_table_size_setting_received en \<le> cur \<or> en_min_table_size_setting_received en = size_t_max"
    using assms(2) by (auto simp: pending_def low_def cur_def Let_def)
  let ?ds = "State_ApplyHeaderTableSizeSetting (of_nat n) ds"
  have d: "unat (ds_lowest_header_table_size ?ds) = min n low" "unat (ds_final_header_table_size ?ds) = n"
    "ds_decoder_tables ?ds = ds_decoder_tables ds" "ds_error_detected ?ds = ds_error_detected ds"
    using u by (auto simp: State_ApplyHeaderTableSizeSetting_def low_def word_less_nat_alt Let_def)
  from setting_result[OF assms(1) n32, unfolded Let_def, folded cur_def]
  obtain en' where e: "Encoder_ApplyHeaderTableSizeSetting n en = Some en'" "encoder_ok en'"
    "en_output_stream en' = en_output_stream en" "tb_settings_size_bound (en_header_table en') = n"
    "if n = cur then en' = en
     else tb_max_size (en_header_table en') = n \<and> header_pairs (en_header_table en') = fit n (header_pairs (en_header_table en)) \<and>
       en_should_emit_table_size en' \<and>
       en_min_table_size_setting_received en' =
         (if n < cur then min n (en_min_table_size_setting_received en) else en_min_table_size_setting_received en)"
    by blast
  have "pending c en' ?ds"
  proof (cases "n = cur")
    case True
    then have "min n low = low" using p(1) by simp
    then show ?thesis using True e(5) d assms(2) by (simp add: pending_def Let_def low_def cur_def)
  next
    case False
    have l: "min n low \<le> n" "min n low \<le> c" using p(2) by auto
    have f: "header_pairs (en_header_table en') = fit (min n low) (dt_table (ds_decoder_tables ds))"
      using e(5) False p(4) by (simp add: fit_fit)
    have m: "if min n low < c then en_min_table_size_setting_received en' = min n low else c \<le> en_min_table_size_setting_received en'"
      "en_min_table_size_setting_received en' \<le> n \<or> en_min_table_size_setting_received en' = size_t_max"
      using e(5) False p(1,2,5,6) by (auto simp: min_def split: if_splits)
    have q: "tb_max_size (en_header_table en') = n" "en_should_emit_table_size en'" using e(5) False by auto
    have r: "\<not> ds_error_detected ds" "table_ok (ds_decoder_tables ds)" "dt_size_limit (ds_decoder_tables ds) = c"
      using assms(2) by (auto simp: pending_def Let_def)
    show ?thesis using e(4) q r d f l m assms(3) by (simp add: pending_def Let_def)
  qed
  then show ?thesis using e by auto
qed

lemma update_entry:
  "u < 2 ^ 28 \<Longrightarrow> block_spec abs_listener AtEntry (Some e, ds) (hpack_int 0x20 5 u @ xs) =
     block_spec abs_listener AtEntry (Some e, State_OnDynamicTableSizeUpdate u ds) xs"
  using entry_int[of kDynamicTableSizeUpdate "0x20" 5 u abs_listener "(Some e, ds)" xs]
  by (intro block_entry) (simp add: entry_flag_def entry_dispatch_def abs_listener_def)

lemma update_reads:
  assumes "\<not> ds_error_detected ds" "ds_allow_dynamic_table_size_update ds" "table_ok (ds_decoder_tables ds)"
    "u \<le> unat (if ds_require_dynamic_table_size_update ds then ds_lowest_header_table_size ds else ds_final_header_table_size ds)"
  defines "ds' \<equiv> State_OnDynamicTableSizeUpdate u ds"
  shows "\<not> ds_error_detected ds'" "\<not> ds_require_dynamic_table_size_update ds'" "table_ok (ds_decoder_tables ds')"
    "dt_table (ds_decoder_tables ds') = fit u (dt_table (ds_decoder_tables ds))" "dt_size_limit (ds_decoder_tables ds') = u"
    "ds_final_header_table_size ds' = ds_final_header_table_size ds" "ds_lowest_header_table_size ds' = ds_final_header_table_size ds"
    "ds_listener ds' = ds_listener ds" "\<not> ds_saw_dynamic_table_size_update ds \<Longrightarrow> ds_allow_dynamic_table_size_update ds'"
  using assms(1-4) dt.resize_invar[OF assms(3), of u] dt.resize_entries[OF assms(3), of u] dt.resize_limit[OF assms(3), of u]
  by (auto simp: ds'_def State_OnDynamicTableSizeUpdate_def Let_def split: if_splits)

lemma start_fields:
  "ds_error_detected (State_OnHeaderBlockStart ds) = ds_error_detected ds"
  "ds_allow_dynamic_table_size_update (State_OnHeaderBlockStart ds)" "\<not> ds_saw_dynamic_table_size_update (State_OnHeaderBlockStart ds)"
  "ds_decoder_tables (State_OnHeaderBlockStart ds) = ds_decoder_tables ds"
  "ds_final_header_table_size (State_OnHeaderBlockStart ds) = ds_final_header_table_size ds"
  "ds_lowest_header_table_size (State_OnHeaderBlockStart ds) = ds_lowest_header_table_size ds"
  "ds_listener (State_OnHeaderBlockStart ds) = ds_listener ds @ [OnHeaderListStart]"
  "ds_require_dynamic_table_size_update (State_OnHeaderBlockStart ds) \<longleftrightarrow>
     unat (ds_lowest_header_table_size ds) < dt_current_size (ds_decoder_tables ds) \<or>
     unat (ds_final_header_table_size ds) < dt_size_limit (ds_decoder_tables ds)"
  by (simp_all add: State_OnHeaderBlockStart_def)

lemma size_decodes:
  assumes "pending c en ds"
  shows "\<exists>ds'. (\<forall>xs. block_spec abs_listener AtEntry (Some e, State_OnHeaderBlockStart ds) (size_bytes en @ xs) =
      block_spec abs_listener AtEntry (Some e, ds') xs) \<and>
    mid_block en ds' \<and> ds_listener ds' = ds_listener ds @ [OnHeaderListStart] \<and>
    ds_final_header_table_size ds' = ds_final_header_table_size ds \<and> ds_lowest_header_table_size ds' = ds_final_header_table_size ds"
proof -
  let ?s = "State_OnHeaderBlockStart ds" and ?t = "ds_decoder_tables ds"
  define low where "low = unat (ds_lowest_header_table_size ds)"
  define cur where "cur = tb_settings_size_bound (en_header_table en)"
  define m where "m = en_min_table_size_setting_received en"
  define u where "u = (if m < cur then m else cur)"
  have p: "\<not> ds_error_detected ds" "table_ok ?t" "dt_size_limit ?t = c" "tb_max_size (en_header_table en) = cur"
    "unat (ds_final_header_table_size ds) = cur" "cur < 2 ^ 28" "low \<le> cur" "low \<le> c"
    "header_pairs (en_header_table en) = fit low (dt_table ?t)" "if low < c then m = low else c \<le> m" "m \<le> cur \<or> m = size_t_max"
    "\<not> en_should_emit_table_size en \<longrightarrow> cur = c \<and> low = c \<and> m = size_t_max"
    using assms by (auto simp: pending_def low_def cur_def m_def Let_def)
  have tc: "table_size (dt_table ?t) \<le> c" "dt_current_size ?t \<le> c"
    using dt.within[OF p(2)] p(2,3) by (auto simp: table_ok_def)
  have u: "u < 2 ^ 28" "u \<le> cur" using p(6) by (auto simp: u_def)
  have ft: "fit u (dt_table ?t) = fit low (dt_table ?t)"
  proof (cases "low < c")
    case True
    then have "u = low" using p(7,10) by (auto simp: u_def)
    then show ?thesis by simp
  next
    case False
    then have "c \<le> u" "low = c" using p(7,8,10) by (auto simp: u_def)
    then show ?thesis using tc(1) by (simp add: fit_all)
  qed
  show ?thesis
  proof (cases "en_should_emit_table_size en")
    case False
    then have "\<not> ds_require_dynamic_table_size_update ?s" using p tc by (auto simp: start_fields low_def)
    then have "mid_block en ?s" using False p tc by (auto simp: mid_block_def start_fields fit_all)
    moreover have "ds_lowest_header_table_size ds = ds_final_header_table_size ds"
      using False p(5,12) by (auto simp: low_def word_unat_eq_iff)
    ultimately show ?thesis using False
      by (intro exI[of _ ?s]) (simp add: size_bytes_def start_fields)
  next
    case True
    let ?d1 = "State_OnDynamicTableSizeUpdate u ?s"
    have "u \<le> low" if "ds_require_dynamic_table_size_update ?s"
    proof -
      have "low < c" using that tc(2) p(3,5,7) by (auto simp: start_fields low_def)
      then show ?thesis using p(7,10) by (auto simp: u_def)
    qed
    then have a: "u \<le> unat (if ds_require_dynamic_table_size_update ?s then ds_lowest_header_table_size ?s else ds_final_header_table_size ?s)"
      using u(2) p(5) by (simp add: start_fields low_def)
    note U1 = update_reads[of ?s u, OF _ _ _ a, unfolded start_fields, OF p(1) start_fields(2) p(2)]
    show ?thesis
    proof (cases "m < cur")
      case lt: True
      let ?d2 = "State_OnDynamicTableSizeUpdate cur ?d1"
      have b: "cur \<le> unat (if ds_require_dynamic_table_size_update ?d1 then ds_lowest_header_table_size ?d1 else ds_final_header_table_size ?d1)"
        using U1(2,6) p(5) by simp
      note U2 = update_reads[of ?d1 cur, OF U1(1) U1(9)[OF start_fields(3)] U1(3) b]
      have "size_bytes en = hpack_int 0x20 5 u @ hpack_int 0x20 5 cur"
        using True lt by (simp add: size_bytes_def CurrentHeaderTableSizeSetting_def u_def m_def cur_def)
      then have "block_spec abs_listener AtEntry (Some e, ?s) (size_bytes en @ xs) = block_spec abs_listener AtEntry (Some e, ?d2) xs" for xs
        using u(1) p(6) by (simp add: update_entry)
      moreover have "fit cur (fit u (dt_table ?t)) = fit u (dt_table ?t)" using u(2) by (simp add: fit_fit min_def)
      then have "mid_block en ?d2" using U1 U2 ft p(4,9) by (simp add: mid_block_def)
      ultimately show ?thesis using U1 U2 by (intro exI[of _ ?d2]) simp
    next
      case ge: False
      have "size_bytes en = hpack_int 0x20 5 u" "u = cur"
        using True ge by (simp_all add: size_bytes_def CurrentHeaderTableSizeSetting_def u_def m_def cur_def)
      then have "block_spec abs_listener AtEntry (Some e, ?s) (size_bytes en @ xs) = block_spec abs_listener AtEntry (Some e, ?d1) xs" for xs
        using u(1) by (simp add: update_entry)
      moreover have "mid_block en ?d1" using U1 ft p(4,9) \<open>u = cur\<close> by (simp add: mid_block_def)
      ultimately show ?thesis using U1 by (intro exI[of _ ?d1]) simp
    qed
  qed
qed

section \<open>Blocks\<close>

lemma end_success:
  assumes "decoder_ok B hp" "clean hp" "view_block (hd_block_decoder hp) = AtEntry"
    "\<not> ds_require_dynamic_table_size_update (hd_decoder_state hp)"
  shows "EndDecodingBlock hp = (True, hp\<lparr>hd_decoder_state := notify OnHeaderListEnd (hd_decoder_state hp)\<rparr>)"
proof -
  have "bd_before_entry (hd_block_decoder hp)" using assms(1-3) by (auto simp: decoder_ok_def block_ready_def)
  then show ?thesis using assms(2,4)
    by (simp add: EndDecodingBlock_def error_detected_clean State_OnHeaderBlockEnd_def clean_def)
qed

lemma steps_fields:
  "encoder_ok en \<Longrightarrow>
   tb_settings_size_bound (en_header_table (fold rep_step hs en)) = tb_settings_size_bound (en_header_table en) \<and>
   tb_max_size (en_header_table (fold rep_step hs en)) = tb_max_size (en_header_table en) \<and>
   en_should_emit_table_size (fold rep_step hs en) = en_should_emit_table_size en \<and>
   en_min_table_size_setting_received (fold rep_step hs en) = en_min_table_size_setting_received en"
proof (induction hs arbitrary: en)
  case (Cons h hs)
  have "header_ok (en_header_table en)" using Cons.prems by (simp add: encoder_ok_def)
  from Cons.IH[OF rep_step_ok[OF Cons.prems, of h]] rep_table_ok(2,3)[OF this, of h] show ?case
    by (simp add: rep_step_def)
qed simp

text \<open>The two endpoints of a connection in step, between blocks.\<close>

definition endpoints_in_step :: "nat \<Rightarrow> HpackEncoder \<Rightarrow> Http2HpackDecoder \<Rightarrow> bool" where
  "endpoints_in_step max_string en hp \<longleftrightarrow>
     encoder_idle en \<and> decoder_ok (2 ^ 28) hp \<and> clean hp \<and> we_max_string_size_bytes (hd_entry_buffer hp) = max_string \<and>
     (\<exists>c. pending c en (hd_decoder_state hp))"

lemma fragments_success:
  assumes "decoder_ok B hp" "clean hp"
    and spec: "block_spec abs_listener (fst (decoder_view hp)) (snd (decoder_view hp)) (concat css) = (kDecodeDone, (v, a), [])"
    and err: "\<not> sink_error a" and v: "fst (decoder_view hp) = AtEntry"
  shows "\<exists>hp'. DecodeFragments css hp = (True, hp') \<and> decoder_view hp' = (v, a) \<and> decoder_ok B hp' \<and> clean hp'"
proof (cases "css = []")
  case True
  have "decoder_view hp = (v, a)" using spec v True by (cases "decoder_view hp") (auto simp: block_spec.simps)
  then show ?thesis using True assms(1,2) by simp
next
  case False
  obtain ok hp' where f: "DecodeFragments css hp = (ok, hp')" by fastforce
  have "fragment_outcome (decoder_view hp) (concat css) = Inr (v, a)"
    using spec err by (simp add: fragment_outcome_def)
  then have "ok" "decoder_view hp' = (v, a)"
    using DecodeFragments_outcome[OF assms(1,2) False] f by (auto simp: outcome_def split: if_splits)
  then show ?thesis using f DecodeFragments_ok[OF assms(1,2) f] by auto
qed

lemma block_roundtrip:
  assumes sync: "endpoints_in_step m en hp" and small: "list_all (rep_small m) hs"
  shows "\<exists>out en'. EncodeHeaderSet_representations hs en = Some (out, en') \<and>
    (\<forall>css. concat css = out \<longrightarrow>
       (\<exists>hp'. DecodeBlock css hp = (True, hp') \<and> endpoints_in_step m en' hp' \<and> \<not> en_should_emit_table_size en' \<and>
          map untyped (log_of hp') = map untyped (log_of hp) @ OnHeaderListStart # header_events hs @ [OnHeaderListEnd]))"
proof -
  obtain c where p: "pending c en (hd_decoder_state hp)" using sync by (auto simp: endpoints_in_step_def)
  have ok: "encoder_ok en" "buf en = []" "decoder_ok (2 ^ 28) hp" "clean hp" "we_max_string_size_bytes (hd_entry_buffer hp) = m"
    using sync by (auto simp: endpoints_in_step_def encoder_idle_def)
  have fits: "list_all rep_fits hs" using small by (auto simp: list_all_iff rep_small_fits)
  let ?en0 = "MaybeEmitTableSize en"
  let ?en1 = "fold rep_step hs ?en0"
  have en0: "encoder_ok ?en0" "buf ?en0 = size_bytes en" "en_header_table ?en0 = en_header_table en"
    using MaybeEmit_ok[OF ok(1)] ok(2) by (simp_all add: MaybeEmit_put[OF ok(1)] settled_def)
  let ?out = "size_bytes en @ steps_bytes hs ?en0"
  have enc: "EncodeHeaderSet_representations hs en = Some (?out, with_buffer [] ?en1)"
    using EncodeRepresentations_steps[OF ok(1) fits] steps_buffer[of hs ?en0] en0(2)
    by (simp add: EncodeHeaderSet_representations_def Let_def)
  obtain e where e: "fst (abs_sink (sink_of hp)) = Some e" "ep_max e = m"
    using ok(4,5) by (auto simp: abs_sink_def clean_def)
  obtain d0 where d0: "\<And>xs. block_spec abs_listener AtEntry (Some e, State_OnHeaderBlockStart (hd_decoder_state hp)) (size_bytes en @ xs) =
      block_spec abs_listener AtEntry (Some e, d0) xs" "mid_block en d0"
    "ds_listener d0 = log_of hp @ [OnHeaderListStart]"
    "ds_final_header_table_size d0 = ds_final_header_table_size (hd_decoder_state hp)"
    "ds_lowest_header_table_size d0 = ds_final_header_table_size (hd_decoder_state hp)"
    using size_decodes[OF p, of e] by blast
  have "mid_block ?en0 d0" using d0(2) en0(3) by (simp add: mid_block_def)
  from steps_decode[OF en0(1) this, of e hs] small e(2)
  obtain e1 d1 where d1: "block_spec abs_listener AtEntry (Some e, d0) (steps_bytes hs ?en0) = (kDecodeDone, (AtEntry, Some e1, d1), [])"
    "mid_block ?en1 d1" "map untyped (ds_listener d1) = map untyped (ds_listener d0) @ header_events hs" "ep_max e1 = m"
    "ds_final_header_table_size d1 = ds_final_header_table_size d0" "ds_lowest_header_table_size d1 = ds_lowest_header_table_size d0"
    by auto
  have "\<exists>hp'. DecodeBlock css hp = (True, hp') \<and> endpoints_in_step m (with_buffer [] ?en1) hp' \<and>
      \<not> en_should_emit_table_size (with_buffer [] ?en1) \<and>
      map untyped (log_of hp') = map untyped (log_of hp) @ OnHeaderListStart # header_events hs @ [OnHeaderListEnd]"
    if css: "concat css = ?out" for css
  proof -
    obtain b hp1 where s: "StartDecodingBlock hp = (b, hp1)" by fastforce
    note S = start_ok[OF ok(3) s]
    have b: "b" "clean hp1" "decoder_view hp1 = (AtEntry, Some e, State_OnHeaderBlockStart (hd_decoder_state hp))"
      using S ok(4) e(1) by auto
    have "\<not> sink_error (Some e1, d1)" using d1(2) by (simp add: sink_error_def mid_block_def)
    from fragments_success[OF S(1) b(2) _ this, of css AtEntry]
    obtain hp2 where f: "DecodeFragments css hp1 = (True, hp2)" "decoder_view hp2 = (AtEntry, Some e1, d1)" "decoder_ok (2 ^ 28) hp2" "clean hp2"
      using b(3) css d0(1) d1(1) by auto
    have v: "view_block (hd_block_decoder hp2) = AtEntry" "hd_decoder_state hp2 = d1" "we_max_string_size_bytes (hd_entry_buffer hp2) = m"
      using f(2) d1(4) by (auto simp: decoder_view_def abs_sink_def split: if_splits)
    let ?hp = "hp2\<lparr>hd_decoder_state := notify OnHeaderListEnd d1\<rparr>"
    have fin: "EndDecodingBlock hp2 = (True, ?hp)"
      using end_success[OF f(3,4) v(1)] d1(2) v(2) by (simp add: mid_block_def)
    have dec: "DecodeBlock css hp = (True, ?hp)" using s b(1) f(1) fin by (simp add: DecodeBlock_def)
    have okd: "decoder_ok (2 ^ 28) ?hp" using end_ok(1)[OF f(3) fin] .
    have cl: "clean ?hp" using f(4) d1(2) by (simp add: clean_def mid_block_def)
    define cur where "cur = tb_settings_size_bound (en_header_table en)"
    have "en_should_emit_table_size ?en0 = False \<and> en_min_table_size_setting_received ?en0 = size_t_max"
      using p by (auto simp: MaybeEmit_put[OF ok(1)] settled_def pending_def Let_def)
    then have st: "tb_settings_size_bound (en_header_table ?en1) = cur" "tb_max_size (en_header_table ?en1) = cur"
      "\<not> en_should_emit_table_size ?en1" "en_min_table_size_setting_received ?en1 = size_t_max"
      using steps_fields[OF en0(1), of hs] en0(3) p by (auto simp: cur_def pending_def Let_def)
    have cur: "cur < 2 ^ 28" "unat (ds_final_header_table_size d1) = cur" "unat (ds_lowest_header_table_size d1) = cur"
      using p d0(4,5) d1(5,6) by (auto simp: pending_def Let_def cur_def)
    have t: "\<not> ds_error_detected d1" "table_ok (ds_decoder_tables d1)" "dt_table (ds_decoder_tables d1) = header_pairs (en_header_table ?en1)"
      "dt_size_limit (ds_decoder_tables d1) = cur"
      using d1(2) st(2) by (auto simp: mid_block_def)
    have "fit cur (dt_table (ds_decoder_tables d1)) = dt_table (ds_decoder_tables d1)"
      using dt.within[OF t(2)] t(4) by (simp add: fit_all)
    then have "pending cur (with_buffer [] ?en1) (notify OnHeaderListEnd d1)"
      using st cur t by (simp add: pending_def Let_def with_buffer_def size_t_max_def)
    then have "endpoints_in_step m (with_buffer [] ?en1) ?hp"
      using okd cl v(3) steps_ok[OF en0(1), of hs] by (auto simp: endpoints_in_step_def encoder_idle_def)
    moreover have "\<not> en_should_emit_table_size (with_buffer [] ?en1)" using st(3) by (simp add: with_buffer_def)
    ultimately show ?thesis using dec d1(3) d0(3) by auto
  qed
  then show ?thesis using enc by blast
qed

section \<open>Conversations\<close>

text \<open>
  A conversation: before each block the decoding endpoint announces table sizes, which both sides apply;
  then the encoder encodes a header list, its bytes travel in the parts that \<open>pieces\<close> makes of them, and the
  decoder decodes the block. \<open>None\<close> stands for a failed check of the encoder, a \<open>False\<close> for
  a block that was refused.
\<close>

fun encoder_settings :: "nat list \<Rightarrow> HpackEncoder \<Rightarrow> HpackEncoder option" where
  "encoder_settings [] en = Some en"
| "encoder_settings (n # ns) en =
     (case Encoder_ApplyHeaderTableSizeSetting n en of None \<Rightarrow> None | Some en \<Rightarrow> encoder_settings ns en)"

fun conversation :: "(bytes \<Rightarrow> bytes list) \<Rightarrow> (nat list \<times> Representation list) list \<Rightarrow> HpackEncoder \<Rightarrow>
    Http2HpackDecoder \<Rightarrow> (bool \<times> HpackEncoder \<times> Http2HpackDecoder) option" where
  "conversation pieces [] en hp = Some (True, en, hp)"
| "conversation pieces ((ns, hs) # blocks) en hp =
     (case encoder_settings ns en of
        None \<Rightarrow> None
      | Some en \<Rightarrow>
          (case EncodeHeaderSet_representations hs en of
             None \<Rightarrow> None
           | Some (output, en) \<Rightarrow>
               (case DecodeBlock (pieces output) (fold (\<lambda>n. Decoder_ApplyHeaderTableSizeSetting (of_nat n)) ns hp) of
                  (ok, hp) \<Rightarrow> if ok then conversation pieces blocks en hp else Some (False, en, hp))))"

lemma settings_in_step:
  "endpoints_in_step m en hp \<Longrightarrow> list_all (\<lambda>n. n < 2 ^ 28) ns \<Longrightarrow>
   \<exists>en'. encoder_settings ns en = Some en' \<and>
     endpoints_in_step m en' (fold (\<lambda>n. Decoder_ApplyHeaderTableSizeSetting (of_nat n)) ns hp) \<and>
     log_of (fold (\<lambda>n. Decoder_ApplyHeaderTableSizeSetting (of_nat n)) ns hp) = log_of hp"
proof (induction ns arbitrary: en hp)
  case (Cons n ns)
  let ?hp = "Decoder_ApplyHeaderTableSizeSetting (of_nat n) hp"
  obtain c where p: "pending c en (hd_decoder_state hp)" and en: "encoder_ok en" "buf en = []"
    and hp: "decoder_ok (2 ^ 28) hp" "clean hp" "we_max_string_size_bytes (hd_entry_buffer hp) = m"
    using Cons.prems(1) by (auto simp: endpoints_in_step_def encoder_idle_def)
  have n: "n < 2 ^ 28" using Cons.prems(2) by simp
  obtain en1 where e: "Encoder_ApplyHeaderTableSizeSetting n en = Some en1" "encoder_ok en1" "buf en1 = buf en"
    "pending c en1 (State_ApplyHeaderTableSizeSetting (of_nat n) (hd_decoder_state hp))"
    using setting_pending[OF en(1) p n] by auto
  have u: "unat (of_nat n :: u32) \<le> 2 ^ 28" using n by (simp add: unat_of_nat take_bit_nat_eq_self)
  have f: "ds_error_detected (State_ApplyHeaderTableSizeSetting k ds) = ds_error_detected ds"
    "ds_listener (State_ApplyHeaderTableSizeSetting k ds) = ds_listener ds" for k ds
    by (simp_all add: State_ApplyHeaderTableSizeSetting_def Let_def)
  have "decoder_ok (2 ^ 28) ?hp"
    using hp(1) setting_ok[OF _ u, of "hd_decoder_state hp"] f
    by (auto simp: decoder_ok_def Decoder_ApplyHeaderTableSizeSetting_def clean_def intro: block_ready_state[THEN iffD1])
  then have "endpoints_in_step m en1 ?hp"
    using e en(2) hp(2,3) f by (auto simp: endpoints_in_step_def encoder_idle_def clean_def Decoder_ApplyHeaderTableSizeSetting_def)
  from Cons.IH[OF this] Cons.prems(2) show ?case using e(1) f by (simp add: Decoder_ApplyHeaderTableSizeSetting_def)
qed simp

lemma conversation_in_step:
  assumes pieces: "\<And>xs. concat (pieces xs) = xs"
  shows "endpoints_in_step m en hp \<Longrightarrow> \<not> en_should_emit_table_size en \<Longrightarrow> list_all (\<lambda>(ns, hs). list_all (\<lambda>n. n < 2 ^ 28) ns \<and> list_all (rep_small m) hs) blocks \<Longrightarrow>
   \<exists>en' hp'. conversation pieces blocks en hp = Some (True, en', hp') \<and> endpoints_in_step m en' hp' \<and> \<not> en_should_emit_table_size en' \<and>
     map untyped (log_of hp') = map untyped (log_of hp) @
       concat (map (\<lambda>(ns, hs). OnHeaderListStart # header_events hs @ [OnHeaderListEnd]) blocks)"
proof (induction blocks arbitrary: en hp)
  case (Cons b blocks)
  obtain ns hs where b: "b = (ns, hs)" by fastforce
  have ps: "list_all (\<lambda>n. n < 2 ^ 28) ns" "list_all (rep_small m) hs" using Cons.prems(3) b by auto
  let ?hp = "fold (\<lambda>n. Decoder_ApplyHeaderTableSizeSetting (of_nat n)) ns hp"
  obtain en1 where s: "encoder_settings ns en = Some en1" "endpoints_in_step m en1 ?hp" "log_of ?hp = log_of hp"
    using settings_in_step[OF Cons.prems(1) ps(1)] by auto
  obtain out en2 hp2 where r: "EncodeHeaderSet_representations hs en1 = Some (out, en2)" "DecodeBlock (pieces out) ?hp = (True, hp2)"
    "endpoints_in_step m en2 hp2" "\<not> en_should_emit_table_size en2"
    "map untyped (log_of hp2) = map untyped (log_of ?hp) @ OnHeaderListStart # header_events hs @ [OnHeaderListEnd]"
    using block_roundtrip[OF s(2) ps(2)] pieces by blast
  from Cons.IH[OF r(3,4)] Cons.prems(3) show ?case using b s(1,3) r by auto
qed simp

lemma init_in_step:
  "endpoints_in_step m (SetIndexingPolicy f (HpackEncoder_init hpack_huffman_table)) (Http2HpackDecoder_init m)"
  "endpoints_in_step m (DisableCompression (HpackEncoder_init hpack_huffman_table)) (Http2HpackDecoder_init m)"
proof -
  have c: "clean (Http2HpackDecoder_init m)" "we_max_string_size_bytes (hd_entry_buffer (Http2HpackDecoder_init m)) = m"
    "hd_decoder_state (Http2HpackDecoder_init m) = HpackDecoderState_init"
    by (simp_all add: clean_def Http2HpackDecoder_init_def HpackWholeEntryBuffer_init_def HpackDecoderState_init_def)
  have p: "pending 4096 en HpackDecoderState_init"
    if "en_header_table en = HpackHeaderTable_init" "en_min_table_size_setting_received en = size_t_max" "\<not> en_should_emit_table_size en" for en
    using that table_ok_init
    by (simp add: pending_def HpackDecoderState_init_def HpackDecoderDynamicTable_init_def HpackHeaderTable_init_def
        DefaultHeaderTableSize_def kDefaultHeaderTableSizeSetting_def size_t_max_def)
  have i: "encoder_idle (HpackEncoder_init hpack_huffman_table)" using reachable_idle[OF encoder_reachable.init] .
  have d: "decoder_ok (2 ^ 28) (Http2HpackDecoder_init m)" by (rule init_ok) simp
  show "endpoints_in_step m (SetIndexingPolicy f (HpackEncoder_init hpack_huffman_table)) (Http2HpackDecoder_init m)"
    using i c d by (auto simp: endpoints_in_step_def encoder_idle_def encoder_ok_def SetIndexingPolicy_def aligned_def HpackEncoder_init_def
        intro!: p exI[of _ 4096])
  show "endpoints_in_step m (DisableCompression (HpackEncoder_init hpack_huffman_table)) (Http2HpackDecoder_init m)"
    using i c d by (auto simp: endpoints_in_step_def encoder_idle_def encoder_ok_def DisableCompression_def aligned_def HpackEncoder_init_def
        intro!: p exI[of _ 4096])
qed

lemma in_step_tables:
  assumes "endpoints_in_step m en hp" "\<not> en_should_emit_table_size en"
  shows "header_pairs (en_header_table en) = dt_table (ds_decoder_tables (hd_decoder_state hp))"
    "tb_max_size (en_header_table en) = dt_size_limit (ds_decoder_tables (hd_decoder_state hp))"
proof -
  let ?t = "ds_decoder_tables (hd_decoder_state hp)"
  obtain c where c: "table_ok ?t" "dt_size_limit ?t = c" "header_pairs (en_header_table en) = fit c (dt_table ?t)"
    "tb_max_size (en_header_table en) = c"
    using assms by (auto simp: endpoints_in_step_def pending_def Let_def)
  then show "header_pairs (en_header_table en) = dt_table ?t" "tb_max_size (en_header_table en) = dt_size_limit ?t"
    using dt.within[OF c(1)] by (simp_all add: fit_all)
qed

text \<open>
  C2: What the HPACK encoder is given, the HPACK decoder reports. Whatever blocks are sent over a
  connection, with whatever indexing policy or without compression, whatever table sizes are announced
  between them and however the bytes are cut into fragments: no block is refused, the decoder
  reports the header lists that were encoded, header by header and in order, and at the end the dynamic
  tables of the endpoints have the same entries and the same limit. The strings are within the
  decoder's limit, and the limit and the table sizes below \<open>2 ^ 28\<close>, the range of the decoder's integers.
\<close>

theorem hpack_roundtrip:
  assumes "\<And>xs. concat (pieces xs) = xs" and "m < 2 ^ 28"
    and "list_all (\<lambda>(ns, hs). list_all (\<lambda>n. n < 2 ^ 28) ns \<and> list_all (\<lambda>(name, val). length name \<le> m \<and> length val \<le> m) hs) blocks"
    and "en = SetIndexingPolicy f (HpackEncoder_init hpack_huffman_table) \<or> en = DisableCompression (HpackEncoder_init hpack_huffman_table)"
  shows "\<exists>en' hp'. conversation pieces blocks en (Http2HpackDecoder_init m) = Some (True, en', hp') \<and>
    map untyped (log_of hp') =
      concat (map (\<lambda>(ns, hs). OnHeaderListStart # map (\<lambda>(name, val). OnHeader kIndexedHeader name val) hs @ [OnHeaderListEnd]) blocks) \<and>
    map pair_of (tb_dynamic_entries (en_header_table en')) = dt_table (ds_decoder_tables (hd_decoder_state hp')) \<and>
    tb_max_size (en_header_table en') = dt_size_limit (ds_decoder_tables (hd_decoder_state hp'))"
proof -
  have s: "endpoints_in_step m en (Http2HpackDecoder_init m)" "\<not> en_should_emit_table_size en"
    using assms(4) init_in_step by (auto simp: SetIndexingPolicy_def DisableCompression_def HpackEncoder_init_def)
  have "list_all (\<lambda>(ns, hs). list_all (\<lambda>n. n < 2 ^ 28) ns \<and> list_all (rep_small m) hs) blocks"
    using assms(2,3) by (fastforce simp: list_all_iff rep_small_def)
  from conversation_in_step[OF assms(1) s this] in_step_tables show ?thesis
    by (fastforce simp: Http2HpackDecoder_init_def HpackDecoderState_init_def)
qed

text \<open>The header \<open>a: b\<close>, after the sizes 64 and 4096, and once more, byte by byte.\<close>

theorem hpack_roundtrip_witness:
  "\<exists>en' hp'. conversation (map (\<lambda>x. [x])) [([64, 4096], [([0x61], [0x62])]), ([], [([0x61], [0x62])])]
       (SetIndexingPolicy (\<lambda>_ _. True) (HpackEncoder_init hpack_huffman_table)) (Http2HpackDecoder_init 100) = Some (True, en', hp') \<and>
     map untyped (log_of hp') =
       [OnHeaderListStart, OnHeader kIndexedHeader [0x61] [0x62], OnHeaderListEnd,
        OnHeaderListStart, OnHeader kIndexedHeader [0x61] [0x62], OnHeaderListEnd] \<and>
     map pair_of (tb_dynamic_entries (en_header_table en')) = dt_table (ds_decoder_tables (hd_decoder_state hp')) \<and>
     tb_max_size (en_header_table en') = dt_size_limit (ds_decoder_tables (hd_decoder_state hp'))"
proof -
  have c: "concat (map (\<lambda>x. [x]) xs) = xs" for xs :: bytes by (induction xs) auto
  show ?thesis
    using hpack_roundtrip[of "map (\<lambda>x. [x])" 100 "[([64, 4096], [([0x61], [0x62])]), ([], [([0x61], [0x62])])]"
        "SetIndexingPolicy (\<lambda>_ _. True) (HpackEncoder_init hpack_huffman_table)" "\<lambda>_ _. True", OF c]
    by (simp del: conversation.simps)
qed

end
