(* ===== verification/Spdy_Header_Block.thy ===== *)
theory Spdy_Header_Block
  imports Hpack_Encoder_Runs
begin

text \<open>
  \<^verbatim>\<open>spdy/spdy_header_block.{h,cc}\<close>: an ordered map from header names to values. A value that is
  appended to in pieces is kept as the list of its fragments and joined when it is read. The map is a
  \<open>linked_hash_map\<close> (\<^verbatim>\<open>base/linked_hash_map.h\<close>), here the list of its pairs in insertion order; the
  strings are copies in an arena that lives as long as the block, here values.
\<close>

section \<open>The code\<close>

record HeaderValue =
  hv_key :: bytes
  hv_fragments :: "bytes list"

type_synonym SpdyHeaderBlock = "(bytes \<times> HeaderValue) list"

definition SeparatorForKey :: "bytes \<Rightarrow> bytes" where
  "SeparatorForKey key = (if key = ascii ''cookie'' then [0x3b, 0x20] else [0])"

fun Join_loop :: "bytes \<Rightarrow> bytes list \<Rightarrow> bytes \<Rightarrow> bytes" where
  "Join_loop dst [] separator = dst"
| "Join_loop dst (f # it) separator = Join_loop (dst @ separator @ f) it separator"

definition Join :: "bytes list \<Rightarrow> bytes \<Rightarrow> bytes" where
  "Join fragments separator = (case fragments of [] \<Rightarrow> [] | f # it \<Rightarrow> Join_loop f it separator)"

definition WriteFragments :: "bytes list \<Rightarrow> bytes \<Rightarrow> bytes" where
  "WriteFragments fragments separator = (if fragments = [] then [] else Join fragments separator)"

definition HeaderValue_init :: "bytes \<Rightarrow> bytes \<Rightarrow> HeaderValue" where
  "HeaderValue_init key initial_value = \<lparr>hv_key = key, hv_fragments = [initial_value]\<rparr>"

text \<open>Reading a value replaces the fragments by the joined value.\<close>

definition ConsolidatedValue :: "HeaderValue \<Rightarrow> bytes \<times> HeaderValue" where
  "ConsolidatedValue hv =
     (if hv_fragments hv = [] then ([], hv)
      else
        let hv = (if length (hv_fragments hv) > 1
                  then hv\<lparr>hv_fragments := [WriteFragments (hv_fragments hv) (SeparatorForKey (hv_key hv))]\<rparr> else hv)
        in (hv_fragments hv ! 0, hv))"

definition HeaderValue_Append :: "bytes \<Rightarrow> HeaderValue \<Rightarrow> HeaderValue" where
  "HeaderValue_Append fragment hv = hv\<lparr>hv_fragments := hv_fragments hv @ [fragment]\<rparr>"

definition as_pair :: "HeaderValue \<Rightarrow> (bytes \<times> bytes) \<times> HeaderValue" where
  "as_pair hv = (let (v, hv) = ConsolidatedValue hv in ((hv_key hv, v), hv))"

definition map_find :: "bytes \<Rightarrow> SpdyHeaderBlock \<Rightarrow> HeaderValue option" where
  "map_find key block = map_of block key"

definition map_emplace :: "bytes \<Rightarrow> HeaderValue \<Rightarrow> SpdyHeaderBlock \<Rightarrow> SpdyHeaderBlock" where
  "map_emplace key hv block = (if map_find key block \<noteq> None then block else block @ [(key, hv)])"

definition map_update_at :: "bytes \<Rightarrow> (HeaderValue \<Rightarrow> HeaderValue) \<Rightarrow> SpdyHeaderBlock \<Rightarrow> SpdyHeaderBlock" where
  "map_update_at key f block = map (\<lambda>(k, hv). (k, if k = key then f hv else hv)) block"

definition block_clear :: "SpdyHeaderBlock \<Rightarrow> SpdyHeaderBlock" where
  "block_clear block = []"

definition block_erase :: "bytes \<Rightarrow> SpdyHeaderBlock \<Rightarrow> SpdyHeaderBlock" where
  "block_erase key block = filter (\<lambda>(k, hv). k \<noteq> key) block"

definition AppendHeader :: "bytes \<Rightarrow> bytes \<Rightarrow> SpdyHeaderBlock \<Rightarrow> SpdyHeaderBlock" where
  "AppendHeader key val block = map_emplace key (HeaderValue_init key val) block"

definition block_insert :: "bytes \<times> bytes \<Rightarrow> SpdyHeaderBlock \<Rightarrow> SpdyHeaderBlock" where
  "block_insert kv block =
     (if map_find (fst kv) block = None then AppendHeader (fst kv) (snd kv) block
      else map_update_at (fst kv) (\<lambda>_. HeaderValue_init (fst kv) (snd kv)) block)"

definition AppendValueOrAddHeader :: "bytes \<Rightarrow> bytes \<Rightarrow> SpdyHeaderBlock \<Rightarrow> SpdyHeaderBlock" where
  "AppendValueOrAddHeader key val block =
     (if map_find key block = None then AppendHeader key val block
      else map_update_at key (HeaderValue_Append val) block)"

text \<open>\<open>block[key] = val\<close> and \<open>block[key].as_string()\<close>, through the proxy that \<open>operator[]\<close> returns.\<close>

definition proxy_assign :: "bytes \<Rightarrow> bytes \<Rightarrow> SpdyHeaderBlock \<Rightarrow> SpdyHeaderBlock" where
  "proxy_assign key val block =
     (if map_find key block = None then map_emplace key (HeaderValue_init key val) block
      else map_update_at key (\<lambda>_. HeaderValue_init key val) block)"

definition proxy_as_string :: "bytes \<Rightarrow> SpdyHeaderBlock \<Rightarrow> bytes \<times> SpdyHeaderBlock" where
  "proxy_as_string key block =
     (case map_find key block of
        None \<Rightarrow> ([], block)
      | Some hv \<Rightarrow> (snd (fst (as_pair hv)), map_update_at key (\<lambda>_. snd (as_pair hv)) block))"

text \<open>Iterating over the block dereferences each value.\<close>

fun block_iterate :: "SpdyHeaderBlock \<Rightarrow> (bytes \<times> bytes) list \<times> SpdyHeaderBlock" where
  "block_iterate [] = ([], [])"
| "block_iterate ((k, hv) # block) =
     (let (kv, hv) = as_pair hv; (kvs, block) = block_iterate block in (kv # kvs, (k, hv) # block))"

definition block_Clone :: "SpdyHeaderBlock \<Rightarrow> SpdyHeaderBlock \<times> SpdyHeaderBlock" where
  "block_Clone block =
     (let (kvs, block) = block_iterate block in (fold (\<lambda>(k, v). AppendHeader k v) kvs [], block))"

definition block_equal :: "SpdyHeaderBlock \<Rightarrow> SpdyHeaderBlock \<Rightarrow> bool" where
  "block_equal a b \<longleftrightarrow> length a = length b \<and> fst (block_iterate a) = fst (block_iterate b)"

section \<open>What a block stands for\<close>

text \<open>The value of a header, and the headers of a block in order.\<close>

definition value_of :: "HeaderValue \<Rightarrow> bytes" where
  "value_of hv = join (SeparatorForKey (hv_key hv)) (hv_fragments hv)"

definition pairs_of :: "SpdyHeaderBlock \<Rightarrow> (bytes \<times> bytes) list" where
  "pairs_of block = map (\<lambda>(k, hv). (k, value_of hv)) block"

definition block_ok :: "SpdyHeaderBlock \<Rightarrow> bool" where
  "block_ok block \<longleftrightarrow> distinct (map fst block) \<and> list_all (\<lambda>(k, hv). hv_key hv = k \<and> hv_fragments hv \<noteq> []) block"

lemma Join_loop_join: "Join_loop dst fs sep = (if fs = [] then dst else dst @ sep @ join sep fs)"
  by (induction dst fs sep rule: Join_loop.induct) (simp_all add: join_Cons)

lemma Join_join: "Join fs sep = join sep fs"
  by (cases fs) (simp_all add: Join_def Join_loop_join join_Cons)

lemma Consolidated_value: "fst (ConsolidatedValue hv) = value_of hv"
  by (cases "hv_fragments hv"; cases "tl (hv_fragments hv)")
    (simp_all add: ConsolidatedValue_def value_of_def WriteFragments_def Join_join Let_def)

lemma Consolidated_keeps:
  "value_of (snd (ConsolidatedValue hv)) = value_of hv" "hv_key (snd (ConsolidatedValue hv)) = hv_key hv"
  "hv_fragments hv \<noteq> [] \<Longrightarrow> hv_fragments (snd (ConsolidatedValue hv)) \<noteq> []"
  by (auto simp: ConsolidatedValue_def value_of_def WriteFragments_def Join_join Let_def)

lemma block_iterate_pairs:
  "list_all (\<lambda>(k, hv). hv_key hv = k) block \<Longrightarrow>
   fst (block_iterate block) = pairs_of block \<and> pairs_of (snd (block_iterate block)) = pairs_of block"
  by (induction block rule: block_iterate.induct)
    (auto simp: pairs_of_def as_pair_def Let_def case_prod_beta Consolidated_value Consolidated_keeps)

lemma map_find_None: "map_find k block = None \<longleftrightarrow> k \<notin> fst ` set block"
  by (simp add: map_find_def map_of_eq_None_iff)

lemma join_snoc: "fs \<noteq> [] \<Longrightarrow> join sep (fs @ [f]) = join sep fs @ sep @ f"
  by (induction fs) (auto simp: join_Cons)

lemma AppendHeader_ok: "block_ok block \<Longrightarrow> block_ok (AppendHeader k v block)"
  by (auto simp: block_ok_def AppendHeader_def map_emplace_def map_find_None HeaderValue_init_def)

lemma Append_ok: "block_ok block \<Longrightarrow> block_ok (AppendValueOrAddHeader k v block)"
  using AppendHeader_ok[of block k v]
  by (auto simp: AppendValueOrAddHeader_def block_ok_def map_update_at_def HeaderValue_Append_def list_all_iff comp_def
      case_prod_beta)

text \<open>Appending the parts of a new header one by one is adding the joined header.\<close>

lemma append_parts:
  assumes "map_find k block = None" "parts \<noteq> []"
  shows "fold (\<lambda>v. AppendValueOrAddHeader k v) parts block = block @ [(k, \<lparr>hv_key = k, hv_fragments = parts\<rparr>)]"
  using assms(2)
proof (induction parts rule: rev_nonempty_induct)
  case (single v)
  with assms(1) show ?case by (simp add: AppendValueOrAddHeader_def AppendHeader_def map_emplace_def HeaderValue_init_def)
next
  case (snoc v parts)
  have "map_update_at k f block = block" for f
    using assms(1) by (force simp: map_update_at_def map_find_None intro!: map_idI)
  with snoc assms(1) show ?case
    by (simp add: AppendValueOrAddHeader_def map_find_def map_update_at_def HeaderValue_Append_def)
qed

end
