(* ===== verification/Hpack_Decoder3.thy ===== *)
theory Hpack_Decoder3
  imports Hpack_Roundtrip Spdy_Header_Block
begin

text \<open>
  \<^verbatim>\<open>spdy/hpack/hpack_decoder3.{h,cc}\<close>: the HPACK decoder as the SPDY framer uses it. It drives an
  \<open>Http2HpackDecoder\<close> and turns what that reports into calls of a headers handler, or, if none was
  given, into a \<open>SpdyHeaderBlock\<close>.

  The lemmas compose this decoder with the encoder: a header block that the encoder splits into
  header fields is put together again by the decoder. What comes out is described without the
  encoder's own functions: the pseudo headers first, the cookie with its blanks tidied, and all other
  values as they were.
\<close>

section \<open>The code\<close>

text \<open>The handlers are numbered; their calls are logged with the number.\<close>

datatype handler_event =
    OnHeaderBlockStart
  | Handler_OnHeader bytes bytes
  | OnHeaderBlockEnd nat

record ListenerAdapter =
  la_decoded_block :: SpdyHeaderBlock
  la_handler :: "nat option"
  la_calls :: "(nat \<times> handler_event) list"
  la_total_uncompressed_bytes :: nat
  la_visitor :: bool

definition ListenerAdapter_init :: ListenerAdapter where
  "ListenerAdapter_init =
     \<lparr>la_decoded_block = [], la_handler = None, la_calls = [], la_total_uncompressed_bytes = 0, la_visitor = False\<rparr>"

definition set_handler :: "nat option \<Rightarrow> ListenerAdapter \<Rightarrow> ListenerAdapter" where
  "set_handler handler la = la\<lparr>la_handler := handler\<rparr>"

text \<open>\<open>handler_->...\<close>, if there is a handler.\<close>

definition call_handler :: "handler_event \<Rightarrow> ListenerAdapter \<Rightarrow> ListenerAdapter" where
  "call_handler ev la = (case la_handler la of None \<Rightarrow> la | Some i \<Rightarrow> la\<lparr>la_calls := la_calls la @ [(i, ev)]\<rparr>)"

fun ListenerAdapter_event :: "header_event \<Rightarrow> ListenerAdapter \<Rightarrow> ListenerAdapter" where
  "ListenerAdapter_event OnHeaderListStart la =
     call_handler OnHeaderBlockStart
       (la\<lparr>la_total_uncompressed_bytes := 0, la_decoded_block := block_clear (la_decoded_block la)\<rparr>)"
| "ListenerAdapter_event (OnHeader entry_type name val) la =
     (let la = la\<lparr>la_total_uncompressed_bytes := la_total_uncompressed_bytes la + (length name + length val)\<rparr>
      in if la_handler la = None
         then la\<lparr>la_decoded_block := AppendValueOrAddHeader name val (la_decoded_block la)\<rparr>
         else call_handler (Handler_OnHeader name val) la)"
| "ListenerAdapter_event OnHeaderListEnd la =
     (if la_handler la \<noteq> None
      then set_handler None (call_handler (OnHeaderBlockEnd (la_total_uncompressed_bytes la)) la) else la)"
| "ListenerAdapter_event (OnHeaderErrorDetected error_message) la = la"

record HpackDecoder3 =
  h3_listener_adapter :: ListenerAdapter
  h3_hpack_decoder :: Http2HpackDecoder
  h3_total_hpack_bytes :: nat
  h3_max_decode_buffer_size_bytes :: nat
  h3_header_block_started :: bool

definition kMaxDecodeBufferSizeBytes :: nat where
  "kMaxDecodeBufferSizeBytes = 32 * 1024"

definition HpackDecoder3_init :: HpackDecoder3 where
  "HpackDecoder3_init =
     \<lparr>h3_listener_adapter = ListenerAdapter_init,
      h3_hpack_decoder = Http2HpackDecoder_init kMaxDecodeBufferSizeBytes, h3_total_hpack_bytes = 0,
      h3_max_decode_buffer_size_bytes = kMaxDecodeBufferSizeBytes, h3_header_block_started = False\<rparr>"

text \<open>The decoder after a call that left the HPACK decoder \<open>hp\<close>; the listener adapter has heard what is new.\<close>

definition called :: "Http2HpackDecoder \<Rightarrow> HpackDecoder3 \<Rightarrow> HpackDecoder3" where
  "called hp h =
     h\<lparr>h3_hpack_decoder := hp,
       h3_listener_adapter :=
         fold ListenerAdapter_event (drop (length (log_of (h3_hpack_decoder h))) (log_of hp)) (h3_listener_adapter h)\<rparr>"

definition H3_ApplyHeaderTableSizeSetting :: "nat \<Rightarrow> HpackDecoder3 \<Rightarrow> HpackDecoder3" where
  "H3_ApplyHeaderTableSizeSetting size_setting h =
     h\<lparr>h3_hpack_decoder := Decoder_ApplyHeaderTableSizeSetting (of_nat size_setting) (h3_hpack_decoder h)\<rparr>"

definition HandleControlFrameHeadersStart :: "nat option \<Rightarrow> HpackDecoder3 \<Rightarrow> HpackDecoder3" where
  "HandleControlFrameHeadersStart handler h =
     h\<lparr>h3_listener_adapter := set_handler handler (h3_listener_adapter h)\<rparr>"

definition HandleControlFrameHeadersData :: "bytes \<Rightarrow> HpackDecoder3 \<Rightarrow> bool \<times> HpackDecoder3" where
  "HandleControlFrameHeadersData headers_data h =
     (let (ok, h) =
            (if \<not> h3_header_block_started h then
               let h = h\<lparr>h3_total_hpack_bytes := 0, h3_header_block_started := True\<rparr>;
                   (ok, hp) = StartDecodingBlock (h3_hpack_decoder h);
                   h = called hp h
               in if \<not> ok then (False, h\<lparr>h3_header_block_started := False\<rparr>) else (True, h)
             else (True, h))
      in if \<not> ok then (False, h)
         else if length headers_data > 0 then
           if length headers_data > h3_max_decode_buffer_size_bytes h then (False, h)
           else
             let h = h\<lparr>h3_total_hpack_bytes := h3_total_hpack_bytes h + length headers_data\<rparr>;
                 (ok, hp, db) = DecodeFragment (mkDecodeBuffer headers_data) (h3_hpack_decoder h)
             in (ok, called hp h)
         else (True, h))"

text \<open>The result, the value for \<open>compressed_len\<close>, and the decoder.\<close>

definition HandleControlFrameHeadersComplete :: "HpackDecoder3 \<Rightarrow> bool \<times> nat \<times> HpackDecoder3" where
  "HandleControlFrameHeadersComplete h =
     (let compressed_len = h3_total_hpack_bytes h;
          (ok, hp) = EndDecodingBlock (h3_hpack_decoder h);
          h = called hp h
      in if \<not> ok then (False, compressed_len, h)
         else (True, compressed_len, h\<lparr>h3_header_block_started := False\<rparr>))"

definition decoded_block :: "HpackDecoder3 \<Rightarrow> SpdyHeaderBlock" where
  "decoded_block h = la_decoded_block (h3_listener_adapter h)"

definition H3_SetHeaderTableDebugVisitor :: "bool \<Rightarrow> HpackDecoder3 \<Rightarrow> HpackDecoder3" where
  "H3_SetHeaderTableDebugVisitor visitor h =
     h\<lparr>h3_listener_adapter := (h3_listener_adapter h)\<lparr>la_visitor := visitor\<rparr>,
       h3_hpack_decoder := Decoder_set_tables_debug_listener (if visitor then Some [] else None) (h3_hpack_decoder h)\<rparr>"

definition set_max_decode_buffer_size_bytes :: "nat \<Rightarrow> HpackDecoder3 \<Rightarrow> HpackDecoder3" where
  "set_max_decode_buffer_size_bytes n h =
     h\<lparr>h3_max_decode_buffer_size_bytes := n,
       h3_hpack_decoder := Decoder_set_max_string_size_bytes n (h3_hpack_decoder h)\<rparr>"

text \<open>The framer's calls for a block: with a handler or without, its fragments until one is refused, the end.\<close>

fun H3_fragments :: "bytes list \<Rightarrow> HpackDecoder3 \<Rightarrow> bool \<times> HpackDecoder3" where
  "H3_fragments [] h = (True, h)"
| "H3_fragments (c # cs) h =
     (case HandleControlFrameHeadersData c h of (ok, h) \<Rightarrow> if ok then H3_fragments cs h else (False, h))"

definition H3_block :: "nat option \<Rightarrow> bytes list \<Rightarrow> HpackDecoder3 \<Rightarrow> bool \<times> HpackDecoder3" where
  "H3_block handler css h =
     (let h = (case handler of None \<Rightarrow> h | Some i \<Rightarrow> HandleControlFrameHeadersStart (Some i) h);
          (ok, h) = H3_fragments css h
      in if \<not> ok then (False, h)
         else let (ok, compressed_len, h) = HandleControlFrameHeadersComplete h in (ok, h))"

section \<open>The listener adapter hears everything once\<close>

lemma ReportError_grows: "prefix L (ds_listener ds) \<Longrightarrow> prefix L (ds_listener (State_ReportError msg ds))"
  by (simp add: State_ReportError_def)

lemma entry_grows: "prefix L (ds_listener ds) \<Longrightarrow> prefix L (ds_listener (State_entry ty n v ds))"
  by (auto simp: State_entry_def State_literal_def State_Insert_def Let_def ReportError_grows prod.case_eq_if split: sum.split option.split)

lemma indexed_grows: "prefix L (ds_listener ds) \<Longrightarrow> prefix L (ds_listener (State_OnIndexedHeader n ds))"
  by (auto simp: State_OnIndexedHeader_def Let_def ReportError_grows prod.case_eq_if split: option.split)

lemma size_update_grows: "prefix L (ds_listener ds) \<Longrightarrow> prefix L (ds_listener (State_OnDynamicTableSizeUpdate n ds))"
  by (auto simp: State_OnDynamicTableSizeUpdate_def Let_def ReportError_grows)

interpretation grow: entry_invariant abs_listener "\<lambda>a. prefix L (ds_listener (snd a))" for L
  by unfold_locales
    (auto simp: abs_listener_def entry_grows indexed_grows size_update_grows State_OnHpackDecodeError_def ReportError_grows
      split: option.splits prod.splits if_splits)

lemma fragment_grows:
  assumes "decoder_ok B hp" "clean hp" "DecodeFragment db hp = (b, hp', db')"
  shows "prefix (log_of hp) (log_of hp')"
proof -
  obtain st v a r where s: "block_spec abs_listener (view_block (hd_block_decoder hp)) (abs_sink (sink_of hp)) (rest db) = (st, (v, a), r)"
    by (metis prod.exhaust)
  have "prefix (log_of hp) (ds_listener (snd a))" using grow.keeps_block[OF _ s] by simp
  then show ?thesis using fragment_spec(6)[OF assms(1,2) s assms(3)] by simp
qed

lemma called_simps [simp]:
  "h3_hpack_decoder (called hp h) = hp"
  "h3_total_hpack_bytes (called hp h) = h3_total_hpack_bytes h"
  "h3_max_decode_buffer_size_bytes (called hp h) = h3_max_decode_buffer_size_bytes h"
  "h3_header_block_started (called hp h) = h3_header_block_started h"
  "called hp (h\<lparr>h3_total_hpack_bytes := n\<rparr>) = (called hp h)\<lparr>h3_total_hpack_bytes := n\<rparr>"
  "called hp (h\<lparr>h3_header_block_started := b\<rparr>) = (called hp h)\<lparr>h3_header_block_started := b\<rparr>"
  by (simp_all add: called_def)

lemma called_called:
  assumes "prefix (log_of (h3_hpack_decoder h)) (log_of hp)" "prefix (log_of hp) (log_of hp')"
  shows "called hp' (called hp h) = called hp' h"
proof -
  obtain a b where "log_of hp = log_of (h3_hpack_decoder h) @ a" "log_of hp' = log_of (h3_hpack_decoder h) @ a @ b"
    using assms by (auto simp: prefix_def)
  then show ?thesis by (simp add: called_def)
qed

lemma called_same: "log_of hp = log_of (h3_hpack_decoder h) \<Longrightarrow> called hp h = h\<lparr>h3_hpack_decoder := hp\<rparr>"
  by (simp add: called_def)

text \<open>The fragments of a block; empty ones are not passed on.\<close>

lemma H3_fragments_run:
  assumes "h3_header_block_started h" "decoder_ok B (h3_hpack_decoder h)" "clean (h3_hpack_decoder h)"
    "list_all (\<lambda>c. length c \<le> h3_max_decode_buffer_size_bytes h) css"
    "DecodeFragments (filter (\<lambda>c. c \<noteq> []) css) (h3_hpack_decoder h) = (True, hp)"
  shows "prefix (log_of (h3_hpack_decoder h)) (log_of hp) \<and>
    (\<exists>k. H3_fragments css h = (True, (called hp h)\<lparr>h3_total_hpack_bytes := k\<rparr>))"
  using assms
proof (induction css arbitrary: h)
  case Nil
  then show ?case by (auto simp: called_same intro!: exI[of _ "h3_total_hpack_bytes h"])
next
  case (Cons c css)
  show ?case
  proof (cases "c = []")
    case True
    with Cons show ?thesis by (simp add: HandleControlFrameHeadersData_def)
  next
    case False
    let ?hp = "h3_hpack_decoder h"
    obtain b hp1 db1 where d: "DecodeFragment (mkDecodeBuffer c) ?hp = (b, hp1, db1)" by (metis prod_cases3)
    with Cons.prems(5) False have b: "b" "DecodeFragments (filter (\<lambda>c. c \<noteq> []) css) hp1 = (True, hp)"
      by (auto split: if_splits)
    obtain st v a r where s: "block_spec abs_listener (view_block (hd_block_decoder ?hp)) (abs_sink (sink_of ?hp)) c = (st, (v, a), r)"
      by (metis prod.exhaust)
    have ok: "decoder_ok B hp1" "clean hp1"
      using fragment_spec(1,4)[OF Cons.prems(2,3), of "mkDecodeBuffer c" st v a r b hp1 db1, OF _ d] s b(1) by (auto simp: rest_simps)
    have g: "prefix (log_of ?hp) (log_of hp1)" using fragment_grows[OF Cons.prems(2,3) d] .
    let ?h = "(called hp1 h)\<lparr>h3_total_hpack_bytes := h3_total_hpack_bytes h + length c\<rparr>"
    have data: "HandleControlFrameHeadersData c h = (True, ?h)"
      using False Cons.prems(1,4) d b(1) by (simp add: HandleControlFrameHeadersData_def)
    from Cons.IH[of ?h] Cons.prems(1,4) ok b(2) obtain k where
      k: "prefix (log_of hp1) (log_of hp)" "H3_fragments css ?h = (True, (called hp ?h)\<lparr>h3_total_hpack_bytes := k\<rparr>)" by auto
    have "prefix (log_of ?hp) (log_of hp)" using g k(1) by (rule prefix_order.trans)
    with k data called_called[OF g k(1)] show ?thesis by auto
  qed
qed

lemma concat_nonempty: "concat (filter (\<lambda>c. c \<noteq> []) css) = concat css"
  by (induction css) simp_all

lemma H3_start:
  assumes "\<not> h3_header_block_started h" "StartDecodingBlock (h3_hpack_decoder h) = (True, hp)" "css \<noteq> []"
  shows "H3_fragments css h = H3_fragments css ((called hp h)\<lparr>h3_total_hpack_bytes := 0, h3_header_block_started := True\<rparr>)"
  using assms by (cases css) (simp_all add: HandleControlFrameHeadersData_def)

lemma H3_block_run:
  assumes ok: "decoder_ok B (h3_hpack_decoder h)" "clean (h3_hpack_decoder h)" and idle: "\<not> h3_header_block_started h"
    and css: "css \<noteq> []" "list_all (\<lambda>c. length c \<le> h3_max_decode_buffer_size_bytes h) css"
    and block: "DecodeBlock (filter (\<lambda>c. c \<noteq> []) css) (h3_hpack_decoder h) = (True, hp)"
  shows "\<exists>k. H3_block handler css h =
    (True, (called hp (case handler of None \<Rightarrow> h | Some i \<Rightarrow> HandleControlFrameHeadersStart (Some i) h))
      \<lparr>h3_total_hpack_bytes := k, h3_header_block_started := False\<rparr>) \<and> prefix (log_of (h3_hpack_decoder h)) (log_of hp)"
proof -
  let ?hp = "h3_hpack_decoder h"
  define h0 where "h0 = (case handler of None \<Rightarrow> h | Some i \<Rightarrow> HandleControlFrameHeadersStart (Some i) h)"
  have h0: "h3_hpack_decoder h0 = ?hp" "\<not> h3_header_block_started h0"
    "h3_max_decode_buffer_size_bytes h0 = h3_max_decode_buffer_size_bytes h"
    using idle by (simp_all add: h0_def HandleControlFrameHeadersStart_def split: option.split)
  obtain hp1 hp2 where s: "StartDecodingBlock ?hp = (True, hp1)" "DecodeFragments (filter (\<lambda>c. c \<noteq> []) css) hp1 = (True, hp2)"
    "EndDecodingBlock hp2 = (True, hp)"
    using block by (auto simp: DecodeBlock_def Let_def split: prod.splits if_splits)
  note st = start_ok[OF ok(1) s(1)]
  let ?h = "(called hp1 h0)\<lparr>h3_total_hpack_bytes := 0, h3_header_block_started := True\<rparr>"
  from H3_fragments_run[of ?h B css hp2] st css(2) s(2) h0(3) obtain k where
    k: "prefix (log_of hp1) (log_of hp2)" "H3_fragments css ?h = (True, (called hp2 ?h)\<lparr>h3_total_hpack_bytes := k\<rparr>)"
    by auto
  have g: "prefix (log_of ?hp) (log_of hp1)"
    using s(1) ok(2) by (auto simp: StartDecodingBlock_def Decoder_error_detected_def clean_def State_OnHeaderBlockStart_def Let_def split: if_splits)
  have e: "prefix (log_of hp2) (log_of hp)"
    using end_ok(2)[OF DecodeFragments_ok[OF st(1) st(3) s(2), THEN conjunct1] s(3)] by simp
  have c: "called hp2 (called hp1 h0) = called hp2 h0" "called hp (called hp2 h0) = called hp h0"
    using called_called[of h0 hp1 hp2] called_called[of h0 hp2 hp] g k(1) e h0(1) by (auto intro: prefix_order.trans)
  have "H3_block handler css h = (True, (called hp h0)\<lparr>h3_total_hpack_bytes := k, h3_header_block_started := False\<rparr>)"
    using k(2) s(3) c H3_start[OF h0(2), of hp1 css] s(1) h0(1) css(1)
    by (simp add: H3_block_def h0_def[symmetric] HandleControlFrameHeadersComplete_def Let_def)
  moreover have "prefix (log_of ?hp) (log_of hp)" using g k(1) e by (meson prefix_order.trans)
  ultimately show ?thesis unfolding h0_def by blast
qed

section \<open>What the listener adapter makes of a block\<close>

lemma ListenerAdapter_untyped: "ListenerAdapter_event (untyped e) = ListenerAdapter_event e"
  by (cases e) (simp_all add: fun_eq_iff)

lemma fold_untyped: "fold ListenerAdapter_event (map untyped es) = fold ListenerAdapter_event es"
  by (induction es) (simp_all add: ListenerAdapter_untyped)

lemma fold_headers_handler:
  "la_handler la = Some i \<Longrightarrow>
   fold ListenerAdapter_event (header_events hs) la =
   la\<lparr>la_calls := la_calls la @ map (\<lambda>(n, v). (i, Handler_OnHeader n v)) hs,
      la_total_uncompressed_bytes := la_total_uncompressed_bytes la + sum_list (map (\<lambda>(n, v). length n + length v) hs)\<rparr>"
  by (induction hs arbitrary: la) (auto simp: call_handler_def Let_def case_prod_beta)

lemma fold_headers_block:
  "la_handler la = None \<Longrightarrow>
   fold ListenerAdapter_event (header_events hs) la =
   la\<lparr>la_decoded_block := fold (\<lambda>(n, v). AppendValueOrAddHeader n v) hs (la_decoded_block la),
      la_total_uncompressed_bytes := la_total_uncompressed_bytes la + sum_list (map (\<lambda>(n, v). length n + length v) hs)\<rparr>"
  by (induction hs arbitrary: la) (auto simp: Let_def case_prod_beta)

lemma fold_block_handler:
  "la_handler la = Some i \<Longrightarrow>
   fold ListenerAdapter_event (OnHeaderListStart # header_events hs @ [OnHeaderListEnd]) la =
   la\<lparr>la_handler := None, la_decoded_block := [],
      la_calls := la_calls la @ (i, OnHeaderBlockStart) # map (\<lambda>(n, v). (i, Handler_OnHeader n v)) hs @
        [(i, OnHeaderBlockEnd (sum_list (map (\<lambda>(n, v). length n + length v) hs)))],
      la_total_uncompressed_bytes := sum_list (map (\<lambda>(n, v). length n + length v) hs)\<rparr>"
  by (simp add: call_handler_def block_clear_def fold_headers_handler set_handler_def)

lemma fold_block_map:
  "la_handler la = None \<Longrightarrow>
   fold ListenerAdapter_event (OnHeaderListStart # header_events hs @ [OnHeaderListEnd]) la =
   la\<lparr>la_decoded_block := fold (\<lambda>(n, v). AppendValueOrAddHeader n v) hs [],
      la_total_uncompressed_bytes := sum_list (map (\<lambda>(n, v). length n + length v) hs)\<rparr>"
  by (simp add: call_handler_def block_clear_def fold_headers_block)

section \<open>How the encoder splits a header block, and how the decoder joins it\<close>

definition is_pseudo :: "Representation \<Rightarrow> bool" where
  "is_pseudo kv \<longleftrightarrow> fst kv \<noteq> [] \<and> hd (fst kv) = kPseudoHeaderPrefix"

definition trim :: "bytes \<Rightarrow> bytes" where
  "trim v = (let blank = (\<lambda>c. c = 0x20 \<or> c = 0x09) in rev (dropWhile blank (rev (dropWhile blank v))))"

text \<open>The pieces of a string between the occurrences of a byte.\<close>

fun split_on :: "byte \<Rightarrow> bytes \<Rightarrow> bytes list" where
  "split_on c [] = [[]]"
| "split_on c (x # xs) =
     (if x = c then [] # split_on c xs else (x # hd (split_on c xs)) # tl (split_on c xs))"

definition skip_space :: "bytes \<Rightarrow> bytes" where
  "skip_space p = (case p of [] \<Rightarrow> [] | x # xs \<Rightarrow> if x = 0x20 then xs else p)"

text \<open>
  The fields that a header is sent as: a cookie is cut at the semicolons and one space behind each is
  left out; every other value is cut at the NULs.
\<close>

definition parts :: "Representation \<Rightarrow> bytes list" where
  "parts kv =
     (if fst kv = ascii ''cookie''
      then hd (split_on 0x3b (trim (snd kv))) # map skip_space (tl (split_on 0x3b (trim (snd kv))))
      else split_on 0 (snd kv))"

text \<open>The pseudo headers come first, and the fields of a header one after the other.\<close>

definition pseudo_first :: "Representation list \<Rightarrow> Representation list" where
  "pseudo_first hb = filter is_pseudo hb @ filter (\<lambda>kv. \<not> is_pseudo kv) hb"

definition fields_of :: "Representation list \<Rightarrow> Representation list" where
  "fields_of hb = concat (map (\<lambda>kv. map (Pair (fst kv)) (parts kv)) (pseudo_first hb))"

text \<open>
  The header that comes out: of a cookie the blanks at both ends are gone, and behind each semicolon a
  space is added where there was none; every other value is as it was.
\<close>

fun spaced :: "bytes \<Rightarrow> bytes" where
  "spaced [] = []"
| "spaced (x # xs) = (if x = 0x3b \<and> (xs = [] \<or> hd xs \<noteq> 0x20) then x # 0x20 # spaced xs else x # spaced xs)"

definition tidy :: "Representation \<Rightarrow> Representation" where
  "tidy kv = (fst kv, if fst kv = ascii ''cookie'' then spaced (trim (snd kv)) else snd kv)"

lemma split_on_ne [simp]: "split_on c s \<noteq> []"
  by (cases s) simp_all

lemma split_on_Cons:
  "split_on c s = takeWhile (\<lambda>x. x \<noteq> c) s #
     (if dropWhile (\<lambda>x. x \<noteq> c) s = [] then [] else split_on c (tl (dropWhile (\<lambda>x. x \<noteq> c) s)))"
  by (induction s) auto

lemma split_nul_on: "split_nul s = split_on 0 s"
proof (induction "length s" arbitrary: s rule: less_induct)
  case less
  then show ?case using length_dropWhile_tl[of "\<lambda>x. x \<noteq> 0" s]
    by (subst split_nul_Cons, subst split_on_Cons) (simp del: dropWhile_eq_Nil_conv length_tl)
qed

lemma length_skip_space: "length (skip_space p) \<le> length p"
  by (cases p) (simp_all add: skip_space_def)

lemma split_on_skip: "c \<noteq> 0x20 \<Longrightarrow> split_on c (skip_space r) = skip_space (hd (split_on c r)) # tl (split_on c r)"
  by (cases r) (auto simp: skip_space_def)

lemma split_crumbs_on: "split_crumbs s = hd (split_on 0x3b s) # map skip_space (tl (split_on 0x3b s))"
proof (induction "length s" arbitrary: s rule: less_induct)
  case less
  let ?d = "dropWhile (\<lambda>x. x \<noteq> 0x3b) s"
  show ?case
  proof (cases "?d = []")
    case True
    then show ?thesis by (subst split_crumbs_Cons, subst (1 2) split_on_Cons) (simp del: dropWhile_eq_Nil_conv)
  next
    case False
    have l: "length (skip_space (tl ?d)) < length s"
      using length_skip_space[of "tl ?d"] length_dropWhile_tl[OF False] by linarith
    have "split_crumbs s = takeWhile (\<lambda>x. x \<noteq> 0x3b) s # split_crumbs (skip_space (tl ?d))"
      using False by (subst split_crumbs_Cons) (simp add: skip_space_def del: dropWhile_eq_Nil_conv split: list.split)
    then show ?thesis using False less[OF l] by (subst (1 2) split_on_Cons)
      (simp add: split_on_skip del: dropWhile_eq_Nil_conv flip: list.map)
  qed
qed

lemma parts_encoder:
  "parts kv = (if fst kv = ascii ''cookie'' then split_crumbs (trim (snd kv)) else split_nul (snd kv))"
  by (simp add: parts_def split_crumbs_on split_nul_on)

lemma skip_space_cases: "skip_space p = p \<and> (p = [] \<or> hd p \<noteq> 0x20) \<or> p = 0x20 # skip_space p"
  by (cases p) (auto simp: skip_space_def)

lemma join_Cons_Cons: "join sep ((y # p) # ps) = y # join sep (p # ps)"
  by (cases ps) simp_all

lemma join_crumbs: "join [0x3b, 0x20] (hd (split_on 0x3b s) # map skip_space (tl (split_on 0x3b s))) = spaced s"
proof (induction s)
  case (Cons x s)
  obtain p ps where e: "split_on 0x3b s = p # ps" by (cases "split_on 0x3b s") simp_all
  note IH = Cons.IH[unfolded e list.sel]
  show ?case
  proof (cases "x = 0x3b")
    case True
    have h: "s = [] \<or> hd s \<noteq> 0x20 \<longleftrightarrow> p = [] \<or> hd p \<noteq> 0x20" using e by (cases s) (auto split: if_splits)
    from skip_space_cases[of p] show ?thesis
    proof
      assume "skip_space p = p \<and> (p = [] \<or> hd p \<noteq> 0x20)"
      then show ?thesis using True e h IH by (simp add: join_Cons)
    next
      assume a: "p = 0x20 # skip_space p"
      then have "hd p = 0x20" "p \<noteq> []" by (metis list.sel(1), auto)
      then show ?thesis using True e h IH a join_Cons_Cons[of "[0x3b, 0x20]" "0x20" "skip_space p" "map skip_space ps"]
        by (simp add: join_Cons[of _ "[]"])
    qed
  qed (use IH e join_Cons_Cons in simp)
qed simp

lemma cookie_not_pseudo: "fst kv = ascii ''cookie'' \<Longrightarrow> \<not> is_pseudo kv"
  by (simp add: is_pseudo_def ascii_def kPseudoHeaderPrefix_def)

lemma cookie_fields: "fst kv = ascii ''cookie'' \<Longrightarrow> CookieToCrumbs kv = map (Pair (fst kv)) (parts kv)"
  by (simp add: CookieToCrumbs_def parts_encoder trim_def Let_def)

lemma other_fields: "fst kv \<noteq> ascii ''cookie'' \<Longrightarrow> DecomposeRepresentation kv = map (Pair (fst kv)) (parts kv)"
  by (simp add: DecomposeRepresentation_def parts_encoder)

lemma SeparateHeaders_fields:
  "distinct (map fst hb) \<Longrightarrow> (b \<longrightarrow> ascii ''cookie'' \<notin> fst ` set hb) \<Longrightarrow>
   SeparateHeaders DecomposeRepresentation b hb =
     (concat (map (\<lambda>kv. map (Pair (fst kv)) (parts kv)) (filter is_pseudo hb)),
      concat (map (\<lambda>kv. map (Pair (fst kv)) (parts kv)) (filter (\<lambda>kv. \<not> is_pseudo kv) hb)))"
proof (induction hb arbitrary: b)
  case (Cons kv hb)
  show ?case
  proof (cases "fst kv = ascii ''cookie''")
    case True
    with Cons.prems have "\<not> b" "ascii ''cookie'' \<notin> fst ` set hb" by auto
    with Cons.IH[of True] Cons.prems True cookie_not_pseudo[OF True] cookie_fields[OF True] show ?thesis by simp
  next
    case False
    with Cons.IH[of b] Cons.prems other_fields[OF False] show ?thesis by (simp add: is_pseudo_def)
  qed
qed simp

lemma EncodeHeaderSet_fields:
  "distinct (map fst hb) \<Longrightarrow> EncodeHeaderSet hb en = EncodeHeaderSet_representations (fields_of hb) en"
  using SeparateHeaders_fields[of hb False]
  by (simp add: EncodeHeaderSet_def EncodeHeaderSet_representations_def fields_of_def pseudo_first_def)

lemma parts_ne: "parts kv \<noteq> []"
  by (simp add: parts_def)

lemma parts_small: "p \<in> set (parts kv) \<Longrightarrow> length p \<le> length (snd kv)"
proof -
  let ?b = "\<lambda>c. c = 0x20 \<or> c = (0x09 :: byte)"
  have "length (trim (snd kv)) \<le> length (snd kv)"
    using length_dropWhile_le[of ?b "rev (dropWhile ?b (snd kv))"] length_dropWhile_le[of ?b "snd kv"]
    by (simp add: trim_def Let_def)
  then show "p \<in> set (parts kv) \<Longrightarrow> length p \<le> length (snd kv)"
    using split_crumbs_fits[of p "trim (snd kv)"] split_nul_fits[of p "snd kv"]
    by (auto simp: parts_encoder split: if_splits)
qed

lemma set_pseudo_first: "set (pseudo_first hb) = set hb"
  by (auto simp: pseudo_first_def)

lemma fields_small: "list_all (rep_small m) hb \<Longrightarrow> list_all (rep_small m) (fields_of hb)"
  using parts_small by (fastforce simp: fields_of_def list_all_iff set_pseudo_first rep_small_def)

lemma parts_joined: "join (SeparatorForKey (fst kv)) (parts kv) = snd (tidy kv)"
  using split_nul_join[of "snd kv"] join_crumbs[of "trim (snd kv)"]
  by (simp add: SeparatorForKey_def parts_def tidy_def split_nul_on)

definition joined :: "Representation \<Rightarrow> bytes \<times> HeaderValue" where
  "joined kv = (fst kv, \<lparr>hv_key = fst kv, hv_fragments = parts kv\<rparr>)"

lemma fold_fields:
  assumes "distinct (map fst hb)" "fst ` set block \<inter> fst ` set hb = {}"
  shows "fold (\<lambda>(n, v). AppendValueOrAddHeader n v) (concat (map (\<lambda>kv. map (Pair (fst kv)) (parts kv)) hb)) block =
    block @ map joined hb"
  using assms
proof (induction hb arbitrary: block)
  case (Cons kv hb)
  have "fold (\<lambda>(n, v). AppendValueOrAddHeader n v) (map (Pair (fst kv)) (parts kv)) block = block @ [joined kv]"
    using append_parts[of "fst kv" block "parts kv"] Cons.prems(2) parts_ne[of kv]
    by (simp add: fold_map comp_def joined_def map_find_None)
  with Cons.IH[of "block @ [joined kv]"] Cons.prems show ?case by (auto simp: joined_def)
qed simp

lemma distinct_pseudo_first: "distinct (map fst hb) \<Longrightarrow> distinct (map fst (pseudo_first hb))"
proof -
  assume d: "distinct (map fst hb)"
  then have "inj_on fst (set hb)" "distinct (pseudo_first hb)"
    by (auto simp: distinct_map pseudo_first_def)
  then show ?thesis by (simp add: distinct_map set_pseudo_first)
qed

lemma decoded_headers:
  assumes "distinct (map fst hb)"
  shows "fst (block_iterate (fold (\<lambda>(n, v). AppendValueOrAddHeader n v) (fields_of hb) [])) = map tidy (pseudo_first hb)"
proof -
  have f: "fold (\<lambda>(n, v). AppendValueOrAddHeader n v) (fields_of hb) [] = map joined (pseudo_first hb)"
    using fold_fields[OF distinct_pseudo_first[OF assms], of "[]"] by (simp add: fields_of_def)
  have "list_all (\<lambda>(k, hv). hv_key hv = k) (map joined (pseudo_first hb))" by (simp add: list_all_iff joined_def)
  with block_iterate_pairs[OF this] show ?thesis
    unfolding f using parts_joined by (simp add: pairs_of_def joined_def value_of_def) (simp add: tidy_def)
qed

section \<open>A connection\<close>

text \<open>
  The blocks of a connection: before each some table sizes are announced, and each is decoded with a
  handler or without. The result has the headers that an iteration over \<open>decoded_block()\<close> reads after
  each block.
\<close>

fun header_block_connection :: "(bytes \<Rightarrow> bytes list) \<Rightarrow> (nat list \<times> nat option \<times> Representation list) list \<Rightarrow>
    HpackEncoder \<Rightarrow> HpackDecoder3 \<Rightarrow> (Representation list list \<times> HpackEncoder \<times> HpackDecoder3) option" where
  "header_block_connection pieces [] en h = Some ([], en, h)"
| "header_block_connection pieces ((ns, handler, hb) # blocks) en h =
     (case encoder_settings ns en of
        None \<Rightarrow> None
      | Some en \<Rightarrow>
          (case EncodeHeaderSet hb en of
             None \<Rightarrow> None
           | Some (out, en) \<Rightarrow>
               (case H3_block handler (pieces out) (fold H3_ApplyHeaderTableSizeSetting ns h) of
                  (ok, h) \<Rightarrow>
                    if ok then
                      case header_block_connection pieces blocks en h of
                        None \<Rightarrow> None
                      | Some (reads, en, h') \<Rightarrow> Some (fst (block_iterate (decoded_block h)) # reads, en, h')
                    else None)))"

text \<open>The calls of a handler for a block.\<close>

definition handler_calls :: "nat option \<Rightarrow> Representation list \<Rightarrow> (nat \<times> handler_event) list" where
  "handler_calls handler hb =
     (case handler of
        None \<Rightarrow> []
      | Some i \<Rightarrow> (i, OnHeaderBlockStart) # map (\<lambda>(n, v). (i, Handler_OnHeader n v)) (fields_of hb) @
          [(i, OnHeaderBlockEnd (sum_list (map (\<lambda>(n, v). length n + length v) (fields_of hb))))])"

lemma H3_settings:
  "h3_hpack_decoder (fold H3_ApplyHeaderTableSizeSetting ns h) =
     fold (\<lambda>n. Decoder_ApplyHeaderTableSizeSetting (of_nat n)) ns (h3_hpack_decoder h)"
  "h3_listener_adapter (fold H3_ApplyHeaderTableSizeSetting ns h) = h3_listener_adapter h"
  "h3_max_decode_buffer_size_bytes (fold H3_ApplyHeaderTableSizeSetting ns h) = h3_max_decode_buffer_size_bytes h"
  "h3_header_block_started (fold H3_ApplyHeaderTableSizeSetting ns h) = h3_header_block_started h"
  by (induction ns arbitrary: h) (simp_all add: H3_ApplyHeaderTableSizeSetting_def)

lemma H3_block_delivers:
  assumes sync: "endpoints_in_step m en (h3_hpack_decoder h)" and h: "\<not> h3_header_block_started h" "la_handler (h3_listener_adapter h) = None"
    and hb: "list_all (rep_small m) hb" "distinct (map fst hb)"
  shows "\<exists>out en'. EncodeHeaderSet hb en = Some (out, en') \<and>
    (\<forall>css. concat css = out \<and> css \<noteq> [] \<and> list_all (\<lambda>c. length c \<le> h3_max_decode_buffer_size_bytes h) css \<longrightarrow>
       (\<exists>h'. H3_block handler css h = (True, h') \<and> endpoints_in_step m en' (h3_hpack_decoder h') \<and>
          \<not> h3_header_block_started h' \<and> la_handler (h3_listener_adapter h') = None \<and>
          h3_max_decode_buffer_size_bytes h' = h3_max_decode_buffer_size_bytes h \<and>
          la_calls (h3_listener_adapter h') = la_calls (h3_listener_adapter h) @ handler_calls handler hb \<and>
          fst (block_iterate (decoded_block h')) = (if handler = None then map tidy (pseudo_first hb) else [])))"
proof -
  let ?hp = "h3_hpack_decoder h" and ?hs = "fields_of hb"
  have ok: "decoder_ok (2 ^ 28) ?hp" "clean ?hp" using sync by (simp_all add: endpoints_in_step_def)
  obtain out en' where e: "EncodeHeaderSet_representations ?hs en = Some (out, en')"
    and dec: "\<And>css. concat css = out \<Longrightarrow> \<exists>hp'. DecodeBlock css ?hp = (True, hp') \<and> endpoints_in_step m en' hp' \<and>
      map untyped (log_of hp') = map untyped (log_of ?hp) @ OnHeaderListStart # header_events ?hs @ [OnHeaderListEnd]"
    using block_roundtrip[OF sync fields_small[OF hb(1)]] by blast
  have "\<exists>h'. H3_block handler css h = (True, h') \<and> endpoints_in_step m en' (h3_hpack_decoder h') \<and>
          \<not> h3_header_block_started h' \<and> la_handler (h3_listener_adapter h') = None \<and>
          h3_max_decode_buffer_size_bytes h' = h3_max_decode_buffer_size_bytes h \<and>
          la_calls (h3_listener_adapter h') = la_calls (h3_listener_adapter h) @ handler_calls handler hb \<and>
          fst (block_iterate (decoded_block h')) = (if handler = None then map tidy (pseudo_first hb) else [])"
    if css: "concat css = out" "css \<noteq> []" "list_all (\<lambda>c. length c \<le> h3_max_decode_buffer_size_bytes h) css" for css
  proof -
    have "concat (filter (\<lambda>c. c \<noteq> []) css) = out" using css(1) by (simp add: concat_nonempty)
    from dec[OF this] obtain hp' where d: "DecodeBlock (filter (\<lambda>c. c \<noteq> []) css) ?hp = (True, hp')" "endpoints_in_step m en' hp'"
      "map untyped (log_of hp') = map untyped (log_of ?hp) @ OnHeaderListStart # header_events ?hs @ [OnHeaderListEnd]" by blast
    let ?h = "case handler of None \<Rightarrow> h | Some i \<Rightarrow> HandleControlFrameHeadersStart (Some i) h"
    from H3_block_run[OF ok h(1) css(2,3) d(1), of handler] obtain k where
      k: "H3_block handler css h = (True, (called hp' ?h)\<lparr>h3_total_hpack_bytes := k, h3_header_block_started := False\<rparr>)"
        "prefix (log_of ?hp) (log_of hp')" by blast
    obtain es where es: "log_of hp' = log_of ?hp @ es" using k(2) by (auto simp: prefix_def)
    with d(3) have u: "map untyped es = OnHeaderListStart # header_events ?hs @ [OnHeaderListEnd]" by simp
    have la: "h3_listener_adapter (called hp' ?h) =
        fold ListenerAdapter_event (OnHeaderListStart # header_events ?hs @ [OnHeaderListEnd]) (h3_listener_adapter ?h)"
      using es fold_untyped[of es] u
      by (simp add: called_def HandleControlFrameHeadersStart_def split: option.split)
    show ?thesis
    proof (cases handler)
      case None
      with la fold_block_map[OF h(2)] k(1) d(2) h(2) decoded_headers[OF hb(2)] show ?thesis
        by (simp add: handler_calls_def decoded_block_def)
    next
      case (Some i)
      have "la_handler (h3_listener_adapter ?h) = Some i"
        by (simp add: Some HandleControlFrameHeadersStart_def set_handler_def)
      with la fold_block_handler[OF this] k(1) d(2) show ?thesis
        by (simp add: Some handler_calls_def decoded_block_def HandleControlFrameHeadersStart_def set_handler_def)
    qed
  qed
  with e show ?thesis by (auto simp: EncodeHeaderSet_fields[OF hb(2)])
qed

lemma connection_delivers:
  assumes pieces: "\<And>xs. concat (pieces xs) = xs \<and> pieces xs \<noteq> [] \<and> list_all (\<lambda>c. length c \<le> k) (pieces xs)"
  shows "endpoints_in_step m en (h3_hpack_decoder h) \<Longrightarrow> \<not> h3_header_block_started h \<Longrightarrow>
    la_handler (h3_listener_adapter h) = None \<Longrightarrow> h3_max_decode_buffer_size_bytes h = k \<Longrightarrow>
    list_all (\<lambda>(ns, handler, hb). list_all (\<lambda>n. n < 2 ^ 28) ns \<and> list_all (rep_small m) hb \<and> distinct (map fst hb)) blocks \<Longrightarrow>
    \<exists>en' h'. header_block_connection pieces blocks en h =
        Some (map (\<lambda>(ns, handler, hb). if handler = None then map tidy (pseudo_first hb) else []) blocks, en', h') \<and>
      la_calls (h3_listener_adapter h') =
        la_calls (h3_listener_adapter h) @ concat (map (\<lambda>(ns, handler, hb). handler_calls handler hb) blocks)"
proof (induction blocks arbitrary: en h)
  case (Cons b blocks)
  obtain ns handler hb where b: "b = (ns, handler, hb)" by (metis prod_cases3)
  let ?h = "fold H3_ApplyHeaderTableSizeSetting ns h"
  have p: "list_all (\<lambda>n. n < 2 ^ 28) ns" "list_all (rep_small m) hb" "distinct (map fst hb)"
    using Cons.prems(5) by (simp_all add: b)
  obtain en1 where s: "encoder_settings ns en = Some en1" "endpoints_in_step m en1 (h3_hpack_decoder ?h)"
    using settings_in_step[OF Cons.prems(1) p(1)] by (auto simp: H3_settings)
  obtain out en2 where e: "EncodeHeaderSet hb en1 = Some (out, en2)"
    and d: "\<exists>h'. H3_block handler (pieces out) ?h = (True, h') \<and> endpoints_in_step m en2 (h3_hpack_decoder h') \<and>
          \<not> h3_header_block_started h' \<and> la_handler (h3_listener_adapter h') = None \<and>
          h3_max_decode_buffer_size_bytes h' = h3_max_decode_buffer_size_bytes ?h \<and>
          la_calls (h3_listener_adapter h') = la_calls (h3_listener_adapter ?h) @ handler_calls handler hb \<and>
          fst (block_iterate (decoded_block h')) = (if handler = None then map tidy (pseudo_first hb) else [])"
    using H3_block_delivers[OF s(2) _ _ p(2,3), of handler] pieces Cons.prems(2-4) by (auto simp: H3_settings)
  from d obtain h2 where h2: "H3_block handler (pieces out) ?h = (True, h2)" "endpoints_in_step m en2 (h3_hpack_decoder h2)"
    "\<not> h3_header_block_started h2" "la_handler (h3_listener_adapter h2) = None" "h3_max_decode_buffer_size_bytes h2 = k"
    "la_calls (h3_listener_adapter h2) = la_calls (h3_listener_adapter h) @ handler_calls handler hb"
    "fst (block_iterate (decoded_block h2)) = (if handler = None then map tidy (pseudo_first hb) else [])"
    using Cons.prems(4) by (auto simp: H3_settings)
  from Cons.IH[OF h2(2-5)] Cons.prems(5) obtain en3 h3 where
    "header_block_connection pieces blocks en2 h2 =
        Some (map (\<lambda>(ns, handler, hb). if handler = None then map tidy (pseudo_first hb) else []) blocks, en3, h3)"
    "la_calls (h3_listener_adapter h3) =
        la_calls (h3_listener_adapter h2) @ concat (map (\<lambda>(ns, handler, hb). handler_calls handler hb) blocks)"
    by auto
  with b s(1) e h2(1,6,7) show ?case by simp
qed simp

text \<open>
  C3: Header blocks make the round trip through the HPACK encoder and the decoder of the SPDY framer. The
  encoder splits the values of a block at NULs and the cookies into crumbs; whatever fragments the
  decoder gets, none longer than its buffer, it puts them together again. Without a handler an iteration
  over its block reads the headers that were sent, with these changes: the pseudo headers come first; a
  cookie has lost the blanks at its ends, and has got a space behind each semicolon that had none. A
  handler is called for the start, for each field in order, and for the end with the size of all fields.
\<close>

theorem header_block_roundtrip:
  assumes "\<And>xs. concat (pieces xs) = xs \<and> pieces xs \<noteq> [] \<and> list_all (\<lambda>c. length c \<le> kMaxDecodeBufferSizeBytes) (pieces xs)"
    and "list_all (\<lambda>(ns, handler, hb). list_all (\<lambda>n. n < 2 ^ 28) ns \<and> distinct (map fst hb) \<and>
      list_all (\<lambda>(name, val). length name \<le> kMaxDecodeBufferSizeBytes \<and> length val \<le> kMaxDecodeBufferSizeBytes) hb) blocks"
    and "en = SetIndexingPolicy f (HpackEncoder_init hpack_huffman_table) \<or> en = DisableCompression (HpackEncoder_init hpack_huffman_table)"
  shows "\<exists>en' h'. header_block_connection pieces blocks en HpackDecoder3_init =
      Some (map (\<lambda>(ns, handler, hb). if handler = None then map tidy (pseudo_first hb) else []) blocks, en', h') \<and>
    la_calls (h3_listener_adapter h') = concat (map (\<lambda>(ns, handler, hb). handler_calls handler hb) blocks)"
proof -
  have s: "endpoints_in_step kMaxDecodeBufferSizeBytes en (h3_hpack_decoder HpackDecoder3_init)"
    using assms(3) init_in_step by (auto simp: HpackDecoder3_init_def)
  have "list_all (\<lambda>(ns, handler, hb). list_all (\<lambda>n. n < 2 ^ 28) ns \<and> list_all (rep_small kMaxDecodeBufferSizeBytes) hb \<and>
      distinct (map fst hb)) blocks"
    using assms(2) by (fastforce simp: list_all_iff rep_small_def kMaxDecodeBufferSizeBytes_def)
  from connection_delivers[OF assms(1) s _ _ _ this] show ?thesis
    by (auto simp: HpackDecoder3_init_def ListenerAdapter_init_def)
qed

text \<open>A path, a cookie of two crumbs without a space between them and a value with a NUL, byte by byte, first without a handler and then with one.\<close>

theorem header_block_roundtrip_witness:
  "\<exists>en' h'. header_block_connection (\<lambda>xs. map (\<lambda>x. [x]) xs @ [[]])
      [([4096], None, [(ascii ''cookie'', [0x61, 0x3b, 0x62]), ([0x78], [0x79, 0, 0x7a]), (ascii '':path'', [0x2f])]),
       ([], Some 7, [([0x78], [0x79, 0, 0x7a])])]
      (SetIndexingPolicy (\<lambda>_ _. True) (HpackEncoder_init hpack_huffman_table)) HpackDecoder3_init =
      Some ([[(ascii '':path'', [0x2f]), (ascii ''cookie'', [0x61, 0x3b, 0x20, 0x62]), ([0x78], [0x79, 0, 0x7a])], []], en', h') \<and>
    la_calls (h3_listener_adapter h') =
      [(7, OnHeaderBlockStart), (7, Handler_OnHeader [0x78] [0x79]), (7, Handler_OnHeader [0x78] [0x7a]), (7, OnHeaderBlockEnd 4)]"
proof -
  have c: "concat (map (\<lambda>x. [x]) xs @ [[]]) = xs \<and> map (\<lambda>x. [x]) xs @ [[]] \<noteq> [] \<and>
      list_all (\<lambda>c. length c \<le> kMaxDecodeBufferSizeBytes) (map (\<lambda>x. [x]) xs @ [[]])" for xs :: bytes
    by (induction xs) (simp_all add: kMaxDecodeBufferSizeBytes_def)
  have calls: "handler_calls (Some 7) [([0x78], [0x79, 0, 0x7a])] =
      [(7, OnHeaderBlockStart), (7, Handler_OnHeader [0x78] [0x79]), (7, Handler_OnHeader [0x78] [0x7a]), (7, OnHeaderBlockEnd 4)]"
    by (simp add: handler_calls_def fields_of_def pseudo_first_def is_pseudo_def kPseudoHeaderPrefix_def parts_def ascii_def)
  show ?thesis
    using header_block_roundtrip[of "\<lambda>xs. map (\<lambda>x. [x]) xs @ [[]]"
        "[([4096], None, [(ascii ''cookie'', [0x61, 0x3b, 0x62]), ([0x78], [0x79, 0, 0x7a]), (ascii '':path'', [0x2f])]),
          ([], Some 7, [([0x78], [0x79, 0, 0x7a])])]"
        "SetIndexingPolicy (\<lambda>_ _. True) (HpackEncoder_init hpack_huffman_table)" "\<lambda>_ _. True", OF c]
    by (simp add: calls handler_calls_def[of None] kMaxDecodeBufferSizeBytes_def ascii_def tidy_def trim_def pseudo_first_def is_pseudo_def
        kPseudoHeaderPrefix_def del: header_block_connection.simps)
qed

section \<open>The limit on a fragment\<close>

lemma plain_bytes_length:
  "\<not> en_enable_compression en \<Longrightarrow> sum_list (map (\<lambda>(n, v). length n + length v) hs) \<le> length (steps_bytes hs en)"
proof (induction hs arbitrary: en)
  case (Cons h hs)
  have "length (fst h) + length (snd h) \<le> length (rep_bytes en h)"
    using Cons.prems by (simp add: rep_bytes_def hpack_string_def Let_def)
  moreover have "\<not> en_enable_compression (rep_step h en)" using Cons.prems by (simp add: rep_step_def put_def)
  ultimately show ?case using Cons.IH[of "rep_step h en"] by (auto simp: case_prod_beta)
qed simp

lemma plain_block_length:
  assumes "encoder_idle en" "\<not> en_enable_compression en" "list_all rep_fits hs" "EncodeHeaderSet_representations hs en = Some (out, en')"
  shows "sum_list (map (\<lambda>(n, v). length n + length v) hs) \<le> length out"
proof -
  have ok: "encoder_ok en" using assms(1) by (simp add: encoder_idle_def)
  have "\<not> en_enable_compression (MaybeEmitTableSize en)"
    using assms(2) by (simp add: MaybeEmit_put[OF ok] put_def settled_def)
  from plain_bytes_length[OF this, of hs] show ?thesis
    using assms(4) EncodeRepresentations_steps[OF ok assms(3)]
      steps_buffer[of hs "MaybeEmitTableSize en", THEN arg_cong, of length]
    by (auto simp: EncodeHeaderSet_representations_def Let_def)
qed

text \<open>
  C36: The limit of the decoder is on a fragment, not on what it has to buffer. A block that is longer than the
  limit is refused when it comes in one piece, and accepted in pieces that are not, however many.
\<close>

theorem limit_per_fragment:
  assumes "distinct (map fst hb)" "kMaxDecodeBufferSizeBytes < sum_list (map (\<lambda>(n, v). length n + length v) (fields_of hb))"
    and "list_all (\<lambda>(name, val). length name \<le> kMaxDecodeBufferSizeBytes \<and> length val \<le> kMaxDecodeBufferSizeBytes) hb"
  shows "\<exists>out en. EncodeHeaderSet hb (DisableCompression (HpackEncoder_init hpack_huffman_table)) = Some (out, en) \<and>
    \<not> fst (H3_block handler [out] HpackDecoder3_init) \<and>
    (\<forall>css. concat css = out \<and> css \<noteq> [] \<and> list_all (\<lambda>c. length c \<le> kMaxDecodeBufferSizeBytes) css \<longrightarrow>
       fst (H3_block handler css HpackDecoder3_init))"
proof -
  let ?en = "DisableCompression (HpackEncoder_init hpack_huffman_table)" and ?h = HpackDecoder3_init
  have s: "endpoints_in_step kMaxDecodeBufferSizeBytes ?en (h3_hpack_decoder ?h)"
    using init_in_step(2) by (simp add: HpackDecoder3_init_def)
  have small: "list_all (rep_small kMaxDecodeBufferSizeBytes) hb"
    using assms(3) by (fastforce simp: list_all_iff rep_small_def kMaxDecodeBufferSizeBytes_def)
  have h: "\<not> h3_header_block_started ?h" "la_handler (h3_listener_adapter ?h) = None"
    "h3_max_decode_buffer_size_bytes ?h = kMaxDecodeBufferSizeBytes"
    by (simp_all add: HpackDecoder3_init_def ListenerAdapter_init_def)
  from H3_block_delivers[OF s h(1,2) small assms(1), of handler] obtain out en where
    o: "EncodeHeaderSet hb ?en = Some (out, en)"
      "\<And>css. concat css = out \<Longrightarrow> css \<noteq> [] \<Longrightarrow> list_all (\<lambda>c. length c \<le> kMaxDecodeBufferSizeBytes) css \<Longrightarrow> fst (H3_block handler css ?h)"
    by (fastforce simp: h(3))
  have "list_all rep_fits (fields_of hb)" using fields_small[OF small] by (auto simp: list_all_iff rep_small_fits)
  then have len: "kMaxDecodeBufferSizeBytes < length out"
    using plain_block_length[of ?en "fields_of hb" out en] s o(1) assms(2)
    by (auto simp: EncodeHeaderSet_fields[OF assms(1)] endpoints_in_step_def DisableCompression_def)
  let ?begun = "case handler of None \<Rightarrow> ?h | Some i \<Rightarrow> HandleControlFrameHeadersStart (Some i) ?h"
  have "h3_max_decode_buffer_size_bytes ?begun = kMaxDecodeBufferSizeBytes"
    by (simp add: h(3) HandleControlFrameHeadersStart_def split: option.split)
  then have "\<not> fst (HandleControlFrameHeadersData out ?begun)"
    using len by (auto simp: HandleControlFrameHeadersData_def Let_def split: prod.splits)
  then obtain h' where "HandleControlFrameHeadersData out ?begun = (False, h')" by (metis prod.collapse)
  then have "\<not> fst (H3_block handler [out] ?h)" by (simp add: H3_block_def Let_def)
  with o show ?thesis by blast
qed

text \<open>A header with a value of 32768 bytes.\<close>

theorem limit_per_fragment_witness:
  "\<exists>out en. EncodeHeaderSet [([0x61], replicate 32768 0x62)] (DisableCompression (HpackEncoder_init hpack_huffman_table)) = Some (out, en) \<and>
    \<not> fst (H3_block None [out] HpackDecoder3_init) \<and>
    (\<forall>css. concat css = out \<and> css \<noteq> [] \<and> list_all (\<lambda>c. length c \<le> kMaxDecodeBufferSizeBytes) css \<longrightarrow>
       fst (H3_block None css HpackDecoder3_init))"
proof (rule limit_per_fragment)
  have "parts ([0x61], replicate n 0x62) = [replicate n 0x62]" for n
    by (simp add: parts_encoder ascii_def) (subst split_nul.simps, simp add: Let_def takeWhile_replicate dropWhile_replicate)
  then show "kMaxDecodeBufferSizeBytes <
      sum_list (map (\<lambda>(n, v). length n + length v) (fields_of [([0x61], replicate 32768 0x62)]))"
    by (simp add: fields_of_def pseudo_first_def is_pseudo_def kPseudoHeaderPrefix_def kMaxDecodeBufferSizeBytes_def)
qed (simp_all add: kMaxDecodeBufferSizeBytes_def)

section \<open>Without compression\<close>

text \<open>The fields when values are not cut at the NULs.\<close>

definition whole_fields :: "Representation list \<Rightarrow> Representation list" where
  "whole_fields hb =
     concat (map (\<lambda>kv. if fst kv = ascii ''cookie'' then map (Pair (fst kv)) (parts kv) else [kv]) (pseudo_first hb))"

lemma SeparateHeaders_whole:
  "distinct (map fst hb) \<Longrightarrow> (b \<longrightarrow> ascii ''cookie'' \<notin> fst ` set hb) \<Longrightarrow>
   SeparateHeaders GatherRepresentation b hb =
     (let f = \<lambda>kv. if fst kv = ascii ''cookie'' then map (Pair (fst kv)) (parts kv) else [kv]
      in (concat (map f (filter is_pseudo hb)), concat (map f (filter (\<lambda>kv. \<not> is_pseudo kv) hb))))"
proof (induction hb arbitrary: b)
  case (Cons kv hb)
  show ?case
  proof (cases "fst kv = ascii ''cookie''")
    case True
    with Cons.prems have "\<not> b" "ascii ''cookie'' \<notin> fst ` set hb" by auto
    with Cons.IH[of True] Cons.prems True cookie_not_pseudo[OF True] cookie_fields[OF True] show ?thesis
      by (simp add: Let_def)
  next
    case False
    with Cons.IH[of b] Cons.prems show ?thesis by (simp add: is_pseudo_def GatherRepresentation_def Let_def)
  qed
qed simp

lemma Encoderator_init_whole:
  "distinct (map fst hb) \<Longrightarrow> \<not> en_enable_compression en \<Longrightarrow>
   Encoderator_init hb en = (\<lparr>ea_header_it = whole_fields hb, ea_has_next = True\<rparr>, MaybeEmitTableSize en)"
  using SeparateHeaders_whole[of hb False]
  by (simp add: Encoderator_init_def whole_fields_def pseudo_first_def Let_def)

lemma whole_small: "list_all (rep_small m) hb \<Longrightarrow> list_all (rep_small m) (whole_fields hb)"
  using parts_small by (fastforce simp: whole_fields_def list_all_iff set_pseudo_first rep_small_def split: if_splits)

lemma parts_no_nul: "fst kv \<noteq> ascii ''cookie'' \<Longrightarrow> p \<in> set (parts kv) \<Longrightarrow> 0 \<notin> set p"
  using split_nul_join[of "snd kv"] by (auto simp: parts_encoder)

lemma parts_whole: "fst kv \<noteq> ascii ''cookie'' \<Longrightarrow> 0 \<notin> set (snd kv) \<Longrightarrow> parts kv = [snd kv]"
  by (simp add: parts_def) (subst split_on_Cons, auto simp: takeWhile_eq_all_conv)

lemma fields_whole_iff:
  "fields_of hb = whole_fields hb \<longleftrightarrow> (\<forall>kv \<in> set hb. fst kv \<noteq> ascii ''cookie'' \<longrightarrow> 0 \<notin> set (snd kv))"
proof (intro iffI ballI impI)
  fix kv assume a: "fields_of hb = whole_fields hb" "kv \<in> set hb" "fst kv \<noteq> ascii ''cookie''"
  then have "kv \<in> set (fields_of hb)" by (auto simp: whole_fields_def set_pseudo_first)
  then obtain kv' where "fst kv = fst kv'" "snd kv \<in> set (parts kv')" by (auto simp: fields_of_def)
  then show "0 \<notin> set (snd kv)" using parts_no_nul[of kv'] a(3) by simp
next
  assume a: "\<forall>kv \<in> set hb. fst kv \<noteq> ascii ''cookie'' \<longrightarrow> 0 \<notin> set (snd kv)"
  then show "fields_of hb = whole_fields hb"
    unfolding fields_of_def whole_fields_def using parts_whole
    by (intro arg_cong[of _ _ concat] map_cong refl) (auto simp: set_pseudo_first)
qed

lemma run_of_fields:
  assumes "encoder_ok en" "list_all rep_fits hs" "EncodeHeaderSet_representations hs en = Some (out, en')" "ms \<noteq> []" "length out \<le> sum_list ms"
  shows "\<exists>ea. encoderator_run ms (\<lparr>ea_header_it = hs, ea_has_next = True\<rparr>, MaybeEmitTableSize en) = Some (out, ea, en') \<and> \<not> ea_has_next ea"
  using encoderator_run_spec[OF MaybeEmit_ok[OF assms(1)] assms(2), of ms] EncodeRepresentations_steps[OF assms(1,2)] assms(3-5)
  by (auto simp: EncodeHeaderSet_representations_def Let_def)

lemma first_block_decodes:
  assumes "list_all (rep_small m) hs" "en = DisableCompression (HpackEncoder_init hpack_huffman_table)"
  obtains out en' where "EncodeHeaderSet_representations hs en = Some (out, en')"
    "\<forall>css. concat css = out \<longrightarrow> (\<exists>hp'. DecodeBlock css (Http2HpackDecoder_init m) = (True, hp') \<and>
       map untyped (log_of hp') = OnHeaderListStart # header_events hs @ [OnHeaderListEnd])"
proof -
  have "map untyped (log_of (Http2HpackDecoder_init m)) = []" by (simp add: Http2HpackDecoder_init_def HpackDecoderState_init_def)
  note R = block_roundtrip[OF init_in_step(2)[of m] assms(1), folded assms(2), unfolded this append_Nil]
  from R obtain out en' where "EncodeHeaderSet_representations hs en = Some (out, en')"
    and d: "\<And>css. concat css = out \<Longrightarrow> \<exists>hp'. DecodeBlock css (Http2HpackDecoder_init m) = (True, hp') \<and>
      endpoints_in_step m en' hp' \<and> \<not> en_should_emit_table_size en' \<and>
      map untyped (log_of hp') = OnHeaderListStart # header_events hs @ [OnHeaderListEnd]" by blast
  moreover have "\<exists>hp'. DecodeBlock css (Http2HpackDecoder_init m) = (True, hp') \<and>
      map untyped (log_of hp') = OnHeaderListStart # header_events hs @ [OnHeaderListEnd]" if "concat css = out" for css
    using d[OF that] by (elim exE conjE) (intro exI conjI)
  ultimately show ?thesis using that by blast
qed

text \<open>
  C35: With compression disabled the two ways to encode a header block disagree. What \<open>EncodeHeaderSet\<close>
  with an output string writes is decoded to the parts of the values between the NULs; what the
  progressive encoder writes, run to its end under any bounds, is decoded to the whole values. The
  two lists of fields are the same just when no header but the cookie has a NUL in its value.
\<close>

theorem nul_without_compression:
  assumes "distinct (map fst hb)" "list_all (rep_small m) hb"
  shows "let en = DisableCompression (HpackEncoder_init hpack_huffman_table); hp = Http2HpackDecoder_init m;
      decodes = (\<lambda>out hs. \<forall>css. concat css = out \<longrightarrow> (\<exists>hp'. DecodeBlock css hp = (True, hp') \<and>
        map untyped (log_of hp') = OnHeaderListStart # header_events hs @ [OnHeaderListEnd]))
    in (\<exists>out en'. EncodeHeaderSet hb en = Some (out, en') \<and> decodes out (fields_of hb)) \<and>
      (\<exists>out. decodes out (whole_fields hb) \<and> (\<forall>ms. ms \<noteq> [] \<and> length out \<le> sum_list ms \<longrightarrow>
        (\<exists>ea en'. encoderator_run ms (Encoderator_init hb en) = Some (out, ea, en') \<and> \<not> ea_has_next ea))) \<and>
      (fields_of hb = whole_fields hb \<longleftrightarrow> (\<forall>kv \<in> set hb. fst kv \<noteq> ascii ''cookie'' \<longrightarrow> 0 \<notin> set (snd kv)))"
proof -
  let ?en = "DisableCompression (HpackEncoder_init hpack_huffman_table)" and ?hp = "Http2HpackDecoder_init m"
  have ok: "encoder_ok ?en" using init_in_step(2)[of m] by (simp add: endpoints_in_step_def encoder_idle_def)
  have ne: "\<not> en_enable_compression ?en" by (simp add: DisableCompression_def)
  have fits: "list_all rep_fits (whole_fields hb)" using whole_small[OF assms(2)] by (auto simp: list_all_iff rep_small_fits)
  obtain out2 en2 where w: "EncodeHeaderSet_representations (whole_fields hb) ?en = Some (out2, en2)"
    "\<forall>css. concat css = out2 \<longrightarrow> (\<exists>hp'. DecodeBlock css ?hp = (True, hp') \<and>
       map untyped (log_of hp') = OnHeaderListStart # header_events (whole_fields hb) @ [OnHeaderListEnd])"
    by (rule first_block_decodes[OF whole_small[OF assms(2)] refl])
  obtain out1 en1 where f: "EncodeHeaderSet_representations (fields_of hb) ?en = Some (out1, en1)"
    "\<forall>css. concat css = out1 \<longrightarrow> (\<exists>hp'. DecodeBlock css ?hp = (True, hp') \<and>
       map untyped (log_of hp') = OnHeaderListStart # header_events (fields_of hb) @ [OnHeaderListEnd])"
    by (rule first_block_decodes[OF fields_small[OF assms(2)] refl])
  have "\<exists>ea en'. encoderator_run ms (Encoderator_init hb ?en) = Some (out2, ea, en') \<and> \<not> ea_has_next ea"
    if "ms \<noteq> []" "length out2 \<le> sum_list ms" for ms
    using run_of_fields[OF ok fits w(1) that] unfolding Encoderator_init_whole[OF assms(1) ne] by blast
  then show ?thesis unfolding Let_def EncodeHeaderSet_fields[OF assms(1)] using f w(2) fields_whole_iff[of hb] by blast
qed

text \<open>The value \<open>b NUL c\<close> goes out as two headers and as one.\<close>

theorem nul_without_compression_witness:
  "fields_of [([0x61], [0x62, 0, 0x63])] = [([0x61], [0x62]), ([0x61], [0x63])] \<and>
   whole_fields [([0x61], [0x62, 0, 0x63])] = [([0x61], [0x62, 0, 0x63])] \<and>
   (\<exists>out en'. EncodeHeaderSet [([0x61], [0x62, 0, 0x63])] (DisableCompression (HpackEncoder_init hpack_huffman_table)) = Some (out, en') \<and>
      (\<exists>hp'. DecodeBlock [out] (Http2HpackDecoder_init 100) = (True, hp') \<and>
        map untyped (log_of hp') = OnHeaderListStart # header_events [([0x61], [0x62]), ([0x61], [0x63])] @ [OnHeaderListEnd]))"
proof -
  let ?hb = "[([0x61], [0x62, 0, 0x63])] :: Representation list"
  have f: "fields_of ?hb = [([0x61], [0x62]), ([0x61], [0x63])]" "whole_fields ?hb = ?hb"
    by (simp_all add: fields_of_def whole_fields_def pseudo_first_def is_pseudo_def parts_def ascii_def kPseudoHeaderPrefix_def)
  have p: "distinct (map fst ?hb)" "list_all (rep_small 100) ?hb" by (simp_all add: rep_small_def)
  obtain out en' where o: "EncodeHeaderSet ?hb (DisableCompression (HpackEncoder_init hpack_huffman_table)) = Some (out, en')"
    "\<forall>css. concat css = out \<longrightarrow> (\<exists>hp'. DecodeBlock css (Http2HpackDecoder_init 100) = (True, hp') \<and>
       map untyped (log_of hp') = OnHeaderListStart # header_events (fields_of ?hb) @ [OnHeaderListEnd])"
    using nul_without_compression[OF p] unfolding Let_def by blast
  have "\<exists>hp'. DecodeBlock [out] (Http2HpackDecoder_init 100) = (True, hp') \<and>
       map untyped (log_of hp') = OnHeaderListStart # header_events (fields_of ?hb) @ [OnHeaderListEnd]"
    by (rule o(2)[rule_format]) simp
  then have "\<exists>hp'. DecodeBlock [out] (Http2HpackDecoder_init 100) = (True, hp') \<and>
       map untyped (log_of hp') = OnHeaderListStart # header_events [([0x61], [0x62]), ([0x61], [0x63])] @ [OnHeaderListEnd]"
    unfolding f(1) .
  then show ?thesis by (intro conjI exI[of _ out] exI[of _ en'] f o(1))
qed

end
