(* ===== verification/Priority_Dependencies.thy ===== *)
theory Priority_Dependencies
  imports Net_Prelude
begin

text \<open>
  \<^verbatim>\<open>spdy/http2_priority_dependencies.{h,cc}\<close>: a session keeps its streams in eight lists, one for each
  priority, and from them computes which stream dependencies it has to tell the peer when a
  stream is created or gets another priority.

  The reference is the dependency tree that the peer keeps according to RFC 7540, section 5.3: all updates
  together make it a chain of the streams in the order of their priorities.
\<close>

section \<open>The code\<close>

text \<open>
  An element of a list is a stream with its priority, 0 for the highest and 7 for the lowest. An iterator
  is the element it points to, since no stream is in the lists twice.
\<close>

type_synonym id_entry = "u32 \<times> nat"

definition kV3HighestPriority :: nat where
  "kV3HighestPriority = 0"

definition kV3LowestPriority :: nat where
  "kV3LowestPriority = 7"

record Http2PriorityDependencies =
  pd_id_priority_lists :: "id_entry list list"
  pd_entry_by_stream_id :: "u32 \<rightharpoonup> id_entry"

record DependencyUpdate =
  du_id :: u32
  du_dependent_stream_id :: u32
  du_exclusive :: bool

definition Http2PriorityDependencies_init :: Http2PriorityDependencies where
  "Http2PriorityDependencies_init =
     \<lparr>pd_id_priority_lists = replicate (kV3LowestPriority + 1) [], pd_entry_by_stream_id = Map.empty\<rparr>"

text \<open>The element before and the element after an iterator of a list.\<close>

fun iter_prev :: "'a \<Rightarrow> 'a list \<Rightarrow> 'a option" where
  "iter_prev e (x # y # ys) = (if y = e then Some x else iter_prev e (y # ys))"
| "iter_prev e _ = None"

fun iter_next :: "'a \<Rightarrow> 'a list \<Rightarrow> 'a option" where
  "iter_next e (x # y # ys) = (if x = e then Some y else iter_next e (y # ys))"
| "iter_next e _ = None"

fun PriorityLowerBound_loop :: "id_entry list list \<Rightarrow> nat \<Rightarrow> id_entry option" where
  "PriorityLowerBound_loop ls 0 = (if ls ! 0 \<noteq> [] then Some (last (ls ! 0)) else None)"
| "PriorityLowerBound_loop ls (Suc i) =
     (if ls ! Suc i \<noteq> [] then Some (last (ls ! Suc i)) else PriorityLowerBound_loop ls i)"

definition PriorityLowerBound :: "nat \<Rightarrow> Http2PriorityDependencies \<Rightarrow> id_entry option" where
  "PriorityLowerBound priority pd = PriorityLowerBound_loop (pd_id_priority_lists pd) priority"

definition push_back :: "u32 \<Rightarrow> nat \<Rightarrow> Http2PriorityDependencies \<Rightarrow> Http2PriorityDependencies" where
  "push_back sid priority pd =
     (let ls = pd_id_priority_lists pd
      in pd\<lparr>pd_id_priority_lists := ls[priority := ls ! priority @ [(sid, priority)]],
            pd_entry_by_stream_id := (pd_entry_by_stream_id pd)(sid \<mapsto> (sid, priority))\<rparr>)"

text \<open>The stream to depend on, whether exclusively, and the new state.\<close>

definition OnStreamCreation :: "u32 \<Rightarrow> nat \<Rightarrow> Http2PriorityDependencies \<Rightarrow> u32 \<times> bool \<times> Http2PriorityDependencies" where
  "OnStreamCreation sid priority pd =
     (let dependent_stream_id = (case PriorityLowerBound priority pd of None \<Rightarrow> 0 | Some parent \<Rightarrow> fst parent)
      in (dependent_stream_id, True, push_back sid priority pd))"

text \<open>
  The outer \<open>None\<close> of the following operations is a stream that is not known, for which the code
  dereferences \<open>end()\<close>.
\<close>

definition ParentOfStream :: "u32 \<Rightarrow> Http2PriorityDependencies \<Rightarrow> id_entry option option" where
  "ParentOfStream sid pd =
     (case pd_entry_by_stream_id pd sid of
        None \<Rightarrow> None
      | Some cur \<Rightarrow>
          let priority = snd cur
          in Some (case iter_prev cur (pd_id_priority_lists pd ! priority) of
               Some parent \<Rightarrow> Some parent
             | None \<Rightarrow> if priority = kV3HighestPriority then None else PriorityLowerBound (priority - 1) pd))"

function ChildOfStream_loop :: "id_entry list list \<Rightarrow> nat \<Rightarrow> id_entry option" where
  "ChildOfStream_loop ls i =
     (if i \<le> kV3LowestPriority then
        if ls ! i \<noteq> [] then Some (hd (ls ! i)) else ChildOfStream_loop ls (i + 1)
      else None)"
  by pat_completeness auto
termination by (relation "measure (\<lambda>(ls, i). kV3LowestPriority + 1 - i)") auto

declare ChildOfStream_loop.simps [simp del]

definition ChildOfStream :: "u32 \<Rightarrow> Http2PriorityDependencies \<Rightarrow> id_entry option option" where
  "ChildOfStream sid pd =
     (case pd_entry_by_stream_id pd sid of
        None \<Rightarrow> None
      | Some entry \<Rightarrow>
          let priority = snd entry
          in Some (case iter_next entry (pd_id_priority_lists pd ! priority) of
               Some child \<Rightarrow> Some child
             | None \<Rightarrow> ChildOfStream_loop (pd_id_priority_lists pd) (priority + 1)))"

definition erase_entry :: "id_entry \<Rightarrow> Http2PriorityDependencies \<Rightarrow> Http2PriorityDependencies" where
  "erase_entry e pd =
     (let ls = pd_id_priority_lists pd
      in pd\<lparr>pd_id_priority_lists := ls[snd e := remove1 e (ls ! snd e)]\<rparr>)"

definition parent_id :: "id_entry option \<Rightarrow> u32" where
  "parent_id parent = (case parent of None \<Rightarrow> 0 | Some e \<Rightarrow> fst e)"

definition OnStreamUpdate :: "u32 \<Rightarrow> nat \<Rightarrow> Http2PriorityDependencies \<Rightarrow> (DependencyUpdate list \<times> Http2PriorityDependencies) option" where
  "OnStreamUpdate sid new_priority pd =
     (case pd_entry_by_stream_id pd sid of
        None \<Rightarrow> None
      | Some cur \<Rightarrow>
          if snd cur = new_priority then Some ([], pd)
          else
            case ParentOfStream sid pd of
              None \<Rightarrow> None
            | Some old_parent \<Rightarrow>
                let new_parent = PriorityLowerBound new_priority pd;
                    new_parent = (case new_parent of None \<Rightarrow> None | Some e \<Rightarrow> if fst e = sid then old_parent else Some e);
                    changed = (case (old_parent, new_parent) of
                        (None, None) \<Rightarrow> False | (Some o', Some n) \<Rightarrow> fst o' \<noteq> fst n | _ \<Rightarrow> True);
                    updates =
                      (if changed then
                         (case ChildOfStream sid pd of
                            Some (Some c) \<Rightarrow> [\<lparr>du_id = fst c, du_dependent_stream_id = parent_id old_parent, du_exclusive = True\<rparr>]
                          | _ \<Rightarrow> []) @
                         [\<lparr>du_id = sid, du_dependent_stream_id = parent_id new_parent, du_exclusive = True\<rparr>]
                       else [])
                in Some (updates, push_back sid new_priority (erase_entry cur pd)))"

definition OnStreamDestruction :: "u32 \<Rightarrow> Http2PriorityDependencies \<Rightarrow> Http2PriorityDependencies option" where
  "OnStreamDestruction sid pd =
     (case pd_entry_by_stream_id pd sid of
        None \<Rightarrow> None
      | Some e \<Rightarrow> Some ((erase_entry e pd)\<lparr>pd_entry_by_stream_id := (pd_entry_by_stream_id pd)(sid := None)\<rparr>))"

section \<open>The tree of the peer\<close>

text \<open>
  The dependency tree of RFC 7540, section 5.3: the parent of each stream, 0 for the root. An exclusive
  dependency makes the stream the only child of its parent and the other children its own. A stream that is
  made dependent on one of its own dependents first passes that to its former parent. When a
  stream is closed its dependents go to its parent.
\<close>

type_synonym dependency_tree = "u32 \<rightharpoonup> u32"

inductive depends :: "dependency_tree \<Rightarrow> u32 \<Rightarrow> u32 \<Rightarrow> bool" for t where
  parent: "t x = Some p \<Longrightarrow> depends t x p"
| above: "t x = Some p \<Longrightarrow> depends t p q \<Longrightarrow> depends t x q"

code_pred (modes: i \<Rightarrow> i \<Rightarrow> i \<Rightarrow> bool) depends .

definition set_dependency :: "u32 \<Rightarrow> u32 \<Rightarrow> bool \<Rightarrow> dependency_tree \<Rightarrow> dependency_tree" where
  "set_dependency sid p exclusive t =
     (let t = (if depends t p sid then t(p := t sid) else t)
      in (\<lambda>x. if x = sid then Some p else if exclusive \<and> t x = Some p then Some sid else t x))"

definition close_stream :: "u32 \<Rightarrow> dependency_tree \<Rightarrow> dependency_tree" where
  "close_stream sid t = (\<lambda>x. if x = sid then None else if t x = Some sid then t sid else t x)"

definition apply_update :: "DependencyUpdate \<Rightarrow> dependency_tree \<Rightarrow> dependency_tree" where
  "apply_update u t = set_dependency (du_id u) (du_dependent_stream_id u) (du_exclusive u) t"

text \<open>The session and its peer: creations and updates are sent, and both see that a stream is closed.\<close>

datatype priority_op = Create_Stream u32 nat | Update_Stream u32 nat | Close_Stream u32

fun priority_step :: "priority_op \<Rightarrow> Http2PriorityDependencies \<times> dependency_tree \<Rightarrow> (Http2PriorityDependencies \<times> dependency_tree) option" where
  "priority_step (Create_Stream sid p) (pd, t) =
     (let (dep, exclusive, pd) = OnStreamCreation sid p pd in Some (pd, set_dependency sid dep exclusive t))"
| "priority_step (Update_Stream sid p) (pd, t) =
     (case OnStreamUpdate sid p pd of None \<Rightarrow> None | Some (us, pd) \<Rightarrow> Some (pd, fold apply_update us t))"
| "priority_step (Close_Stream sid) (pd, t) =
     (case OnStreamDestruction sid pd of None \<Rightarrow> None | Some pd \<Rightarrow> Some (pd, close_stream sid t))"

fun priority_run :: "priority_op list \<Rightarrow> Http2PriorityDependencies \<times> dependency_tree \<Rightarrow> (Http2PriorityDependencies \<times> dependency_tree) option" where
  "priority_run [] s = Some s"
| "priority_run (op # ops) s = (case priority_step op s of None \<Rightarrow> None | Some s \<Rightarrow> priority_run ops s)"

section \<open>The specification\<close>

text \<open>
  One list of streams: a stream goes behind all that have its priority or a higher one, and stays in its
  place when its priority does not change.
\<close>

definition enter :: "u32 \<Rightarrow> nat \<Rightarrow> id_entry list \<Rightarrow> id_entry list" where
  "enter sid p S = takeWhile (\<lambda>e. snd e \<le> p) S @ (sid, p) # dropWhile (\<lambda>e. snd e \<le> p) S"

fun order_step :: "priority_op \<Rightarrow> id_entry list \<Rightarrow> id_entry list" where
  "order_step (Create_Stream sid p) S = enter sid p S"
| "order_step (Update_Stream sid p) S = (if (sid, p) \<in> set S then S else enter sid p (filter (\<lambda>e. fst e \<noteq> sid) S))"
| "order_step (Close_Stream sid) S = filter (\<lambda>e. fst e \<noteq> sid) S"

text \<open>Streams are new when created and known otherwise, as the code assumes.\<close>

fun op_ok :: "id_entry list \<Rightarrow> priority_op \<Rightarrow> bool" where
  "op_ok S (Create_Stream sid p) \<longleftrightarrow> sid \<noteq> 0 \<and> sid \<notin> fst ` set S \<and> p \<le> kV3LowestPriority"
| "op_ok S (Update_Stream sid p) \<longleftrightarrow> sid \<in> fst ` set S \<and> p \<le> kV3LowestPriority"
| "op_ok S (Close_Stream sid) \<longleftrightarrow> sid \<in> fst ` set S"

fun ops_ok :: "priority_op list \<Rightarrow> id_entry list \<Rightarrow> bool" where
  "ops_ok [] S \<longleftrightarrow> True"
| "ops_ok (op # ops) S \<longleftrightarrow> op_ok S op \<and> ops_ok ops (order_step op S)"

text \<open>The tree in which the first stream depends on \<open>r\<close> and each other one on the one before it.\<close>

definition chain :: "u32 \<Rightarrow> u32 list \<Rightarrow> dependency_tree" where
  "chain r ids = map_of (zip ids (r # ids))"

section \<open>Chains\<close>

lemma chain_simps [simp]: "chain r [] = Map.empty" "chain r (x # ids) = (chain x ids)(x \<mapsto> r)"
  by (simp_all add: chain_def)

lemma chain_range: "chain r ids x = Some p \<Longrightarrow> p = r \<or> p \<in> set ids"
  by (induction ids arbitrary: r) (auto split: if_splits)

lemma chain_None [simp]: "chain r ids x = None \<longleftrightarrow> x \<notin> set ids"
  by (induction ids arbitrary: r) auto

lemma chain_out [simp]: "x \<notin> set ids \<Longrightarrow> chain r ids x = None"
  by simp

lemma chain_in: "distinct (A @ B) \<Longrightarrow> x \<in> set A \<Longrightarrow> chain r (A @ B) x = chain r A x"
  by (induction A arbitrary: r) auto

lemma chain_snoc: "x \<notin> set A \<Longrightarrow> chain r (A @ [x]) = (chain r A)(x \<mapsto> last (r # A))"
  by (induction A arbitrary: r) (auto simp: fun_upd_twist)

definition adopt :: "u32 \<Rightarrow> u32 \<Rightarrow> dependency_tree \<Rightarrow> dependency_tree" where
  "adopt sid p t = (\<lambda>x. if x = sid then Some p else if t x = Some p then Some sid else t x)"

lemma adopt_upd: "a \<noteq> sid \<Longrightarrow> r \<noteq> p \<Longrightarrow> adopt sid p (t(a \<mapsto> r)) = (adopt sid p t)(a \<mapsto> r)"
  by (auto simp: adopt_def)

lemma adopt_self: "adopt sid p (t(sid := y)) = adopt sid p t"
  by (auto simp: adopt_def)

lemma adopt_chain:
  "distinct (r # A @ B) \<Longrightarrow> sid \<notin> set (r # A @ B) \<Longrightarrow> adopt sid (last (r # A)) (chain r (A @ B)) = chain r (A @ sid # B)"
proof (induction A arbitrary: r)
  case Nil
  then show ?case by (cases B) (auto simp: adopt_def fun_eq_iff dest: chain_range)
next
  case (Cons a A)
  have n: "r \<noteq> last (a # A)" "a \<noteq> sid" using Cons.prems last_in_set[of "a # A"] by auto
  have "adopt sid (last (a # A)) (chain a (A @ B)) = chain a (A @ sid # B)" using Cons by simp
  then show ?case by (simp only: append_Cons chain_simps(2) last_ConsR[OF list.distinct(2)] adopt_upd[OF n(2,1)])
qed

lemma adopt_child:
  "distinct (r # A @ sid # c # B) \<Longrightarrow>
   adopt c (last (r # A)) (chain r (A @ sid # c # B)) = (chain r (A @ c # B))(sid \<mapsto> c)"
proof (induction A arbitrary: r)
  case Nil
  then show ?case by (auto simp: adopt_def fun_eq_iff dest: chain_range)
next
  case (Cons a A)
  have n: "r \<noteq> last (a # A)" "a \<noteq> c" "a \<noteq> sid" using Cons.prems last_in_set[of "a # A"] by auto
  have "adopt c (last (a # A)) (chain a (A @ sid # c # B)) = (chain a (A @ c # B))(sid \<mapsto> c)"
    by (rule Cons.IH) (use Cons.prems in simp)
  then show ?case
    by (simp only: append_Cons chain_simps(2) last_ConsR[OF list.distinct(2)] adopt_upd[OF n(2,1)] fun_upd_twist[OF n(3)])
qed

lemma close_chain: "distinct (r # A @ sid # B) \<Longrightarrow> close_stream sid (chain r (A @ sid # B)) = chain r (A @ B)"
proof (induction A arbitrary: r)
  case Nil
  then show ?case by (cases B) (auto simp: close_stream_def fun_eq_iff dest: chain_range)
next
  case (Cons a A)
  then have u: "close_stream sid (t(a \<mapsto> r)) = (close_stream sid t)(a \<mapsto> r)" for t
    by (auto simp: close_stream_def)
  have "close_stream sid (chain a (A @ sid # B)) = chain a (A @ B)" using Cons by simp
  then show ?case by (simp only: append_Cons chain_simps(2) u)
qed

lemma no_dependents: "(\<And>x. t x \<noteq> Some s) \<Longrightarrow> \<not> depends t y s"
proof
  assume n: "\<And>x. t x \<noteq> Some s" and "depends t y s"
  from this(2) show False using n by (induction) auto
qed

lemma depends_closed: "depends t x q \<Longrightarrow> x \<in> X \<Longrightarrow> (\<And>x p. x \<in> X \<Longrightarrow> t x = Some p \<Longrightarrow> p \<in> X) \<Longrightarrow> q \<in> X"
  by (induction rule: depends.induct) auto

lemma set_dependency_adopt: "\<not> depends t p sid \<Longrightarrow> set_dependency sid p True t = adopt sid p t"
  by (simp add: set_dependency_def adopt_def fun_eq_iff)

lemma insert_chain:
  assumes "distinct (0 # A @ B)" "sid \<notin> set (0 # A @ B)"
  shows "set_dependency sid (last (0 # A)) True (chain 0 (A @ B)) = chain 0 (A @ sid # B)"
proof -
  have "\<not> depends (chain 0 (A @ B)) (last (0 # A)) sid"
    using assms(2) chain_range[of 0 "A @ B"] by (intro no_dependents) auto
  from set_dependency_adopt[OF this] adopt_chain[OF assms] show ?thesis by simp
qed

lemma move_child:
  assumes "distinct (0 # A @ sid # c # B)"
  shows "set_dependency c (last (0 # A)) True (chain 0 (A @ sid # c # B)) = (chain 0 (A @ c # B))(sid \<mapsto> c)"
proof -
  let ?t = "chain 0 (A @ sid # c # B)"
  have "p \<in> set (0 # A)" if "x \<in> set (0 # A)" "?t x = Some p" for x p
  proof (cases "x = 0")
    case True
    have "?t 0 = None" using assms by (subst chain_None) simp
    with True that(2) show ?thesis by simp
  next
    case False
    with that assms chain_in[of A "sid # c # B" x 0] chain_range[of 0 A x p] show ?thesis by auto
  qed
  then have "depends ?t (last (0 # A)) c \<Longrightarrow> c \<in> set (0 # A)"
    using depends_closed[of ?t "last (0 # A)" c "set (0 # A)"] last_in_set[of "0 # A"] by blast
  then have "\<not> depends ?t (last (0 # A)) c" using assms by auto
  from set_dependency_adopt[OF this] adopt_child[OF assms] show ?thesis by simp
qed

text \<open>A stream with or without a dependent moves to another place.\<close>

lemma move_chain:
  assumes d: "distinct (0 # A @ sid # B)" and s: "A' @ B' = A @ B"
  shows "set_dependency sid (last (0 # A')) True
      (case B of [] \<Rightarrow> chain 0 (A @ sid # B) | c # _ \<Rightarrow> set_dependency c (last (0 # A)) True (chain 0 (A @ sid # B))) =
    chain 0 (A' @ sid # B')"
proof -
  obtain y where y: "(case B of [] \<Rightarrow> chain 0 (A @ sid # B) | c # _ \<Rightarrow> set_dependency c (last (0 # A)) True (chain 0 (A @ sid # B))) =
      (chain 0 (A' @ B'))(sid \<mapsto> y)" (is "?t = _") "y \<noteq> sid"
  proof (cases B)
    case Nil
    with d have "?t = (chain 0 (A' @ B'))(sid \<mapsto> last (0 # A))" by (simp add: chain_snoc s)
    moreover have "last (0 # A) \<noteq> sid" using d last_in_set[of "0 # A"] by auto
    ultimately show ?thesis using that by blast
  next
    case (Cons c C)
    with move_child[of A sid c C] d have "?t = (chain 0 (A' @ B'))(sid \<mapsto> c)" by (simp add: s)
    with d Cons that[of c] show ?thesis by auto
  qed
  have "set (A' @ B') = set A \<union> set B" "distinct (A' @ B')" using d by (simp_all add: s)
  then have f: "distinct (0 # A' @ B')" "sid \<notin> set (0 # A' @ B')" using d by auto
  have "\<not> depends ?t (last (0 # A')) sid"
    unfolding y(1) using f(2) y(2) chain_range[of 0 "A' @ B'"] by (intro no_dependents) (auto split: if_splits)
  from set_dependency_adopt[OF this]
  have "set_dependency sid (last (0 # A')) True ?t = adopt sid (last (0 # A')) (chain 0 (A' @ B'))"
    unfolding y(1) by (simp only: adopt_self)
  with adopt_chain[OF f] show ?thesis by simp
qed

section \<open>The lists\<close>

definition streams :: "Http2PriorityDependencies \<Rightarrow> id_entry list" where
  "streams pd = concat (pd_id_priority_lists pd)"

definition last_opt :: "'a list \<Rightarrow> 'a option" where
  "last_opt xs = (if xs = [] then None else Some (last xs))"

definition hd_opt :: "'a list \<Rightarrow> 'a option" where
  "hd_opt xs = (if xs = [] then None else Some (hd xs))"

definition lists_ok :: "id_entry list list \<Rightarrow> bool" where
  "lists_ok ls \<longleftrightarrow> length ls = 8 \<and> (\<forall>i<8. \<forall>e\<in>set (ls ! i). snd e = i) \<and>
     distinct (map fst (concat ls)) \<and> 0 \<notin> fst ` set (concat ls)"

definition pd_ok :: "Http2PriorityDependencies \<Rightarrow> bool" where
  "pd_ok pd \<longleftrightarrow> lists_ok (pd_id_priority_lists pd) \<and>
     (\<forall>sid e. pd_entry_by_stream_id pd sid = Some e \<longleftrightarrow> e \<in> set (streams pd) \<and> fst e = sid)"

lemma iter_prev_None: "e \<notin> set (tl xs) \<Longrightarrow> iter_prev e xs = None"
  by (induction e xs rule: iter_prev.induct) auto

lemma iter_prev_split: "e \<notin> set P \<Longrightarrow> e \<notin> set Q \<Longrightarrow> iter_prev e (P @ e # Q) = last_opt P"
proof (induction P)
  case (Cons x P)
  then show ?case by (cases P) (auto simp: last_opt_def)
qed (simp add: iter_prev_None last_opt_def)

lemma iter_next_split: "e \<notin> set P \<Longrightarrow> iter_next e (P @ e # Q) = hd_opt Q"
proof (induction P)
  case Nil
  then show ?case by (cases Q) (auto simp: hd_opt_def)
next
  case (Cons x P)
  then show ?case by (cases P) auto
qed

lemma lower_bound_loop: "p < length ls \<Longrightarrow> PriorityLowerBound_loop ls p = last_opt (concat (take (Suc p) ls))"
  by (induction p) (simp_all add: take_Suc_conv_app_nth last_opt_def)

lemma child_loop: "length ls = 8 \<Longrightarrow> i \<le> 8 \<Longrightarrow> ChildOfStream_loop ls i = hd_opt (concat (drop i ls))"
proof (induction ls i rule: ChildOfStream_loop.induct)
  case (1 ls i)
  show ?case
  proof (cases "i \<le> 7")
    case True
    with 1 have "drop i ls = ls ! i # drop (Suc i) ls" by (simp add: Cons_nth_drop_Suc)
    with 1 True show ?thesis by (subst ChildOfStream_loop.simps) (simp add: kV3LowestPriority_def hd_opt_def)
  next
    case False
    with 1 show ?thesis by (subst ChildOfStream_loop.simps) (simp add: kV3LowestPriority_def hd_opt_def)
  qed
qed

lemma band_le:
  assumes "lists_ok ls" "p < 8" "e \<in> set (concat (take (Suc p) ls))"
  shows "snd e \<le> p"
proof -
  obtain i where i: "i < length (take (Suc p) ls)" "e \<in> set (take (Suc p) ls ! i)"
    using assms(3) by (metis UN_E in_set_conv_nth set_concat)
  with assms(1,2) have "snd e = i" by (simp add: lists_ok_def)
  with i(1) show ?thesis by simp
qed

lemma band_gt:
  assumes "lists_ok ls" "p < 8" "e \<in> set (concat (drop (Suc p) ls))"
  shows "p < snd e"
proof -
  obtain i where i: "i < length (drop (Suc p) ls)" "e \<in> set (drop (Suc p) ls ! i)"
    using assms(3) by (metis UN_E in_set_conv_nth set_concat)
  with assms(1,2) have "snd e = Suc p + i" by (simp add: lists_ok_def)
  then show ?thesis by simp
qed

lemma bands:
  assumes "lists_ok ls" "p < 8"
  shows "takeWhile (\<lambda>e. snd e \<le> p) (concat ls) = concat (take (Suc p) ls)"
    and "dropWhile (\<lambda>e. snd e \<le> p) (concat ls) = concat (drop (Suc p) ls)"
proof -
  let ?T = "concat (take (Suc p) ls)" and ?D = "concat (drop (Suc p) ls)"
  have s: "concat ls = ?T @ ?D" by (simp flip: concat_append)
  have T: "\<forall>e\<in>set ?T. snd e \<le> p" using band_le[OF assms] by blast
  have D: "?D \<noteq> [] \<Longrightarrow> \<not> snd (hd ?D) \<le> p" using band_gt[OF assms, of "hd ?D"] hd_in_set[of ?D] by linarith
  then have "takeWhile (\<lambda>e. snd e \<le> p) ?D = []" by (simp only: takeWhile_eq_Nil_iff) blast
  moreover from this have "dropWhile (\<lambda>e. snd e \<le> p) ?D = ?D" using takeWhile_dropWhile_id append_Nil by metis
  ultimately show "takeWhile (\<lambda>e. snd e \<le> p) (concat ls) = ?T" "dropWhile (\<lambda>e. snd e \<le> p) (concat ls) = ?D"
    using T unfolding s by (simp_all only: takeWhile_append2 dropWhile_append2 append_Nil2)
qed

lemma lower_bound: "pd_ok pd \<Longrightarrow> p < 8 \<Longrightarrow> PriorityLowerBound p pd = last_opt (takeWhile (\<lambda>e. snd e \<le> p) (streams pd))"
  by (simp add: PriorityLowerBound_def pd_ok_def lower_bound_loop bands streams_def) (simp add: lists_ok_def lower_bound_loop)

lemma streams_sorted: "lists_ok ls \<Longrightarrow> sorted (map snd (concat ls))"
proof -
  assume ok: "lists_ok ls"
  have "p \<le> 8 \<Longrightarrow> sorted (map snd (concat (take p ls)))" for p
  proof (induction p)
    case (Suc p)
    have "set (take p ls) \<subseteq> set (take (Suc p) ls)" by (simp add: set_take_subset_set_take)
    then have "e \<in> set (concat (take p ls)) \<Longrightarrow> snd e \<le> p" for e using band_le[OF ok, of p e] Suc.prems by auto
    moreover have "\<forall>e\<in>set (ls ! p). snd e = p" "length ls = 8" using ok Suc.prems by (simp_all add: lists_ok_def)
    moreover from this(1) have "sorted (map snd (ls ! p))" by (simp add: sorted_iff_nth_mono)
    ultimately show ?case using Suc by (simp add: take_Suc_conv_app_nth sorted_append)
  qed simp
  from this[of 8] ok show ?thesis by (simp add: lists_ok_def)
qed

text \<open>Where a stream stands in the lists.\<close>

lemma located:
  assumes ok: "pd_ok pd" and e: "e \<in> set (streams pd)"
  obtains A B where "streams pd = A @ e # B" "ParentOfStream (fst e) pd = Some (last_opt A)"
    "ChildOfStream (fst e) pd = Some (hd_opt B)" "streams (erase_entry e pd) = A @ B"
proof -
  let ?ls = "pd_id_priority_lists pd" and ?p = "snd e"
  have l: "lists_ok ?ls" "length ?ls = 8" using ok by (simp_all add: pd_ok_def lists_ok_def)
  have p: "e \<in> set (?ls ! ?p)" "?p < 8"
    using e l by (auto simp: streams_def lists_ok_def in_set_conv_nth[of _ ?ls])
  then obtain P Q where PQ: "?ls ! ?p = P @ e # Q" by (meson split_list)
  let ?A = "concat (take ?p ?ls) @ P" and ?B = "Q @ concat (drop (Suc ?p) ?ls)"
  have "?ls = take ?p ?ls @ ?ls ! ?p # drop (Suc ?p) ?ls" using p(2) l(2) by (simp add: id_take_nth_drop)
  then have s: "streams pd = ?A @ e # ?B" unfolding streams_def by (metis PQ append.assoc append_Cons concat.simps(2) concat_append)
  have "distinct (map fst (streams pd))" using l(1) by (simp add: lists_ok_def streams_def)
  then have d: "e \<notin> set P" "e \<notin> set Q" unfolding s by auto
  have m: "pd_entry_by_stream_id pd (fst e) = Some e" using ok e by (cases e) (simp add: pd_ok_def)
  have prev: "iter_prev e (?ls ! ?p) = last_opt P" and nxt: "iter_next e (?ls ! ?p) = hd_opt Q"
    unfolding PQ using iter_prev_split[OF d] iter_next_split[OF d(1)] by auto
  have "?p \<noteq> 0 \<Longrightarrow> PriorityLowerBound (?p - 1) pd = last_opt (concat (take ?p ?ls))"
    using lower_bound_loop[of "?p - 1" ?ls] p(2) l(2) by (simp add: PriorityLowerBound_def)
  then have "ParentOfStream (fst e) pd = Some (last_opt ?A)"
    unfolding ParentOfStream_def m kV3HighestPriority_def by (simp add: Let_def prev) (auto simp: last_opt_def)
  moreover have "ChildOfStream (fst e) pd = Some (hd_opt ?B)"
    using child_loop[of ?ls "?p + 1"] p(2) l(2)
    unfolding ChildOfStream_def m by (simp add: Let_def nxt) (auto simp: hd_opt_def)
  moreover have "streams (erase_entry e pd) = ?A @ ?B"
    using p(2) l(2) d(1) by (simp add: streams_def erase_entry_def Let_def PQ upd_conv_take_nth_drop remove1_append)
  ultimately show ?thesis using that s by blast
qed

lemma push_back_ok:
  assumes "lists_ok (pd_id_priority_lists pd)" "sid \<notin> fst ` set (streams pd)" "sid \<noteq> 0" "p < 8"
    and "\<And>s e. s \<noteq> sid \<Longrightarrow> pd_entry_by_stream_id pd s = Some e \<longleftrightarrow> e \<in> set (streams pd) \<and> fst e = s"
  shows "pd_ok (push_back sid p pd) \<and> streams (push_back sid p pd) = enter sid p (streams pd)"
proof -
  let ?ls = "pd_id_priority_lists pd"
  have l: "length ?ls = 8" using assms(1) by (simp add: lists_ok_def)
  have "take (Suc p) ?ls = take p ?ls @ [?ls ! p]" using l assms(4) by (simp add: take_Suc_conv_app_nth)
  then have s: "streams (push_back sid p pd) = enter sid p (streams pd)"
    using bands[OF assms(1,4)] l assms(4) by (simp add: streams_def push_back_def Let_def enter_def upd_conv_take_nth_drop)
  let ?T = "takeWhile (\<lambda>e. snd e \<le> p) (streams pd)" and ?D = "dropWhile (\<lambda>e. snd e \<le> p) (streams pd)"
  have TD: "streams pd = ?T @ ?D" by simp
  have S: "set (enter sid p (streams pd)) = insert (sid, p) (set (streams pd))"
    using arg_cong[OF TD, of set] by (simp only: enter_def set_append list.set Un_insert_right)
  have "distinct (map fst (?T @ ?D))" "sid \<notin> fst ` set (?T @ ?D)"
    using assms(1,2) unfolding TD[symmetric] by (simp_all add: lists_ok_def streams_def)
  then have d: "distinct (map fst (enter sid p (streams pd)))"
    by (auto simp: enter_def simp del: takeWhile_dropWhile_id)
  have z: "0 \<notin> fst ` set (enter sid p (streams pd))" unfolding S using assms(1,3) by (auto simp: lists_ok_def streams_def)
  have "\<forall>i<8. \<forall>e\<in>set (pd_id_priority_lists (push_back sid p pd) ! i). snd e = i"
    using assms(1,4) by (auto simp: lists_ok_def push_back_def Let_def nth_list_update)
  then have "lists_ok (pd_id_priority_lists (push_back sid p pd))"
    using d z l unfolding s[symmetric] by (simp add: lists_ok_def streams_def) (simp add: push_back_def Let_def)
  moreover have "pd_entry_by_stream_id (push_back sid p pd) s = Some e \<longleftrightarrow> e \<in> set (streams (push_back sid p pd)) \<and> fst e = s" for s e
    using assms(2) assms(5)[of s e] unfolding s S by (cases e) (auto simp: push_back_def Let_def image_iff)
  ultimately show ?thesis using s by (simp add: pd_ok_def)
qed

lemma erase_ok:
  assumes "pd_ok pd" "streams pd = A @ e # B" "streams (erase_entry e pd) = A @ B"
  shows "lists_ok (pd_id_priority_lists (erase_entry e pd))"
proof -
  have l: "lists_ok (pd_id_priority_lists pd)" using assms(1) by (simp add: pd_ok_def)
  have "distinct (map fst (A @ B))" "0 \<notin> fst ` set (A @ B)"
    using l unfolding lists_ok_def streams_def[symmetric] assms(2) by auto
  moreover have "snd x = i" if "i < 8" "x \<in> set (pd_id_priority_lists (erase_entry e pd) ! i)" for i x
  proof -
    have "x \<in> set (pd_id_priority_lists pd ! i)"
      using that l set_remove1_subset[of e "pd_id_priority_lists pd ! snd e"]
      by (cases "i = snd e") (auto simp: lists_ok_def erase_entry_def Let_def)
    with that(1) l show ?thesis by (simp add: lists_ok_def)
  qed
  moreover have "concat (pd_id_priority_lists (erase_entry e pd)) = A @ B" using assms(3) by (simp only: streams_def)
  moreover have "length (pd_id_priority_lists (erase_entry e pd)) = 8"
    using l by (simp add: erase_entry_def Let_def lists_ok_def)
  ultimately show ?thesis unfolding lists_ok_def by (metis (no_types))
qed

lemma parent_id_last: "parent_id (last_opt xs) = last (0 # map fst xs)"
  by (simp add: parent_id_def last_opt_def last_map)

lemma other_id: "i \<notin> fst ` set A \<Longrightarrow> x \<in> set A \<Longrightarrow> fst x \<noteq> i"
  by blast

lemma new_place:
  assumes "sorted (map snd (A @ e # B))" "distinct (map fst (A @ e # B))" "q \<noteq> snd e"
  shows "(case last_opt (takeWhile (\<lambda>x. snd x \<le> q) (A @ e # B)) of
      None \<Rightarrow> None | Some x \<Rightarrow> if fst x = fst e then last_opt A else Some x) = last_opt (takeWhile (\<lambda>x. snd x \<le> q) (A @ B))"
    (is "(case last_opt ?L of None \<Rightarrow> None | Some x \<Rightarrow> ?f x) = last_opt ?L'")
proof (cases "q < snd e")
  case True
  have "B = [] \<or> \<not> snd (hd B) \<le> q" using assms(1) True by (cases B) (auto simp: sorted_append)
  then have "takeWhile (\<lambda>x. snd x \<le> q) B = []" by (simp add: takeWhile_eq_Nil_iff)
  then have "?L = takeWhile (\<lambda>x. snd x \<le> q) A" "?L' = takeWhile (\<lambda>x. snd x \<le> q) A"
    using True by (auto simp: takeWhile_append takeWhile_eq_all_conv[THEN iffD2])
  moreover have "fst x \<noteq> fst e" if "x \<in> set (takeWhile (\<lambda>x. snd x \<le> q) A)" for x
    using other_id[OF _ set_takeWhileD[OF that, THEN conjunct1]] assms(2) by simp
  ultimately show ?thesis by (auto simp: last_opt_def)
next
  case False
  then have A: "\<forall>x\<in>set A. snd x \<le> q" and e: "snd e \<le> q" using assms(1,3) by (auto simp: sorted_append)
  let ?B = "takeWhile (\<lambda>x. snd x \<le> q) B"
  have L: "?L = A @ e # ?B" "?L' = A @ ?B" using A e by (simp_all add: takeWhile_append2)
  have "fst x \<noteq> fst e" if "x \<in> set ?B" for x
    using other_id[OF _ set_takeWhileD[OF that, THEN conjunct1]] assms(2) by simp
  then show ?thesis unfolding L by (cases "?B = []") (auto simp: last_opt_def)
qed

lemma no_tail: "distinct (C @ us) \<Longrightarrow> last_opt (C @ us) = last_opt C \<Longrightarrow> us = []"
proof (rule ccontr)
  assume d: "distinct (C @ us)" and l: "last_opt (C @ us) = last_opt C" and u: "us \<noteq> []"
  then have "C \<noteq> []" "last us = last C" by (auto simp: last_opt_def split: if_splits)
  with u have "last C \<in> set C \<inter> set us" by (metis IntI last_in_set)
  with d show False by simp
qed

lemma same_place:
  assumes "distinct (A @ B)" "A @ B = A' @ B'" "last_opt A = last_opt A'"
  shows "A = A'"
proof -
  have d: "distinct A" "distinct A'" using assms(1) by (simp, simp add: assms(2))
  obtain us where "A = A' @ us \<or> A' = A @ us" using assms(2) by (auto simp: append_eq_append_conv2)
  then show ?thesis
  proof
    assume A: "A = A' @ us"
    then have "us = []" using no_tail[of A' us] d(1) assms(3) by simp
    with A show ?thesis by simp
  next
    assume A: "A' = A @ us"
    then have "us = []" using no_tail[of A us] d(2) assms(3) by simp
    with A show ?thesis by simp
  qed
qed

lemma changed_iff:
  assumes "inj_on fst X" "set A \<subseteq> X" "set A' \<subseteq> X"
  shows "(case (last_opt A, last_opt A') of (None, None) \<Rightarrow> False | (Some x, Some y) \<Rightarrow> fst x \<noteq> fst y | _ \<Rightarrow> True) \<longleftrightarrow>
    last_opt A \<noteq> last_opt A'"
proof -
  have "A \<noteq> [] \<Longrightarrow> last A \<in> X" "A' \<noteq> [] \<Longrightarrow> last A' \<in> X" using assms(2,3) by auto
  then show ?thesis using inj_onD[OF assms(1), of "last A" "last A'"] by (auto simp: last_opt_def)
qed

section \<open>The steps\<close>

definition in_order :: "Http2PriorityDependencies \<times> dependency_tree \<Rightarrow> id_entry list \<Rightarrow> bool" where
  "in_order s S \<longleftrightarrow> pd_ok (fst s) \<and> streams (fst s) = S \<and> snd s = chain 0 (map fst S)"

lemma ids_ok: "pd_ok pd \<Longrightarrow> distinct (0 # map fst (streams pd))"
  by (simp add: pd_ok_def lists_ok_def streams_def)

lemma lists_of_ok: "pd_ok pd \<Longrightarrow> lists_ok (pd_id_priority_lists pd)"
  by (simp add: pd_ok_def)

lemma entry_of: "pd_ok pd \<Longrightarrow> pd_entry_by_stream_id pd s = Some e \<longleftrightarrow> e \<in> set (streams pd) \<and> fst e = s"
  unfolding pd_ok_def by blast

lemma filter_others: "sid \<notin> fst ` set S \<Longrightarrow> filter (\<lambda>e. fst e \<noteq> sid) S = S"
  by (induction S) auto

lemma create_in_order:
  assumes "in_order (pd, t) S" "op_ok S (Create_Stream sid p)"
  shows "\<exists>s. priority_step (Create_Stream sid p) (pd, t) = Some s \<and> in_order s (enter sid p S)"
proof -
  let ?T = "takeWhile (\<lambda>e. snd e \<le> p) S" and ?D = "dropWhile (\<lambda>e. snd e \<le> p) S"
  have ok: "pd_ok pd" "streams pd = S" "t = chain 0 (map fst S)" and n: "sid \<noteq> 0" "sid \<notin> fst ` set S" "p < 8"
    using assms by (simp_all add: in_order_def kV3LowestPriority_def)
  have S: "map fst S = map fst ?T @ map fst ?D" by (simp flip: map_append)
  have d: "distinct (0 # map fst ?T @ map fst ?D)" "sid \<notin> set (0 # map fst ?T @ map fst ?D)"
    using ids_ok[OF ok(1)] n unfolding ok(2) S[symmetric] by simp_all
  have "set_dependency sid (parent_id (last_opt ?T)) True t = chain 0 (map fst (enter sid p S))"
    unfolding parent_id_last ok(3) S insert_chain[OF d] by (simp add: enter_def)
  moreover have "pd_ok (push_back sid p pd) \<and> streams (push_back sid p pd) = enter sid p S"
    using push_back_ok[OF lists_of_ok[OF ok(1)] _ n(1,3) entry_of[OF ok(1)]] n(2) by (simp add: ok(2))
  ultimately show ?thesis
    using lower_bound[OF ok(1) n(3)] by (simp add: OnStreamCreation_def in_order_def ok(2) parent_id_def)
qed

lemma close_in_order:
  assumes "in_order (pd, t) S" "op_ok S (Close_Stream sid)"
  shows "\<exists>s. priority_step (Close_Stream sid) (pd, t) = Some s \<and> in_order s (filter (\<lambda>e. fst e \<noteq> sid) S)"
proof -
  have ok: "pd_ok pd" "streams pd = S" "t = chain 0 (map fst S)" using assms(1) by (simp_all add: in_order_def)
  obtain e where e: "e \<in> set (streams pd)" "fst e = sid" using assms(2) ok(2) by auto
  obtain A B where AB: "streams pd = A @ e # B" "streams (erase_entry e pd) = A @ B" using located[OF ok(1) e(1)] by metis
  have d: "distinct (0 # map fst A @ sid # map fst B)" using ids_ok[OF ok(1)] by (simp add: AB e(2))
  then have F: "filter (\<lambda>e. fst e \<noteq> sid) S = A @ B" unfolding ok(2)[symmetric] AB(1) using e(2) by (simp add: filter_others)
  have m: "pd_entry_by_stream_id pd sid = Some e" using entry_of[OF ok(1)] e by simp
  let ?pd = "(erase_entry e pd)\<lparr>pd_entry_by_stream_id := (pd_entry_by_stream_id pd)(sid := None)\<rparr>"
  have st: "streams ?pd = A @ B" using AB(2) by (simp add: streams_def)
  have "pd_entry_by_stream_id ?pd s = Some x \<longleftrightarrow> x \<in> set (A @ B) \<and> fst x = s" for s x
  proof -
    have "x \<in> set (A @ B) \<Longrightarrow> fst x \<noteq> sid" using d other_id[of sid "A @ B" x] by (simp add: image_Un)
    then show ?thesis using entry_of[OF ok(1), of s x] e(2) by (auto simp: AB(1))
  qed
  then have "pd_ok ?pd" using erase_ok[OF ok(1) AB] st by (simp add: pd_ok_def)
  moreover have "t = chain 0 (map fst A @ sid # map fst B)"
    unfolding ok(3) ok(2)[symmetric] AB(1) by (simp only: map_append list.map e(2))
  then have "close_stream sid t = chain 0 (map fst (A @ B))" by (simp only: close_chain[OF d] map_append)
  ultimately show ?thesis using st by (simp add: OnStreamDestruction_def m in_order_def F)
qed

lemma fold_updates:
  "fold apply_update
     ((case hd_opt B of Some c \<Rightarrow> [\<lparr>du_id = fst c, du_dependent_stream_id = p, du_exclusive = True\<rparr>] | None \<Rightarrow> []) @
      [\<lparr>du_id = sid, du_dependent_stream_id = p', du_exclusive = True\<rparr>]) t =
   set_dependency sid p' True (case map fst B of [] \<Rightarrow> t | c # _ \<Rightarrow> set_dependency c p True t)"
  by (cases B) (simp_all add: hd_opt_def apply_update_def)

text \<open>The updates for a stream that moves to the place behind \<open>A'\<close>.\<close>

definition move_updates :: "u32 \<Rightarrow> id_entry list \<Rightarrow> id_entry list \<Rightarrow> id_entry list \<Rightarrow> DependencyUpdate list" where
  "move_updates sid A B A' =
     (if last_opt A \<noteq> last_opt A' then
        (case hd_opt B of Some c \<Rightarrow> [\<lparr>du_id = fst c, du_dependent_stream_id = parent_id (last_opt A), du_exclusive = True\<rparr>] | None \<Rightarrow> []) @
        [\<lparr>du_id = sid, du_dependent_stream_id = parent_id (last_opt A'), du_exclusive = True\<rparr>]
      else [])"

lemma move_updates_tree:
  assumes d: "distinct (0 # map fst A @ sid # map fst B)" and s: "A' @ B' = A @ B"
  shows "fold apply_update (move_updates sid A B A') (chain 0 (map fst A @ sid # map fst B)) = chain 0 (map fst A' @ sid # map fst B')"
proof (cases "last_opt A = last_opt A'")
  case True
  have "distinct (A @ B)" using d by (auto simp: distinct_map)
  from same_place[OF this s[symmetric] True] have A: "A = A'" .
  with s have "B = B'" by simp
  with A show ?thesis by (simp add: move_updates_def)
next
  case False
  have "map fst A' @ map fst B' = map fst A @ map fst B" by (simp only: s flip: map_append)
  from move_chain[OF d this] show ?thesis unfolding move_updates_def if_P[OF False] fold_updates parent_id_last .
qed

lemma update_result:
  assumes ok: "pd_ok pd" and q: "q < 8" "q \<noteq> snd e" and S: "streams pd = A @ e # B"
    and "ParentOfStream (fst e) pd = Some (last_opt A)" "ChildOfStream (fst e) pd = Some (hd_opt B)"
  shows "OnStreamUpdate (fst e) q pd =
    Some (move_updates (fst e) A B (takeWhile (\<lambda>x. snd x \<le> q) (A @ B)), push_back (fst e) q (erase_entry e pd))"
proof -
  let ?A' = "takeWhile (\<lambda>x. snd x \<le> q) (A @ B)"
  have m: "pd_entry_by_stream_id pd (fst e) = Some e" using entry_of[OF ok] S by simp
  have srt: "sorted (map snd (A @ e # B))" using streams_sorted[OF lists_of_ok[OF ok]] S by (simp add: streams_def)
  have dst: "distinct (map fst (A @ e # B))" using ids_ok[OF ok] S by simp
  have np: "(case PriorityLowerBound q pd of None \<Rightarrow> None | Some x \<Rightarrow> if fst x = fst e then last_opt A else Some x) = last_opt ?A'"
    unfolding lower_bound[OF ok q(1)] S by (rule new_place[OF srt dst q(2)])
  have "inj_on fst (set (A @ B))" "set A \<subseteq> set (A @ B)" "set ?A' \<subseteq> set (A @ B)"
    using dst by (auto simp: distinct_map inj_on_def dest: set_takeWhileD)
  note ch = changed_iff[OF this]
  show ?thesis
    unfolding OnStreamUpdate_def m option.case assms(5,6) Let_def np ch move_updates_def using q(2) by simp
qed

lemma moved_ok:
  assumes ok: "pd_ok pd" and S: "streams pd = A @ e # B" "streams (erase_entry e pd) = A @ B" and q: "q < 8"
  shows "pd_ok (push_back (fst e) q (erase_entry e pd)) \<and> streams (push_back (fst e) q (erase_entry e pd)) = enter (fst e) q (A @ B)"
  unfolding S(2)[symmetric]
proof (rule push_back_ok[OF erase_ok[OF ok S] _ _ q])
  show "fst e \<notin> fst ` set (streams (erase_entry e pd))" "fst e \<noteq> 0"
    using ids_ok[OF ok] unfolding S by (auto simp: image_Un)
  fix s x
  assume "s \<noteq> fst e"
  then show "pd_entry_by_stream_id (erase_entry e pd) s = Some x \<longleftrightarrow> x \<in> set (streams (erase_entry e pd)) \<and> fst x = s"
    using entry_of[OF ok, of s x] unfolding S by (auto simp: erase_entry_def Let_def)
qed

lemma update_in_order:
  assumes "in_order (pd, t) S" "op_ok S (Update_Stream sid q)"
  shows "\<exists>s. priority_step (Update_Stream sid q) (pd, t) = Some s \<and> in_order s (order_step (Update_Stream sid q) S)"
proof -
  have ok: "pd_ok pd" "streams pd = S" "t = chain 0 (map fst S)" and q: "q < 8"
    using assms by (simp_all add: in_order_def kV3LowestPriority_def)
  obtain e where e: "e \<in> set (streams pd)" "fst e = sid" using assms(2) ok(2) by auto
  have m: "pd_entry_by_stream_id pd sid = Some e" using entry_of[OF ok(1)] e by simp
  show ?thesis
  proof (cases "snd e = q")
    case True
    then have "e = (sid, q)" using e(2) by (simp add: prod_eq_iff)
    then have "(sid, q) \<in> set S" using e(1) ok(2) by simp
    with True assms(1) m show ?thesis by (simp add: OnStreamUpdate_def)
  next
    case False
    then have q': "q \<noteq> snd e" by simp
    obtain A B where AB: "streams pd = A @ e # B" "ParentOfStream (fst e) pd = Some (last_opt A)"
      "ChildOfStream (fst e) pd = Some (hd_opt B)" "streams (erase_entry e pd) = A @ B"
      using located[OF ok(1) e(1)] by metis
    have d: "distinct (0 # map fst A @ sid # map fst B)" using ids_ok[OF ok(1)] by (simp add: AB(1) e(2))
    have "(sid, q) \<notin> set S" using False entry_of[OF ok(1), of sid "(sid, q)"] m ok(2) by auto
    then have S': "order_step (Update_Stream sid q) S = enter sid q (A @ B)"
      using d e(2) unfolding ok(2)[symmetric] AB(1) by (simp add: filter_others)
    have t: "t = chain 0 (map fst A @ sid # map fst B)"
      unfolding ok(3) ok(2)[symmetric] AB(1) by (simp only: map_append list.map e(2))
    note move_updates_tree[OF d takeWhile_dropWhile_id, of "\<lambda>x. snd x \<le> q", folded t]
    with update_result[OF ok(1) q q' AB(1-3)] moved_ok[OF ok(1) AB(1,4) q] show ?thesis
      unfolding S' by (simp add: e(2) in_order_def enter_def)
  qed
qed

lemma step_in_order:
  assumes "in_order s S" "op_ok S op"
  shows "\<exists>s'. priority_step op s = Some s' \<and> in_order s' (order_step op S)"
proof -
  obtain pd t where s: "s = (pd, t)" by (cases s)
  show ?thesis
    using create_in_order[of pd t S] update_in_order[of pd t S] close_in_order[of pd t S] assms
    by (cases op) (simp_all add: s del: priority_step.simps op_ok.simps)
qed

lemma run_in_order:
  "in_order s S \<Longrightarrow> ops_ok ops S \<Longrightarrow> \<exists>s'. priority_run ops s = Some s' \<and> in_order s' (fold order_step ops S)"
proof (induction ops arbitrary: s S)
  case (Cons op ops)
  have "op_ok S op" using Cons.prems(2) by simp
  from step_in_order[OF Cons.prems(1) this] obtain s' where
    s': "priority_step op s = Some s'" "in_order s' (order_step op S)" by blast
  from Cons.IH[OF s'(2)] Cons.prems(2) s'(1) show ?case by simp
qed simp

lemma init_in_order: "in_order (Http2PriorityDependencies_init, Map.empty) []"
proof -
  have "i < 8 \<Longrightarrow> replicate 8 [] ! i = ([] :: id_entry list)" for i by (rule nth_replicate)
  then show ?thesis
    by (simp add: in_order_def pd_ok_def lists_ok_def streams_def Http2PriorityDependencies_init_def kV3LowestPriority_def)
qed

text \<open>
  C23: Whatever streams are created, given another priority and closed, the dependencies that the session sends
  make the tree of the peer one chain: each stream depends on the one before it in the order of the
  priorities, and streams of one priority are in the order in which they got it.
\<close>

theorem dependencies_in_order:
  assumes "ops_ok ops []"
  shows "\<exists>pd t. priority_run ops (Http2PriorityDependencies_init, Map.empty) = Some (pd, t) \<and>
    streams pd = fold order_step ops [] \<and> sorted (map snd (streams pd)) \<and> t = chain 0 (map fst (streams pd))"
proof -
  obtain s where s: "priority_run ops (Http2PriorityDependencies_init, Map.empty) = Some s" "in_order s (fold order_step ops [])"
    using run_in_order[OF init_in_order assms] by blast
  have "sorted (map snd (streams (fst s)))"
    using s(2) unfolding in_order_def streams_def by (blast intro: streams_sorted lists_of_ok)
  with s show ?thesis by (cases s) (simp add: in_order_def)
qed

text \<open>Three streams, of which one gets the highest priority and another is closed.\<close>

theorem dependencies_in_order_witness:
  "\<exists>pd t. priority_run [Create_Stream 1 3, Create_Stream 3 1, Create_Stream 5 3, Update_Stream 1 0, Close_Stream 3]
      (Http2PriorityDependencies_init, Map.empty) = Some (pd, t) \<and>
    streams pd = [(1, 0), (5, 3)] \<and> t = chain 0 [1, 5]"
  using dependencies_in_order[of "[Create_Stream 1 3, Create_Stream 3 1, Create_Stream 5 3, Update_Stream 1 0, Close_Stream 3]"]
  by (auto simp: enter_def kV3LowestPriority_def simp del: priority_run.simps)

end
