(* ===== verification/Spec2Isabelle.thy ===== *)
theory Spec2Isabelle
  imports Frame_Errors Hpack_Decoder3 Priority_Dependencies
begin

text \<open>
  A verification development for the network stack under \<^verbatim>\<open>src/\<close>. It covers the HTTP/2 wire layer: the
  decoder of frames and the decoder of HPACK header blocks under \<^verbatim>\<open>http2/\<close>, and from \<^verbatim>\<open>spdy/\<close> the HPACK
  encoder, the HPACK decoder of the framer, the header block and the dependencies of stream priorities.

  \<^bold>\<open>How the parts work together.\<close> The transport hands \<open>Http2FrameDecoder\<close> a stream of bytes in
  segments that end anywhere. It collects a frame header with \<open>Http2StructureDecoder\<close>, asks the listener
  whether it wants the payload, and passes the payload to one of twelve payload decoders, which call the
  listener with what they find. The listener hands the fragments of header blocks to
  \<open>Http2HpackDecoder\<close>. There \<open>HpackBlockDecoder\<close> reads entries with \<open>HpackEntryDecoder\<close>, that reads integers
  and strings with \<open>HpackVarintDecoder\<close> and \<open>HpackStringDecoder\<close>, \<open>HpackWholeEntryBuffer\<close> collects the
  strings, if necessary through the Huffman decoder, and \<open>HpackDecoderState\<close> looks up and updates
  \<open>HpackDecoderTables\<close> and reports whole headers. \<open>HpackDecoder3\<close> turns these reports into calls of a
  headers handler or into a \<open>SpdyHeaderBlock\<close>. On the other side \<open>HpackEncoder\<close> splits a header block into header
  fields and writes them with \<open>HpackOutputStream\<close>, \<open>HpackHuffmanTable\<close> and \<open>HpackHeaderTable\<close>.

  \<^bold>\<open>Conventions.\<close> A class is a record with a prefix of its own for the fields, a method a function that
  takes the object last and returns it; results come first. \<open>uint8_t\<close>, \<open>uint16_t\<close>, \<open>uint32_t\<close> and \<open>uint64_t\<close> are
  words, \<open>size_t\<close> is a natural number, with the limit or the wrap-around written out where it matters. A release build is modelled: \<open>DCHECK\<close>, \<open>DVLOG\<close> and
  \<open>HTTP2_BUG\<close> do nothing, a failed \<open>CHECK\<close> is the value \<open>None\<close>. Definitions have the names of the source, with a
  prefix where methods of several classes share one. A listener is the log of the calls it receives; what it
  answers is a parameter (\<open>frame_acceptor\<close>). Pointers into transport buffers are kept apart from
  buffered strings (\<open>Hpack_String_Buffer\<close>), so that it can be stated that none is left behind.

  \<^bold>\<open>Shared theories.\<close>
  \<^item> \<open>Net_Prelude\<close>: machine types, bit strings, named collections, generic lemmas.
  \<^item> \<open>Decode_Buffer\<close>: \<^verbatim>\<open>http2/decoder/decode_buffer.h\<close> and \<^verbatim>\<open>decode_status.h\<close>; the function \<open>rest\<close> gives the unread
    bytes, on which all later lemmas are stated.
  \<^item> \<open>Resumable\<close>: the contract of resumable decoders as locales. A decoder that meets it gives the same result
    for every way to cut its input.
  \<^item> \<open>Http2_Structures\<close>: \<^verbatim>\<open>http2_constants.h\<close>, \<^verbatim>\<open>http2_structures.h\<close>, \<^verbatim>\<open>decode_http2_structures.cc\<close> and the
    \<open>Append\<close> methods of \<^verbatim>\<open>http2/tools/http2_frame_builder.cc\<close>; the locale \<open>wire_struct\<close> states their round trip.
  \<^item> \<open>Structure_Decoder\<close>: \<^verbatim>\<open>http2/decoder/http2_structure_decoder.{h,cc}\<close>.

  \<^bold>\<open>Frames\<close> (\<^verbatim>\<open>http2/decoder/\<close>).
  \<^item> \<open>Frame_Decoder_State\<close>: \<^verbatim>\<open>frame_decoder_state.{h,cc}\<close> and the listener interface.
  \<^item> \<open>Payload_Contract\<close>: the locale \<open>payload_decoder\<close>. What a payload decoder does is given by a grammar, a
    function from the header and the payload to the calls and the status; starting and resuming on any
    segments yields its calls.
  \<^item> \<open>Payload_Padded\<close>, \<open>Payload_Headers\<close>, \<open>Payload_Single_Struct\<close>, \<open>Payload_Unpadded\<close>, \<open>Payload_Settings\<close>: the twelve
    decoders of \<^verbatim>\<open>payload_decoders/\<close>, each with its grammar and an interpretation of the contract.
  \<^item> \<open>Http2_Frame_Decoder\<close>: \<^verbatim>\<open>http2_frame_decoder.{h,cc}\<close>. The union of payload decoders in the source is a record of
    twelve; no lemma assumes anything about the decoder that a frame starts with.
  \<^item> \<open>Frame_Stream\<close>: the caller's loop over segments (\<open>DecodeSegments\<close>) and the reference \<open>stream_calls\<close>, which splits
    the whole stream into frames and applies the grammars.
  \<^item> \<open>Frame_Properties\<close>, \<open>Frame_Roundtrip\<close>, \<open>Frame_Errors\<close>: independence of the segmentation, frame boundaries,
    well-formedness and progress; frames of every type decode to what was built; what is
    reported of frames with a wrong size or wrong padding, and that the next frame is not affected.

  \<^bold>\<open>HPACK decoder\<close> (\<^verbatim>\<open>http2/hpack/\<close>).
  \<^item> \<open>Hpack_Varint\<close>, \<open>Hpack_String_Decoder\<close>, \<open>Hpack_Entry_Decoder\<close>: the files of these names under
    \<^verbatim>\<open>decoder/\<close>, with the block decoder; \<open>Hpack_Entry_Spec\<close> and \<open>Hpack_Entry_Invariant\<close> hold their contracts
    with a listener (\<open>string_client\<close>, \<open>entry_client\<close>, \<open>additive_entry_listener\<close>, \<open>entry_invariant\<close>).
  \<^item> \<open>Hpack_Huffman_Tables\<close>, \<open>Hpack_Huffman\<close>, \<open>Hpack_Huffman_Spec\<close>, \<open>Hpack_Huffman_Code\<close>: \<^verbatim>\<open>huffman/\<close>. The tables are
    shown to be one prefix code, and both decoding loops to decode it.
  \<^item> \<open>Hpack_String_Buffer\<close>, \<open>Hpack_Whole_Entry_Buffer\<close>, \<open>Hpack_Decoder_Tables\<close>, \<open>Hpack_Decoder_State\<close>,
    \<open>Http2_Hpack_Decoder\<close>: the classes of these names. The space reserved for a string is enough; the dynamic
    table refines the table of RFC 7541 (\<open>bounded_table\<close>).
  \<^item> \<open>Hpack_Decoder_Runs\<close>: whole connections of the decoder; fragmentation, dangling pointers, table limits,
    error reports.

  \<^bold>\<open>HPACK encoder and header block\<close> (\<^verbatim>\<open>spdy/\<close>).
  \<^item> \<open>Hpack_Output_Stream\<close>, \<open>Hpack_Huffman_Encoder\<close>, \<open>Hpack_Huffman_Canonical\<close>, \<open>Hpack_Huffman_Roundtrip\<close>:
    \<^verbatim>\<open>hpack_output_stream.cc\<close>, and \<^verbatim>\<open>hpack_huffman_table.cc\<close>. Every table that passes the checks of its
    \<open>Initialize\<close> is shown to be a prefix code, and the table of HPACK to pass them.
  \<^item> \<open>Hpack_Header_Table\<close>: \<^verbatim>\<open>hpack_header_table.{h,cc}\<close>, the second model of \<open>bounded_table\<close>; it stays in step with
    the table of the decoder.
  \<^item> \<open>Hpack_Encoder\<close>, \<open>Hpack_Encoder_Bytes\<close>, \<open>Hpack_Encoder_Runs\<close>: \<^verbatim>\<open>hpack_encoder.{h,cc}\<close>, what it writes, and the
    progressive encoder.
  \<^item> \<open>Hpack_Roundtrip\<close>: encoder and decoder over a connection.
  \<^item> \<open>Spdy_Header_Block\<close>, \<open>Hpack_Decoder3\<close>: \<^verbatim>\<open>spdy_header_block.{h,cc}\<close> and \<^verbatim>\<open>hpack/hpack_decoder3.{h,cc}\<close>; a header block
    is encoded and decoded, and what comes out is described by reference functions; without compression the
    two ways to encode differ on values with NULs.

  \<^bold>\<open>Stream priorities\<close> (\<^verbatim>\<open>spdy/\<close>).
  \<^item> \<open>Priority_Dependencies\<close>: \<^verbatim>\<open>http2_priority_dependencies.{h,cc}\<close>, which computes the dependencies that a session sends
    in HEADERS and PRIORITY frames. The eight lists are shown to refine one list in the order of the priorities,
    and the dependency tree that a peer keeps by RFC 7540 to be a chain in that order.

  This theory puts the two halves together: header lists that are encoded, cut into HEADERS and CONTINUATION
  frames, and sent in arbitrary segments.

  \<^bold>\<open>Loops and bounds.\<close> There is no fuel. Loops whose end is not structural are functions with a termination
  measure, or partial functions (\<open>EnsureSize_loop\<close>, \<open>DecodeFrames\<close>) with a proof that they
  return on every state that can be reached. Assumptions on sizes come from the code: payload lengths have 24 bits; an HPACK
  integer is decoded up to \<open>2\<^sup>2\<^sup>8\<close> plus its prefix, so strings and table sizes in round trips are below \<open>2\<^sup>2\<^sup>8\<close>;
  stream identifiers have 31 bits; a fragment for \<open>HpackDecoder3\<close> is at most 32768 bytes; a frame is within the limit
  of its decoder, by default 16384 bytes.

  \<^bold>\<open>Not modelled.\<close> Debug output, memory estimates and NetLog conversions have no effect on what is decoded. The
  arena behind \<open>SpdyHeaderBlock\<close> is left out, since its strings live as long as the block. The SPDY framer
  (\<^verbatim>\<open>spdy/spdy_framer.cc\<close>) compresses with zlib, which is not part of the sources, and with its adapter
  \<^verbatim>\<open>http2_frame_decoder_adapter.cc\<close> calls back into the session for most decisions; \<^verbatim>\<open>hpack_decoder.cc\<close> and
  \<^verbatim>\<open>hpack_decoder2.cc\<close> are the predecessors of \<open>HpackDecoder3\<close>. The rest of the network stack (sessions, sockets,
  QUIC, DNS, caches, certificates, cookies, URL requests) is asynchronous I/O around third-party libraries
  or has no part in the HTTP/2 wire layer.
\<close>

section \<open>Header lists over frames\<close>

text \<open>
  The sender of a header block, as RFC 7540 asks for: the block is cut into chunks of at most \<open>n\<close> bytes,
  the first goes into a HEADERS frame and the others into CONTINUATION frames on the same stream.
\<close>

function chunks :: "nat \<Rightarrow> bytes \<Rightarrow> bytes list" where
  "chunks n xs = (if n = 0 \<or> length xs \<le> n then [xs] else take n xs # chunks n (drop n xs))"
  by pat_completeness auto
termination by (relation "measure (\<lambda>(n, xs). length xs)") auto

declare chunks.simps [simp del]

fun continuation_frames :: "u32 \<Rightarrow> bytes list \<Rightarrow> http2_frame list" where
  "continuation_frames stream_id [] = []"
| "continuation_frames stream_id (d # ds) =
     (if ds = [] then FLAG_END_HEADERS else 0, stream_id, ContinuationBody d) # continuation_frames stream_id ds"

definition headers_flags :: "bytes option \<Rightarrow> Http2PriorityFields option \<Rightarrow> bytes list \<Rightarrow> byte" where
  "headers_flags pad prio ds =
     (if pad = None then 0 else FLAG_PADDED) OR (if prio = None then 0 else FLAG_PRIORITY) OR
     (if ds = [] then FLAG_END_HEADERS else 0)"

definition header_block_frames ::
  "u32 \<Rightarrow> bytes option \<Rightarrow> Http2PriorityFields option \<Rightarrow> nat \<Rightarrow> bytes \<Rightarrow> http2_frame list" where
  "header_block_frames stream_id pad prio n block =
     (let ds = tl (chunks n block)
      in (headers_flags pad prio ds, stream_id, HeadersBody pad prio (hd (chunks n block))) # continuation_frames stream_id ds)"

text \<open>The receiver: the fragments that the frame decoder hands over, to be given to the HPACK decoder.\<close>

definition fragments_of :: "frame_event list \<Rightarrow> bytes list" where
  "fragments_of es = concat (map (\<lambda>e. case e of OnHpackFragment d \<Rightarrow> [d] | _ \<Rightarrow> []) es)"

definition over_frames ::
  "(bytes \<Rightarrow> bytes list) \<Rightarrow> Http2FrameDecoder \<Rightarrow> u32 \<Rightarrow> bytes option \<Rightarrow> Http2PriorityFields option \<Rightarrow> nat \<Rightarrow> bytes \<Rightarrow> bytes list" where
  "over_frames segments fd stream_id pad prio n block =
     (case DecodeSegments accept_all fd (segments (concat (map http2_frame_bytes (header_block_frames stream_id pad prio n block)))) of
        None \<Rightarrow> []
      | Some fd \<Rightarrow> fragments_of (fds_listener (fd_frame_decoder_state fd)))"

lemma chunks_props:
  "0 < n \<Longrightarrow> concat (chunks n xs) = xs \<and> chunks n xs \<noteq> [] \<and> list_all (\<lambda>d. length d \<le> n) (chunks n xs)"
proof (induction n xs rule: chunks.induct)
  case (1 n xs)
  then show ?case by (cases "length xs \<le> n") (subst (1 2 3) chunks.simps, simp)+
qed

lemma fragments_of_simps [simp]:
  "fragments_of [] = []" "fragments_of (es @ fs) = fragments_of es @ fragments_of fs"
  "fragments_of (e # es) = (case e of OnHpackFragment d \<Rightarrow> [d] | _ \<Rightarrow> []) @ fragments_of es"
  by (simp_all add: fragments_of_def)

lemma fragments_of_bytes: "concat (fragments_of (map (\<lambda>b. OnHpackFragment [b]) d)) = d"
  by (induction d) simp_all

lemma no_fragments:
  "(\<And>b. (case ev b of OnHpackFragment d \<Rightarrow> [d] | _ \<Rightarrow> []) = []) \<Longrightarrow> fragments_of (map ev bs) = []"
  by (induction bs) simp_all

lemma fragments_expand: "concat (fragments_of (expand es)) = concat (fragments_of es)"
proof (induction es)
  case (Cons e es)
  have "concat (fragments_of (expand1 e)) = concat (case e of OnHpackFragment d \<Rightarrow> [d] | _ \<Rightarrow> [])"
    by (cases e) (simp_all add: fragments_of_bytes no_fragments)
  with Cons show ?case by simp
qed simp

lemma continuation_fragments:
  "concat (fragments_of (concat (map http2_frame_events (continuation_frames sid ds)))) = concat ds"
  by (induction ds) (simp_all add: http2_frame_events_def the_body_def)

lemma headers_fragments:
  "fragments_of (http2_frame_events (flags, sid, HeadersBody pad prio d)) = [d]"
  by (simp add: http2_frame_events_def the_body_def pad_events_def split: option.split)

definition prio_ok :: "Http2PriorityFields option \<Rightarrow> bool" where
  "prio_ok prio \<longleftrightarrow> (case prio of None \<Rightarrow> True | Some f \<Rightarrow> fits_Priority f)"

lemma continuation_frames_ok:
  assumes "fits_31 sid" "n \<le> limit" "n < 2 ^ 24"
  shows "list_all (\<lambda>d. length d \<le> n) ds \<Longrightarrow> list_all (http2_frame_ok limit) (continuation_frames sid ds)"
  using assms by (induction ds) (simp_all add: http2_frame_ok_def the_header_def the_body_def header_def)

lemma headers_flags_ok:
  "IsPadded (header k t (headers_flags pad prio ds) sid) \<longleftrightarrow> pad \<noteq> None"
  "HasPriority (header k t (headers_flags pad prio ds) sid) \<longleftrightarrow> prio \<noteq> None"
  by (simp_all add: header_def headers_flags_def IsPadded_def HasPriority_def FLAG_PADDED_def FLAG_PRIORITY_def FLAG_END_HEADERS_def)

lemma headers_frame_length:
  assumes "\<And>z. pad = Some z \<Longrightarrow> length z < 256" "prio_ok prio"
  shows "length (body_bytes (HeadersBody pad prio d)) \<le> length d + 261"
proof -
  have "length (priority_bytes prio) \<le> 5"
    using assms(2) priority.length_enc by (auto simp: priority_bytes_def prio_ok_def split: option.splits)
  with assms(1) show ?thesis by (fastforce simp: padded_def split: option.splits)
qed

lemma header_block_ok:
  assumes "fits_31 sid" "\<And>z. pad = Some z \<Longrightarrow> length z < 256" "prio_ok prio" "0 < n" "n + 261 \<le> limit" "n + 261 < 2 ^ 24"
  shows "list_all (http2_frame_ok limit) (header_block_frames sid pad prio n block)"
proof -
  let ?d = "hd (chunks n block)" and ?ds = "tl (chunks n block)"
  have "chunks n block = ?d # ?ds" using chunks_props[OF assms(4)] by (metis list.collapse)
  then have l: "length ?d \<le> n" "list_all (\<lambda>d. length d \<le> n) ?ds" using chunks_props[OF assms(4), of block] by (metis list.pred_inject(2))+
  have ok: "body_ok (the_header (headers_flags pad prio ?ds, sid, HeadersBody pad prio ?d)) (HeadersBody pad prio ?d)"
    using assms(2,3) headers_flags_ok
    by (auto simp: the_header_def pad_ok_def prio_ok_def split: option.splits)
  have "length (body_bytes (HeadersBody pad prio ?d)) \<le> n + 261" using headers_frame_length[where pad = pad and d = ?d, OF assms(2,3)] l(1) by linarith
  with ok assms(1,5,6) have "http2_frame_ok limit (headers_flags pad prio ?ds, sid, HeadersBody pad prio ?d)"
    by (simp add: http2_frame_ok_def the_body_def) (simp add: the_header_def header_def)
  moreover have "n \<le> limit" "n < 2 ^ 24" using assms(5,6) by simp_all
  ultimately show ?thesis using continuation_frames_ok[OF assms(1) _ _ l(2)] by (simp add: header_block_frames_def Let_def)
qed

lemma header_block_fragments:
  "0 < n \<Longrightarrow> concat (fragments_of (concat (map http2_frame_events (header_block_frames sid pad prio n block)))) = block"
  using chunks_props[of n block]
  by (cases "chunks n block") (auto simp: header_block_frames_def Let_def headers_fragments continuation_fragments)

lemma over_frames_whole:
  assumes "\<And>xs. concat (segments xs) = xs" "fd_fresh fd" "fits_31 sid" "\<And>z. pad = Some z \<Longrightarrow> length z < 256" "prio_ok prio"
    "0 < n" "n + 261 \<le> fd_maximum_payload_size fd" "n + 261 < 2 ^ 24"
  shows "concat (over_frames segments fd sid pad prio n block) = block"
proof -
  from built_stream_calls[OF assms(2) header_block_ok[OF assms(3-8)] assms(1)] obtain fd' where
    fd': "DecodeSegments accept_all fd (segments (concat (map http2_frame_bytes (header_block_frames sid pad prio n block)))) = Some fd'"
      "expand (fds_listener (fd_frame_decoder_state fd')) = expand (concat (map http2_frame_events (header_block_frames sid pad prio n block)))"
    by blast
  have "concat (fragments_of (fds_listener (fd_frame_decoder_state fd'))) = block"
    using arg_cong[OF fd'(2), of "\<lambda>es. concat (fragments_of es)"] header_block_fragments[OF assms(6)]
    by (simp only: fragments_expand)
  with fd'(1) show ?thesis by (simp add: over_frames_def)
qed

text \<open>
  C1: Header lists cross a connection. The encoder turns each list into a block, the sender cuts the block
  into a HEADERS frame, padded or not, with priority or not, and CONTINUATION frames, the transport
  cuts the frames into segments anywhere, the frame decoder takes them apart, and what it hands over in
  \<open>OnHpackFragment\<close>, byte run by byte run, is given to the HPACK decoder: over any number of blocks
  and changes of the table size, no block is refused and the lists that come out are those that went in.
\<close>

theorem header_lists_over_frames:
  assumes "\<And>xs. concat (segments xs) = xs" "fd_fresh fd" "fits_31 stream_id" "\<And>z. pad = Some z \<Longrightarrow> length z < 256" "prio_ok prio"
    "0 < n" "n + 261 \<le> fd_maximum_payload_size fd" "n + 261 < 2 ^ 24" "m < 2 ^ 28"
    and "list_all (\<lambda>(ns, hs). list_all (\<lambda>n. n < 2 ^ 28) ns \<and> list_all (\<lambda>(name, val). length name \<le> m \<and> length val \<le> m) hs) blocks"
    and "en = SetIndexingPolicy f (HpackEncoder_init hpack_huffman_table) \<or> en = DisableCompression (HpackEncoder_init hpack_huffman_table)"
  shows "\<exists>en' hp'. conversation (over_frames segments fd stream_id pad prio n) blocks en (Http2HpackDecoder_init m) = Some (True, en', hp') \<and>
    map untyped (log_of hp') =
      concat (map (\<lambda>(ns, hs). OnHeaderListStart # map (\<lambda>(name, val). OnHeader kIndexedHeader name val) hs @ [OnHeaderListEnd]) blocks)"
proof -
  have s: "endpoints_in_step m en (Http2HpackDecoder_init m)" "\<not> en_should_emit_table_size en"
    using assms(11) init_in_step by (auto simp: SetIndexingPolicy_def DisableCompression_def HpackEncoder_init_def)
  have b: "list_all (\<lambda>(ns, hs). list_all (\<lambda>n. n < 2 ^ 28) ns \<and> list_all (rep_small m) hs) blocks"
    using assms(9,10) by (fastforce simp: list_all_iff rep_small_def)
  have w: "concat (over_frames segments fd stream_id pad prio n block) = block" for block
    by (rule over_frames_whole[OF assms(1-8)])
  from conversation_in_step[OF w s b] show ?thesis
    by (auto simp: Http2HpackDecoder_init_def HpackDecoderState_init_def)
qed

text \<open>The header \<open>a: b\<close> in chunks of one byte, the frames byte by byte, padded and with priority.\<close>

theorem header_lists_over_frames_witness:
  "\<exists>en' hp'. conversation (over_frames (map (\<lambda>x. [x])) fresh_decoder 1 (Some [0, 0])
         (Some \<lparr>pf_stream_dependency = 3, pf_weight = 16, pf_is_exclusive = True\<rparr>) 1)
       [([64, 4096], [([0x61], [0x62])]), ([], [([0x61], [0x62])])]
       (SetIndexingPolicy (\<lambda>_ _. True) (HpackEncoder_init hpack_huffman_table)) (Http2HpackDecoder_init 100) = Some (True, en', hp') \<and>
     map untyped (log_of hp') =
       [OnHeaderListStart, OnHeader kIndexedHeader [0x61] [0x62], OnHeaderListEnd,
        OnHeaderListStart, OnHeader kIndexedHeader [0x61] [0x62], OnHeaderListEnd]"
proof -
  have c: "concat (map (\<lambda>x. [x]) xs) = xs" for xs :: bytes by (induction xs) auto
  show ?thesis
    using header_lists_over_frames[of "map (\<lambda>x. [x])" fresh_decoder 1 "Some [0, 0]"
        "Some \<lparr>pf_stream_dependency = 3, pf_weight = 16, pf_is_exclusive = True\<rparr>" 1 100
        "[([64, 4096], [([0x61], [0x62])]), ([], [([0x61], [0x62])])]"
        "SetIndexingPolicy (\<lambda>_ _. True) (HpackEncoder_init hpack_huffman_table)" "\<lambda>_ _. True", OF c]
    by (simp add: fits_31_def prio_ok_def fits_Priority_def del: conversation.simps)
qed

end
